(* ===== verification/Prelude.thy ===== *)
theory Prelude
  imports Main "HOL-Library.AList"
begin

text \<open>
  What every component shares: JavaScript's \<open>Map\<close> as an association list in insertion
  order, actions that may throw (a state transformer whose result is an error or a value),
  the errors the source throws, and the generic lemmas about both.
\<close>

section \<open>Automation\<close>

named_theorems jmap_simps \<open>laws of the insertion-ordered map\<close>
named_theorems act_simps \<open>laws of the actions\<close>

section \<open>JavaScript's Map: an association list in insertion order\<close>

text \<open>
  \<open>Map.prototype.set\<close> overwrites the value of an existing key in place and appends a new
  key at the end; \<open>delete\<close> removes the key; iteration follows insertion order. These are
  \<open>AList.update\<close> and \<open>AList.delete\<close> on a list with distinct keys.
\<close>

type_synonym ('k, 'v) jmap = "('k \<times> 'v) list"

abbreviation jget :: "('k, 'v) jmap \<Rightarrow> 'k \<Rightarrow> 'v option" where
  "jget m k \<equiv> map_of m k"

abbreviation jset :: "'k \<Rightarrow> 'v \<Rightarrow> ('k, 'v) jmap \<Rightarrow> ('k, 'v) jmap" where
  "jset k v m \<equiv> AList.update k v m"

abbreviation jdel :: "'k \<Rightarrow> ('k, 'v) jmap \<Rightarrow> ('k, 'v) jmap" where
  "jdel k m \<equiv> AList.delete k m"

definition jhas :: "('k, 'v) jmap \<Rightarrow> 'k \<Rightarrow> bool" where
  "jhas m k \<longleftrightarrow> jget m k \<noteq> None"

definition jvalues :: "('k, 'v) jmap \<Rightarrow> 'v list" where
  "jvalues m = map snd m"

definition jmap_ok :: "('k, 'v) jmap \<Rightarrow> bool" where
  "jmap_ok m \<longleftrightarrow> distinct (map fst m)"

lemma jget_jset [simp, jmap_simps]: "jget (jset k v m) k' = (if k' = k then Some v else jget m k')"
  by (simp add: update_conv')

lemma jget_jdel [simp, jmap_simps]: "jget (jdel k m) k' = (if k' = k then None else jget m k')"
  by (simp add: delete_conv')

lemma jmap_ok_empty [simp, intro]: "jmap_ok []"
  by (simp add: jmap_ok_def)

lemma jmap_ok_jset [simp, intro]: "jmap_ok m \<Longrightarrow> jmap_ok (jset k v m)"
  by (simp add: jmap_ok_def distinct_update)

lemma jmap_ok_jdel [simp, intro]: "jmap_ok m \<Longrightarrow> jmap_ok (jdel k m)"
  by (simp add: jmap_ok_def distinct_delete)

lemma jset_fresh: "jget m k = None \<Longrightarrow> jset k v m = m @ [(k, v)]"
  by (induction m) (auto split: if_splits)

lemma jset_same_keys: "k \<notin> fst ` set m \<Longrightarrow> map (\<lambda>(k', v'). (k', if k' = k then v else v')) m = m"
  by (induction m) auto

lemma jset_present:
  "jmap_ok m \<Longrightarrow> k \<in> fst ` set m \<Longrightarrow> jset k v m = map (\<lambda>(k', v'). (k', if k' = k then v else v')) m"
  by (induction m) (auto simp: jmap_ok_def jset_same_keys)

lemma length_jset: "length (jset k v m) = (if jhas m k then length m else Suc (length m))"
  by (induction m) (auto simp: jhas_def)

lemma keys_jset: "map fst (jset k v m) = (if jhas m k then map fst m else map fst m @ [k])"
  by (induction m) (auto simp: jhas_def)

lemma jset_nth:
  "jmap_ok m \<Longrightarrow> i < length m \<Longrightarrow> jset (fst (m ! i)) v m = m[i := (fst (m ! i), v)]"
proof (induction m arbitrary: i)
  case Nil
  then show ?case by simp
next
  case (Cons p m)
  show ?case
  proof (cases i)
    case 0
    then show ?thesis by (cases p) simp
  next
    case (Suc j)
    with Cons.prems have "fst (m ! j) \<in> fst ` set m" by (intro imageI nth_mem) simp
    moreover from Cons.prems have "fst p \<notin> fst ` set m" by (simp add: jmap_ok_def)
    ultimately have "fst (m ! j) \<noteq> fst p" by metis
    with Suc Cons show ?thesis by (cases p) (simp add: jmap_ok_def)
  qed
qed

lemma jget_in_set: "jget m k = Some v \<Longrightarrow> (k, v) \<in> set m"
  by (rule map_of_SomeD)

lemma jget_iff_in_set: "jmap_ok m \<Longrightarrow> jget m k = Some v \<longleftrightarrow> (k, v) \<in> set m"
  by (simp add: jmap_ok_def)

section \<open>Errors and actions\<close>

text \<open>
  What the source throws, one constructor per kind of \<open>throw\<close> (and per kind of rejection
  of a driver the source calls).
\<close>

datatype js_error =
    UnknownOrder string                \<comment> \<open>\<open>Unknown order\<close> of the order stores and the saga\<close>
  | UnknownBusiness string             \<comment> \<open>\<open>Unknown business\<close> of the business stores\<close>
  | RedisReplyError string             \<comment> \<open>an error reply of Redis or of a script\<close>
  | UnsupportedRespType char           \<comment> \<open>\<open>tryParseReply\<close> on an unknown type byte\<close>
  | UnknownScript                      \<comment> \<open>\<open>InMemoryRedisClient.eval\<close> on any other script\<close>
  | PgError string                     \<comment> \<open>a violated constraint of the database schema\<close>
  | DriverError string                 \<comment> \<open>a failed connection, a closed socket\<close>
  | NeverSettles                       \<comment> \<open>an awaited promise that never settles: nothing after it runs\<close>

text \<open>
  An asynchronous method that may throw: it takes the state and gives the error or the value,
  and the state as it stands then (a throw does not undo the effects before it).
\<close>

type_synonym ('s, 'a) act = "'s \<Rightarrow> (js_error + 'a) \<times> 's"

definition ret :: "'a \<Rightarrow> ('s, 'a) act" where
  "ret a = (\<lambda>s. (Inr a, s))"

definition throw :: "js_error \<Rightarrow> ('s, 'a) act" where
  "throw e = (\<lambda>s. (Inl e, s))"

definition bind :: "('s, 'a) act \<Rightarrow> ('a \<Rightarrow> ('s, 'b) act) \<Rightarrow> ('s, 'b) act" where
  "bind m f = (\<lambda>s. case m s of (Inl e, s') \<Rightarrow> (Inl e, s') | (Inr a, s') \<Rightarrow> f a s')"

definition update_state :: "('s \<Rightarrow> 's) \<Rightarrow> ('s, unit) act" where
  "update_state f = (\<lambda>s. (Inr (), f s))"

definition read_state :: "('s \<Rightarrow> 'a) \<Rightarrow> ('s, 'a) act" where
  "read_state f = (\<lambda>s. (Inr (f s), s))"

text \<open>\<open>for (const x of xs) await f(x)\<close>: stops at the first throw.\<close>

fun for_each :: "('x \<Rightarrow> ('s, unit) act) \<Rightarrow> 'x list \<Rightarrow> ('s, unit) act" where
  "for_each f [] = ret ()"
| "for_each f (x # xs) = bind (f x) (\<lambda>_. for_each f xs)"

text \<open>\<open>Promise.all(xs.map(f))\<close>, in order: the results, or the first rejection.\<close>

fun map_act :: "('x \<Rightarrow> ('s, 'a) act) \<Rightarrow> 'x list \<Rightarrow> ('s, 'a list) act" where
  "map_act f [] = ret []"
| "map_act f (x # xs) = bind (f x) (\<lambda>y. bind (map_act f xs) (\<lambda>ys. ret (y # ys)))"

text \<open>An action of one component, run on its part of a larger state.\<close>

definition zoom :: "('w \<Rightarrow> 's) \<Rightarrow> ('s \<Rightarrow> 'w \<Rightarrow> 'w) \<Rightarrow> ('s, 'a) act \<Rightarrow> ('w, 'a) act" where
  "zoom g p m = (\<lambda>w. case m (g w) of (r, s) \<Rightarrow> (r, p s w))"

lemma ret_apply [simp, act_simps]: "ret a s = (Inr a, s)"
  by (simp add: ret_def)

lemma throw_apply [simp, act_simps]: "throw e s = (Inl e, s)"
  by (simp add: throw_def)

lemma update_state_apply [simp, act_simps]: "update_state f s = (Inr (), f s)"
  by (simp add: update_state_def)

lemma read_state_apply [simp, act_simps]: "read_state f s = (Inr (f s), s)"
  by (simp add: read_state_def)

lemma bind_Inr [act_simps]: "m s = (Inr a, s') \<Longrightarrow> bind m f s = f a s'"
  by (simp add: bind_def)

lemma bind_Inl [act_simps]: "m s = (Inl e, s') \<Longrightarrow> bind m f s = (Inl e, s')"
  by (simp add: bind_def)

lemma bind_ret [simp, act_simps]: "bind (ret a) f = f a"
  by (simp add: bind_def fun_eq_iff)

lemma bind_throw [simp, act_simps]: "bind (throw e) f = throw e"
  by (simp add: bind_def fun_eq_iff)

lemma bind_Pair [simp, act_simps]: "bind (Pair (Inr a)) f = f a" "bind (Pair (Inl e)) g = Pair (Inl e)"
  by (simp_all add: bind_def fun_eq_iff)

lemma bind_update [simp, act_simps]: "bind (update_state g) f s = f () (g s)"
  by (simp add: bind_def)

lemma bind_read [simp, act_simps]: "bind (read_state g) f s = f (g s) s"
  by (simp add: bind_def)

lemma bind_ret_right [simp]: "bind m ret = m"
  by (simp add: bind_def fun_eq_iff split: prod.splits sum.splits)

lemma bind_assoc: "bind (bind m f) g = bind m (\<lambda>a. bind (f a) g)"
  by (simp add: bind_def fun_eq_iff split: prod.splits sum.splits)

lemma bind_apply:
  "bind m f s = (case m s of (Inl e, s') \<Rightarrow> (Inl e, s') | (Inr a, s') \<Rightarrow> f a s')"
  by (simp add: bind_def)

lemma bind_InrE:
  assumes "bind m f s = (Inr b, s')"
  obtains a s1 where "m s = (Inr a, s1)" and "f a s1 = (Inr b, s')"
  using assms by (auto simp: bind_def split: prod.splits sum.splits)

lemma for_each_append: "for_each f (xs @ ys) = bind (for_each f xs) (\<lambda>_. for_each f ys)"
  by (induction xs) (simp_all add: bind_assoc)

text \<open>
  The loop rule: an invariant indexed by what has been processed is carried to the end, and
  the loop does not throw, when no iteration does.
\<close>

lemma for_each_invariant:
  assumes "I [] s"
    and "\<And>done x rest s. xs = done @ x # rest \<Longrightarrow> I done s
          \<Longrightarrow> \<exists>s'. f x s = (Inr (), s') \<and> I (done @ [x]) s'"
  shows "\<exists>s'. for_each f xs s = (Inr (), s') \<and> I xs s'"
proof -
  have "\<exists>s'. for_each f ys s = (Inr (), s') \<and> I xs s'" if "xs = zs @ ys" "I zs s" for zs ys s
    using that
  proof (induction ys arbitrary: zs s)
    case Nil
    then show ?case by simp
  next
    case (Cons y ys)
    from assms(2) [OF Cons.prems] obtain s1 where s1: "f y s = (Inr (), s1)" "I (zs @ [y]) s1"
      by blast
    from Cons.IH [of "zs @ [y]" s1] Cons.prems s1 show ?case by (simp add: bind_Inr)
  qed
  from this [of "[]" xs s] assms(1) show ?thesis by simp
qed

lemma zoom_apply: "zoom g p m w = (fst (m (g w)), p (snd (m (g w))) w)"
  by (simp add: zoom_def split: prod.splits)

end
