(* ===== verification/Js_Value.thy ===== *)
theory Js_Value
  imports Prelude
begin

text \<open>
  The values of the language the source computes with: numbers (integers, the infinities and
  NaN), strings (the list of their UTF-8 bytes), the string operations the source calls, and
  JSON values. Numbers are the integer ones: quantities, amounts, times and offsets of the
  source are integers below \<open>2^53\<close>, where a double is exact. A string that is no decimal
  integer reads as NaN; fractions, exponents and hexadecimal numerals are outside this part of
  the model.
\<close>

section \<open>Numbers\<close>

datatype jsnum = Num int | PosInf | NegInf | NaN

fun js_add :: "jsnum \<Rightarrow> jsnum \<Rightarrow> jsnum" where
  "js_add (Num a) (Num b) = Num (a + b)"
| "js_add NaN _ = NaN"
| "js_add _ NaN = NaN"
| "js_add PosInf NegInf = NaN"
| "js_add NegInf PosInf = NaN"
| "js_add PosInf _ = PosInf"
| "js_add _ PosInf = PosInf"
| "js_add NegInf _ = NegInf"
| "js_add _ NegInf = NegInf"

fun js_neg :: "jsnum \<Rightarrow> jsnum" where
  "js_neg (Num a) = Num (- a)"
| "js_neg PosInf = NegInf"
| "js_neg NegInf = PosInf"
| "js_neg NaN = NaN"

definition js_sub :: "jsnum \<Rightarrow> jsnum \<Rightarrow> jsnum" where
  "js_sub a b = js_add a (js_neg b)"

fun js_lt :: "jsnum \<Rightarrow> jsnum \<Rightarrow> bool" where
  "js_lt (Num a) (Num b) = (a < b)"
| "js_lt NaN _ = False"
| "js_lt _ NaN = False"
| "js_lt NegInf b = (b \<noteq> NegInf)"
| "js_lt (Num _) b = (b = PosInf)"
| "js_lt PosInf _ = False"

definition js_le :: "jsnum \<Rightarrow> jsnum \<Rightarrow> bool" where
  "js_le a b \<longleftrightarrow> js_lt a b \<or> (a = b \<and> a \<noteq> NaN)"

fun is_finite :: "jsnum \<Rightarrow> bool" where
  "is_finite (Num _) = True"
| "is_finite _ = False"

lemma js_sub_Num [simp]: "js_sub (Num a) (Num b) = Num (a - b)"
  by (simp add: js_sub_def)

lemma js_le_Num [simp]: "js_le (Num a) (Num b) = (a \<le> b)"
  by (auto simp: js_le_def)

lemma js_le_NaN [simp]: "\<not> js_le NaN b" "\<not> js_le b NaN"
  by (cases b; simp add: js_le_def)+

section \<open>Digits\<close>

definition digit_char :: "nat \<Rightarrow> char" where
  "digit_char d = char_of (48 + d)"

definition char_digit :: "char \<Rightarrow> nat option" where
  "char_digit c = (let n = of_char c :: nat in if 48 \<le> n \<and> n \<le> 57 then Some (n - 48) else None)"

lemma char_digit_digit_char [simp]: "d < 10 \<Longrightarrow> char_digit (digit_char d) = Some d"
  by (simp add: char_digit_def digit_char_def)

fun nat_string :: "nat \<Rightarrow> string" where
  "nat_string n = (if n < 10 then [digit_char n] else nat_string (n div 10) @ [digit_char (n mod 10)])"

declare nat_string.simps [simp del]

fun digits_value :: "nat \<Rightarrow> string \<Rightarrow> nat option" where
  "digits_value a [] = Some a"
| "digits_value a (c # cs) =
     (case char_digit c of None \<Rightarrow> None | Some d \<Rightarrow> digits_value (10 * a + d) cs)"

lemma digits_value_append:
  "digits_value a (xs @ ys) = (case digits_value a xs of None \<Rightarrow> None | Some b \<Rightarrow> digits_value b ys)"
  by (induction xs arbitrary: a) (auto split: option.splits)

lemma digits_value_nat_string [simp]: "digits_value 0 (nat_string n) = Some n"
proof (induction n rule: nat_string.induct)
  case (1 n)
  show ?case
  proof (cases "n < 10")
    case True
    then show ?thesis by (subst nat_string.simps) simp
  next
    case False
    with 1 show ?thesis by (subst nat_string.simps) (simp add: digits_value_append)
  qed
qed

lemma nat_string_nonempty [simp]: "nat_string n \<noteq> []"
  by (subst nat_string.simps) simp

lemma char_digit_Some_iff: "(\<exists>d. char_digit c = Some d) \<longleftrightarrow> (48 \<le> (of_char c :: nat) \<and> of_char c \<le> (57::nat))"
  by (simp add: char_digit_def Let_def)

lemma digits_value_digits: "digits_value a s = Some n \<Longrightarrow> c \<in> set s \<Longrightarrow> \<exists>d. char_digit c = Some d"
  by (induction s arbitrary: a) (auto split: option.splits)

lemma nat_string_digits: "c \<in> set (nat_string n) \<Longrightarrow> 48 \<le> (of_char c :: nat) \<and> of_char c \<le> (57::nat)"
  using digits_value_digits [OF digits_value_nat_string] char_digit_Some_iff by blast

lemma nat_string_inject [simp]: "nat_string m = nat_string n \<longleftrightarrow> m = n"
proof
  assume "nat_string m = nat_string n"
  then have "digits_value 0 (nat_string m) = digits_value 0 (nat_string n)" by simp
  then show "m = n" by simp
qed simp

lemma digits_free: "(of_char c :: nat) < 48 \<or> (57::nat) < of_char c \<Longrightarrow> c \<notin> set (nat_string n)"
  using nat_string_digits by fastforce

text \<open>The value of a hexadecimal digit.\<close>

definition hex_value :: "char \<Rightarrow> nat option" where
  "hex_value c =
     (let n = of_char c :: nat in
      if 48 \<le> n \<and> n \<le> 57 then Some (n - 48)
      else if 65 \<le> n \<and> n \<le> 70 then Some (n - 55)
      else if 97 \<le> n \<and> n \<le> 102 then Some (n - 87)
      else None)"

section \<open>String(n) and Number(s)\<close>

definition int_string :: "int \<Rightarrow> string" where
  "int_string n = (if n < 0 then CHR ''-'' # nat_string (nat (- n)) else nat_string (nat n))"

fun js_String :: "jsnum \<Rightarrow> string" where
  "js_String (Num n) = int_string n"
| "js_String PosInf = ''Infinity''"
| "js_String NegInf = ''-Infinity''"
| "js_String NaN = ''NaN''"

definition is_space :: "char \<Rightarrow> bool" where
  "is_space c \<longleftrightarrow> (let n = of_char c :: nat in n = 32 \<or> (9 \<le> n \<and> n \<le> 13))"

definition js_trim :: "string \<Rightarrow> string" where
  "js_trim s = rev (dropWhile is_space (rev (dropWhile is_space s)))"

definition unsigned_number :: "string \<Rightarrow> jsnum" where
  "unsigned_number s =
     (if s = ''Infinity'' then PosInf
      else if s = [] then NaN
      else case digits_value 0 s of None \<Rightarrow> NaN | Some n \<Rightarrow> Num (int n))"

definition js_Number :: "string \<Rightarrow> jsnum" where
  "js_Number s =
     (case js_trim s of
        [] \<Rightarrow> Num 0
      | c # cs \<Rightarrow>
          (if c = CHR ''-'' then js_neg (unsigned_number cs)
           else if c = CHR ''+'' then unsigned_number cs
           else unsigned_number (c # cs)))"

lemma nat_string_not_space: "c \<in> set (nat_string n) \<Longrightarrow> \<not> is_space c"
  using nat_string_digits [of c n] by (auto simp: is_space_def Let_def)

lemma dropWhile_no_space: "\<forall>c \<in> set t. \<not> is_space c \<Longrightarrow> dropWhile is_space t = t"
  by (cases t) auto

lemma trim_no_space: "\<forall>c \<in> set s. \<not> is_space c \<Longrightarrow> js_trim s = s"
  by (simp add: js_trim_def dropWhile_no_space)

lemma nat_string_not_Infinity: "nat_string n \<noteq> ''Infinity''"
  using nat_string_digits [of "CHR ''I''" n] by auto

lemma unsigned_number_nat_string [simp]: "unsigned_number (nat_string n) = Num (int n)"
  by (simp add: unsigned_number_def nat_string_not_Infinity)

lemma hd_nat_string: "nat_string n = c # cs \<Longrightarrow> c \<noteq> CHR ''-'' \<and> c \<noteq> CHR ''+''"
  using nat_string_digits [of c n] by auto

lemma js_Number_nat_string: "js_Number (nat_string n) = Num (int n)"
proof -
  obtain c cs where s: "nat_string n = c # cs"
    using nat_string_nonempty by (cases "nat_string n") auto
  have t: "js_trim (nat_string n) = nat_string n"
    using nat_string_not_space by (intro trim_no_space) blast
  show ?thesis
    using hd_nat_string [OF s] unsigned_number_nat_string [of n, unfolded s]
    by (simp add: js_Number_def t [unfolded s] s)
qed

lemma js_Number_minus: "js_Number (CHR ''-'' # nat_string n) = Num (- int n)"
proof -
  have "js_trim (CHR ''-'' # nat_string n) = CHR ''-'' # nat_string n"
    using nat_string_not_space by (intro trim_no_space) (auto simp: is_space_def)
  then show ?thesis by (simp add: js_Number_def)
qed

text \<open>Writing a number and reading it back gives the number.\<close>

lemma js_Number_String [simp]: "js_Number (js_String x) = x"
proof (cases x)
  case (Num n)
  then show ?thesis
    by (auto simp: int_string_def js_Number_nat_string js_Number_minus)
qed (simp_all add: js_Number_def js_trim_def is_space_def unsigned_number_def char_digit_def)

lemma js_Number_int_string [simp]: "js_Number (int_string n) = Num n"
  using js_Number_String [of "Num n"] by simp

lemma js_String_inject [simp]: "js_String x = js_String y \<longleftrightarrow> x = y"
  by (metis js_Number_String)

section \<open>String operations\<close>

text \<open>\<open>s.split(c)\<close> for a one-character separator, and \<open>xs.join(sep)\<close>.\<close>

fun js_split :: "char \<Rightarrow> string \<Rightarrow> string list" where
  "js_split c [] = [[]]"
| "js_split c (x # xs) =
     (if x = c then [] # js_split c xs
      else (case js_split c xs of [] \<Rightarrow> [[x]] | y # ys \<Rightarrow> (x # y) # ys))"

fun js_join :: "string \<Rightarrow> string list \<Rightarrow> string" where
  "js_join sep [] = []"
| "js_join sep [x] = x"
| "js_join sep (x # y # zs) = x @ sep @ js_join sep (y # zs)"

text \<open>\<open>s.indexOf(c)\<close>: \<open>None\<close> stands for -1.\<close>

fun index_of :: "char \<Rightarrow> string \<Rightarrow> nat option" where
  "index_of c [] = None"
| "index_of c (x # xs) = (if x = c then Some 0 else map_option Suc (index_of c xs))"

lemma js_split_nonempty [simp]: "js_split c xs \<noteq> []"
  by (induction xs) (auto split: list.splits)

lemma js_split_sep: "c \<notin> set xs \<Longrightarrow> js_split c (xs @ c # ys) = xs # js_split c ys"
  by (induction xs) auto

lemma js_split_none: "c \<notin> set xs \<Longrightarrow> js_split c xs = [xs]"
  by (induction xs) auto

lemma js_split_no_sep: "x \<in> set (js_split c xs) \<Longrightarrow> c \<notin> set x"
  by (induction xs arbitrary: x) (auto split: if_splits list.splits)

lemma js_join_split: "js_join [c] (js_split c xs) = xs"
proof (induction xs)
  case Nil
  then show ?case by simp
next
  case (Cons x xs)
  obtain y ys where "js_split c xs = y # ys"
    using js_split_nonempty by (cases "js_split c xs") auto
  with Cons show ?case by (cases ys) auto
qed

lemma js_split_join:
  "xs \<noteq> [] \<Longrightarrow> \<forall>x \<in> set xs. c \<notin> set x \<Longrightarrow> js_split c (js_join [c] xs) = xs"
  by (induction "[c]" xs rule: js_join.induct) (auto simp: js_split_none js_split_sep)

lemma index_of_append: "c \<notin> set xs \<Longrightarrow> index_of c (xs @ c # ys) = Some (length xs)"
  by (induction xs) auto

lemma index_of_None: "index_of c xs = None \<longleftrightarrow> c \<notin> set xs"
  by (induction xs) auto

lemma index_of_Some:
  "index_of c xs = Some i \<Longrightarrow> i < length xs \<and> xs ! i = c \<and> c \<notin> set (take i xs)"
  by (induction xs arbitrary: i) (auto split: if_splits)

text \<open>Two strings joined by a separator that does not occur in the left parts are equal only
  part by part.\<close>

lemma sep_inject:
  fixes c :: char
  assumes "c \<notin> set a" and "c \<notin> set a'" and "a @ c # b = a' @ c # b'"
  shows "a = a' \<and> b = b'"
proof -
  have "index_of c (a @ c # b) = index_of c (a' @ c # b')" using assms(3) by simp
  then have "length a = length a'" using assms(1,2) by (simp add: index_of_append)
  with assms(3) show ?thesis by simp
qed

section \<open>JSON values\<close>

datatype json =
    JNull
  | JBool bool
  | JNum jsnum
  | JStr string
  | JArr "json list"
  | JObj "(string \<times> json) list"

text \<open>\<open>v?.name\<close>: the value of an own field, \<open>None\<close> for undefined.\<close>

fun json_field :: "json \<Rightarrow> string \<Rightarrow> json option" where
  "json_field (JObj fs) k = jget fs k"
| "json_field _ _ = None"

text \<open>\<open>{...a, ...b}\<close> on the field lists: a later field overwrites an earlier one.\<close>

definition spread :: "(string \<times> json) list \<Rightarrow> (string \<times> json) list \<Rightarrow> (string \<times> json) list" where
  "spread a b = fold (\<lambda>(k, v) m. jset k v m) b a"

lemma jget_spread: "jmap_ok b \<Longrightarrow> jget (spread a b) k = (case jget b k of None \<Rightarrow> jget a k | Some v \<Rightarrow> Some v)"
proof (induction b arbitrary: a)
  case Nil
  then show ?case by (simp add: spread_def)
next
  case (Cons p b)
  obtain k0 v0 where p: "p = (k0, v0)" by (cases p)
  have "jget (spread a (p # b)) k = jget (spread (jset k0 v0 a) b) k" by (simp add: spread_def p)
  also have "\<dots> = (case jget b k of None \<Rightarrow> jget (jset k0 v0 a) k | Some v \<Rightarrow> Some v)"
    using Cons by (simp add: jmap_ok_def)
  also have "\<dots> = (case jget (p # b) k of None \<Rightarrow> jget a k | Some v \<Rightarrow> Some v)"
    using Cons.prems p by (cases "k = k0") (auto simp: jmap_ok_def map_of_eq_None_iff [THEN iffD2] split: option.splits)
  finally show ?case .
qed

end
