(* ===== verification/Resp.thy ===== *)
theory Resp
  imports Js_Value
begin

text \<open>
  \<open>RawRespClient\<close> of \<open>src/lib/redisClient.ts\<close>: the encoding of commands, the parser of RESP2
  replies, and the matching of replies with waiting calls as bytes arrive. A buffer is a list of
  bytes; \<open>toString\<close> of a slice is the slice (text is UTF-8). The parser and the loop of
  \<open>onData\<close> need not end on malformed input: they carry fuel, and \<open>None\<close> is fuel that ran out.
\<close>

section \<open>Buffers\<close>

text \<open>The index an argument of \<open>subarray\<close> or \<open>indexOf\<close> stands for in a buffer of a length.\<close>

definition js_index :: "nat \<Rightarrow> jsnum \<Rightarrow> nat" where
  "js_index len x =
     (case x of
        Num i \<Rightarrow> if i < 0 then nat (int len + i) else min len (nat i)
      | PosInf \<Rightarrow> len
      | _ \<Rightarrow> 0)"

definition subarray :: "string \<Rightarrow> jsnum \<Rightarrow> jsnum \<Rightarrow> string" where
  "subarray buf start stop =
     (let i = js_index (length buf) start; j = js_index (length buf) stop in take (j - i) (drop i buf))"

definition CR :: char where "CR = CHR 0x0D"
definition LF :: char where "LF = CHR 0x0A"
abbreviation CRLF :: string where "CRLF \<equiv> [CR, LF]"

fun find_crlf :: "string \<Rightarrow> nat option" where
  "find_crlf [] = None"
| "find_crlf [c] = None"
| "find_crlf (c # d # cs) = (if c = CR \<and> d = LF then Some 0 else map_option Suc (find_crlf (d # cs)))"

definition indexOf_crlf :: "string \<Rightarrow> jsnum \<Rightarrow> nat option" where
  "indexOf_crlf buf start =
     (let i = js_index (length buf) start in map_option (\<lambda>k. i + k) (find_crlf (drop i buf)))"

text \<open>\<open>String.fromCharCode(buf[offset])\<close>: an index outside the buffer reads as undefined, hence 0.\<close>

definition byte_at :: "string \<Rightarrow> jsnum \<Rightarrow> char" where
  "byte_at buf offset =
     (case offset of
        Num i \<Rightarrow> if 0 \<le> i \<and> i < int (length buf) then buf ! nat i else char_of (0::nat)
      | _ \<Rightarrow> char_of (0::nat))"

section \<open>encodeCommand and tryParseReply\<close>

definition encodeCommand :: "string list \<Rightarrow> string" where
  "encodeCommand args =
     CHR ''*'' # nat_string (length args) @ CRLF @
     concat (map (\<lambda>a. CHR ''$'' # nat_string (length a) @ CRLF @ a @ CRLF) args)"

text \<open>The values a reply can have; an error reply is a value of its own.\<close>

datatype resp_value =
    RNull
  | RStr string
  | RNum jsnum
  | RErr string
  | RArr "resp_value list"

type_synonym 'v parsed = "(js_error + ('v \<times> jsnum) option) option"

fun tryParseReply :: "nat \<Rightarrow> string \<Rightarrow> jsnum \<Rightarrow> resp_value parsed"
  and parse_items :: "nat \<Rightarrow> string \<Rightarrow> jsnum \<Rightarrow> jsnum \<Rightarrow> jsnum \<Rightarrow> resp_value list \<Rightarrow> resp_value list parsed" where
  "tryParseReply 0 buf offset = None"
| "tryParseReply (Suc fuel) buf offset =
     (if js_le (Num (int (length buf))) offset then Some (Inr None)
      else
        let type = byte_at buf offset in
        case indexOf_crlf buf (js_add offset (Num 1)) of
          None \<Rightarrow> Some (Inr None)
        | Some lineEnd \<Rightarrow>
            let line = subarray buf (js_add offset (Num 1)) (Num (int lineEnd));
                start = Num (int lineEnd + 2) in
            if type = CHR ''+'' then Some (Inr (Some (RStr line, js_sub start offset)))
            else if type = CHR ''-'' then Some (Inr (Some (RErr line, js_sub start offset)))
            else if type = CHR '':'' then Some (Inr (Some (RNum (js_Number line), js_sub start offset)))
            else if type = CHR ''$'' then
              (let len = js_Number line in
               if len = Num (- 1) then Some (Inr (Some (RNull, js_sub start offset)))
               else if js_lt (Num (int (length buf))) (js_add (js_add start len) (Num 2)) then Some (Inr None)
               else Some (Inr (Some (RStr (subarray buf start (js_add start len)),
                                     js_sub (js_add (js_add start len) (Num 2)) offset))))
            else if type = CHR ''*'' then
              (let count = js_Number line in
               if count = Num (- 1) then Some (Inr (Some (RNull, js_sub start offset)))
               else
                 (case parse_items fuel buf (Num 0) count start [] of
                    None \<Rightarrow> None
                  | Some (Inl e) \<Rightarrow> Some (Inl e)
                  | Some (Inr None) \<Rightarrow> Some (Inr None)
                  | Some (Inr (Some (vals, cursor))) \<Rightarrow> Some (Inr (Some (RArr vals, js_sub cursor offset)))))
            else Some (Inl (UnsupportedRespType type)))"
| "parse_items 0 buf i count cursor vals = None"
| "parse_items (Suc fuel) buf i count cursor vals =
     (if js_lt i count then
        (case tryParseReply fuel buf cursor of
           None \<Rightarrow> None
         | Some (Inl e) \<Rightarrow> Some (Inl e)
         | Some (Inr None) \<Rightarrow> Some (Inr None)
         | Some (Inr (Some (v, consumed))) \<Rightarrow>
             parse_items fuel buf (js_add i (Num 1)) count (js_add cursor consumed) (vals @ [v]))
      else Some (Inr (Some (vals, cursor))))"

section \<open>The client\<close>

text \<open>
  A waiting call is named by a \<open>'p\<close>; \<open>rs_settled\<close> lists the calls settled so far, with the error
  they were rejected with or the value they were resolved to.
\<close>

record 'p resp_client =
  rs_buffer :: string
  rs_pending :: "'p list"
  rs_settled :: "('p \<times> (js_error + resp_value)) list"
  rs_written :: string

definition new_resp_client :: "'p resp_client" where
  "new_resp_client = \<lparr>rs_buffer = [], rs_pending = [], rs_settled = [], rs_written = []\<rparr>"

definition failAllPending :: "js_error \<Rightarrow> 'p resp_client \<Rightarrow> 'p resp_client" where
  "failAllPending err s =
     s\<lparr>rs_pending := [], rs_settled := rs_settled s @ map (\<lambda>p. (p, Inl err)) (rs_pending s)\<rparr>"

definition settle_next :: "js_error + resp_value \<Rightarrow> 'p resp_client \<Rightarrow> 'p resp_client" where
  "settle_next outcome s =
     (case rs_pending s of
        [] \<Rightarrow> s
      | p # ps \<Rightarrow> s\<lparr>rs_pending := ps, rs_settled := rs_settled s @ [(p, outcome)]\<rparr>)"

definition reply_outcome :: "resp_value \<Rightarrow> js_error + resp_value" where
  "reply_outcome v = (case v of RErr m \<Rightarrow> Inl (RedisReplyError m) | _ \<Rightarrow> Inr v)"

fun onData_loop :: "nat \<Rightarrow> nat \<Rightarrow> 'p resp_client \<Rightarrow> 'p resp_client option" where
  "onData_loop depth 0 s = None"
| "onData_loop depth (Suc fuel) s =
     (case tryParseReply depth (rs_buffer s) (Num 0) of
        None \<Rightarrow> None
      | Some (Inl err) \<Rightarrow> Some (settle_next (Inl err) (s\<lparr>rs_buffer := []\<rparr>))
      | Some (Inr None) \<Rightarrow> Some s
      | Some (Inr (Some (v, consumed))) \<Rightarrow>
          onData_loop depth fuel
            (settle_next (reply_outcome v)
              (s\<lparr>rs_buffer := subarray (rs_buffer s) consumed (Num (int (length (rs_buffer s))))\<rparr>)))"

definition onData :: "nat \<Rightarrow> string \<Rightarrow> 'p resp_client \<Rightarrow> 'p resp_client option" where
  "onData fuel chunk s = onData_loop fuel fuel (s\<lparr>rs_buffer := rs_buffer s @ chunk\<rparr>)"

definition send_command :: "'p \<Rightarrow> string list \<Rightarrow> 'p resp_client \<Rightarrow> 'p resp_client" where
  "send_command p args s =
     s\<lparr>rs_pending := rs_pending s @ [p], rs_written := rs_written s @ encodeCommand args\<rparr>"

section \<open>RESP2 replies\<close>

text \<open>What a server sends, and the value the parser gives it.\<close>

datatype wire =
    Simple string
  | ErrorReply string
  | Integer int
  | Bulk string
  | NullBulk
  | NullArray
  | Array "wire list"

definition header :: "char \<Rightarrow> string \<Rightarrow> string" where
  "header t line = t # line @ CRLF"

fun encode_reply :: "wire \<Rightarrow> string" where
  "encode_reply (Simple s) = header (CHR ''+'') s"
| "encode_reply (ErrorReply s) = header (CHR ''-'') s"
| "encode_reply (Integer n) = header (CHR '':'') (int_string n)"
| "encode_reply (Bulk s) = header (CHR ''$'') (nat_string (length s)) @ s @ CRLF"
| "encode_reply NullBulk = header (CHR ''$'') ''-1''"
| "encode_reply NullArray = header (CHR ''*'') ''-1''"
| "encode_reply (Array rs) = header (CHR ''*'') (nat_string (length rs)) @ concat (map encode_reply rs)"

fun wire_value :: "wire \<Rightarrow> resp_value" where
  "wire_value (Simple s) = RStr s"
| "wire_value (ErrorReply s) = RErr s"
| "wire_value (Integer n) = RNum (Num n)"
| "wire_value (Bulk s) = RStr s"
| "wire_value NullBulk = RNull"
| "wire_value NullArray = RNull"
| "wire_value (Array rs) = RArr (map wire_value rs)"

text \<open>Simple strings and errors hold no line break; a bulk string holds any bytes.\<close>

fun wire_ok :: "wire \<Rightarrow> bool" where
  "wire_ok (Simple s) = (CR \<notin> set s)"
| "wire_ok (ErrorReply s) = (CR \<notin> set s)"
| "wire_ok (Array rs) = (\<forall>r \<in> set rs. wire_ok r)"
| "wire_ok _ = True"

lemma encodeCommand_wire: "encodeCommand args = encode_reply (Array (map Bulk args))"
  by (simp add: encodeCommand_def header_def comp_def)

section \<open>Reading one line\<close>

lemma CR_neq_LF [simp]: "CR \<noteq> LF" "LF \<noteq> CR"
  by (simp_all add: CR_def LF_def)

lemma CR_neq_char [simp]: "CR \<noteq> CHR ''-''" "CR \<noteq> CHR ''1''"
  by (simp_all add: CR_def)

lemma find_crlf_line: "CR \<notin> set line \<Longrightarrow> find_crlf (line @ CR # LF # rest) = Some (length line)"
proof (induction line)
  case Nil
  then show ?case by simp
next
  case (Cons c line)
  then show ?case by (cases line) auto
qed

lemma find_crlf_none: "CR \<notin> set line \<Longrightarrow> find_crlf line = None" "CR \<notin> set line \<Longrightarrow> find_crlf (line @ [CR]) = None"
proof (induction line)
  case Nil
  { case 1 then show ?case by simp next case 2 then show ?case by simp }
next
  case (Cons c line)
  { case 1 with Cons.IH show ?case by (cases line) auto
  next case 2 with Cons.IH show ?case by (cases line) auto }
qed

lemma number_lines [simp]:
  "CR \<notin> set (nat_string n)" "CR \<notin> set (int_string i)" "CR \<notin> set ''-1''"
  using digits_free [of CR] by (auto simp: int_string_def CR_def)

lemma js_Number_minus_1 [simp]: "js_Number ''-1'' = Num (- 1)"
  by (simp add: js_Number_def js_trim_def is_space_def unsigned_number_def char_digit_def)

lemma js_index_nat [simp]: "js_index len (Num (int i)) = min len i"
  by (simp add: js_index_def)

lemma js_index_Suc [simp]: "js_index len (Num (1 + int i)) = min len (Suc i)"
  using js_index_nat [of len "Suc i"] by (simp only: of_nat_Suc)

lemma subarray_nat: "subarray buf (Num (int i)) (Num (int j)) = take (j - i) (drop i buf)"
  by (cases "i \<le> length buf") (auto simp: subarray_def Let_def min_def)

lemma line_found:
  assumes "CR \<notin> set line" and "buf = pre @ header t line @ rest"
  shows "byte_at buf (Num (int (length pre))) = t"
    and "indexOf_crlf buf (Num (int (length pre) + 1)) = Some (length pre + 1 + length line)"
    and "subarray buf (Num (int (length pre) + 1)) (Num (int (length pre + 1 + length line))) = line"
    and "js_le (Num (int (length buf))) (Num (int (length pre))) = False"
proof -
  have off: "int (length pre) + 1 = int (Suc (length pre))" by simp
  show "byte_at buf (Num (int (length pre))) = t"
    by (simp add: byte_at_def assms(2) header_def)
  show "indexOf_crlf buf (Num (int (length pre) + 1)) = Some (length pre + 1 + length line)"
    unfolding off by (simp add: indexOf_crlf_def assms(2) header_def Let_def find_crlf_line [OF assms(1)])
  show "subarray buf (Num (int (length pre) + 1)) (Num (int (length pre + 1 + length line))) = line"
    unfolding off subarray_nat by (simp add: assms(2) header_def)
  show "js_le (Num (int (length buf))) (Num (int (length pre))) = False"
    by (simp add: assms(2) header_def)
qed

lemma line_missing:
  assumes "CR \<notin> set line" and "header t line = p @ us" and "us \<noteq> []" and "p \<noteq> []"
  shows "indexOf_crlf (pre @ p) (Num (int (length pre) + 1)) = None"
proof -
  have off: "int (length pre) + 1 = int (Suc (length pre))" by simp
  obtain q where p: "p = t # q" and q: "line @ CRLF = q @ us"
    using assms(2,4) by (cases p) (auto simp: header_def)
  have "find_crlf q = None"
  proof -
    obtain vs where us: "us = vs @ [last us]" using assms(3) by (metis append_butlast_last_id)
    with q have "line @ [CR] = q @ vs" by (metis append.assoc append1_eq_conv append_Cons append_Nil)
    then consider ws where "line = q @ ws" | "q = line @ [CR]"
      by (cases vs rule: rev_cases) auto
    then show ?thesis
      using assms(1) by cases (auto intro: find_crlf_none)
  qed
  then show ?thesis
    unfolding off by (simp add: indexOf_crlf_def p Let_def)
qed

section \<open>The parser reads what a server writes\<close>

declare tryParseReply.simps(2) [simp del]

text \<open>How deep the recursion goes on a reply.\<close>

fun need :: "wire \<Rightarrow> nat" and need_items :: "wire list \<Rightarrow> nat" where
  "need (Array rs) = Suc (need_items rs)"
| "need _ = 1"
| "need_items [] = 1"
| "need_items (r # rs) = Suc (max (need r) (need_items rs))"

lemmas wire_induct = need_need_items.induct
  [case_names array simple error integer bulk nullbulk nullarray nil cons]

lemma header_length [simp]: "length (header t line) = length line + 3"
  by (simp add: header_def)

lemma encode_reply_length: "3 \<le> length (encode_reply r)"
  by (cases r) auto

lemma need_bound:
  "need r \<le> length (encode_reply r)"
  "need_items rs \<le> Suc (length (concat (map encode_reply rs)))"
proof (induction r and rs rule: need_need_items.induct)
  case (4 r rs)
  then show ?case using encode_reply_length [of r] by simp
qed simp_all

lemma tryParseReply_header:
  assumes "CR \<notin> set line" and "buf = pre @ header t line @ rest"
  shows "tryParseReply (Suc fuel) buf (Num (int (length pre))) =
    (let start = int (length pre + length line + 3) in
     if t = CHR ''+'' then Some (Inr (Some (RStr line, Num (int (length line) + 3))))
     else if t = CHR ''-'' then Some (Inr (Some (RErr line, Num (int (length line) + 3))))
     else if t = CHR '':'' then Some (Inr (Some (RNum (js_Number line), Num (int (length line) + 3))))
     else if t = CHR ''$'' then
       (let len = js_Number line in
        if len = Num (- 1) then Some (Inr (Some (RNull, Num (int (length line) + 3))))
        else if js_lt (Num (int (length buf))) (js_add (js_add (Num start) len) (Num 2)) then Some (Inr None)
        else Some (Inr (Some (RStr (subarray buf (Num start) (js_add (Num start) len)),
               js_sub (js_add (js_add (Num start) len) (Num 2)) (Num (int (length pre)))))))
     else if t = CHR ''*'' then
       (let count = js_Number line in
        if count = Num (- 1) then Some (Inr (Some (RNull, Num (int (length line) + 3))))
        else
          (case parse_items fuel buf (Num 0) count (Num start) [] of
             None \<Rightarrow> None
           | Some (Inl e) \<Rightarrow> Some (Inl e)
           | Some (Inr None) \<Rightarrow> Some (Inr None)
           | Some (Inr (Some (vals, cursor))) \<Rightarrow>
               Some (Inr (Some (RArr vals, js_sub cursor (Num (int (length pre))))))))
     else Some (Inl (UnsupportedRespType t)))"
proof -
  have a: "js_add (Num (int (length pre))) (Num 1) = Num (int (length pre) + 1)" by simp
  have b: "int (length pre + 1 + length line) + 2 = int (length pre + length line + 3)" by simp
  have c: "js_sub (Num (int (length pre + length line + 3))) (Num (int (length pre))) = Num (int (length line) + 3)"
    by simp
  show ?thesis
    unfolding tryParseReply.simps a line_found [OF assms] option.case b c Let_def if_False by (rule refl)
qed

lemma parse_complete:
  "wire_ok r \<Longrightarrow> need r \<le> fuel \<Longrightarrow> buf = pre @ encode_reply r @ rest \<Longrightarrow>
     tryParseReply fuel buf (Num (int (length pre))) =
       Some (Inr (Some (wire_value r, Num (int (length (encode_reply r))))))"
  "\<forall>r \<in> set rs. wire_ok r \<Longrightarrow> need_items rs \<le> fuel \<Longrightarrow> buf = pre @ concat (map encode_reply rs) @ rest \<Longrightarrow>
     parse_items fuel buf (Num i) (Num (i + int (length rs))) (Num (int (length pre))) vals =
       Some (Inr (Some (vals @ map wire_value rs,
                        Num (int (length pre + length (concat (map encode_reply rs)))))))"
proof (induction r and rs arbitrary: fuel pre rest and fuel pre rest i vals rule: wire_induct)
  case (array rs)
  let ?h = "header (CHR ''*'') (nat_string (length rs))"
  let ?l = "nat_string (length rs)"
  obtain f where f: "fuel = Suc f" "need_items rs \<le> f" using array(3) by (cases fuel) auto
  have buf: "buf = pre @ ?h @ (concat (map encode_reply rs) @ rest)" using array(4) by simp
  have items: "parse_items f buf (Num 0) (Num (int (length rs))) (Num (int (length pre + length ?l + 3))) [] =
      Some (Inr (Some (map wire_value rs,
        Num (int (length pre + length ?l + 3 + length (concat (map encode_reply rs)))))))"
    using array(1) [of f "pre @ ?h" rest 0 "[]"] array(2) f(2) buf by (simp add: add.commute add.left_commute)
  show ?case
    unfolding f(1) tryParseReply_header [OF number_lines(1) buf] js_Number_nat_string Let_def items
    by simp
next
  case (bulk s)
  let ?l = "nat_string (length s)"
  obtain f where f: "fuel = Suc f" using bulk by (cases fuel) auto
  have buf: "buf = pre @ header (CHR ''$'') ?l @ (s @ CRLF @ rest)" using bulk by simp
  have sub: "subarray buf (Num (int (length pre + length ?l + 3)))
      (Num (int (length pre + length ?l + 3) + int (length s))) = s"
    unfolding of_nat_add [symmetric] subarray_nat buf by (simp add: header_def numeral_3_eq_3)
  show ?case
    unfolding f tryParseReply_header [OF number_lines(1) buf] js_Number_nat_string Let_def
    using sub by (simp add: buf header_def)
next
  case (cons r rs)
  obtain f where f: "fuel = Suc f" "need r \<le> f" "need_items rs \<le> f" using cons(4) by (cases fuel) auto
  have r: "tryParseReply f buf (Num (int (length pre))) =
      Some (Inr (Some (wire_value r, Num (int (length (encode_reply r))))))"
    using cons(1) [of f pre "concat (map encode_reply rs) @ rest"] cons(3,5) f by simp
  have rs: "parse_items f buf (Num (i + 1)) (Num (i + 1 + int (length rs)))
      (Num (int (length pre + length (encode_reply r)))) (vals @ [wire_value r]) =
      Some (Inr (Some (vals @ map wire_value (r # rs),
        Num (int (length pre + length (concat (map encode_reply (r # rs)))))))) "
    using cons(2) [of f "pre @ encode_reply r" rest "i + 1" "vals @ [wire_value r]"] cons(3,5) f
    by (simp add: add.assoc)
  show ?case
    unfolding f(1) parse_items.simps r
    using rs by (simp add: algebra_simps)
next
  case nil
  then show ?case by (cases fuel) auto
next
  case (simple s)
  then obtain f where f: "fuel = Suc f" by (cases fuel) auto
  show ?case using simple tryParseReply_header [of s buf pre "CHR ''+''" rest f] by (simp add: f Let_def)
next
  case (error s)
  then obtain f where f: "fuel = Suc f" by (cases fuel) auto
  show ?case using error tryParseReply_header [of s buf pre "CHR ''-''" rest f] by (simp add: f Let_def)
next
  case (integer n)
  then obtain f where f: "fuel = Suc f" by (cases fuel) auto
  show ?case using integer tryParseReply_header [of "int_string n" buf pre "CHR '':''" rest f] by (simp add: f Let_def)
next
  case nullbulk
  then obtain f where f: "fuel = Suc f" by (cases fuel) auto
  show ?case using nullbulk tryParseReply_header [of "''-1''" buf pre "CHR ''$''" rest f] by (simp add: f Let_def)
next
  case nullarray
  then obtain f where f: "fuel = Suc f" by (cases fuel) auto
  show ?case using nullarray tryParseReply_header [of "''-1''" buf pre "CHR ''*''" rest f] by (simp add: f Let_def)
qed

text \<open>A reply of which a part is missing reads as \<open>null\<close>: more bytes are needed.\<close>

lemma header_cut:
  assumes "header t line @ tail = p @ us" and "us \<noteq> []"
  obtains (line) vs where "header t line = p @ vs" and "vs \<noteq> []"
    | (tail) q where "p = header t line @ q" and "tail = q @ us"
proof -
  from assms(1) consider vs where "header t line = p @ vs" "us = vs @ tail"
    | q where "p = header t line @ q" "tail = q @ us"
    by (auto simp: append_eq_append_conv2)
  then show thesis
  proof cases
    case 1
    show thesis
    proof (cases "vs = []")
      case True
      with 1 show thesis by (intro tail [of "[]"]) simp_all
    qed (rule line [OF 1(1)])
  qed (rule tail)
qed

lemma parse_line_missing:
  assumes "CR \<notin> set line" and "header t line = p @ vs" and "vs \<noteq> []" and "0 < fuel"
  shows "tryParseReply fuel (pre @ p) (Num (int (length pre))) = Some (Inr None)"
proof -
  obtain f where f: "fuel = Suc f" using assms(4) by (cases fuel) auto
  show ?thesis
  proof (cases "p = []")
    case False
    then show ?thesis using line_missing [OF assms(1-3), of pre] by (simp add: f tryParseReply.simps(2))
  qed (simp add: f tryParseReply.simps(2))
qed

lemma parse_partial:
  "wire_ok r \<Longrightarrow> need r \<le> fuel \<Longrightarrow> encode_reply r = p @ us \<Longrightarrow> us \<noteq> [] \<Longrightarrow>
     tryParseReply fuel (pre @ p) (Num (int (length pre))) = Some (Inr None)"
  "\<forall>r \<in> set rs. wire_ok r \<Longrightarrow> need_items rs \<le> fuel \<Longrightarrow> concat (map encode_reply rs) = p @ us \<Longrightarrow> us \<noteq> [] \<Longrightarrow>
     parse_items fuel (pre @ p) (Num i) (Num (i + int (length rs))) (Num (int (length pre))) vals = Some (Inr None)"
proof (induction r and rs arbitrary: fuel pre p us and fuel pre p us i vals rule: wire_induct)
  case (array rs)
  let ?l = "nat_string (length rs)"
  obtain f where f: "fuel = Suc f" "need_items rs \<le> f" using array(3) by (cases fuel) auto
  have "header (CHR ''*'') ?l @ concat (map encode_reply rs) = p @ us" using array(4) by simp
  then show ?case
  proof (cases rule: header_cut [OF _ array(5), consumes 1, case_names line tail])
    case (line vs)
    show ?thesis by (rule parse_line_missing [OF number_lines(1) line]) (simp add: f(1))
  next
    case (tail q)
    have buf: "pre @ p = pre @ header (CHR ''*'') ?l @ q" using tail(1) by simp
    have items: "parse_items f (pre @ p) (Num 0) (Num (int (length rs))) (Num (int (length pre + length ?l + 3))) [] =
        Some (Inr None)"
      using array(1) [of f q us "pre @ header (CHR ''*'') ?l" 0 "[]"] array(2,5) f(2) tail by (simp add: add.assoc)
    show ?thesis
      unfolding f(1) tryParseReply_header [OF number_lines(1) buf] js_Number_nat_string Let_def items by simp
  qed
next
  case (bulk s)
  let ?l = "nat_string (length s)"
  obtain f where f: "fuel = Suc f" using bulk by (cases fuel) auto
  have "header (CHR ''$'') ?l @ (s @ CRLF) = p @ us" using bulk by simp
  then show ?case
  proof (cases rule: header_cut [OF _ bulk(4), consumes 1, case_names line tail])
    case (line vs)
    show ?thesis by (rule parse_line_missing [OF number_lines(1) line]) (simp add: f)
  next
    case (tail q)
    have buf: "pre @ p = pre @ header (CHR ''$'') ?l @ q" using tail(1) by simp
    have "length (s @ CRLF) = length q + length us" using tail(2) by simp
    then have "length q < length s + 2" using bulk(4) by (cases us) auto
    then show ?thesis
      unfolding f(1) tryParseReply_header [OF number_lines(1) buf] js_Number_nat_string Let_def
      by (simp add: tail(1))
  qed
next
  case nil
  then show ?case by simp
next
  case (cons r rs)
  obtain f where f: "fuel = Suc f" "need r \<le> f" "need_items rs \<le> f" using cons(4) by (cases fuel) auto
  from cons(5) consider (first) vs where "encode_reply r = p @ vs" "vs \<noteq> []"
    | (later) q where "p = encode_reply r @ q" "concat (map encode_reply rs) = q @ us"
    using cons(6) by (auto simp: append_eq_append_conv2) (metis append_Nil2 append_Nil)
  then show ?case
  proof cases
    case first
    have "tryParseReply f (pre @ p) (Num (int (length pre))) = Some (Inr None)"
      using cons(1) [of f p vs pre] first f cons(3) by simp
    then show ?thesis by (simp add: f(1))
  next
    case later
    have r: "tryParseReply f (pre @ p) (Num (int (length pre))) =
        Some (Inr (Some (wire_value r, Num (int (length (encode_reply r))))))"
      using parse_complete(1) [of r f "pre @ p" pre q] later cons(3) f by simp
    have "parse_items f (pre @ p) (Num (i + 1)) (Num (i + 1 + int (length rs)))
        (Num (int (length pre + length (encode_reply r)))) (vals @ [wire_value r]) = Some (Inr None)"
      using cons(2) [of f q us "pre @ encode_reply r" "i + 1" "vals @ [wire_value r]"] later cons(3,6) f
      by (simp add: add.assoc)
    then show ?thesis unfolding f(1) parse_items.simps r by (simp add: algebra_simps)
  qed
next
  case (simple s)
  then show ?case using parse_line_missing [of s "CHR ''+''" p us fuel pre] by simp
next
  case (error s)
  then show ?case using parse_line_missing [of s "CHR ''-''" p us fuel pre] by simp
next
  case (integer n)
  then show ?case using parse_line_missing [of "int_string n" "CHR '':''" p us fuel pre] by simp
next
  case nullbulk
  then show ?case using parse_line_missing [of "''-1''" "CHR ''$''" p us fuel pre] by simp
next
  case nullarray
  then show ?case using parse_line_missing [of "''-1''" "CHR ''*''" p us fuel pre] by simp
qed

section \<open>Replies as they arrive\<close>

definition wire_outcome :: "wire \<Rightarrow> js_error + resp_value" where
  "wire_outcome r = reply_outcome (wire_value r)"

definition settle_all :: "(js_error + resp_value) list \<Rightarrow> 'p resp_client \<Rightarrow> 'p resp_client" where
  "settle_all outcomes s =
     s\<lparr>rs_pending := drop (length outcomes) (rs_pending s),
       rs_settled := rs_settled s @ zip (rs_pending s) outcomes\<rparr>"

lemma settle_all_Nil [simp]: "settle_all [] s = s"
  by (simp add: settle_all_def)

lemma settle_all_Cons: "settle_all os (settle_next oc s) = settle_all (oc # os) s"
  by (cases "rs_pending s") (simp_all add: settle_all_def settle_next_def)

lemma settle_all_append: "settle_all ys (settle_all xs s) = settle_all (xs @ ys) s"
  by (induction xs arbitrary: s) (simp_all add: settle_all_Cons [symmetric])

lemma settle_next_buffer: "settle_next oc (s\<lparr>rs_buffer := b\<rparr>) = (settle_next oc s)\<lparr>rs_buffer := b\<rparr>"
  by (simp add: settle_next_def split: list.splits)

lemma settle_all_buffer: "settle_all os (s\<lparr>rs_buffer := b\<rparr>) = (settle_all os s)\<lparr>rs_buffer := b\<rparr>"
  by (simp add: settle_all_def)

text \<open>What a stream leaves unread: the beginning of a reply, or nothing.\<close>

definition unread :: "string \<Rightarrow> bool" where
  "unread p \<longleftrightarrow> p = [] \<or> (\<exists>r us. wire_ok r \<and> encode_reply r = p @ us \<and> us \<noteq> [])"

lemma unread_length:
  assumes "encode_reply r = p @ us" and "length (encode_reply r) \<le> n"
  shows "need r \<le> n"
  using need_bound(1) [of r] assms(2) by simp

lemma onData_loop_stream:
  assumes "\<forall>r \<in> set rs. wire_ok r \<and> need r \<le> depth" and "length rs < fuel" and "0 < depth"
    and "p = [] \<or> wire_ok r0 \<and> encode_reply r0 = p @ us \<and> us \<noteq> [] \<and> need r0 \<le> depth"
    and "rs_buffer s = concat (map encode_reply rs) @ p"
  shows "onData_loop depth fuel s = Some ((settle_all (map wire_outcome rs) s)\<lparr>rs_buffer := p\<rparr>)"
  using assms
proof (induction rs arbitrary: fuel s)
  case Nil
  obtain f where f: "fuel = Suc f" using Nil.prems(2) by (cases fuel) auto
  obtain d where d: "depth = Suc d" using Nil.prems(3) by (cases depth) auto
  have "tryParseReply depth p (Num 0) = Some (Inr None)"
  proof (cases "p = []")
    case True
    then show ?thesis by (simp add: d tryParseReply.simps(2))
  next
    case False
    then show ?thesis using Nil.prems(4) parse_partial(1) [of r0 depth p us "[]"] by simp
  qed
  then show ?case using Nil.prems(5) by (simp add: f)
next
  case (Cons r rs)
  obtain f where f: "fuel = Suc f" using Cons.prems(2) by (cases fuel) auto
  let ?rest = "concat (map encode_reply rs) @ p"
  let ?s = "settle_next (wire_outcome r) (s\<lparr>rs_buffer := ?rest\<rparr>)"
  have b: "rs_buffer s = encode_reply r @ ?rest" using Cons.prems(5) by simp
  have parse: "tryParseReply depth (rs_buffer s) (Num 0) =
      Some (Inr (Some (wire_value r, Num (int (length (encode_reply r))))))"
    using parse_complete(1) [of r depth "rs_buffer s" "[]" ?rest] b Cons.prems(1) by simp
  have cut: "subarray (rs_buffer s) (Num (int (length (encode_reply r)))) (Num (int (length (rs_buffer s)))) = ?rest"
    unfolding subarray_nat b by simp
  have "onData_loop depth fuel s = onData_loop depth f ?s"
    unfolding f by (simp add: parse cut wire_outcome_def)
  also have "\<dots> = Some ((settle_all (map wire_outcome rs) ?s)\<lparr>rs_buffer := p\<rparr>)"
    using Cons.prems by (intro Cons.IH) (auto simp: f settle_next_buffer)
  also have "settle_all (map wire_outcome rs) ?s = (settle_all (map wire_outcome (r # rs)) s)\<lparr>rs_buffer := ?rest\<rparr>"
    by (simp add: settle_next_buffer settle_all_buffer settle_all_Cons)
  finally show ?case by simp
qed

text \<open>The beginning of a stream of replies is some whole replies and the beginning of one more.\<close>

lemma stream_prefix:
  assumes "concat (map encode_reply rs) = x @ y"
  obtains k p where "k \<le> length rs" "x = concat (map encode_reply (take k rs)) @ p"
    "p @ y = concat (map encode_reply (drop k rs))"
    "p = [] \<or> k < length rs \<and> (\<exists>us. encode_reply (rs ! k) = p @ us \<and> us \<noteq> [])"
  using assms
proof (induction rs arbitrary: x thesis)
  case Nil
  then show ?case by (intro Nil(1) [of 0 "[]"]) simp_all
next
  case (Cons r rs)
  from Cons.prems(2) consider (inside) us where "encode_reply r = x @ us" "us \<noteq> []" "us @ concat (map encode_reply rs) = y"
    | (after) q where "x = encode_reply r @ q" "concat (map encode_reply rs) = q @ y"
    by (auto simp: append_eq_append_conv2) (metis append_Nil2 append_Nil)
  then show ?case
  proof cases
    case inside
    then show ?thesis by (intro Cons.prems(1) [of 0 x]) auto
  next
    case after
    from after(2) obtain k p where k: "k \<le> length rs" "q = concat (map encode_reply (take k rs)) @ p"
      "p @ y = concat (map encode_reply (drop k rs))"
      "p = [] \<or> k < length rs \<and> (\<exists>us. encode_reply (rs ! k) = p @ us \<and> us \<noteq> [])"
      using Cons.IH by blast
    then show ?thesis by (intro Cons.prems(1) [of "Suc k" p]) (auto simp: after(1))
  qed
qed

lemma part_length: "r \<in> set rs \<Longrightarrow> length (encode_reply r) \<le> length (concat (map encode_reply rs))"
  by (induction rs) auto

lemma part_need:
  assumes "length (concat (map encode_reply rs)) < N" "r \<in> set rs"
  shows "need r \<le> N"
  using part_length [OF assms(2)] need_bound(1) [of r] assms(1) by simp

lemma count_replies: "length rs \<le> length (concat (map encode_reply rs))"
proof (induction rs)
  case (Cons r rs)
  then show ?case using encode_reply_length [of r] by simp
qed simp

end
