(* ===== verification/Domain.thy ===== *)
theory Domain
  imports Js_Value
begin

text \<open>
  The domain types of \<open>src/types.ts\<close>, one record or datatype per interface or union, and their
  JSON forms. A field \<open>x?\<close> or \<open>x | null\<close> is an option.
\<close>

section \<open>Reservations and stock\<close>

datatype reject_reason = INSUFFICIENT_STOCK | INVALID_QTY | UNKNOWN_SKU

record reservation_result =
  rr_ok :: bool
  rr_reservationId :: "string option"
  rr_remaining :: "jsnum option"
  rr_reason :: "reject_reason option"

section \<open>Orders\<close>

datatype order_status =
    CREATED
  | INVENTORY_RESERVED
  | PAYMENT_CHARGED
  | SHIPPING_SCHEDULED
  | CONFIRMED
  | COMPENSATING
  | CANCELLED
  | FAILED

fun status_text :: "order_status \<Rightarrow> string" where
  "status_text CREATED = ''CREATED''"
| "status_text INVENTORY_RESERVED = ''INVENTORY_RESERVED''"
| "status_text PAYMENT_CHARGED = ''PAYMENT_CHARGED''"
| "status_text SHIPPING_SCHEDULED = ''SHIPPING_SCHEDULED''"
| "status_text CONFIRMED = ''CONFIRMED''"
| "status_text COMPENSATING = ''COMPENSATING''"
| "status_text CANCELLED = ''CANCELLED''"
| "status_text FAILED = ''FAILED''"

record order_line =
  ol_sku :: string
  ol_qty :: int
  ol_warehouseId :: string

record order_event =
  ev_type :: string
  ev_at :: int
  ev_detail :: "json option"

record order =
  or_id :: string
  or_customerId :: string
  or_lines :: "order_line list"
  or_amountCents :: int
  or_status :: order_status
  or_history :: "order_event list"
  or_createdAt :: int
  or_updatedAt :: int
  or_businessId :: "string option"

definition line_json :: "order_line \<Rightarrow> json" where
  "line_json l = JObj [(''sku'', JStr (ol_sku l)), (''qty'', JNum (Num (ol_qty l))),
                       (''warehouseId'', JStr (ol_warehouseId l))]"

definition nullable :: "string option \<Rightarrow> json" where
  "nullable x = (case x of None \<Rightarrow> JNull | Some s \<Rightarrow> JStr s)"

section \<open>Failure injection\<close>

text \<open>\<open>failPaymentForOrderIds?.has(id)\<close>: an absent set has no member.\<close>

record failure_injection =
  failPaymentForOrderIds :: "string set option"
  failShippingForOrderIds :: "string set option"

definition injected :: "string set option \<Rightarrow> string \<Rightarrow> bool" where
  "injected ids orderId = (case ids of None \<Rightarrow> False | Some S \<Rightarrow> orderId \<in> S)"

definition no_failures :: failure_injection where
  "no_failures = \<lparr>failPaymentForOrderIds = None, failShippingForOrderIds = None\<rparr>"

section \<open>Business accounts\<close>

datatype business_type = B2C | B2B2B | B2B | OTHER

record business =
  bu_id :: string
  bu_email :: string
  bu_passwordHash :: string
  bu_businessName :: string
  bu_businessType :: business_type
  bu_description :: string
  bu_accentColor :: string
  bu_createdAt :: int
  bu_updatedAt :: int

text \<open>\<open>PublicBusiness\<close>: the business without its password hash.\<close>

record public_business =
  pb_id :: string
  pb_email :: string
  pb_businessName :: string
  pb_businessType :: business_type
  pb_description :: string
  pb_accentColor :: string
  pb_createdAt :: int
  pb_updatedAt :: int

text \<open>\<open>BusinessProfilePatch\<close>: an absent key is \<open>None\<close>.\<close>

record business_profile_patch =
  pp_businessName :: "string option"
  pp_businessType :: "business_type option"
  pp_description :: "string option"
  pp_accentColor :: "string option"

lemma status_text_inject [simp]: "status_text a = status_text b \<longleftrightarrow> a = b"
  by (cases a; cases b) auto

lemma injected_None [simp]: "injected None oid = False"
  by (simp add: injected_def)

lemma injected_Some [simp]: "injected (Some S) oid = (oid \<in> S)"
  by (simp add: injected_def)

end
