(* ===== verification/Stock_Spec.thy ===== *)
theory Stock_Spec
  imports Domain
begin

text \<open>
  The abstract contract of the stock store: a map from keys to integers, each with an optional
  expiry time, and what a reservation and its resolution do to it. \<open>src/inventory/reserve.lua\<close>
  and \<open>src/inventory/release.lua\<close> (on a Redis server) and the in-process client both
  implement it. Entries whose time has passed read as absent, so two maps are the same from a
  time on when they read the same at every later time.
\<close>

section \<open>Keys with an expiry\<close>

type_synonym kv = "string \<rightharpoonup> int \<times> int option"

definition lookup :: "int \<Rightarrow> kv \<Rightarrow> string \<Rightarrow> int option" where
  "lookup t m k =
     (case m k of
        None \<Rightarrow> None
      | Some (n, None) \<Rightarrow> Some n
      | Some (n, Some e) \<Rightarrow> if t < e then Some n else None)"

definition kv_eq :: "int \<Rightarrow> kv \<Rightarrow> kv \<Rightarrow> bool" where
  "kv_eq now m m' \<longleftrightarrow> (\<forall>t \<ge> now. \<forall>k. lookup t m k = lookup t m' k)"

lemma kv_eq_refl [simp, intro]: "kv_eq now m m"
  by (simp add: kv_eq_def)

lemma kv_eq_sym: "kv_eq now m m' \<Longrightarrow> kv_eq now m' m"
  by (simp add: kv_eq_def)

lemma kv_eq_trans: "kv_eq now m m' \<Longrightarrow> kv_eq now m' m'' \<Longrightarrow> kv_eq now m m''"
  by (simp add: kv_eq_def)

lemma kv_eq_later: "kv_eq now m m' \<Longrightarrow> now \<le> now' \<Longrightarrow> kv_eq now' m m'"
  by (simp add: kv_eq_def)

lemma kv_eq_lookup: "kv_eq now m m' \<Longrightarrow> now \<le> t \<Longrightarrow> lookup t m k = lookup t m' k"
  by (simp add: kv_eq_def)

lemma lookup_update [simp]:
  "lookup t (m(k := v)) k' = (if k' = k then lookup t (\<lambda>_. v) k else lookup t m k')"
  by (simp add: lookup_def)

lemma lookup_const [simp]:
  "lookup t (\<lambda>_. None) k = None"
  "lookup t (\<lambda>_. Some (n, None)) k = Some n"
  "lookup t (\<lambda>_. Some (n, Some e)) k = (if t < e then Some n else None)"
  by (simp_all add: lookup_def)

lemma kv_eq_update: "kv_eq now m m' \<Longrightarrow> kv_eq now (m(k := v)) (m'(k := v))"
  by (simp add: kv_eq_def)

text \<open>Dropping an entry that has expired changes nothing from now on.\<close>

lemma kv_eq_drop: "lookup now m k = None \<Longrightarrow> kv_eq now (m(k := None)) m"
  by (auto simp: kv_eq_def lookup_def split: option.splits)

section \<open>Reserving and resolving\<close>

definition expiry :: "kv \<Rightarrow> string \<Rightarrow> int option" where
  "expiry m k = (case m k of None \<Rightarrow> None | Some (n, e) \<Rightarrow> e)"

text \<open>A reply of a script: a status and a number.\<close>

type_synonym reply = "string \<times> jsnum"

definition spec_reserve :: "int \<Rightarrow> string \<Rightarrow> string \<Rightarrow> int \<Rightarrow> int \<Rightarrow> kv \<Rightarrow> reply \<times> kv" where
  "spec_reserve now stockKey resvKey qty ttl m =
     (case lookup now m stockKey of
        None \<Rightarrow> ((''UNKNOWN_SKU'', Num 0), m)
      | Some available \<Rightarrow>
          if available < qty then ((''INSUFFICIENT_STOCK'', Num available), m)
          else ((''OK'', Num (available - qty)),
                m(stockKey \<mapsto> (available - qty, expiry m stockKey), resvKey \<mapsto> (qty, Some (now + ttl * 1000)))))"

definition spec_resolve ::
  "int \<Rightarrow> string \<Rightarrow> string \<Rightarrow> string \<Rightarrow> kv \<Rightarrow> (js_error + reply) \<times> kv" where
  "spec_resolve now stockKey resvKey mode m =
     (case lookup now m resvKey of
        None \<Rightarrow> (Inr (''ALREADY_RESOLVED'', Num 0), m)
      | Some qty \<Rightarrow>
          let m1 = m(resvKey := None) in
          if mode = ''RELEASE'' then
            (Inr (''RELEASED'', Num qty),
             (case lookup now m1 stockKey of
                None \<Rightarrow> m1(stockKey \<mapsto> (qty, None))
              | Some current \<Rightarrow> m1(stockKey \<mapsto> (current + qty, expiry m1 stockKey))))
          else if mode = ''COMMIT'' then (Inr (''COMMITTED'', Num qty), m1)
          else (Inl (RedisReplyError ''INVALID_MODE''), m1))"

text \<open>
  What is read after a reservation and after a resolution, at any later time: the laws the
  clients use, and the reason why both operations respect \<open>kv_eq\<close>.
\<close>

lemma spec_reserve_reply:
  "fst (spec_reserve now sk rk q ttl m) =
     (case lookup now m sk of
        None \<Rightarrow> (''UNKNOWN_SKU'', Num 0)
      | Some a \<Rightarrow> if a < q then (''INSUFFICIENT_STOCK'', Num a) else (''OK'', Num (a - q)))"
  by (simp add: spec_reserve_def split: option.splits)

lemma spec_reserve_lookup:
  "now \<le> t \<Longrightarrow> lookup t (snd (spec_reserve now sk rk q ttl m)) k =
     (case lookup now m sk of
        None \<Rightarrow> lookup t m k
      | Some a \<Rightarrow>
          if a < q then lookup t m k
          else if k = rk then (if t < now + ttl * 1000 then Some q else None)
          else if k = sk then map_option (\<lambda>n. n - q) (lookup t m k)
          else lookup t m k)"
  by (auto simp: spec_reserve_def lookup_def expiry_def split: option.splits if_splits)

lemma spec_resolve_reply:
  "fst (spec_resolve now sk rk mode m) =
     (case lookup now m rk of
        None \<Rightarrow> Inr (''ALREADY_RESOLVED'', Num 0)
      | Some q \<Rightarrow>
          if mode = ''RELEASE'' then Inr (''RELEASED'', Num q)
          else if mode = ''COMMIT'' then Inr (''COMMITTED'', Num q)
          else Inl (RedisReplyError ''INVALID_MODE''))"
  by (simp add: spec_resolve_def Let_def split: option.splits)

lemma spec_resolve_lookup:
  "now \<le> t \<Longrightarrow> sk \<noteq> rk \<Longrightarrow> lookup t (snd (spec_resolve now sk rk mode m)) k =
     (case lookup now m rk of
        None \<Rightarrow> lookup t m k
      | Some q \<Rightarrow>
          if k = rk then None
          else if k = sk \<and> mode = ''RELEASE'' then
            (case lookup now m sk of None \<Rightarrow> Some q | Some _ \<Rightarrow> map_option (\<lambda>n. n + q) (lookup t m sk))
          else lookup t m k)"
  by (auto simp: spec_resolve_def Let_def lookup_def expiry_def split: option.splits if_splits)

section \<open>The interface of the client\<close>

text \<open>
  \<open>RedisLike\<close> of \<open>src/lib/redisClient.ts\<close>: one field per method. The arguments of \<open>eval\<close> are
  strings or numbers; its result is the pair the source casts it to. \<open>int\<close> arguments named
  \<open>now\<close> are the reading of the clock the call is served at.
\<close>

datatype redis_arg = AStr string | ANum jsnum

fun arg_String :: "redis_arg \<Rightarrow> string" where
  "arg_String (AStr s) = s"
| "arg_String (ANum x) = js_String x"

fun arg_Number :: "redis_arg \<Rightarrow> jsnum" where
  "arg_Number (AStr s) = js_Number s"
| "arg_Number (ANum x) = x"

text \<open>The scripts of \<open>src/inventory/scripts.ts\<close>: the text of the two Lua files, or any other.\<close>

datatype script = RESERVE_SCRIPT | RELEASE_SCRIPT | OtherScript string

record 'r redis_like =
  rl_eval :: "script \<Rightarrow> nat \<Rightarrow> redis_arg list \<Rightarrow> int \<Rightarrow> ('r, reply) act"
  rl_get :: "string \<Rightarrow> int \<Rightarrow> ('r, string option) act"
  rl_set :: "string \<Rightarrow> string \<Rightarrow> ('r, unit) act"
  rl_del :: "string list \<Rightarrow> int \<Rightarrow> ('r, int) act"
  rl_quit :: "('r, unit) act"

text \<open>
  What \<open>InventoryService\<close> relies on: integers are read back, \<open>SET\<close> clears an expiry, and the
  two scripts do what the contract above says, in one atomic call.
\<close>

locale stock_redis =
  fixes R :: "'r redis_like"
    and kv_of :: "'r \<Rightarrow> kv"
    and invar :: "'r \<Rightarrow> bool"
  assumes get_law:
      "\<And>r k now res r'. invar r \<Longrightarrow> rl_get R k now r = (res, r') \<Longrightarrow>
         res = Inr (map_option int_string (lookup now (kv_of r) k)) \<and> invar r' \<and> kv_eq now (kv_of r') (kv_of r)"
    and set_law:
      "\<And>r k n res r'. invar r \<Longrightarrow> rl_set R k (int_string n) r = (res, r') \<Longrightarrow>
         res = Inr () \<and> invar r' \<and> kv_of r' = (kv_of r)(k \<mapsto> (n, None))"
    and reserve_law:
      "\<And>r sk rk q rid ttl now res r'. invar r \<Longrightarrow> 0 < q \<Longrightarrow> 0 < ttl \<Longrightarrow>
         rl_eval R RESERVE_SCRIPT 2 [AStr sk, AStr rk, ANum (Num q), AStr rid, ANum (Num ttl)] now r = (res, r') \<Longrightarrow>
         res = Inr (fst (spec_reserve now sk rk q ttl (kv_of r))) \<and> invar r' \<and>
         kv_eq now (kv_of r') (snd (spec_reserve now sk rk q ttl (kv_of r)))"
    and resolve_law:
      "\<And>r sk rk mode now res r'. invar r \<Longrightarrow>
         rl_eval R RELEASE_SCRIPT 2 [AStr sk, AStr rk, AStr mode] now r = (res, r') \<Longrightarrow>
         res = fst (spec_resolve now sk rk mode (kv_of r)) \<and> invar r' \<and>
         kv_eq now (kv_of r') (snd (spec_resolve now sk rk mode (kv_of r)))"
begin

definition live :: "'r \<Rightarrow> int \<Rightarrow> string \<Rightarrow> int option" where
  "live r t k = lookup t (kv_of r) k"

end

end
