(* ===== verification/Resp_Client.thy ===== *)
theory Resp_Client
  imports Resp Stock_Spec
begin

text \<open>
  The methods of \<open>RawRespClient\<close> (\<open>src/lib/redisClient.ts\<close>) and its life as a sequence of
  socket events: calls, chunks of bytes, errors of the socket. The replies reach the calls they
  answer, however the bytes are cut.
\<close>

section \<open>The methods\<close>

text \<open>The text a script constant is sent as.\<close>

type_synonym script_texts = "script \<Rightarrow> string"

definition resp_eval ::
  "script_texts \<Rightarrow> 'p \<Rightarrow> script \<Rightarrow> nat \<Rightarrow> redis_arg list \<Rightarrow> 'p resp_client \<Rightarrow> 'p resp_client" where
  "resp_eval T p scr numKeys keysAndArgs =
     send_command p ([''EVAL'', T scr, nat_string numKeys] @ map arg_String keysAndArgs)"

definition resp_get :: "'p \<Rightarrow> string \<Rightarrow> 'p resp_client \<Rightarrow> 'p resp_client" where
  "resp_get p key = send_command p [''GET'', key]"

definition resp_set :: "'p \<Rightarrow> string \<Rightarrow> string \<Rightarrow> 'p resp_client \<Rightarrow> 'p resp_client" where
  "resp_set p key v = send_command p [''SET'', key, v]"

definition resp_del :: "'p \<Rightarrow> string list \<Rightarrow> 'p resp_client \<Rightarrow> 'p resp_client" where
  "resp_del p keys = send_command p (''DEL'' # keys)"

definition resp_quit :: "'p \<Rightarrow> 'p resp_client \<Rightarrow> 'p resp_client" where
  "resp_quit p = send_command p [''QUIT'']"

section \<open>The events of a connection\<close>

datatype 'p socket_event =
    Call 'p "string list"
  | Chunk string
  | Broken js_error

fun resp_step :: "nat \<Rightarrow> 'p socket_event \<Rightarrow> 'p resp_client \<Rightarrow> 'p resp_client option" where
  "resp_step N (Call p args) s = Some (send_command p args s)"
| "resp_step N (Chunk c) s = onData N c s"
| "resp_step N (Broken err) s = Some (failAllPending err s)"

fun resp_run :: "nat \<Rightarrow> 'p socket_event list \<Rightarrow> 'p resp_client \<Rightarrow> 'p resp_client option" where
  "resp_run N [] s = Some s"
| "resp_run N (x # xs) s = (case resp_step N x s of None \<Rightarrow> None | Some s' \<Rightarrow> resp_run N xs s')"

fun calls_of :: "'p socket_event list \<Rightarrow> ('p \<times> string list) list" where
  "calls_of [] = []"
| "calls_of (Call p args # xs) = (p, args) # calls_of xs"
| "calls_of (_ # xs) = calls_of xs"

fun bytes_of :: "'p socket_event list \<Rightarrow> string" where
  "bytes_of [] = []"
| "bytes_of (Chunk c # xs) = c @ bytes_of xs"
| "bytes_of (_ # xs) = bytes_of xs"

fun broken :: "'p socket_event \<Rightarrow> bool" where
  "broken (Broken _) = True"
| "broken _ = False"

section \<open>Every call is settled at most once, in order\<close>

definition in_order :: "'p resp_client \<Rightarrow> 'p list" where
  "in_order s = map fst (rs_settled s) @ rs_pending s"

lemma in_order_buffer [simp]: "in_order (s\<lparr>rs_buffer := b\<rparr>) = in_order s"
  by (simp add: in_order_def)

lemma in_order_settle_next [simp]: "in_order (settle_next oc s) = in_order s"
  by (simp add: in_order_def settle_next_def split: list.splits)

lemma in_order_send [simp]: "in_order (send_command p args s) = in_order s @ [p]"
  by (simp add: in_order_def send_command_def)

lemma in_order_fail [simp]: "in_order (failAllPending err s) = in_order s"
  by (simp add: in_order_def failAllPending_def comp_def)

lemma in_order_loop: "onData_loop depth fuel s = Some s' \<Longrightarrow> in_order s' = in_order s"
  by (induction depth fuel s rule: onData_loop.induct)
     (auto split: option.splits sum.splits prod.splits)

lemma in_order_step:
  "resp_step N x s = Some s' \<Longrightarrow> in_order s' = in_order s @ map fst (calls_of [x])"
  by (cases x) (auto simp: onData_def dest: in_order_loop)

lemma calls_of_Cons: "calls_of (x # xs) = calls_of [x] @ calls_of xs"
  by (cases x) simp_all

lemma bytes_of_Cons: "bytes_of (x # xs) = bytes_of [x] @ bytes_of xs"
  by (cases x) simp_all

lemma in_order_run: "resp_run N xs s = Some s' \<Longrightarrow> in_order s' = in_order s @ map fst (calls_of xs)"
proof (induction xs arbitrary: s)
  case (Cons x xs)
  then obtain s1 where 1: "resp_step N x s = Some s1" "resp_run N xs s1 = Some s'"
    by (auto split: option.splits)
  show ?case using Cons.IH [OF 1(2)] in_order_step [OF 1(1)] by (subst calls_of_Cons) simp
qed simp

section \<open>Replies reach their callers\<close>

text \<open>A server answers a command only after it has received it.\<close>

definition causal :: "wire list \<Rightarrow> 'p socket_event list \<Rightarrow> bool" where
  "causal rs xs \<longleftrightarrow>
     (\<forall>k \<in> set [0..<Suc (length xs)]. \<forall>j \<in> set [0..<Suc (length rs)].
        length (concat (map encode_reply (take j rs))) \<le> length (bytes_of (take k xs)) \<longrightarrow>
        j \<le> length (calls_of (take k xs)))"

definition causal_from :: "'p resp_client \<Rightarrow> wire list \<Rightarrow> 'p socket_event list \<Rightarrow> bool" where
  "causal_from s rs xs \<longleftrightarrow>
     (\<forall>k \<le> length xs. \<forall>j \<le> length rs.
        length (concat (map encode_reply (take j rs))) \<le> length (rs_buffer s @ bytes_of (take k xs)) \<longrightarrow>
        j \<le> length (rs_pending s) + length (calls_of (take k xs)))"

lemma causal_fromD:
  assumes "causal_from s rs xs" "k \<le> length xs" "j \<le> length rs"
    "length (concat (map encode_reply (take j rs))) \<le> length (rs_buffer s @ bytes_of (take k xs))"
  shows "j \<le> length (rs_pending s) + length (calls_of (take k xs))"
  using assms by (auto simp: causal_from_def)

lemma causal_from_send:
  assumes "causal_from s rs (Call p args # xs)"
  shows "causal_from (send_command p args s) rs xs"
  unfolding causal_from_def
proof (intro allI impI)
  fix k j
  assume "k \<le> length xs" "j \<le> length rs"
    "length (concat (map encode_reply (take j rs)))
      \<le> length (rs_buffer (send_command p args s) @ bytes_of (take k xs))"
  then have "j \<le> length (rs_pending s) + length (calls_of (take (Suc k) (Call p args # xs)))"
    by (intro causal_fromD [OF assms]) (simp_all add: send_command_def)
  then show "j \<le> length (rs_pending (send_command p args s)) + length (calls_of (take k xs))"
    by (simp add: send_command_def)
qed

lemma causal_from_chunk:
  assumes "causal_from s rs (Chunk c # xs)" and "n \<le> length rs"
    and "rs_buffer s @ c = concat (map encode_reply (take n rs)) @ p"
    and "s1 = (settle_all (map wire_outcome (take n rs)) s)\<lparr>rs_buffer := p\<rparr>"
  shows "n \<le> length (rs_pending s) \<and> causal_from s1 (drop n rs) xs"
proof
  show n: "n \<le> length (rs_pending s)"
    using causal_fromD [OF assms(1), of 1 n] assms(2,3) by simp
  show "causal_from s1 (drop n rs) xs"
    unfolding causal_from_def
  proof (intro allI impI)
    fix k j
    assume k: "k \<le> length xs" and j: "j \<le> length (drop n rs)"
      and le: "length (concat (map encode_reply (take j (drop n rs)))) \<le> length (rs_buffer s1 @ bytes_of (take k xs))"
    have split: "concat (map encode_reply (take (n + j) rs)) =
        concat (map encode_reply (take n rs)) @ concat (map encode_reply (take j (drop n rs)))"
      by (simp add: take_add)
    have "length (rs_buffer s @ c) = length (concat (map encode_reply (take n rs))) + length p"
      unfolding assms(3) by simp
    then have "length (concat (map encode_reply (take (n + j) rs)))
        \<le> length (rs_buffer s @ bytes_of (take (Suc k) (Chunk c # xs)))"
      using le unfolding split by (simp add: assms(4))
    then have "n + j \<le> length (rs_pending s) + length (calls_of (take (Suc k) (Chunk c # xs)))"
      using j k assms(2) by (intro causal_fromD [OF assms(1)]) simp_all
    then show "j \<le> length (rs_pending s1) + length (calls_of (take k xs))"
      using n assms(2) by (simp add: assms(4) settle_all_def)
  qed
qed

text \<open>One chunk: the replies it completes settle the calls at the front of the queue.\<close>

lemma onData_chunk:
  assumes "\<forall>r \<in> set rs. wire_ok r" and "concat (map encode_reply rs) = (rs_buffer s @ c) @ y"
    and "length (concat (map encode_reply rs)) < N"
  obtains n p where "n \<le> length rs" "rs_buffer s @ c = concat (map encode_reply (take n rs)) @ p"
    "p @ y = concat (map encode_reply (drop n rs))"
    "p = [] \<or> n < length rs \<and> (\<exists>us. encode_reply (rs ! n) = p @ us \<and> us \<noteq> [])"
    "onData N c s = Some ((settle_all (map wire_outcome (take n rs)) s)\<lparr>rs_buffer := p\<rparr>)"
proof -
  obtain n p where n: "n \<le> length rs" "rs_buffer s @ c = concat (map encode_reply (take n rs)) @ p"
      "p @ y = concat (map encode_reply (drop n rs))"
      "p = [] \<or> n < length rs \<and> (\<exists>us. encode_reply (rs ! n) = p @ us \<and> us \<noteq> [])"
    using assms(2) by (rule stream_prefix)
  have need: "\<forall>r \<in> set rs. need r \<le> N" using part_need [OF assms(3)] by blast
  have "\<exists>r0 us. p = [] \<or> wire_ok r0 \<and> encode_reply r0 = p @ us \<and> us \<noteq> [] \<and> need r0 \<le> N"
    using n(4) assms(1) need by (metis nth_mem)
  then obtain r0 us where r0: "p = [] \<or> wire_ok r0 \<and> encode_reply r0 = p @ us \<and> us \<noteq> [] \<and> need r0 \<le> N" by blast
  have "onData N c s = Some ((settle_all (map wire_outcome (take n rs)) (s\<lparr>rs_buffer := rs_buffer s @ c\<rparr>))\<lparr>rs_buffer := p\<rparr>)"
    unfolding onData_def
    using assms(1,3) need n(1,2) count_replies [of rs]
    by (intro onData_loop_stream [OF _ _ _ r0]) (auto dest: in_set_takeD)
  then show thesis using that [OF n] by (simp add: settle_all_buffer)
qed

text \<open>The bytes waiting in the buffer are the beginning of the next reply.\<close>

definition waiting :: "wire list \<Rightarrow> 'p resp_client \<Rightarrow> bool" where
  "waiting rs s \<longleftrightarrow> rs_buffer s = [] \<or>
     (\<exists>r rest us. rs = r # rest \<and> encode_reply r = rs_buffer s @ us \<and> us \<noteq> [])"

definition after_stream :: "'p socket_event list \<Rightarrow> wire list \<Rightarrow> 'p resp_client \<Rightarrow> 'p resp_client" where
  "after_stream xs rs s = s\<lparr>rs_buffer := [],
      rs_pending := drop (length rs) (rs_pending s @ map fst (calls_of xs)),
      rs_settled := rs_settled s @ zip (rs_pending s @ map fst (calls_of xs)) (map wire_outcome rs),
      rs_written := rs_written s @ concat (map (encodeCommand \<circ> snd) (calls_of xs))\<rparr>"

lemma run_stream:
  assumes "\<forall>r \<in> set rs. wire_ok r" and "\<forall>x \<in> set xs. \<not> broken x"
    and "rs_buffer s @ bytes_of xs = concat (map encode_reply rs)"
    and "length (concat (map encode_reply rs)) < N" and "causal_from s rs xs" and "waiting rs s"
  shows "resp_run N xs s = Some (after_stream xs rs s)"
  using assms
proof (induction xs arbitrary: rs s)
  case Nil
  show ?case
  proof (cases rs)
    case rs: Nil
    then show ?thesis using Nil.prems(3) by (simp add: after_stream_def)
  next
    case (Cons r rest)
    then show ?thesis using Nil.prems(3,6) encode_reply_length [of r] by (auto simp: waiting_def)
  qed
next
  case (Cons x xs)
  show ?case
  proof (cases x)
    case (Call p args)
    let ?s = "send_command p args s"
    have "resp_run N xs ?s = Some (after_stream xs rs ?s)"
      using Cons.prems causal_from_send [of s rs p args xs]
      by (intro Cons.IH) (auto simp: Call send_command_def waiting_def)
    then show ?thesis by (simp add: Call after_stream_def send_command_def)
  next
    case (Chunk c)
    have "concat (map encode_reply rs) = (rs_buffer s @ c) @ bytes_of xs"
      using Cons.prems(3) by (simp add: Chunk)
    from onData_chunk [OF Cons.prems(1) this Cons.prems(4)]
    obtain n p where n: "n \<le> length rs" "rs_buffer s @ c = concat (map encode_reply (take n rs)) @ p"
      "p @ bytes_of xs = concat (map encode_reply (drop n rs))"
      "p = [] \<or> n < length rs \<and> (\<exists>us. encode_reply (rs ! n) = p @ us \<and> us \<noteq> [])"
      and step: "onData N c s = Some ((settle_all (map wire_outcome (take n rs)) s)\<lparr>rs_buffer := p\<rparr>)"
      by blast
    let ?s = "(settle_all (map wire_outcome (take n rs)) s)\<lparr>rs_buffer := p\<rparr>"
    have causal: "n \<le> length (rs_pending s)" "causal_from ?s (drop n rs) xs"
      using causal_from_chunk [OF Cons.prems(5) [unfolded Chunk] n(1,2) refl] by auto
    have len: "length (concat (map encode_reply (drop n rs))) \<le> length (concat (map encode_reply rs))"
      by (metis append_take_drop_id concat_append length_append le_add2 map_append)
    have run: "resp_run N xs ?s = Some (after_stream xs (drop n rs) ?s)"
    proof (rule Cons.IH)
      show "waiting (drop n rs) ?s"
        using n(4) by (auto simp: waiting_def Cons_nth_drop_Suc [symmetric])
    qed (use Cons.prems(1,2,4) n(3) len causal(2) in \<open>auto dest: in_set_dropD\<close>)
    have zip: "zip (rs_pending s @ map fst (calls_of xs)) (map wire_outcome rs) =
        zip (rs_pending s) (map wire_outcome (take n rs)) @
        zip (drop n (rs_pending s) @ map fst (calls_of xs)) (map wire_outcome (drop n rs))"
    proof -
      have "zip (take n (rs_pending s) @ drop n (rs_pending s) @ map fst (calls_of xs))
              (map wire_outcome (take n rs) @ map wire_outcome (drop n rs)) =
            zip (take n (rs_pending s)) (map wire_outcome (take n rs)) @
            zip (drop n (rs_pending s) @ map fst (calls_of xs)) (map wire_outcome (drop n rs))"
        using causal(1) n(1) by (intro zip_append) simp
      moreover have "zip (rs_pending s) (map wire_outcome (take n rs)) =
          zip (take n (rs_pending s)) (map wire_outcome (take n rs))"
        using causal(1) n(1) by (metis length_map length_take min.absorb2 take_zip take_all_iff length_zip min.cobounded2 take_map order_refl)
      ultimately show ?thesis
        by (metis append_assoc append_take_drop_id map_append)
    qed
    show ?thesis
      using run causal(1) n(1)
      by (simp add: Chunk step after_stream_def settle_all_def zip)
  qed (use Cons.prems in simp)
qed

lemma causal_from_new: "causal rs xs \<Longrightarrow> causal_from new_resp_client rs xs"
  by (auto simp: causal_def causal_from_def new_resp_client_def Ball_def simp del: upt_Suc)

section \<open>The properties\<close>

text \<open>C34: The reply parser reads each RESP2 reply a server writes - nested arrays, bulk strings with
  any bytes, nil values - to its value and consumes exactly its bytes, whatever follows; on a proper
  prefix of a reply it asks for more bytes. The recursion ends.\<close>

theorem reply_parsed_when_complete:
  assumes "wire_ok r" and "length (encode_reply r) \<le> N"
  shows "tryParseReply N (encode_reply r @ rest) (Num 0) =
           Some (Inr (Some (wire_value r, Num (int (length (encode_reply r))))))
         \<and> (\<forall>p us. encode_reply r = p @ us \<and> us \<noteq> [] \<longrightarrow> tryParseReply N p (Num 0) = Some (Inr None))"
proof -
  have need: "need r \<le> N" using need_bound(1) [of r] assms(2) by simp
  show ?thesis
    using parse_complete(1) [OF assms(1) need, of _ "[]" rest] parse_partial(1) [OF assms(1) need, of _ _ "[]"]
    by simp
qed

lemma reply_parsed_when_complete_witness:
  "tryParseReply 30 (encode_reply (Array [Bulk ''OK'', Integer 7, NullBulk]) @ ''+'') (Num 0) =
     Some (Inr (Some (RArr [RStr ''OK'', RNum (Num 7), RNull],
       Num (int (length (encode_reply (Array [Bulk ''OK'', Integer 7, NullBulk])))))))"
  using reply_parsed_when_complete [of "Array [Bulk ''OK'', Integer 7, NullBulk]" 30 "''+''"]
  by (simp add: header_def int_string_def nat_string.simps)

text \<open>What encodeCommand writes is one array of bulk strings that the server reads back as the
  arguments, byte for byte, whatever they hold - line breaks and bytes that look like protocol
  included - and whatever follows on the connection.\<close>

theorem command_roundtrip:
  assumes "length (encodeCommand args) \<le> N"
  shows "tryParseReply N (encodeCommand args @ rest) (Num 0) =
     Some (Inr (Some (RArr (map RStr args), Num (int (length (encodeCommand args))))))"
proof -
  have "need (Array (map Bulk args)) \<le> N"
    using need_bound(1) [of "Array (map Bulk args)"] assms by (simp only: encodeCommand_wire)
  from parse_complete(1) [OF _ this, of _ "[]" rest] show ?thesis
    unfolding encodeCommand_wire by (simp add: comp_def del: encode_reply.simps)
qed

lemma command_roundtrip_witness:
  "tryParseReply 100 (encodeCommand [''SET'', [CR, LF], ''+OK''] @ ''x'') (Num 0) =
     Some (Inr (Some (RArr [RStr ''SET'', RStr [CR, LF], RStr ''+OK''],
       Num (int (length (encodeCommand [''SET'', [CR, LF], ''+OK'']))))))"
  using command_roundtrip [of "[''SET'', [CR, LF], ''+OK'']" 100 "''x''"]
  by (simp add: encodeCommand_def nat_string.simps)

text \<open>C20: However the calls of a connection interleave with the bytes that arrive and however the
  stream of replies is cut into chunks, the k-th reply settles the k-th call: a value resolves it, an
  error reply rejects that call alone. Calls not answered yet keep waiting, nothing is left in the
  buffer, the commands were written in the order of the calls, and every data event returns.\<close>

theorem replies_reach_their_calls:
  assumes "\<forall>r \<in> set rs. wire_ok r" and "\<forall>x \<in> set xs. \<not> broken x"
    and "bytes_of xs = concat (map encode_reply rs)" and "causal rs xs"
    and "length (bytes_of xs) < N"
  shows "\<exists>s. resp_run N xs new_resp_client = Some s
     \<and> rs_settled s = zip (map fst (calls_of xs)) (map wire_outcome rs)
     \<and> rs_pending s = drop (length rs) (map fst (calls_of xs))
     \<and> rs_buffer s = []
     \<and> rs_written s = concat (map (encodeCommand \<circ> snd) (calls_of xs))"
  using run_stream [of rs xs new_resp_client N] causal_from_new [OF assms(4)] assms
  by (simp add: new_resp_client_def waiting_def after_stream_def)

lemma replies_reach_their_calls_witness:
  "\<exists>s. resp_run 100 [Call (1::nat) [''GET'', ''a''], Call 2 [''EVAL'', ''x'', ''0''], Chunk ''$3'',
       Chunk [CR, LF, CHR ''1'', CR], Chunk [LF, CR, LF, CHR ''-''], Chunk [CHR ''E'', CR, LF]] new_resp_client = Some s
     \<and> rs_settled s = [(1, Inr (RStr [CHR ''1'', CR, LF])), (2, Inl (RedisReplyError ''E''))]"
proof -
  let ?rs = "[Bulk [CHR ''1'', CR, LF], ErrorReply ''E'']"
  let ?xs = "[Call (1::nat) [''GET'', ''a''], Call 2 [''EVAL'', ''x'', ''0''], Chunk ''$3'',
       Chunk [CR, LF, CHR ''1'', CR], Chunk [LF, CR, LF, CHR ''-''], Chunk [CHR ''E'', CR, LF]]"
  have three: "nat_string 3 = ''3''" by (simp add: nat_string.simps digit_char_def char_of_def bit_0)
  have ok: "\<forall>r \<in> set ?rs. wire_ok r" by (simp add: CR_def)
  have unbroken: "\<forall>x \<in> set ?xs. \<not> broken x" by simp
  have bytes: "bytes_of ?xs = concat (map encode_reply ?rs)" by (simp add: header_def three [unfolded numeral_3_eq_3] three)
  have causal: "causal ?rs ?xs" by (simp add: causal_def header_def three [unfolded numeral_3_eq_3] three)
  have fuel: "length (bytes_of ?xs) < 100" by simp
  show ?thesis
    using replies_reach_their_calls [OF ok unbroken bytes causal fuel]
    by (auto simp: wire_outcome_def reply_outcome_def simp del: resp_run.simps)
qed

text \<open>Whatever bytes arrive - malformed ones included - and whenever the socket breaks, every call
  is settled at most once, and the calls are settled in the order they were made.\<close>

theorem calls_settle_once_in_order:
  assumes "resp_run N xs new_resp_client = Some s"
  shows "map fst (rs_settled s) @ rs_pending s = map fst (calls_of xs)"
  using in_order_run [OF assms] by (simp add: in_order_def new_resp_client_def)

lemma calls_settle_once_in_order_witness:
  "map fst [(1::nat, Inl (UnsupportedRespType (CHR ''?''))), (2, Inl (DriverError ''closed''))] @ [] = [1, 2]
   \<and> resp_run 5 [Call (1::nat) [''GET'', ''a''], Call 2 [''GET'', ''b''], Chunk [CHR ''?'', CR, LF], Broken (DriverError ''closed'')]
       new_resp_client = Some \<lparr>rs_buffer = [],
         rs_pending = [], rs_settled = [(1, Inl (UnsupportedRespType (CHR ''?''))), (2, Inl (DriverError ''closed''))],
         rs_written = encodeCommand [''GET'', ''a''] @ encodeCommand [''GET'', ''b'']\<rparr>"
proof -
  have run: "resp_run 5 [Call (1::nat) [''GET'', ''a''], Call 2 [''GET'', ''b''], Chunk [CHR ''?'', CR, LF], Broken (DriverError ''closed'')]
       new_resp_client = Some \<lparr>rs_buffer = [],
         rs_pending = [], rs_settled = [(1, Inl (UnsupportedRespType (CHR ''?''))), (2, Inl (DriverError ''closed''))],
         rs_written = encodeCommand [''GET'', ''a''] @ encodeCommand [''GET'', ''b'']\<rparr>"
    by (simp add: onData_def new_resp_client_def send_command_def numeral_nat tryParseReply.simps(2)
      byte_at_def indexOf_crlf_def js_index_def settle_next_def failAllPending_def)
  from calls_settle_once_in_order [OF run] run show ?thesis by simp
qed

text \<open>A bulk reply whose length is not a number (or is -7) keeps the data listener busy for ever:
  the reply is taken for complete, nothing is removed from the buffer, and the loop parses it again. A
  reply of an unknown type throws away the whole buffer, the complete replies behind it included: it
  rejects the call in front, and the calls those replies were for keep waiting.\<close>

theorem malformed_replies:
  assumes "rs_buffer s = []"
  shows "onData N (''$x'' @ CRLF) s = None \<and> onData N (''$-7'' @ CRLF) s = None
    \<and> (t \<notin> set ''+-:$*'' \<and> CR \<notin> set line \<and> 0 < N \<longrightarrow>
         onData N (header t line @ rest) s = Some (settle_next (Inl (UnsupportedRespType t)) s))"
proof (intro conjI impI)
  have loop: "onData_loop d f c = None"
    if p: "\<forall>d. tryParseReply (Suc d) (rs_buffer c) (Num 0) = Some (Inr (Some (RStr [], consumed)))"
      and cut: "subarray (rs_buffer c) consumed (Num (int (length (rs_buffer c)))) = rs_buffer c"
    for d f consumed and c :: "'a resp_client"
    using that
  proof (induction f arbitrary: c)
    case (Suc f)
    show ?case
    proof (cases d)
      case (Suc e)
      let ?c = "settle_next (reply_outcome (RStr [])) (c\<lparr>rs_buffer := rs_buffer c\<rparr>)"
      have b: "rs_buffer ?c = rs_buffer c" by (simp add: settle_next_def split: list.splits)
      have "onData_loop d f ?c = None"
        by (rule Suc.IH) (unfold b, rule Suc.prems(1), rule Suc.prems(2))
      then show ?thesis using Suc.prems by (simp add: Suc)
    qed simp
  qed simp
  have x: "js_Number ''x'' = NaN"
    by (simp add: js_Number_def js_trim_def is_space_def unsigned_number_def char_digit_def)
  have m: "js_Number ''-7'' = Num (- 7)"
    by (simp add: js_Number_def js_trim_def is_space_def unsigned_number_def char_digit_def)
  have CR: "CR \<noteq> CHR ''x''" "CR \<noteq> CHR ''7''" by (simp_all add: CR_def)
  have "onData_loop N N (s\<lparr>rs_buffer := ''$x'' @ CRLF\<rparr>) = None"
  proof (rule loop)
    show "\<forall>d. tryParseReply (Suc d) (rs_buffer (s\<lparr>rs_buffer := ''$x'' @ CRLF\<rparr>)) (Num 0) =
        Some (Inr (Some (RStr [], NaN)))"
      using tryParseReply_header [of "''x''" "''$x'' @ CRLF" "[]" "CHR ''$''" "[]"] CR
      by (simp add: x header_def subarray_def js_index_def js_sub_def)
  qed (simp add: subarray_def js_index_def)
  then show "onData N (''$x'' @ CRLF) s = None" using assms by (simp add: onData_def)
  have "onData_loop N N (s\<lparr>rs_buffer := ''$-7'' @ CRLF\<rparr>) = None"
  proof (rule loop)
    show "\<forall>d. tryParseReply (Suc d) (rs_buffer (s\<lparr>rs_buffer := ''$-7'' @ CRLF\<rparr>)) (Num 0) =
        Some (Inr (Some (RStr [], Num 0)))"
      using tryParseReply_header [of "''-7''" "''$-7'' @ CRLF" "[]" "CHR ''$''" "[]"] CR
      by (simp add: m header_def subarray_def js_index_def)
  qed (simp add: subarray_def js_index_def)
  then show "onData N (''$-7'' @ CRLF) s = None" using assms by (simp add: onData_def)
  assume t: "t \<notin> set ''+-:$*'' \<and> CR \<notin> set line \<and> 0 < N"
  then obtain n where N: "N = Suc n" by (cases N) auto
  have "tryParseReply N (header t line @ rest) (Num 0) = Some (Inl (UnsupportedRespType t))"
    using t tryParseReply_header [of line "header t line @ rest" "[]" t rest n] by (simp add: N)
  then show "onData N (header t line @ rest) s = Some (settle_next (Inl (UnsupportedRespType t)) s)"
    using assms by (cases s) (simp add: onData_def N)
qed

lemma malformed_replies_witness:
  "onData 100 (header (CHR ''?'') [] @ encode_reply (Simple ''OK''))
     (send_command (2::nat) [''GET'', ''b''] (send_command 1 [''GET'', ''a''] new_resp_client)) =
   Some (settle_next (Inl (UnsupportedRespType (CHR ''?'')))
     (send_command 2 [''GET'', ''b''] (send_command 1 [''GET'', ''a''] new_resp_client)))
   \<and> onData 100 (''$x'' @ CRLF) (new_resp_client :: nat resp_client) = None"
proof -
  let ?s = "send_command (2::nat) [''GET'', ''b''] (send_command 1 [''GET'', ''a''] new_resp_client)"
  have e: "rs_buffer ?s = []" by (simp add: send_command_def new_resp_client_def)
  have n: "rs_buffer (new_resp_client :: nat resp_client) = []" by (simp add: new_resp_client_def)
  show ?thesis
    using malformed_replies [OF e, of 100 "CHR ''?''" "[]" "encode_reply (Simple ''OK'')"]
      malformed_replies [OF n, of 100 "CHR ''?''" "[]" "[]"] by simp
qed

end
