(* ===== verification/Redis_Mem.thy ===== *)
theory Redis_Mem
  imports Stock_Spec
begin

text \<open>
  \<open>InMemoryRedisClient\<close> of \<open>src/inventory/inMemoryRedis.ts\<close>: its two maps, passive expiry, the
  string commands and the native versions of the two scripts. The clock is read once per call.
\<close>

section \<open>State and commands\<close>

record redis_mem =
  rm_store :: "(string, string) jmap"
  rm_expiresAt :: "(string, jsnum) jmap"

definition new_redis_mem :: redis_mem where
  "new_redis_mem = \<lparr>rm_store = [], rm_expiresAt = []\<rparr>"

definition drop_key :: "string \<Rightarrow> redis_mem \<Rightarrow> redis_mem" where
  "drop_key k r = r\<lparr>rm_store := jdel k (rm_store r), rm_expiresAt := jdel k (rm_expiresAt r)\<rparr>"

definition isLive :: "string \<Rightarrow> int \<Rightarrow> redis_mem \<Rightarrow> bool \<times> redis_mem" where
  "isLive key now r =
     (case jget (rm_expiresAt r) key of
        Some e \<Rightarrow> if js_le e (Num now) then (False, drop_key key r) else (jhas (rm_store r) key, r)
      | None \<Rightarrow> (jhas (rm_store r) key, r))"

definition mem_get :: "string \<Rightarrow> int \<Rightarrow> (redis_mem, string option) act" where
  "mem_get key now r =
     (case isLive key now r of (lv, r1) \<Rightarrow> (Inr (if lv then jget (rm_store r1) key else None), r1))"

definition mem_set :: "string \<Rightarrow> string \<Rightarrow> (redis_mem, unit) act" where
  "mem_set key v r =
     (Inr (), r\<lparr>rm_store := jset key v (rm_store r), rm_expiresAt := jdel key (rm_expiresAt r)\<rparr>)"

fun mem_del_loop :: "string list \<Rightarrow> int \<Rightarrow> int \<Rightarrow> redis_mem \<Rightarrow> int \<times> redis_mem" where
  "mem_del_loop [] now count r = (count, r)"
| "mem_del_loop (key # keys) now count r =
     (case isLive key now r of
        (lv, r1) \<Rightarrow> mem_del_loop keys now (if lv then count + 1 else count) (drop_key key r1))"

definition mem_del :: "string list \<Rightarrow> int \<Rightarrow> (redis_mem, int) act" where
  "mem_del keys now r = (case mem_del_loop keys now 0 r of (count, r1) \<Rightarrow> (Inr count, r1))"

definition mem_quit :: "(redis_mem, unit) act" where
  "mem_quit = ret ()"

section \<open>The scripts, natively\<close>

text \<open>An index past the end of an argument list reads \<open>undefined\<close>.\<close>

definition key_at :: "string list \<Rightarrow> nat \<Rightarrow> string" where
  "key_at keys i = (if i < length keys then keys ! i else ''undefined'')"

definition number_at :: "redis_arg list \<Rightarrow> nat \<Rightarrow> jsnum" where
  "number_at args i = (if i < length args then arg_Number (args ! i) else NaN)"

definition string_at :: "redis_arg list \<Rightarrow> nat \<Rightarrow> string" where
  "string_at args i = (if i < length args then arg_String (args ! i) else ''undefined'')"

definition store_number :: "redis_mem \<Rightarrow> string \<Rightarrow> jsnum" where
  "store_number r key = (case jget (rm_store r) key of None \<Rightarrow> NaN | Some s \<Rightarrow> js_Number s)"

fun times_1000 :: "jsnum \<Rightarrow> jsnum" where
  "times_1000 (Num n) = Num (n * 1000)"
| "times_1000 x = x"

definition evalReserve :: "string list \<Rightarrow> redis_arg list \<Rightarrow> int \<Rightarrow> (redis_mem, reply) act" where
  "evalReserve keys args now r =
     (let stockKey = key_at keys 0; resvKey = key_at keys 1;
          qty = number_at args 0; ttlSeconds = number_at args 2 in
      if \<not> is_finite qty \<or> js_le qty (Num 0) then (Inl (RedisReplyError ''INVALID_QTY''), r)
      else case isLive stockKey now r of
        (False, r1) \<Rightarrow> (Inr (''UNKNOWN_SKU'', Num 0), r1)
      | (True, r1) \<Rightarrow>
          let available = store_number r1 stockKey in
          if js_lt available qty then (Inr (''INSUFFICIENT_STOCK'', available), r1)
          else
            let remaining = js_sub available qty in
            (Inr (''OK'', remaining),
             r1\<lparr>rm_store := jset resvKey (js_String qty) (jset stockKey (js_String remaining) (rm_store r1)),
                rm_expiresAt := jset resvKey (js_add (Num now) (times_1000 ttlSeconds)) (rm_expiresAt r1)\<rparr>))"

definition evalRelease :: "string list \<Rightarrow> redis_arg list \<Rightarrow> int \<Rightarrow> (redis_mem, reply) act" where
  "evalRelease keys args now r =
     (let stockKey = key_at keys 0; resvKey = key_at keys 1; mode = string_at args 0 in
      case isLive resvKey now r of
        (False, r1) \<Rightarrow> (Inr (''ALREADY_RESOLVED'', Num 0), r1)
      | (True, r1) \<Rightarrow>
          let qty = store_number r1 resvKey; r2 = drop_key resvKey r1 in
          if mode = ''RELEASE'' then
            (case isLive stockKey now r2 of
               (lv, r3) \<Rightarrow>
                 let current = (if lv then store_number r3 stockKey else Num 0) in
                 (Inr (''RELEASED'', qty),
                  r3\<lparr>rm_store := jset stockKey (js_String (js_add current qty)) (rm_store r3)\<rparr>))
          else if mode = ''COMMIT'' then (Inr (''COMMITTED'', qty), r2)
          else (Inl (RedisReplyError ''INVALID_MODE''), r2))"

definition mem_eval :: "script \<Rightarrow> nat \<Rightarrow> redis_arg list \<Rightarrow> int \<Rightarrow> (redis_mem, reply) act" where
  "mem_eval script numKeys keysAndArgs now =
     (let keys = map arg_String (take numKeys keysAndArgs); args = drop numKeys keysAndArgs in
      if script = RESERVE_SCRIPT then evalReserve keys args now
      else if script = RELEASE_SCRIPT then evalRelease keys args now
      else throw UnknownScript)"

definition InMemoryRedis :: "redis_mem redis_like" where
  "InMemoryRedis = \<lparr>rl_eval = mem_eval, rl_get = mem_get, rl_set = mem_set, rl_del = mem_del, rl_quit = mem_quit\<rparr>"

section \<open>The abstraction to keys with an expiry\<close>

text \<open>
  What the client keeps true of its two maps when it is used by \<open>InventoryService\<close>: every
  stored value is the text of an integer, every expiry is a time and belongs to a stored key.
\<close>

definition mem_ok :: "redis_mem \<Rightarrow> bool" where
  "mem_ok r \<longleftrightarrow>
     (\<forall>k s. jget (rm_store r) k = Some s \<longrightarrow> (\<exists>n. s = int_string n)) \<and>
     (\<forall>k e. jget (rm_expiresAt r) k = Some e \<longrightarrow> (\<exists>t. e = Num t) \<and> jhas (rm_store r) k)"

definition entry_of :: "string option \<Rightarrow> jsnum option \<Rightarrow> (int \<times> int option) option" where
  "entry_of v e =
     (case v of None \<Rightarrow> None
      | Some s \<Rightarrow> (case js_Number s of
                    Num n \<Rightarrow> Some (n, case e of Some (Num t) \<Rightarrow> Some t | _ \<Rightarrow> None)
                  | _ \<Rightarrow> None))"

definition mem_kv :: "redis_mem \<Rightarrow> kv" where
  "mem_kv r k = entry_of (jget (rm_store r) k) (jget (rm_expiresAt r) k)"

lemma entry_of_simps [simp]:
  "entry_of None e = None"
  "entry_of (Some (int_string n)) None = Some (n, None)"
  "entry_of (Some (int_string n)) (Some (Num t)) = Some (n, Some t)"
  by (simp_all add: entry_of_def)

lemma mem_ok_new [simp]: "mem_ok new_redis_mem"
  by (simp add: mem_ok_def new_redis_mem_def)

lemma mem_okE:
  assumes "mem_ok r"
  obtains (absent) "jget (rm_store r) k = None" "jget (rm_expiresAt r) k = None" "mem_kv r k = None"
  | (forever) n where "jget (rm_store r) k = Some (int_string n)" "jget (rm_expiresAt r) k = None"
      "mem_kv r k = Some (n, None)"
  | (expiring) n t where "jget (rm_store r) k = Some (int_string n)" "jget (rm_expiresAt r) k = Some (Num t)"
      "mem_kv r k = Some (n, Some t)"
proof (cases "jget (rm_store r) k")
  case None
  then have "jget (rm_expiresAt r) k = None"
    using assms unfolding mem_ok_def jhas_def by (metis not_None_eq)
  with None show ?thesis using absent by (simp add: mem_kv_def)
next
  case (Some s)
  with assms obtain n where n: "s = int_string n" by (auto simp: mem_ok_def)
  show ?thesis
  proof (cases "jget (rm_expiresAt r) k")
    case None
    with Some n show ?thesis using forever by (simp add: mem_kv_def)
  next
    case (Some e)
    with assms obtain t where "e = Num t" unfolding mem_ok_def by blast
    with Some \<open>jget (rm_store r) k = Some s\<close> n show ?thesis using expiring by (simp add: mem_kv_def)
  qed
qed

lemma drop_key_ok [simp]: "mem_ok r \<Longrightarrow> mem_ok (drop_key k r)"
  by (auto simp: mem_ok_def drop_key_def jhas_def)

lemma drop_key_kv [simp]: "mem_kv (drop_key k r) = (mem_kv r)(k := None)"
  by (auto simp: mem_kv_def drop_key_def fun_eq_iff)

definition put_int :: "string \<Rightarrow> int \<Rightarrow> redis_mem \<Rightarrow> redis_mem" where
  "put_int k n r = r\<lparr>rm_store := jset k (int_string n) (rm_store r)\<rparr>"

definition put_int_until :: "string \<Rightarrow> int \<Rightarrow> int \<Rightarrow> redis_mem \<Rightarrow> redis_mem" where
  "put_int_until k n t r =
     r\<lparr>rm_store := jset k (int_string n) (rm_store r), rm_expiresAt := jset k (Num t) (rm_expiresAt r)\<rparr>"

lemma put_int_ok [simp]: "mem_ok r \<Longrightarrow> mem_ok (put_int k n r)"
  by (auto simp: mem_ok_def put_int_def jhas_def)

lemma put_int_kv [simp]:
  assumes "mem_ok r"
  shows "mem_kv (put_int k n r) = (mem_kv r)(k \<mapsto> (n, expiry (mem_kv r) k))"
proof
  fix k'
  show "mem_kv (put_int k n r) k' = ((mem_kv r)(k \<mapsto> (n, expiry (mem_kv r) k))) k'"
    by (rule mem_okE [OF assms, of k]) (auto simp: mem_kv_def put_int_def expiry_def)
qed

lemma put_int_until_ok [simp]: "mem_ok r \<Longrightarrow> mem_ok (put_int_until k n t r)"
  by (auto simp: mem_ok_def put_int_until_def jhas_def)

lemma put_int_until_kv [simp]: "mem_kv (put_int_until k n t r) = (mem_kv r)(k \<mapsto> (n, Some t))"
  by (auto simp: mem_kv_def put_int_until_def fun_eq_iff)

text \<open>
  Passive expiry: a key is live exactly when its abstract entry can be read now; a live key
  leaves the state alone, and a dead one ends up absent.
\<close>

lemma isLive_spec:
  assumes "mem_ok r"
  obtains (live) n where "isLive k now r = (True, r)" "lookup now (mem_kv r) k = Some n"
      "jget (rm_store r) k = Some (int_string n)"
  | (dead) r1 where "isLive k now r = (False, r1)" "lookup now (mem_kv r) k = None" "mem_ok r1"
      "mem_kv r1 = (mem_kv r)(k := None)"
proof (rule mem_okE [OF assms, of k])
  assume "jget (rm_store r) k = None" "jget (rm_expiresAt r) k = None" "mem_kv r k = None"
  then show ?thesis using assms dead [of r] by (simp add: isLive_def jhas_def lookup_def fun_upd_idem)
next
  fix n assume "jget (rm_store r) k = Some (int_string n)" "jget (rm_expiresAt r) k = None"
    "mem_kv r k = Some (n, None)"
  then show ?thesis using live [of n] by (simp add: isLive_def jhas_def lookup_def)
next
  fix n t assume e: "jget (rm_store r) k = Some (int_string n)" "jget (rm_expiresAt r) k = Some (Num t)"
    "mem_kv r k = Some (n, Some t)"
  show ?thesis
  proof (cases "t \<le> now")
    case True
    with e show ?thesis using assms dead [of "drop_key k r"] by (simp add: isLive_def lookup_def)
  next
    case False
    with e show ?thesis using live [of n] by (simp add: isLive_def jhas_def lookup_def)
  qed
qed

section \<open>Every operation implements the contract\<close>

lemma mem_get_refines:
  assumes "mem_ok r" and "mem_get k now r = (res, r')"
  shows "res = Inr (map_option int_string (lookup now (mem_kv r) k)) \<and> mem_ok r' \<and>
    kv_eq now (mem_kv r') (mem_kv r)"
  using assms(1)
proof (cases rule: isLive_spec [where k = k and now = now])
  case (live n)
  with assms show ?thesis by (auto simp: mem_get_def)
next
  case (dead r1)
  with assms show ?thesis by (auto simp: mem_get_def kv_eq_drop)
qed

lemma mem_set_refines:
  assumes "mem_ok r" and "mem_set k (int_string n) r = (res, r')"
  shows "res = Inr () \<and> mem_ok r' \<and> mem_kv r' = (mem_kv r)(k \<mapsto> (n, None))"
  using assms by (auto simp: mem_set_def mem_ok_def jhas_def mem_kv_def fun_eq_iff split: if_splits)

lemma mem_del_loop_ok: "mem_ok r \<Longrightarrow> mem_ok (snd (mem_del_loop ks now c r))"
proof (induction ks now c r rule: mem_del_loop.induct)
  case (2 key keys now count r)
  from "2.prems" show ?case
  proof (cases rule: isLive_spec [where k = key and now = now])
    case (live n)
    then show ?thesis using "2.IH" "2.prems" by simp
  next
    case (dead r1)
    then show ?thesis using "2.IH" [of False r1] by simp
  qed
qed simp

lemma mem_reserve_refines:
  assumes "mem_ok r" and "0 < q"
    and "evalReserve [sk, rk] [ANum (Num q), AStr rid, ANum (Num ttl)] now r = (res, r')"
  shows "res = Inr (fst (spec_reserve now sk rk q ttl (mem_kv r))) \<and> mem_ok r' \<and>
    kv_eq now (mem_kv r') (snd (spec_reserve now sk rk q ttl (mem_kv r)))"
  using assms(1)
proof (cases rule: isLive_spec [where k = sk and now = now])
  case (live a)
  show ?thesis
  proof (cases "a < q")
    case True
    with live assms show ?thesis
      by (auto simp: evalReserve_def Let_def key_at_def number_at_def spec_reserve_def store_number_def)
  next
    case False
    with live assms(2,3) have "res = Inr (''OK'', Num (a - q))"
      and "r' = put_int_until rk q (now + ttl * 1000) (put_int sk (a - q) r)"
      by (simp_all add: evalReserve_def Let_def key_at_def number_at_def store_number_def
          put_int_def put_int_until_def)
    with live False assms(1) show ?thesis by (simp add: spec_reserve_def)
  qed
next
  case (dead r1)
  with assms show ?thesis
    by (auto simp: evalReserve_def Let_def key_at_def number_at_def spec_reserve_def kv_eq_drop)
qed

lemma mem_resolve_refines:
  assumes "mem_ok r" and "evalRelease [sk, rk] [AStr mode] now r = (res, r')"
  shows "res = fst (spec_resolve now sk rk mode (mem_kv r)) \<and> mem_ok r' \<and>
    kv_eq now (mem_kv r') (snd (spec_resolve now sk rk mode (mem_kv r)))"
  using assms(1)
proof (cases rule: isLive_spec [where k = rk and now = now])
  case (live q)
  note res = assms(2) [unfolded evalRelease_def Let_def key_at_def string_at_def store_number_def]
  show ?thesis
  proof (cases "mode = ''RELEASE''")
    case True
    have ok1: "mem_ok (drop_key rk r)" using assms(1) by simp
    from ok1 show ?thesis
    proof (cases rule: isLive_spec [where k = sk and now = now])
      case live': (live a)
      with live True res have "res = Inr (''RELEASED'', Num q)" "r' = put_int sk (a + q) (drop_key rk r)"
        by (simp_all add: put_int_def)
      with live live' True ok1 show ?thesis by (simp add: spec_resolve_def Let_def)
    next
      case dead: (dead r1)
      with live True res have r': "res = Inr (''RELEASED'', Num q)" "r' = put_int sk q r1"
        by (simp_all add: put_int_def)
      have "mem_kv r' = ((mem_kv r)(rk := None))(sk \<mapsto> (q, None))"
        using dead by (simp add: r' expiry_def)
      with live dead True r' show ?thesis by (simp add: spec_resolve_def Let_def)
    qed
  next
    case False
    with live res assms(1) show ?thesis by (auto simp: spec_resolve_def Let_def split: if_splits)
  qed
next
  case (dead r1)
  with assms show ?thesis
    by (auto simp: evalRelease_def Let_def key_at_def spec_resolve_def kv_eq_drop)
qed

lemma mem_eval_reserve:
  "mem_eval RESERVE_SCRIPT 2 [AStr sk, AStr rk, q, rid, ttl] = evalReserve [sk, rk] [q, rid, ttl]"
  by (simp add: mem_eval_def fun_eq_iff)

lemma mem_eval_release: "mem_eval RELEASE_SCRIPT 2 [AStr sk, AStr rk, mode] = evalRelease [sk, rk] [mode]"
  by (simp add: mem_eval_def fun_eq_iff)

interpretation mem: stock_redis InMemoryRedis mem_kv mem_ok
proof (unfold_locales, goal_cases)
  case 1
  then show ?case using mem_get_refines by (simp add: InMemoryRedis_def)
next
  case 2
  then show ?case using mem_set_refines by (simp add: InMemoryRedis_def)
next
  case 3
  then show ?case using mem_reserve_refines by (simp add: InMemoryRedis_def mem_eval_reserve)
next
  case 4
  then show ?case using mem_resolve_refines by (simp add: InMemoryRedis_def mem_eval_release)
qed

end
