(* ===== verification/Lua_Scripts.thy ===== *)
theory Lua_Scripts
  imports Redis_Mem
begin

text \<open>
  The two scripts as they run inside a Redis server: \<open>src/inventory/reserve.lua\<close> and
  \<open>src/inventory/release.lua\<close> over the commands they call. The server is not part of the
  repository: its commands are the fields of a record the scripts take, and what the scripts
  rely on is a locale. Any such server implements the contract of the stock store; the native
  versions in \<open>inMemoryRedis.ts\<close> compute the same replies and the same state.
\<close>

section \<open>The commands of the server\<close>

record 'd redis_commands =
  rc_GET :: "string \<Rightarrow> int \<Rightarrow> ('d, string option) act"
  rc_SET :: "string \<Rightarrow> string \<Rightarrow> ('d, unit) act"
  rc_SET_EX :: "string \<Rightarrow> int \<Rightarrow> int \<Rightarrow> int \<Rightarrow> ('d, unit) act"
  rc_DEL :: "string list \<Rightarrow> int \<Rightarrow> ('d, int) act"
  rc_INCRBY :: "string \<Rightarrow> int \<Rightarrow> int \<Rightarrow> ('d, int) act"
  rc_DECRBY :: "string \<Rightarrow> int \<Rightarrow> int \<Rightarrow> ('d, int) act"
  rc_EVAL :: "string \<Rightarrow> string list \<Rightarrow> string list \<Rightarrow> int \<Rightarrow> ('d, reply) act"
  rc_QUIT :: "('d, unit) act"

section \<open>The scripts\<close>

text \<open>\<open>tonumber\<close> on a string, or on the missing value (\<open>false\<close> or \<open>nil\<close>).\<close>

definition lua_tonumber :: "string option \<Rightarrow> int option" where
  "lua_tonumber v =
     (case v of None \<Rightarrow> None
      | Some s \<Rightarrow> if js_trim s = [] then None
                  else (case js_Number s of Num n \<Rightarrow> Some n | _ \<Rightarrow> None))"

definition argv :: "string list \<Rightarrow> nat \<Rightarrow> string option" where
  "argv xs i = (if i < length xs then Some (xs ! i) else None)"

definition reserve_lua :: "'d redis_commands \<Rightarrow> string list \<Rightarrow> string list \<Rightarrow> int \<Rightarrow> ('d, reply) act" where
  "reserve_lua C keys args now =
     (let stockKey = key_at keys 0; resvKey = key_at keys 1;
          qty = lua_tonumber (argv args 0); ttl = lua_tonumber (argv args 2) in
      case qty of
        None \<Rightarrow> throw (RedisReplyError ''INVALID_QTY'')
      | Some q \<Rightarrow>
          if q \<le> 0 then throw (RedisReplyError ''INVALID_QTY'')
          else bind (rc_GET C stockKey now) (\<lambda>v.
            case lua_tonumber v of
              None \<Rightarrow> ret (''UNKNOWN_SKU'', Num 0)
            | Some available \<Rightarrow>
                if available < q then ret (''INSUFFICIENT_STOCK'', Num available)
                else bind (rc_DECRBY C stockKey q now) (\<lambda>_.
                  bind (case ttl of
                          None \<Rightarrow> throw (RedisReplyError ''ERR'')
                        | Some t \<Rightarrow> rc_SET_EX C resvKey q t now) (\<lambda>_.
                    ret (''OK'', Num (available - q))))))"

definition release_lua :: "'d redis_commands \<Rightarrow> string list \<Rightarrow> string list \<Rightarrow> int \<Rightarrow> ('d, reply) act" where
  "release_lua C keys args now =
     (let stockKey = key_at keys 0; resvKey = key_at keys 1; mode = argv args 0 in
      bind (rc_GET C resvKey now) (\<lambda>v.
        case lua_tonumber v of
          None \<Rightarrow> ret (''ALREADY_RESOLVED'', Num 0)
        | Some qty \<Rightarrow>
            bind (rc_DEL C [resvKey] now) (\<lambda>_.
              if mode = Some ''RELEASE'' then
                bind (rc_INCRBY C stockKey qty now) (\<lambda>_. ret (''RELEASED'', Num qty))
              else if mode = Some ''COMMIT'' then ret (''COMMITTED'', Num qty)
              else throw (RedisReplyError ''INVALID_MODE''))))"

text \<open>\<open>EVAL\<close> as \<open>RawRespClient\<close> sends it: every argument as a string.\<close>

definition server_eval :: "'d redis_commands \<Rightarrow> script \<Rightarrow> nat \<Rightarrow> redis_arg list \<Rightarrow> int \<Rightarrow> ('d, reply) act" where
  "server_eval C script numKeys keysAndArgs now =
     (let all = map arg_String keysAndArgs; keys = take numKeys all; args = drop numKeys all in
      case script of
        RESERVE_SCRIPT \<Rightarrow> reserve_lua C keys args now
      | RELEASE_SCRIPT \<Rightarrow> release_lua C keys args now
      | OtherScript s \<Rightarrow> rc_EVAL C s keys args now)"

definition server_client :: "'d redis_commands \<Rightarrow> 'd redis_like" where
  "server_client C =
     \<lparr>rl_eval = server_eval C, rl_get = rc_GET C, rl_set = rc_SET C, rl_del = rc_DEL C, rl_quit = rc_QUIT C\<rparr>"

section \<open>What the scripts rely on\<close>

definition spec_incrby :: "int \<Rightarrow> string \<Rightarrow> int \<Rightarrow> kv \<Rightarrow> kv" where
  "spec_incrby now k n m =
     (case lookup now m k of
        None \<Rightarrow> m(k \<mapsto> (n, None))
      | Some a \<Rightarrow> m(k \<mapsto> (a + n, expiry m k)))"

text \<open>
  The documented behaviour of the commands on integer values: \<open>GET\<close> of an absent or expired key
  is nil; \<open>SET\<close> clears an expiry; \<open>SET ... EX\<close> with a positive time sets one; \<open>INCRBY\<close> and
  \<open>DECRBY\<close> start from 0 at an absent key and keep the expiry of a present one.
\<close>

locale redis_server =
  fixes C :: "'d redis_commands"
    and kv_of :: "'d \<Rightarrow> kv"
    and invar :: "'d \<Rightarrow> bool"
  assumes GET_law: "\<And>d k now. invar d \<Longrightarrow>
      \<exists>d'. rc_GET C k now d = (Inr (map_option int_string (lookup now (kv_of d) k)), d') \<and> invar d' \<and>
           kv_eq now (kv_of d') (kv_of d)"
    and SET_law: "\<And>d k n. invar d \<Longrightarrow>
      \<exists>d'. rc_SET C k (int_string n) d = (Inr (), d') \<and> invar d' \<and> kv_of d' = (kv_of d)(k \<mapsto> (n, None))"
    and SET_EX_law: "\<And>d k n ttl now. invar d \<Longrightarrow> 0 < ttl \<Longrightarrow>
      \<exists>d'. rc_SET_EX C k n ttl now d = (Inr (), d') \<and> invar d' \<and>
           kv_eq now (kv_of d') ((kv_of d)(k \<mapsto> (n, Some (now + ttl * 1000))))"
    and DEL_law: "\<And>d k now. invar d \<Longrightarrow>
      \<exists>c d'. rc_DEL C [k] now d = (Inr c, d') \<and> invar d' \<and> kv_eq now (kv_of d') ((kv_of d)(k := None))"
    and INCRBY_law: "\<And>d k n now. invar d \<Longrightarrow>
      \<exists>c d'. rc_INCRBY C k n now d = (Inr c, d') \<and> invar d' \<and> kv_eq now (kv_of d') (spec_incrby now k n (kv_of d))"
    and DECRBY_law: "\<And>d k n now. invar d \<Longrightarrow>
      \<exists>c d'. rc_DECRBY C k n now d = (Inr c, d') \<and> invar d' \<and>
           kv_eq now (kv_of d') (spec_incrby now k (- n) (kv_of d))"

lemma int_string_not_blank: "js_trim (int_string n) \<noteq> []"
proof
  assume "js_trim (int_string n) = []"
  then have "js_Number (int_string n) = Num 0" by (simp add: js_Number_def)
  then have "n = 0" by simp
  with \<open>js_trim (int_string n) = []\<close> show False
    by (simp add: int_string_def nat_string.simps digit_char_def js_trim_def is_space_def)
qed

lemma lua_tonumber_simps [simp]:
  "lua_tonumber None = None"
  "lua_tonumber (Some (int_string n)) = Some n"
  "lua_tonumber (map_option int_string v) = v"
  using int_string_not_blank by (cases v; simp add: lua_tonumber_def)+

lemma argv_simps [simp]:
  "argv (x # xs) 0 = Some x" "argv (x # xs) (Suc i) = argv xs i" "argv (x # y # z # xs) 2 = Some z"
  by (simp_all add: argv_def)

text \<open>The contract in terms of what is read: two maps that read the same give the same reply and
  maps that read the same.\<close>

lemma spec_incrby_lookup:
  "now \<le> t \<Longrightarrow> lookup t (spec_incrby now k n m) k' =
     (if k' = k then (case lookup now m k of None \<Rightarrow> Some n | Some a \<Rightarrow> map_option (\<lambda>a. a + n) (lookup t m k))
      else lookup t m k')"
  by (auto simp: spec_incrby_def expiry_def lookup_def split: option.splits if_splits)

lemma spec_incrby_cong: "kv_eq now m m' \<Longrightarrow> kv_eq now (spec_incrby now k n m) (spec_incrby now k n m')"
  by (simp add: kv_eq_def spec_incrby_lookup split: option.splits)

section \<open>The scripts implement the contract on every such server\<close>

lemma spec_reserve_as_commands:
  "lookup now m sk = Some a \<Longrightarrow> \<not> a < q \<Longrightarrow>
     snd (spec_reserve now sk rk q ttl m) = (spec_incrby now sk (- q) m)(rk \<mapsto> (q, Some (now + ttl * 1000)))"
  by (simp add: spec_reserve_def spec_incrby_def)

lemma spec_resolve_as_commands:
  "lookup now m rk = Some q \<Longrightarrow>
     snd (spec_resolve now sk rk mode m) =
       (if mode = ''RELEASE'' then spec_incrby now sk q (m(rk := None)) else m(rk := None))"
  by (simp add: spec_resolve_def spec_incrby_def Let_def)

context redis_server
begin

lemma reserve_lua_refines:
  assumes "invar d" and "0 < q" and "0 < ttl"
  shows "\<exists>d'. reserve_lua C [sk, rk] [int_string q, rid, int_string ttl] now d
            = (Inr (fst (spec_reserve now sk rk q ttl (kv_of d))), d') \<and> invar d' \<and>
          kv_eq now (kv_of d') (snd (spec_reserve now sk rk q ttl (kv_of d)))"
proof -
  let ?m = "kv_of d"
  from GET_law [OF assms(1)] obtain d1 where
    get: "rc_GET C sk now d = (Inr (map_option int_string (lookup now ?m sk)), d1)"
    and d1: "invar d1" "kv_eq now (kv_of d1) ?m" by blast
  note run = reserve_lua_def Let_def key_at_def bind_apply get spec_reserve_reply
  show ?thesis
  proof (cases "\<exists>a. lookup now ?m sk = Some a \<and> \<not> a < q")
    case False
    with assms d1 show ?thesis by (auto simp: run spec_reserve_def split: option.splits)
  next
    case True
    then obtain a where a: "lookup now ?m sk = Some a" "\<not> a < q" by blast
    from DECRBY_law [OF d1(1)] obtain c d2 where
      decr: "rc_DECRBY C sk q now d1 = (Inr c, d2)"
      and d2: "invar d2" "kv_eq now (kv_of d2) (spec_incrby now sk (- q) (kv_of d1))" by blast
    from SET_EX_law [OF d2(1) assms(3)] obtain d3 where
      set: "rc_SET_EX C rk q ttl now d2 = (Inr (), d3)"
      and d3: "invar d3" "kv_eq now (kv_of d3) ((kv_of d2)(rk \<mapsto> (q, Some (now + ttl * 1000))))" by blast
    have "kv_eq now (kv_of d3) ((spec_incrby now sk (- q) ?m)(rk \<mapsto> (q, Some (now + ttl * 1000))))"
      by (rule kv_eq_trans [OF d3(2) kv_eq_update]) (rule kv_eq_trans [OF d2(2) spec_incrby_cong [OF d1(2)]])
    with a assms d3(1) show ?thesis
      by (simp add: run decr set spec_reserve_as_commands)
  qed
qed

lemma release_lua_refines:
  assumes "invar d"
  shows "\<exists>d'. release_lua C [sk, rk] [mode] now d
            = (fst (spec_resolve now sk rk mode (kv_of d)), d') \<and> invar d' \<and>
          kv_eq now (kv_of d') (snd (spec_resolve now sk rk mode (kv_of d)))"
proof -
  let ?m = "kv_of d"
  from GET_law [OF assms(1)] obtain d1 where
    get: "rc_GET C rk now d = (Inr (map_option int_string (lookup now ?m rk)), d1)"
    and d1: "invar d1" "kv_eq now (kv_of d1) ?m" by blast
  note run = release_lua_def Let_def key_at_def bind_apply get spec_resolve_reply
  show ?thesis
  proof (cases "lookup now ?m rk")
    case None
    with d1 show ?thesis by (simp add: run spec_resolve_def)
  next
    case (Some q)
    from DEL_law [OF d1(1)] obtain c d2 where
      del: "rc_DEL C [rk] now d1 = (Inr c, d2)"
      and d2: "invar d2" "kv_eq now (kv_of d2) ((kv_of d1)(rk := None))" by blast
    have m2: "kv_eq now (kv_of d2) (?m(rk := None))"
      by (rule kv_eq_trans [OF d2(2) kv_eq_update [OF d1(2)]])
    from INCRBY_law [OF d2(1)] obtain c' d3 where
      incr: "rc_INCRBY C sk q now d2 = (Inr c', d3)"
      and d3: "invar d3" "kv_eq now (kv_of d3) (spec_incrby now sk q (kv_of d2))" by blast
    have "kv_eq now (kv_of d3) (spec_incrby now sk q (?m(rk := None)))"
      by (rule kv_eq_trans [OF d3(2) spec_incrby_cong [OF m2]])
    with Some d2(1) d3(1) m2 show ?thesis
      by (simp add: run del incr spec_resolve_as_commands)
  qed
qed

end

lemma server_eval_reserve:
  "server_eval C RESERVE_SCRIPT 2 [AStr sk, AStr rk, ANum (Num q), AStr rid, ANum (Num ttl)] now
     = reserve_lua C [sk, rk] [int_string q, rid, int_string ttl] now"
  by (simp add: server_eval_def)

lemma server_eval_release:
  "server_eval C RELEASE_SCRIPT 2 [AStr sk, AStr rk, AStr mode] now = release_lua C [sk, rk] [mode] now"
  by (simp add: server_eval_def)

sublocale redis_server \<subseteq> srv: stock_redis "server_client C" kv_of invar
proof (unfold_locales, goal_cases)
  case (1 r k now res r')
  then show ?case using GET_law [of r k now] by (auto simp: server_client_def)
next
  case (2 r k n res r')
  then show ?case using SET_law [of r k n] by (auto simp: server_client_def)
next
  case (3 r sk rk q rid ttl now res r')
  then show ?case using reserve_lua_refines [of r q ttl sk rk rid now]
    by (auto simp: server_client_def server_eval_reserve)
next
  case (4 r sk rk mode now res r')
  then show ?case using release_lua_refines [of r sk rk mode now]
    by (auto simp: server_client_def server_eval_release)
qed

text \<open>The same as a fact about any server, without the locale around it.\<close>

context redis_server
begin

lemma server_is_stock_redis: "stock_redis (server_client C) kv_of invar"
  by unfold_locales

end

section \<open>The commands the native versions inline\<close>

text \<open>
  The statements of \<open>evalReserve\<close> and \<open>evalRelease\<close> that stand for a command: lines 105 and
  106 for \<open>DECRBY\<close>, 107 and 108 for \<open>SET ... EX\<close>, 124 and 125 for \<open>INCRBY\<close>.
\<close>

definition mem_incrby :: "string \<Rightarrow> int \<Rightarrow> int \<Rightarrow> (redis_mem, int) act" where
  "mem_incrby key n now r =
     (case isLive key now r of
        (lv, r1) \<Rightarrow>
          (let current = (if lv then store_number r1 key else Num 0); v = js_add current (Num n) in
           (Inr (case v of Num i \<Rightarrow> i | _ \<Rightarrow> 0), r1\<lparr>rm_store := jset key (js_String v) (rm_store r1)\<rparr>)))"

definition mem_set_ex :: "string \<Rightarrow> int \<Rightarrow> int \<Rightarrow> int \<Rightarrow> (redis_mem, unit) act" where
  "mem_set_ex key n ttl now r =
     (Inr (), r\<lparr>rm_store := jset key (js_String (Num n)) (rm_store r),
               rm_expiresAt := jset key (js_add (Num now) (times_1000 (Num ttl))) (rm_expiresAt r)\<rparr>)"

definition mem_commands :: "redis_mem redis_commands" where
  "mem_commands =
     \<lparr>rc_GET = mem_get, rc_SET = mem_set, rc_SET_EX = mem_set_ex, rc_DEL = mem_del, rc_INCRBY = mem_incrby,
      rc_DECRBY = (\<lambda>k n. mem_incrby k (- n)), rc_EVAL = (\<lambda>_ _ _ _. throw UnknownScript), rc_QUIT = mem_quit\<rparr>"

lemma mem_incrby_refines:
  assumes "mem_ok r"
  shows "\<exists>c r'. mem_incrby k n now r = (Inr c, r') \<and> mem_ok r' \<and>
    kv_eq now (mem_kv r') (spec_incrby now k n (mem_kv r))"
  using assms
proof (cases rule: isLive_spec [where k = k and now = now])
  case (live a)
  then have "mem_incrby k n now r = (Inr (a + n), put_int k (a + n) r)"
    by (simp add: mem_incrby_def store_number_def put_int_def)
  with live assms show ?thesis by (simp add: spec_incrby_def)
next
  case (dead r1)
  then have r': "mem_incrby k n now r = (Inr n, put_int k n r1)"
    by (simp add: mem_incrby_def put_int_def)
  have "mem_kv (put_int k n r1) = (mem_kv r)(k \<mapsto> (n, None))"
    using dead by (simp add: expiry_def)
  with dead r' show ?thesis by (simp add: spec_incrby_def)
qed

lemma mem_del_refines:
  assumes "mem_ok r"
  shows "\<exists>c r'. mem_del [k] now r = (Inr c, r') \<and> mem_ok r' \<and> kv_eq now (mem_kv r') ((mem_kv r)(k := None))"
  using assms
proof (cases rule: isLive_spec [where k = k and now = now])
  case (live a)
  with assms show ?thesis by (simp add: mem_del_def)
next
  case (dead r1)
  then show ?thesis by (simp add: mem_del_def)
qed

lemma mem_set_ex_put: "mem_set_ex k n ttl now r = (Inr (), put_int_until k n (now + ttl * 1000) r)"
  by (simp add: mem_set_ex_def put_int_until_def)

interpretation memsrv: redis_server mem_commands mem_kv mem_ok
proof (unfold_locales, goal_cases)
  case (1 d k now)
  then show ?case using mem_get_refines [of d k now] by (cases "mem_get k now d") (auto simp: mem_commands_def)
next
  case (2 d k n)
  then show ?case using mem_set_refines [of d k n] by (cases "mem_set k (int_string n) d") (auto simp: mem_commands_def)
next
  case (3 d k n ttl now)
  then show ?case by (simp add: mem_commands_def mem_set_ex_put)
next
  case (4 d k now)
  then show ?case using mem_del_refines [of d k now] by (simp add: mem_commands_def)
next
  case (5 d k n now)
  then show ?case using mem_incrby_refines [of d k n now] by (simp add: mem_commands_def)
next
  case (6 d k n now)
  then show ?case using mem_incrby_refines [of d k "- n" now] by (simp add: mem_commands_def)
qed

end
