(* ===== verification/Json.thy ===== *)
theory Json
  imports Js_Value
begin

text \<open>
  \<open>JSON.stringify\<close> on the values of \<open>json\<close>: the text of the server-sent events, of the Kafka
  messages and of the keys of the labelled counters. The quoted form of a string is shown
  uniquely readable, hence the text of a string-valued object determines its fields.
\<close>

section \<open>Quoting a string\<close>

definition hex_digit :: "nat \<Rightarrow> char" where
  "hex_digit d = (if d < 10 then char_of (48 + d) else char_of (87 + d))"

definition escape_char :: "char \<Rightarrow> string" where
  "escape_char c = (let n = of_char c :: nat in
     if c = CHR 0x22 then [CHR 0x5C, CHR 0x22]
     else if c = CHR 0x5C then [CHR 0x5C, CHR 0x5C]
     else if n = 8 then [CHR 0x5C, CHR ''b'']
     else if n = 9 then [CHR 0x5C, CHR ''t'']
     else if n = 10 then [CHR 0x5C, CHR ''n'']
     else if n = 12 then [CHR 0x5C, CHR ''f'']
     else if n = 13 then [CHR 0x5C, CHR ''r'']
     else if n < 32 then [CHR 0x5C, CHR ''u'', CHR ''0'', CHR ''0'', hex_digit (n div 16), hex_digit (n mod 16)]
     else [c])"

definition json_quote :: "string \<Rightarrow> string" where
  "json_quote s = CHR 0x22 # concat (map escape_char s) @ [CHR 0x22]"

section \<open>JSON.stringify\<close>

fun json_text :: "json \<Rightarrow> string" where
  "json_text JNull = ''null''"
| "json_text (JBool b) = (if b then ''true'' else ''false'')"
| "json_text (JNum x) = (if is_finite x then js_String x else ''null'')"
| "json_text (JStr s) = json_quote s"
| "json_text (JArr xs) = ''['' @ js_join '','' (map json_text xs) @ '']''"
| "json_text (JObj fs) =
     CHR ''{'' # js_join '','' (map (\<lambda>(k, v). json_quote k @ '':'' @ json_text v) fs) @ ''}''"

section \<open>The quoted form is uniquely readable\<close>

text \<open>Reading one escaped character back.\<close>

definition unhex :: "char \<Rightarrow> nat" where
  "unhex c = (let n = of_char c :: nat in if n < 58 then n - 48 else n - 87)"

fun unescape :: "string \<Rightarrow> (char \<times> string) option" where
  "unescape [] = None"
| "unescape (c # r) =
     (if c \<noteq> CHR 0x5C then Some (c, r)
      else case r of
        [] \<Rightarrow> None
      | d # r' \<Rightarrow>
          (if d = CHR ''b'' then Some (char_of (8::nat), r')
           else if d = CHR ''t'' then Some (char_of (9::nat), r')
           else if d = CHR ''n'' then Some (char_of (10::nat), r')
           else if d = CHR ''f'' then Some (char_of (12::nat), r')
           else if d = CHR ''r'' then Some (char_of (13::nat), r')
           else if d = CHR ''u'' then
             (case r' of _ # _ # h # l # r'' \<Rightarrow> Some (char_of (16 * unhex h + unhex l), r'') | _ \<Rightarrow> None)
           else Some (d, r')))"

lemma unhex_hex_digit: "d < 16 \<Longrightarrow> unhex (hex_digit d) = d"
  by (auto simp: unhex_def hex_digit_def Let_def)

lemma unescape_escape: "unescape (escape_char c @ r) = Some (c, r)"
proof -
  have "char_of (16 * unhex (hex_digit (of_char c div 16)) + unhex (hex_digit (of_char c mod 16))) = c"
    if "(of_char c :: nat) < 32"
    using that by (simp add: unhex_hex_digit)
  moreover have "c = char_of n" if "of_char c = (n::nat)" for n
    using that by (metis char_of_char)
  ultimately show ?thesis by (auto simp: escape_char_def Let_def)
qed

lemma escape_not_quote: "escape_char c = q # r \<Longrightarrow> q \<noteq> CHR 0x22"
  by (auto simp: escape_char_def Let_def split: if_splits)

lemma escape_nonempty [simp]: "escape_char c \<noteq> []"
  by (auto simp: escape_char_def Let_def)

lemma escaped_inject:
  "concat (map escape_char s) @ CHR 0x22 # r = concat (map escape_char s') @ CHR 0x22 # r'
     \<Longrightarrow> s = s' \<and> r = r'"
proof (induction s arbitrary: s')
  case Nil
  show ?case
  proof (cases s')
    case Nil
    with Nil.prems show ?thesis by simp
  next
    case (Cons c t)
    obtain q e where "escape_char c = q # e" by (cases "escape_char c") auto
    with Nil.prems Cons escape_not_quote show ?thesis by fastforce
  qed
next
  case (Cons c s)
  show ?case
  proof (cases s')
    case Nil
    obtain q e where "escape_char c = q # e" by (cases "escape_char c") auto
    with Cons.prems Nil escape_not_quote show ?thesis by fastforce
  next
    case s': (Cons d t)
    let ?l = "concat (map escape_char s) @ CHR 0x22 # r"
    let ?m = "concat (map escape_char t) @ CHR 0x22 # r'"
    have "escape_char c @ ?l = escape_char d @ ?m" using Cons.prems s' by simp
    then have "unescape (escape_char c @ ?l) = unescape (escape_char d @ ?m)" by simp
    then have "c = d" "?l = ?m" by (simp_all add: unescape_escape)
    with Cons.IH [of t] s' show ?thesis by simp
  qed
qed

lemma json_quote_inject: "json_quote s @ r = json_quote s' @ r' \<Longrightarrow> s = s' \<and> r = r'"
  using escaped_inject [of s r s' r'] by (simp add: json_quote_def)

lemma json_quote_hd: "json_quote s = CHR 0x22 # concat (map escape_char s) @ [CHR 0x22]"
  by (simp add: json_quote_def)

text \<open>The text of an object whose values are strings determines its fields.\<close>

abbreviation str_fields :: "(string \<times> string) list \<Rightarrow> (string \<times> json) list" where
  "str_fields ls \<equiv> map (\<lambda>(k, v). (k, JStr v)) ls"

definition str_field_text :: "string \<times> string \<Rightarrow> string" where
  "str_field_text p = json_quote (fst p) @ '':'' @ json_quote (snd p)"

lemma str_field_text_inject:
  "str_field_text p @ r = str_field_text q @ r' \<Longrightarrow> p = q \<and> r = r'"
proof -
  assume a: "str_field_text p @ r = str_field_text q @ r'"
  then have "json_quote (fst p) @ (CHR '':'' # json_quote (snd p) @ r)
      = json_quote (fst q) @ (CHR '':'' # json_quote (snd q) @ r')"
    by (simp add: str_field_text_def)
  from json_quote_inject [OF this] have 1: "fst p = fst q"
    and 2: "json_quote (snd p) @ r = json_quote (snd q) @ r'" by auto
  from json_quote_inject [OF 2] 1 show ?thesis by (simp add: prod_eq_iff)
qed

lemma join_fields_Cons:
  "js_join '','' (map str_field_text (p # ls)) @ ''}''
     = str_field_text p @ (if ls = [] then ''}'' else CHR '','' # js_join '','' (map str_field_text ls) @ ''}'')"
  by (cases ls) simp_all

lemma str_field_text_start: "\<exists>t. str_field_text p = CHR 0x22 # t"
  by (simp add: str_field_text_def json_quote_def)

lemma join_fields_inject:
  "js_join '','' (map str_field_text ls) @ ''}'' = js_join '','' (map str_field_text ms) @ ''}'' \<Longrightarrow> ls = ms"
proof (induction ls arbitrary: ms)
  case Nil
  then show ?case
  proof (cases ms)
    case (Cons p ms')
    from Nil have "''}'' = js_join '','' (map str_field_text (p # ms')) @ ''}''" by (simp add: Cons)
    with str_field_text_start [of p] show ?thesis by (auto simp: join_fields_Cons simp del: list.map)
  qed simp
next
  case (Cons p ls)
  show ?case
  proof (cases ms)
    case Nil
    with Cons.prems have "js_join '','' (map str_field_text (p # ls)) @ ''}'' = ''}''" by simp
    with str_field_text_start [of p] show ?thesis by (auto simp: join_fields_Cons simp del: list.map)
  next
    case ms: (Cons q ms')
    from str_field_text_inject [OF Cons.prems [unfolded ms join_fields_Cons]] have "p = q"
      and rest: "(if ls = [] then ''}'' else CHR '','' # js_join '','' (map str_field_text ls) @ ''}'')
        = (if ms' = [] then ''}'' else CHR '','' # js_join '','' (map str_field_text ms') @ ''}'')"
      by blast+
    from rest have "ls = ms'"
      using Cons.IH [of ms'] by (auto split: if_splits)
    with \<open>p = q\<close> ms show ?thesis by simp
  qed
qed

lemma json_text_str_fields:
  "json_text (JObj (str_fields ls)) = CHR ''{'' # js_join '','' (map str_field_text ls) @ ''}''"
proof -
  have "(\<lambda>(k, v). json_quote k @ '':'' @ json_text v) \<circ> (\<lambda>(k, v). (k, JStr v)) = str_field_text"
    by (auto simp: fun_eq_iff str_field_text_def)
  then show ?thesis by (simp only: json_text.simps map_map)
qed

lemma json_text_str_fields_inject:
  "json_text (JObj (str_fields ls)) = json_text (JObj (str_fields ms)) \<longleftrightarrow> ls = ms"
  using join_fields_inject [of ls ms] by (auto simp only: json_text_str_fields list.inject)

end
