(* ===== verification/Metrics.thy ===== *)
theory Metrics
  imports Json Complex_Main
begin

text \<open>
  \<open>src/metrics/metrics.ts\<close>: the labelled counters, the latency histogram with its
  percentiles, and the two snapshots. Samples and quantiles are rationals: the rounding of
  the double product \<open>length * p\<close> is outside the model.
\<close>

section \<open>Counter\<close>

type_synonym labels = "(string \<times> string) list"

record labeled_count =
  lc_labels :: labels
  lc_count :: int

record counter =
  ct_name :: string
  ct_help :: string
  ct_counts :: "(string, labeled_count) jmap"

definition new_counter :: "string \<Rightarrow> string \<Rightarrow> counter" where
  "new_counter name help = \<lparr>ct_name = name, ct_help = help, ct_counts = []\<rparr>"

definition labels_key :: "labels \<Rightarrow> string" where
  "labels_key ls = json_text (JObj (str_fields ls))"

definition inc :: "labels \<Rightarrow> counter \<Rightarrow> counter" where
  "inc ls c =
     (let key = labels_key ls in
      case jget (ct_counts c) key of
        Some existing \<Rightarrow> c\<lparr>ct_counts := jset key (existing\<lparr>lc_count := lc_count existing + 1\<rparr>) (ct_counts c)\<rparr>
      | None \<Rightarrow> c\<lparr>ct_counts := jset key \<lparr>lc_labels = ls, lc_count = 1\<rparr> (ct_counts c)\<rparr>)"

definition total :: "counter \<Rightarrow> int" where
  "total c = fold (\<lambda>e sum. sum + lc_count e) (jvalues (ct_counts c)) 0"

definition add_label_count :: "string \<Rightarrow> labeled_count \<Rightarrow> (string, int) jmap \<Rightarrow> (string, int) jmap" where
  "add_label_count labelKey e out =
     (case jget (lc_labels e) labelKey of
        None \<Rightarrow> out
      | Some v \<Rightarrow> jset v ((case jget out v of None \<Rightarrow> 0 | Some n \<Rightarrow> n) + lc_count e) out)"

definition byLabel :: "string \<Rightarrow> counter \<Rightarrow> (string, int) jmap" where
  "byLabel labelKey c = fold (add_label_count labelKey) (jvalues (ct_counts c)) []"

definition formatLabels :: "labels \<Rightarrow> string" where
  "formatLabels ls =
     (if ls = [] then ''''
      else ''{'' @ js_join '','' (map (\<lambda>(k, v). k @ ''='' @ [CHR 0x22] @ v @ [CHR 0x22]) ls) @ ''}'')"

definition newline :: string where
  "newline = [CHR 0x0A]"

definition counter_text :: "counter \<Rightarrow> string" where
  "counter_text c =
     js_join newline
       ([''# HELP '' @ ct_name c @ '' '' @ ct_help c, ''# TYPE '' @ ct_name c @ '' counter'']
        @ (if ct_counts c = [] then [ct_name c @ '' 0'']
           else map (\<lambda>e. ct_name c @ formatLabels (lc_labels e) @ '' '' @ int_string (lc_count e))
                  (jvalues (ct_counts c))))"

section \<open>Histogram\<close>

record histogram =
  hg_name :: string
  hg_help :: string
  hg_samples :: "rat list"

definition new_histogram :: "string \<Rightarrow> string \<Rightarrow> histogram" where
  "new_histogram name help = \<lparr>hg_name = name, hg_help = help, hg_samples = []\<rparr>"

definition observe :: "rat \<Rightarrow> histogram \<Rightarrow> histogram" where
  "observe v h = h\<lparr>hg_samples := hg_samples h @ [v]\<rparr>"

definition percentile :: "rat \<Rightarrow> histogram \<Rightarrow> rat" where
  "percentile p h =
     (if hg_samples h = [] then 0
      else sort (hg_samples h) ! min (length (hg_samples h) - 1) (nat \<lfloor>of_nat (length (hg_samples h)) * p\<rfloor>))"

text \<open>\<open>x.toFixed(f)\<close>: the decimal with \<open>f\<close> digits nearest to \<open>x\<close>, the larger one on a tie
  (for a negative number, of its absolute value).\<close>

definition fixed_units :: "nat \<Rightarrow> rat \<Rightarrow> int" where
  "fixed_units f x = (if x < 0 then - \<lfloor>- x * 10 ^ f + 1 / 2\<rfloor> else \<lfloor>x * 10 ^ f + 1 / 2\<rfloor>)"

definition toFixed_text :: "nat \<Rightarrow> rat \<Rightarrow> string" where
  "toFixed_text f x =
     (let n = nat \<bar>fixed_units f x\<bar>; frac = nat_string (n mod 10 ^ f) in
      (if x < 0 then ''-'' else '''') @ nat_string (n div 10 ^ f)
        @ (if f = 0 then '''' else ''.'' @ replicate (f - length frac) (CHR ''0'') @ frac))"

definition toFixed_number :: "nat \<Rightarrow> rat \<Rightarrow> rat" where
  "toFixed_number f x = of_int (fixed_units f x) / 10 ^ f"

record latency_snapshot =
  ls_p50 :: rat
  ls_p90 :: rat
  ls_p95 :: rat
  ls_p99 :: rat
  ls_count :: nat

definition snapshot :: "histogram \<Rightarrow> latency_snapshot" where
  "snapshot h =
     \<lparr>ls_p50 = toFixed_number 3 (percentile (1/2) h), ls_p90 = toFixed_number 3 (percentile (9/10) h),
      ls_p95 = toFixed_number 3 (percentile (19/20) h), ls_p99 = toFixed_number 3 (percentile (99/100) h),
      ls_count = length (hg_samples h)\<rparr>"

definition quantile_line :: "histogram \<Rightarrow> string \<times> rat \<Rightarrow> string" where
  "quantile_line h q =
     hg_name h @ ''{quantile='' @ [CHR 0x22] @ fst q @ [CHR 0x22] @ ''} '' @ toFixed_text 4 (percentile (snd q) h)"

definition histogram_text :: "histogram \<Rightarrow> string" where
  "histogram_text h =
     js_join newline
       ([''# HELP '' @ hg_name h @ '' '' @ hg_help h, ''# TYPE '' @ hg_name h @ '' summary'']
        @ map (quantile_line h) [(''0.5'', 1/2), (''0.9'', 9/10), (''0.95'', 19/20), (''0.99'', 99/100)]
        @ [hg_name h @ ''_count '' @ nat_string (length (hg_samples h))])"

section \<open>The process-wide metrics\<close>

record metrics =
  reservationsAccepted :: counter
  reservationsRejected :: counter
  sagaOutcomes :: counter
  reservationLatency :: histogram

definition init_metrics :: metrics where
  "init_metrics =
     \<lparr>reservationsAccepted = new_counter ''reservations_accepted_total'' ''Total accepted inventory reservations'',
      reservationsRejected = new_counter ''reservations_rejected_total''
        ''Total rejected inventory reservations (insufficient stock)'',
      sagaOutcomes = new_counter ''saga_outcomes_total'' ''Order saga outcomes by final status'',
      reservationLatency = new_histogram ''reservation_latency_ms''
        ''Latency of InventoryService.reserve() calls, in milliseconds''\<rparr>"

definition metricsSnapshotText :: "metrics \<Rightarrow> string" where
  "metricsSnapshotText m =
     js_join (newline @ newline)
       [counter_text (reservationsAccepted m), counter_text (reservationsRejected m),
        counter_text (sagaOutcomes m), histogram_text (reservationLatency m)] @ newline"

record metrics_summary =
  ms_reservationsAccepted :: int
  ms_reservationsRejected :: int
  ms_sagaOutcomes :: "(string, int) jmap"
  ms_reservationLatencyMs :: latency_snapshot

definition metricsSnapshotJson :: "metrics \<Rightarrow> metrics_summary" where
  "metricsSnapshotJson m =
     \<lparr>ms_reservationsAccepted = total (reservationsAccepted m),
      ms_reservationsRejected = total (reservationsRejected m),
      ms_sagaOutcomes = byLabel ''status'' (sagaOutcomes m),
      ms_reservationLatencyMs = snapshot (reservationLatency m)\<rparr>"

section \<open>Counting is exact\<close>

text \<open>
  Every entry sits under the key of its own labels. Since the text of the labels determines
  them, two label sets never share an entry.
\<close>

definition counter_ok :: "counter \<Rightarrow> bool" where
  "counter_ok c \<longleftrightarrow> jmap_ok (ct_counts c) \<and>
     (\<forall>k e. (k, e) \<in> set (ct_counts c) \<longrightarrow> k = labels_key (lc_labels e))"

lemma labels_key_inject [simp]: "labels_key a = labels_key b \<longleftrightarrow> a = b"
  by (simp add: labels_key_def json_text_str_fields_inject del: json_text.simps)

lemma counter_ok_new [simp]: "counter_ok (new_counter n h)"
  by (simp add: counter_ok_def new_counter_def)

lemma set_jset_subset: "set (jset k v m) \<subseteq> insert (k, v) (set m)"
  by (induction m) auto

lemma inc_name [simp]: "ct_name (inc ls c) = ct_name c" "ct_help (inc ls c) = ct_help c"
  by (simp_all add: inc_def Let_def split: option.splits)

lemma inc_counts:
  "ct_counts (inc ls c) = jset (labels_key ls)
     (case jget (ct_counts c) (labels_key ls) of
        Some e \<Rightarrow> e\<lparr>lc_count := lc_count e + 1\<rparr> | None \<Rightarrow> \<lparr>lc_labels = ls, lc_count = 1\<rparr>) (ct_counts c)"
  by (simp add: inc_def Let_def split: option.splits)

lemma counter_ok_inc [simp]:
  assumes "counter_ok c"
  shows "counter_ok (inc ls c)"
proof -
  have "labels_key ls = labels_key (lc_labels e)" if "jget (ct_counts c) (labels_key ls) = Some e" for e
    using assms jget_in_set [OF that] by (simp add: counter_ok_def)
  then have "k = labels_key (lc_labels e)" if "(k, e) \<in> set (ct_counts (inc ls c))" for k e
    using assms set_mp [OF set_jset_subset that [unfolded inc_counts]]
    by (auto simp: counter_ok_def split: option.splits)
  with assms show ?thesis by (simp add: counter_ok_def inc_counts)
qed

text \<open>The sum of the counts of the entries a predicate on labels selects.\<close>

definition count_where :: "(labels \<Rightarrow> bool) \<Rightarrow> counter \<Rightarrow> int" where
  "count_where P c = sum_list (map lc_count (filter (\<lambda>e. P (lc_labels e)) (jvalues (ct_counts c))))"

lemma count_where_new [simp]: "count_where P (new_counter n h) = 0"
  by (simp add: count_where_def new_counter_def jvalues_def)

lemma sum_entries_update:
  assumes "jmap_ok m" "\<forall>(k, e) \<in> set m. k = labels_key (lc_labels e)"
  shows "sum_list (map lc_count (filter (\<lambda>e. P (lc_labels e))
           (map snd (jset (labels_key ls) (case jget m (labels_key ls) of
              Some e \<Rightarrow> e\<lparr>lc_count := lc_count e + 1\<rparr> | None \<Rightarrow> \<lparr>lc_labels = ls, lc_count = 1\<rparr>) m))))
       = sum_list (map lc_count (filter (\<lambda>e. P (lc_labels e)) (map snd m))) + (if P ls then 1 else 0)"
  using assms
proof (induction m)
  case Nil
  then show ?case by simp
next
  case (Cons p m)
  obtain k e where p: "p = (k, e)" by (cases p)
  with Cons.prems have "k = labels_key (lc_labels e)" by simp
  with Cons p show ?case by (auto simp: jmap_ok_def)
qed

lemma count_where_inc [simp]:
  "counter_ok c \<Longrightarrow> count_where P (inc ls c) = count_where P c + (if P ls then 1 else 0)"
  unfolding count_where_def inc_counts jvalues_def
  by (rule sum_entries_update) (auto simp: counter_ok_def)

lemma total_count_where: "total c = count_where (\<lambda>_. True) c"
proof -
  have "fold (\<lambda>e sum. sum + lc_count e) es a = a + sum_list (map lc_count es)" for a and es :: "labeled_count list"
    by (induction es arbitrary: a) auto
  then show ?thesis by (simp add: total_def count_where_def)
qed

definition count_or_0 :: "(string, int) jmap \<Rightarrow> string \<Rightarrow> int" where
  "count_or_0 m v = (case jget m v of None \<Rightarrow> 0 | Some n \<Rightarrow> n)"

lemma count_or_0_Nil [simp]: "count_or_0 [] v = 0"
  by (simp add: count_or_0_def)

lemma fold_add_label_count:
  "count_or_0 (fold (add_label_count k) es out) v =
     count_or_0 out v + sum_list (map lc_count (filter (\<lambda>e. jget (lc_labels e) k = Some v) es))"
  by (induction es arbitrary: out)
     (auto simp: add_label_count_def count_or_0_def split: option.splits)

lemma byLabel_count_where: "count_or_0 (byLabel k c) v = count_where (\<lambda>ls. jget ls k = Some v) c"
  by (simp add: byLabel_def fold_add_label_count count_where_def)

lemma counter_ok_run [simp]: "counter_ok c \<Longrightarrow> counter_ok (fold inc lss c)"
  by (induction lss arbitrary: c) simp_all

lemma count_where_run:
  "counter_ok c \<Longrightarrow> count_where P (fold inc lss c) = count_where P c + int (length (filter P lss))"
  by (induction lss arbitrary: c) simp_all

text \<open>After any sequence of increments the total of a counter is their number, and its
  breakdown by a label gives, for every value, the number of increments that carried it.\<close>

theorem counter_counts_exactly:
  "total (fold inc lss (new_counter n h)) = int (length lss) \<and>
   count_or_0 (byLabel k (fold inc lss (new_counter n h))) v =
     int (length (filter (\<lambda>ls. jget ls k = Some v) lss))"
  by (simp add: total_count_where byLabel_count_where count_where_run)

section \<open>Percentiles\<close>

definition percentile_index :: "rat \<Rightarrow> nat \<Rightarrow> nat" where
  "percentile_index p n = min (n - 1) (nat \<lfloor>of_nat n * p\<rfloor>)"

lemma percentile_nth:
  "hg_samples h \<noteq> [] \<Longrightarrow> percentile p h = sort (hg_samples h) ! percentile_index p (length (hg_samples h))"
  by (simp add: percentile_def percentile_index_def)

lemma percentile_index_less: "0 < n \<Longrightarrow> percentile_index p n < n"
  by (simp add: percentile_index_def min_less_iff_disj)

lemma percentile_index_mono: "p \<le> q \<Longrightarrow> percentile_index p n \<le> percentile_index q n"
  unfolding percentile_index_def
  by (intro min.mono order.refl nat_mono floor_mono mult_left_mono) simp_all

lemma sorted_count_le: "sorted xs \<Longrightarrow> i < length xs \<Longrightarrow> Suc i \<le> length (filter (\<lambda>x. x \<le> xs ! i) xs)"
  for xs :: "'a::linorder list"
proof -
  assume s: "sorted xs" and i: "i < length xs"
  have "filter (\<lambda>x. x \<le> xs ! i) (take (Suc i) xs) = take (Suc i) xs"
    using i sorted_nth_mono [OF s _ i] by (auto simp: filter_id_conv in_set_conv_nth less_Suc_eq_le)
  then have "Suc i = length (filter (\<lambda>x. x \<le> xs ! i) (take (Suc i) xs))" using i by simp
  also have "\<dots> \<le> length (filter (\<lambda>x. x \<le> xs ! i) (take (Suc i) xs @ drop (Suc i) xs))"
    by (simp del: append_take_drop_id)
  finally show ?thesis by (simp only: append_take_drop_id)
qed

lemma sorted_count_less: "sorted xs \<Longrightarrow> i < length xs \<Longrightarrow> length (filter (\<lambda>x. x < xs ! i) xs) \<le> i"
  for xs :: "'a::linorder list"
proof -
  assume s: "sorted xs" and i: "i < length xs"
  have d: "filter (\<lambda>x. x < xs ! i) (drop i xs) = []"
    using s i by (auto simp: filter_empty_conv in_set_conv_nth not_less intro!: sorted_nth_mono)
  have "filter (\<lambda>x. x < xs ! i) xs = filter (\<lambda>x. x < xs ! i) (take i xs @ drop i xs)"
    by (simp only: append_take_drop_id)
  also have "\<dots> = filter (\<lambda>x. x < xs ! i) (take i xs)" using d by (simp del: append_take_drop_id)
  finally show ?thesis using length_filter_le [of "\<lambda>x. x < xs ! i" "take i xs"] by simp
qed

lemma length_filter_sort: "length (filter P (sort xs)) = length (filter P xs)"
  by (simp add: filter_sort)

text \<open>A percentile of recorded samples is one of them, grows with its level, and splits the
  samples at its rank: more than the rank's number lie at or below it, at most the rank's
  number lie strictly below.\<close>

theorem percentile_rank:
  assumes "hg_samples h \<noteq> []" and "p \<le> q"
  shows "percentile p h \<in> set (hg_samples h) \<and> percentile p h \<le> percentile q h \<and>
    percentile_index p (length (hg_samples h)) < length (filter (\<lambda>x. x \<le> percentile p h) (hg_samples h)) \<and>
    length (filter (\<lambda>x. x < percentile p h) (hg_samples h)) \<le> percentile_index p (length (hg_samples h))"
proof (intro conjI)
  let ?n = "length (hg_samples h)" and ?s = "sort (hg_samples h)"
  have lt: "percentile_index r ?n < length ?s" for r
    using assms(1) by (simp add: percentile_index_less)
  note nth = percentile_nth [OF assms(1)]
  show "percentile p h \<in> set (hg_samples h)"
    using nth_mem [OF lt [of p]] by (simp add: nth)
  show "percentile p h \<le> percentile q h"
    using sorted_nth_mono [OF sorted_sort percentile_index_mono [OF assms(2)] lt] by (simp add: nth)
  show "percentile_index p ?n < length (filter (\<lambda>x. x \<le> percentile p h) (hg_samples h))"
    using sorted_count_le [OF sorted_sort lt [of p]] by (simp add: nth length_filter_sort)
  show "length (filter (\<lambda>x. x < percentile p h) (hg_samples h)) \<le> percentile_index p ?n"
    using sorted_count_less [OF sorted_sort lt [of p]] by (simp add: nth length_filter_sort)
qed

theorem percentile_rank_witness:
  "percentile (1/2) \<lparr>hg_name = ''l'', hg_help = ''h'', hg_samples = [3, 1, 2]\<rparr> \<in> {1, 2, 3} \<and>
   percentile (1/2) \<lparr>hg_name = ''l'', hg_help = ''h'', hg_samples = [3, 1, 2]\<rparr>
     \<le> percentile (99/100) \<lparr>hg_name = ''l'', hg_help = ''h'', hg_samples = [3, 1, 2]\<rparr>"
  using percentile_rank [of "\<lparr>hg_name = ''l'', hg_help = ''h'', hg_samples = [3, 1, 2]\<rparr>" "1/2" "99/100"]
  by auto

end
