(* ===== verification/Inventory.thy ===== *)
theory Inventory
  imports Lua_Scripts Metrics
begin

text \<open>
  \<open>InventoryService\<close> of \<open>src/inventory/inventoryService.ts\<close> over any client of the stock store.
  The state of a process holds the client, the registry of known stock keys, the metrics, and
  how many readings of the clocks and how many random identifiers have been taken.
\<close>

section \<open>The process and its environment\<close>

text \<open>
  The environment answers the calls whose results the program does not determine: the k-th
  reading of \<open>Date.now()\<close> (or of the store's clock), of \<open>performance.now()\<close>, and the k-th
  result of \<open>randomUUID()\<close>.
\<close>

record env =
  env_now :: "nat \<Rightarrow> int"
  env_perf :: "nat \<Rightarrow> rat"
  env_uuid :: "nat \<Rightarrow> string"

record 'r process =
  co_redis :: 'r
  co_known :: "(string, string \<times> string) jmap"
  co_metrics :: metrics
  co_ticks :: nat
  co_uuids :: nat

definition date_now :: "env \<Rightarrow> (('r, 'z) process_scheme, int) act" where
  "date_now E w = (Inr (env_now E (co_ticks w)), w\<lparr>co_ticks := Suc (co_ticks w)\<rparr>)"

definition perf_now :: "env \<Rightarrow> (('r, 'z) process_scheme, rat) act" where
  "perf_now E w = (Inr (env_perf E (co_ticks w)), w\<lparr>co_ticks := Suc (co_ticks w)\<rparr>)"

definition random_uuid :: "env \<Rightarrow> (('r, 'z) process_scheme, string) act" where
  "random_uuid E w = (Inr (env_uuid E (co_uuids w)), w\<lparr>co_uuids := Suc (co_uuids w)\<rparr>)"

definition on_redis :: "('r, 'a) act \<Rightarrow> (('r, 'z) process_scheme, 'a) act" where
  "on_redis m = zoom co_redis (\<lambda>r w. w\<lparr>co_redis := r\<rparr>) m"

definition on_redis_at :: "env \<Rightarrow> (int \<Rightarrow> ('r, 'a) act) \<Rightarrow> (('r, 'z) process_scheme, 'a) act" where
  "on_redis_at E m = bind (date_now E) (\<lambda>now. on_redis (m now))"

definition on_metrics :: "(metrics \<Rightarrow> metrics) \<Rightarrow> (('r, 'z) process_scheme, unit) act" where
  "on_metrics f = update_state (\<lambda>w. w\<lparr>co_metrics := f (co_metrics w)\<rparr>)"

section \<open>InventoryService\<close>

definition DEFAULT_RESERVATION_TTL_SECONDS :: jsnum where
  "DEFAULT_RESERVATION_TTL_SECONDS = Num (60 * 15)"

definition stockKey :: "string \<Rightarrow> string \<Rightarrow> string" where
  "stockKey warehouseId sku = ''stock:'' @ warehouseId @ '':'' @ sku"

definition reservationKey :: "string \<Rightarrow> string" where
  "reservationKey reservationId = ''resv:'' @ reservationId"

definition noteKnown :: "string \<Rightarrow> string \<Rightarrow> (('r, 'z) process_scheme, unit) act" where
  "noteKnown warehouseId sku =
     update_state (\<lambda>w. w\<lparr>co_known := jset (stockKey warehouseId sku) (warehouseId, sku) (co_known w)\<rparr>)"

definition setStock :: "'r redis_like \<Rightarrow> string \<Rightarrow> string \<Rightarrow> jsnum \<Rightarrow> (('r, 'z) process_scheme, unit) act" where
  "setStock R warehouseId sku qty =
     bind (on_redis (rl_set R (stockKey warehouseId sku) (js_String qty))) (\<lambda>_. noteKnown warehouseId sku)"

definition getAvailable ::
  "'r redis_like \<Rightarrow> env \<Rightarrow> string \<Rightarrow> string \<Rightarrow> (('r, 'z) process_scheme, jsnum) act" where
  "getAvailable R E warehouseId sku =
     bind (on_redis_at E (rl_get R (stockKey warehouseId sku))) (\<lambda>v.
       ret (case v of None \<Rightarrow> Num 0 | Some s \<Rightarrow> js_Number s))"

record known_stock_record =
  ks_warehouseId :: string
  ks_sku :: string
  ks_available :: jsnum

text \<open>A stable sort by a comparison, as \<open>Array.prototype.sort\<close> is; \<open>localeCompare\<close> is the
  comparison \<open>le\<close> the list operation takes.\<close>

fun insert_by :: "('a \<Rightarrow> 'a \<Rightarrow> bool) \<Rightarrow> 'a \<Rightarrow> 'a list \<Rightarrow> 'a list" where
  "insert_by le x [] = [x]"
| "insert_by le x (y # ys) = (if le x y then x # y # ys else y # insert_by le x ys)"

fun sort_by :: "('a \<Rightarrow> 'a \<Rightarrow> bool) \<Rightarrow> 'a list \<Rightarrow> 'a list" where
  "sort_by le [] = []"
| "sort_by le (x # xs) = insert_by le x (sort_by le xs)"

definition listAll ::
  "'r redis_like \<Rightarrow> env \<Rightarrow> (string \<Rightarrow> string \<Rightarrow> bool) \<Rightarrow> (('r, 'z) process_scheme, known_stock_record list) act" where
  "listAll R E le =
     bind (read_state (\<lambda>w. jvalues (co_known w))) (\<lambda>entries.
     bind (map_act (\<lambda>(warehouseId, sku).
             bind (getAvailable R E warehouseId sku) (\<lambda>available.
               ret \<lparr>ks_warehouseId = warehouseId, ks_sku = sku, ks_available = available\<rparr>)) entries) (\<lambda>records.
     ret (sort_by (\<lambda>a b. le (ks_warehouseId a @ ks_sku a) (ks_warehouseId b @ ks_sku b)) records)))"

definition rejected_result :: "reject_reason \<Rightarrow> jsnum option \<Rightarrow> reservation_result" where
  "rejected_result reason remaining =
     \<lparr>rr_ok = False, rr_reservationId = None, rr_remaining = remaining, rr_reason = Some reason\<rparr>"

definition accepted_result :: "string \<Rightarrow> jsnum \<Rightarrow> reservation_result" where
  "accepted_result reservationId remaining =
     \<lparr>rr_ok = True, rr_reservationId = Some reservationId, rr_remaining = Some remaining, rr_reason = None\<rparr>"

definition stock_labels :: "string \<Rightarrow> string \<Rightarrow> labels" where
  "stock_labels sku warehouseId = [(''sku'', sku), (''warehouseId'', warehouseId)]"

definition reserve ::
  "'r redis_like \<Rightarrow> env \<Rightarrow> string \<Rightarrow> string \<Rightarrow> jsnum \<Rightarrow> jsnum \<Rightarrow> (('r, 'z) process_scheme, reservation_result) act" where
  "reserve R E warehouseId sku qty ttlSeconds =
     (if js_le qty (Num 0) then ret (rejected_result INVALID_QTY None)
      else
        bind (noteKnown warehouseId sku) (\<lambda>_.
        bind (random_uuid E) (\<lambda>reservationId.
        bind (perf_now E) (\<lambda>start.
        bind (on_redis_at E (rl_eval R RESERVE_SCRIPT 2
               [AStr (stockKey warehouseId sku), AStr (reservationKey reservationId),
                ANum qty, AStr reservationId, ANum ttlSeconds])) (\<lambda>result.
        bind (perf_now E) (\<lambda>stop.
        bind (on_metrics (\<lambda>m. m\<lparr>reservationLatency := observe (stop - start) (reservationLatency m)\<rparr>)) (\<lambda>_.
        (let status = fst result; v = snd result in
         if status = ''INSUFFICIENT_STOCK'' \<or> status = ''UNKNOWN_SKU'' then
           bind (on_metrics (\<lambda>m. m\<lparr>reservationsRejected := inc (stock_labels sku warehouseId) (reservationsRejected m)\<rparr>))
             (\<lambda>_. ret (rejected_result (if status = ''UNKNOWN_SKU'' then UNKNOWN_SKU else INSUFFICIENT_STOCK) (Some v)))
         else
           bind (on_metrics (\<lambda>m. m\<lparr>reservationsAccepted := inc (stock_labels sku warehouseId) (reservationsAccepted m)\<rparr>))
             (\<lambda>_. ret (accepted_result reservationId v))))))))))"

definition resolve ::
  "'r redis_like \<Rightarrow> env \<Rightarrow> string \<Rightarrow> string \<Rightarrow> string \<Rightarrow> string \<Rightarrow> (('r, 'z) process_scheme, string) act" where
  "resolve R E warehouseId sku reservationId mode =
     bind (on_redis_at E (rl_eval R RELEASE_SCRIPT 2
             [AStr (stockKey warehouseId sku), AStr (reservationKey reservationId), AStr mode]))
       (\<lambda>result. ret (fst result))"

definition release ::
  "'r redis_like \<Rightarrow> env \<Rightarrow> string \<Rightarrow> string \<Rightarrow> string \<Rightarrow> (('r, 'z) process_scheme, string) act" where
  "release R E warehouseId sku reservationId = resolve R E warehouseId sku reservationId ''RELEASE''"

definition commit ::
  "'r redis_like \<Rightarrow> env \<Rightarrow> string \<Rightarrow> string \<Rightarrow> string \<Rightarrow> (('r, 'z) process_scheme, string) act" where
  "commit R E warehouseId sku reservationId = resolve R E warehouseId sku reservationId ''COMMIT''"

section \<open>Keys\<close>

lemma stock_not_reservation [simp]:
  "stockKey w s \<noteq> reservationKey i" "reservationKey i \<noteq> stockKey w s"
  by (simp_all add: stockKey_def reservationKey_def)

lemma reservationKey_inject [simp]: "reservationKey i = reservationKey j \<longleftrightarrow> i = j"
  by (simp add: reservationKey_def)

text \<open>Stock keys of different pairs differ as long as warehouse names hold no colon.\<close>

lemma stockKey_inject:
  assumes "CHR '':'' \<notin> set w" and "CHR '':'' \<notin> set w'" and "stockKey w s = stockKey w' s'"
  shows "w = w' \<and> s = s'"
  using assms by (intro sep_inject) (simp_all add: stockKey_def)

text \<open>With a colon in a warehouse name two pairs share one key.\<close>

lemma stockKey_collision: "stockKey ''a:b'' ''c'' = stockKey ''a'' ''b:c''"
  by (simp add: stockKey_def)

section \<open>Running the operations\<close>

lemmas process_acts = date_now_def perf_now_def random_uuid_def on_redis_at_def on_redis_def
  on_metrics_def zoom_apply bind_apply

definition reserve_result :: "string \<Rightarrow> reply \<Rightarrow> reservation_result" where
  "reserve_result reservationId rep =
     (if fst rep = ''INSUFFICIENT_STOCK'' then rejected_result INSUFFICIENT_STOCK (Some (snd rep))
      else if fst rep = ''UNKNOWN_SKU'' then rejected_result UNKNOWN_SKU (Some (snd rep))
      else accepted_result reservationId (snd rep))"

definition reserve_metrics :: "string \<Rightarrow> string \<Rightarrow> bool \<Rightarrow> rat \<Rightarrow> metrics \<Rightarrow> metrics" where
  "reserve_metrics w s accepted latency m =
     (let m1 = m\<lparr>reservationLatency := observe latency (reservationLatency m)\<rparr> in
      if accepted then m1\<lparr>reservationsAccepted := inc (stock_labels s w) (reservationsAccepted m1)\<rparr>
      else m1\<lparr>reservationsRejected := inc (stock_labels s w) (reservationsRejected m1)\<rparr>)"

lemma reserve_result_ok [simp]:
  "rr_ok (reserve_result i (''OK'', v))"
  "\<not> rr_ok (reserve_result i (''UNKNOWN_SKU'', v))"
  "\<not> rr_ok (reserve_result i (''INSUFFICIENT_STOCK'', v))"
  by (simp_all add: reserve_result_def accepted_result_def rejected_result_def)

lemma reserve_invalid:
  "q \<le> 0 \<Longrightarrow> reserve R E w s (Num q) ttl p = (Inr (rejected_result INVALID_QTY None), p)"
  by (simp add: reserve_def)

context stock_redis
begin

text \<open>
  A reservation: one atomic step of the store at the second clock reading, with the next
  identifier, one latency sample and one count.
\<close>

lemma reserve_run:
  fixes p :: "('r, 'z) process_scheme" and E :: env and w s :: string and q ttl :: int
  assumes "invar (co_redis p)" and "0 < q" and "0 < ttl"
  defines "now \<equiv> env_now E (co_ticks p + 1)"
    and "rid \<equiv> env_uuid E (co_uuids p)"
    and "lat \<equiv> env_perf E (co_ticks p + 2) - env_perf E (co_ticks p)"
  defines "rep \<equiv> spec_reserve now (stockKey w s) (reservationKey rid) q ttl (kv_of (co_redis p))"
  shows "\<exists>r'. reserve R E w s (Num q) (Num ttl) p =
      (Inr (reserve_result rid (fst rep)),
       p\<lparr>co_redis := r', co_known := jset (stockKey w s) (w, s) (co_known p),
         co_metrics := reserve_metrics w s (rr_ok (reserve_result rid (fst rep))) lat (co_metrics p),
         co_ticks := co_ticks p + 3, co_uuids := Suc (co_uuids p)\<rparr>) \<and>
      invar r' \<and> kv_eq now (kv_of r') (snd rep)"
proof -
  let ?args = "[AStr (stockKey w s), AStr (reservationKey rid), ANum (Num q), AStr rid, ANum (Num ttl)]"
  obtain res r' where ev: "rl_eval R RESERVE_SCRIPT 2 ?args now (co_redis p) = (res, r')"
    by (cases "rl_eval R RESERVE_SCRIPT 2 ?args now (co_redis p)")
  from reserve_law [OF assms(1-3) ev] have
    res: "res = Inr (fst rep)" and r': "invar r'" "kv_eq now (kv_of r') (snd rep)"
    by (simp_all add: rep_def)
  show ?thesis
    using assms(2) r' ev [unfolded res now_def rid_def]
    by (intro exI [of _ r'])
       (auto simp: reserve_def noteKnown_def process_acts Let_def reserve_result_def reserve_metrics_def
          lat_def rid_def accepted_result_def rejected_result_def numeral_3_eq_3)
qed

lemma resolve_run:
  fixes p :: "('r, 'z) process_scheme" and E :: env and w s rid mode :: string
  assumes "invar (co_redis p)"
  defines "now \<equiv> env_now E (co_ticks p)"
  defines "rep \<equiv> spec_resolve now (stockKey w s) (reservationKey rid) mode (kv_of (co_redis p))"
  shows "\<exists>r'. resolve R E w s rid mode p =
      (map_sum id fst (fst rep), p\<lparr>co_redis := r', co_ticks := Suc (co_ticks p)\<rparr>) \<and>
      invar r' \<and> kv_eq now (kv_of r') (snd rep)"
proof -
  let ?args = "[AStr (stockKey w s), AStr (reservationKey rid), AStr mode]"
  obtain res r' where ev: "rl_eval R RELEASE_SCRIPT 2 ?args now (co_redis p) = (res, r')"
    by (cases "rl_eval R RELEASE_SCRIPT 2 ?args now (co_redis p)")
  from resolve_law [OF assms(1) ev] have
    res: "res = fst rep" and r': "invar r'" "kv_eq now (kv_of r') (snd rep)"
    by (simp_all add: rep_def)
  show ?thesis
    using r' ev [unfolded res now_def]
    by (intro exI [of _ r']) (auto simp: resolve_def process_acts split: sum.splits)
qed

lemma getAvailable_run:
  fixes p :: "('r, 'z) process_scheme" and E :: env and w s rid mode :: string
  assumes "invar (co_redis p)"
  defines "now \<equiv> env_now E (co_ticks p)"
  shows "\<exists>r'. getAvailable R E w s p =
      (Inr (Num (case lookup now (kv_of (co_redis p)) (stockKey w s) of None \<Rightarrow> 0 | Some n \<Rightarrow> n)),
       p\<lparr>co_redis := r', co_ticks := Suc (co_ticks p)\<rparr>) \<and>
      invar r' \<and> kv_eq now (kv_of r') (kv_of (co_redis p))"
proof -
  obtain res r' where ev: "rl_get R (stockKey w s) now (co_redis p) = (res, r')"
    by (cases "rl_get R (stockKey w s) now (co_redis p)")
  from get_law [OF assms(1) ev] have
    res: "res = Inr (map_option int_string (lookup now (kv_of (co_redis p)) (stockKey w s)))"
    and r': "invar r'" "kv_eq now (kv_of r') (kv_of (co_redis p))" by simp_all
  show ?thesis
    using r' ev [unfolded res now_def]
    by (intro exI [of _ r']) (auto simp: getAvailable_def process_acts now_def split: option.splits)
qed

lemma setStock_run:
  fixes p :: "('r, 'z) process_scheme"
  assumes "invar (co_redis p)"
  shows "\<exists>r'. setStock R w s (Num n) p =
      (Inr (), p\<lparr>co_redis := r', co_known := jset (stockKey w s) (w, s) (co_known p)\<rparr>) \<and>
      invar r' \<and> kv_of r' = (kv_of (co_redis p))(stockKey w s \<mapsto> (n, None))"
proof -
  obtain res r' where ev: "rl_set R (stockKey w s) (int_string n) (co_redis p) = (res, r')"
    by (cases "rl_set R (stockKey w s) (int_string n) (co_redis p)")
  from set_law [OF assms(1) ev] show ?thesis
    using ev by (intro exI [of _ r']) (auto simp: setStock_def noteKnown_def process_acts)
qed

end

end
