(* ===== verification/Participants.thy ===== *)
theory Participants
  imports Domain
begin

text \<open>
  The two outside participants of an order: \<open>src/payments/paymentGateway.ts\<close> and
  \<open>src/shipping/shippingProvider.ts\<close>. Both offer a step that may be declined and a
  compensation that may be repeated; that contract is the locale \<open>compensable\<close>.
\<close>

section \<open>The contract of a compensable step\<close>

text \<open>
  \<open>held s\<close> is what the participant holds for the customer: an accepted attempt adds the
  order's entry, a declined one changes nothing, the compensation removes the entry and
  nothing else.
\<close>

locale compensable =
  fixes attempt :: "string \<Rightarrow> 'x \<Rightarrow> 's \<Rightarrow> bool \<times> 's"
    and undo :: "string \<Rightarrow> 's \<Rightarrow> 's"
    and held :: "'s \<Rightarrow> string \<rightharpoonup> string"
    and ticket :: "string \<Rightarrow> string"
  assumes accepted: "\<And>oid x s s'. attempt oid x s = (True, s') \<Longrightarrow> held s' = (held s)(oid \<mapsto> ticket oid)"
    and declined: "\<And>oid x s s'. attempt oid x s = (False, s') \<Longrightarrow> s' = s"
    and undone: "\<And>oid s. held (undo oid s) = (held s)(oid := None)"
begin

lemma undo_twice: "held (undo oid (undo oid s)) = held (undo oid s)"
  by (simp add: undone)

lemma attempt_then_undo:
  "held s oid = None \<Longrightarrow> attempt oid x s = (True, s') \<Longrightarrow> held (undo oid s') = held s"
  by (auto simp: undone accepted fun_upd_idem)

lemma undo_without_attempt: "held s oid = None \<Longrightarrow> held (undo oid s) = held s"
  by (simp add: undone fun_upd_idem)

end

section \<open>PaymentGateway\<close>

record payment_result =
  pr_ok :: bool
  pr_paymentId :: "string option"
  pr_reason :: "string option"

record payment_gateway =
  pg_charges :: "(string, string) jmap"
  pg_failures :: failure_injection

definition new_payment_gateway :: "failure_injection \<Rightarrow> payment_gateway" where
  "new_payment_gateway f = \<lparr>pg_charges = [], pg_failures = f\<rparr>"

definition payment_ticket :: "string \<Rightarrow> string" where
  "payment_ticket orderId = ''pay_'' @ orderId"

definition charge :: "string \<Rightarrow> int \<Rightarrow> payment_gateway \<Rightarrow> payment_result \<times> payment_gateway" where
  "charge orderId amountCents g =
     (if injected (failPaymentForOrderIds (pg_failures g)) orderId
      then (\<lparr>pr_ok = False, pr_paymentId = None, pr_reason = Some ''CARD_DECLINED''\<rparr>, g)
      else (\<lparr>pr_ok = True, pr_paymentId = Some (payment_ticket orderId), pr_reason = None\<rparr>,
            g\<lparr>pg_charges := jset orderId (payment_ticket orderId) (pg_charges g)\<rparr>))"

record refund_result =
  rf_ok :: bool
  rf_alreadyRefunded :: "bool option"

definition refund :: "string \<Rightarrow> payment_gateway \<Rightarrow> refund_result \<times> payment_gateway" where
  "refund orderId g =
     (if \<not> jhas (pg_charges g) orderId then (\<lparr>rf_ok = True, rf_alreadyRefunded = Some True\<rparr>, g)
      else (\<lparr>rf_ok = True, rf_alreadyRefunded = None\<rparr>, g\<lparr>pg_charges := jdel orderId (pg_charges g)\<rparr>))"

section \<open>ShippingProvider\<close>

record shipping_result =
  sr_ok :: bool
  sr_shipmentId :: "string option"
  sr_reason :: "string option"

record shipping_provider =
  sp_shipments :: "(string, string) jmap"
  sp_failures :: failure_injection

definition new_shipping_provider :: "failure_injection \<Rightarrow> shipping_provider" where
  "new_shipping_provider f = \<lparr>sp_shipments = [], sp_failures = f\<rparr>"

definition shipment_ticket :: "string \<Rightarrow> string" where
  "shipment_ticket orderId = ''ship_'' @ orderId"

definition schedule :: "string \<Rightarrow> string \<Rightarrow> shipping_provider \<Rightarrow> shipping_result \<times> shipping_provider" where
  "schedule orderId warehouseId p =
     (if injected (failShippingForOrderIds (sp_failures p)) orderId
      then (\<lparr>sr_ok = False, sr_shipmentId = None, sr_reason = Some ''NO_COURIER_AVAILABLE''\<rparr>, p)
      else (\<lparr>sr_ok = True, sr_shipmentId = Some (shipment_ticket orderId), sr_reason = None\<rparr>,
            p\<lparr>sp_shipments := jset orderId (shipment_ticket orderId) (sp_shipments p)\<rparr>))"

definition cancel :: "string \<Rightarrow> shipping_provider \<Rightarrow> bool \<times> shipping_provider" where
  "cancel orderId p = (True, p\<lparr>sp_shipments := jdel orderId (sp_shipments p)\<rparr>)"

section \<open>Both implement the contract\<close>

definition charge_ok :: "string \<Rightarrow> int \<Rightarrow> payment_gateway \<Rightarrow> bool \<times> payment_gateway" where
  "charge_ok oid x g = (pr_ok (fst (charge oid x g)), snd (charge oid x g))"

definition schedule_ok :: "string \<Rightarrow> string \<Rightarrow> shipping_provider \<Rightarrow> bool \<times> shipping_provider" where
  "schedule_ok oid x p = (sr_ok (fst (schedule oid x p)), snd (schedule oid x p))"

abbreviation charges :: "payment_gateway \<Rightarrow> string \<rightharpoonup> string" where
  "charges g \<equiv> jget (pg_charges g)"

abbreviation shipments :: "shipping_provider \<Rightarrow> string \<rightharpoonup> string" where
  "shipments p \<equiv> jget (sp_shipments p)"

lemma charge_cases:
  obtains (declined) "injected (failPaymentForOrderIds (pg_failures g)) oid"
      "charge oid a g = (\<lparr>pr_ok = False, pr_paymentId = None, pr_reason = Some ''CARD_DECLINED''\<rparr>, g)"
  | (charged) g' where "\<not> injected (failPaymentForOrderIds (pg_failures g)) oid"
      "charge oid a g = (\<lparr>pr_ok = True, pr_paymentId = Some (payment_ticket oid), pr_reason = None\<rparr>, g')"
      "charges g' = (charges g)(oid \<mapsto> payment_ticket oid)" "pg_failures g' = pg_failures g"
  by (cases "injected (failPaymentForOrderIds (pg_failures g)) oid")
     (auto simp: charge_def fun_eq_iff)

lemma schedule_cases:
  obtains (declined) "injected (failShippingForOrderIds (sp_failures p)) oid"
      "schedule oid w p = (\<lparr>sr_ok = False, sr_shipmentId = None, sr_reason = Some ''NO_COURIER_AVAILABLE''\<rparr>, p)"
  | (scheduled) p' where "\<not> injected (failShippingForOrderIds (sp_failures p)) oid"
      "schedule oid w p = (\<lparr>sr_ok = True, sr_shipmentId = Some (shipment_ticket oid), sr_reason = None\<rparr>, p')"
      "shipments p' = (shipments p)(oid \<mapsto> shipment_ticket oid)" "sp_failures p' = sp_failures p"
  by (cases "injected (failShippingForOrderIds (sp_failures p)) oid")
     (auto simp: schedule_def fun_eq_iff)

lemma refund_charges: "charges (snd (refund oid g)) = (charges g)(oid := None)"
  by (auto simp: refund_def jhas_def fun_eq_iff)

lemma refund_failures [simp]: "pg_failures (snd (refund oid g)) = pg_failures g"
  by (simp add: refund_def)

lemma cancel_shipments: "shipments (snd (cancel oid p)) = (shipments p)(oid := None)"
  by (auto simp: cancel_def fun_eq_iff)

interpretation pay: compensable charge_ok "\<lambda>oid g. snd (refund oid g)" charges payment_ticket
proof (unfold_locales, goal_cases)
  case (1 oid x s s')
  then show ?case by (rule_tac charge_cases [of s oid x]) (auto simp: charge_ok_def)
next
  case (2 oid x s s')
  then show ?case by (auto simp: charge_ok_def charge_def split: if_splits)
qed (rule refund_charges)

interpretation ship: compensable schedule_ok "\<lambda>oid p. snd (cancel oid p)" shipments shipment_ticket
proof (unfold_locales, goal_cases)
  case (1 oid x s s')
  then show ?case by (rule_tac schedule_cases [of s oid x]) (auto simp: schedule_ok_def)
next
  case (2 oid x s s')
  then show ?case by (auto simp: schedule_ok_def schedule_def split: if_splits)
qed (rule cancel_shipments)

end
