(* ===== verification/Order_Store.thy ===== *)
theory Order_Store
  imports Domain
begin

text \<open>
  The persistence interface of \<open>src/orders/orderStore.ts\<close>, its contract, and
  \<open>InMemoryOrderStore\<close>. \<open>PgOrderStore\<close> implements the same contract in its own theory.
\<close>

section \<open>Terminal statuses and scopes\<close>

definition TERMINAL_ORDER_STATUSES :: "order_status set" where
  "TERMINAL_ORDER_STATUSES = {CONFIRMED, CANCELLED, FAILED}"

definition isTerminalStatus :: "order_status \<Rightarrow> bool" where
  "isTerminalStatus status \<longleftrightarrow> status \<in> TERMINAL_ORDER_STATUSES"

text \<open>The optional argument \<open>businessId?: string | null\<close>: absent, or a business or null.\<close>

datatype scope = Unscoped | Scoped "string option"

fun in_scope :: "scope \<Rightarrow> order \<Rightarrow> bool" where
  "in_scope Unscoped o' = True"
| "in_scope (Scoped b) o' = (or_businessId o' = b)"

section \<open>The interface\<close>

text \<open>
  One field per method. \<open>os_deref\<close> reads the fields of an order object handed out earlier: a
  store that hands out its own objects shows the current fields, one that builds a fresh object
  from rows shows those of the time it was built.
\<close>

record 'st order_store =
  os_create :: "order \<Rightarrow> ('st, unit) act"
  os_get :: "string \<Rightarrow> scope \<Rightarrow> ('st, order option) act"
  os_updateStatus :: "string \<Rightarrow> order_status \<Rightarrow> order_event \<Rightarrow> int \<Rightarrow> ('st, unit) act"
  os_all :: "scope \<Rightarrow> ('st, order list) act"
  os_nonTerminal :: "('st, order list) act"
  os_deref :: "order \<Rightarrow> 'st \<Rightarrow> order"

text \<open>What both stores can hold: the constraints of \<open>docs/schema.sql\<close>, and no history yet.\<close>

definition storable :: "order \<Rightarrow> bool" where
  "storable od \<longleftrightarrow>
     0 < or_amountCents od \<and> or_amountCents od < 2 ^ 31 \<and>
     (\<forall>l \<in> set (or_lines od). 0 < ol_qty l \<and> ol_qty l < 2 ^ 31) \<and>
     distinct (map (\<lambda>l. (ol_sku l, ol_warehouseId l)) (or_lines od)) \<and>
     or_history od = []"

definition with_event :: "order_status \<Rightarrow> order_event \<Rightarrow> int \<Rightarrow> order \<Rightarrow> order" where
  "with_event status ev u od =
     od\<lparr>or_status := status, or_history := or_history od @ [ev], or_updatedAt := u\<rparr>"

text \<open>
  The contract over the orders a store holds, by id. \<open>valid_id\<close> are the ids the store takes,
  \<open>valid_scope\<close> the scopes, and \<open>kept\<close> is the form in which it keeps the detail of an event.
\<close>

definition kept_event :: "(json \<Rightarrow> json) \<Rightarrow> order_event \<Rightarrow> order_event" where
  "kept_event kept ev = ev\<lparr>ev_detail := map_option kept (ev_detail ev)\<rparr>"

lemma kept_event_fields [simp]:
  "ev_type (kept_event kept ev) = ev_type ev" "ev_at (kept_event kept ev) = ev_at ev"
  "ev_detail (kept_event kept ev) = map_option kept (ev_detail ev)"
  by (simp_all add: kept_event_def)

lemma kept_event_same [simp]: "kept_event (\<lambda>j. j) ev = ev"
  by (simp add: kept_event_def option.map_ident)

locale order_store =
  fixes S :: "'st order_store"
    and orders_of :: "'st \<Rightarrow> string \<rightharpoonup> order"
    and ok :: "'st \<Rightarrow> bool"
    and valid_id :: "string \<Rightarrow> bool"
    and valid_scope :: "scope \<Rightarrow> bool"
    and kept :: "json \<Rightarrow> json"
  assumes create_law: "\<And>st od. ok st \<Longrightarrow> storable od \<Longrightarrow> valid_id (or_id od) \<Longrightarrow>
      valid_scope (Scoped (or_businessId od)) \<Longrightarrow> orders_of st (or_id od) = None \<Longrightarrow>
      \<exists>st'. os_create S od st = (Inr (), st') \<and> ok st' \<and> orders_of st' = (orders_of st)(or_id od \<mapsto> od)"
    and get_law: "\<And>st oid sc. ok st \<Longrightarrow> valid_id oid \<Longrightarrow> valid_scope sc \<Longrightarrow>
      os_get S oid sc st =
        (Inr (case orders_of st oid of None \<Rightarrow> None | Some od \<Rightarrow> if in_scope sc od then Some od else None), st)"
    and update_law: "\<And>st oid status ev now od. ok st \<Longrightarrow> valid_id oid \<Longrightarrow> orders_of st oid = Some od \<Longrightarrow>
      \<forall>h \<in> set (or_history od). ev_at h \<le> ev_at ev \<Longrightarrow>
      \<exists>st' u. os_updateStatus S oid status ev now st = (Inr (), st') \<and> ok st' \<and>
        orders_of st' = (orders_of st)(oid \<mapsto> with_event status (kept_event kept ev) u od)"
    and update_unknown: "\<And>st oid status ev now. ok st \<Longrightarrow> valid_id oid \<Longrightarrow> orders_of st oid = None \<Longrightarrow>
      os_updateStatus S oid status ev now st = (Inl (UnknownOrder oid), st)"
    and all_law: "\<And>st sc. ok st \<Longrightarrow> valid_scope sc \<Longrightarrow>
      \<exists>ods. os_all S sc st = (Inr ods, st) \<and> distinct (map or_id ods) \<and>
        (\<forall>od. od \<in> set ods \<longleftrightarrow> orders_of st (or_id od) = Some od \<and> in_scope sc od)"
    and nonTerminal_law: "\<And>st. ok st \<Longrightarrow>
      \<exists>ods. os_nonTerminal S st = (Inr ods, st) \<and> distinct (map or_id ods) \<and>
        (\<forall>od. od \<in> set ods \<longleftrightarrow> orders_of st (or_id od) = Some od \<and> \<not> isTerminalStatus (or_status od))"
    and deref_law: "\<And>st od od'. ok st \<Longrightarrow> orders_of st (or_id od) = Some od' \<Longrightarrow>
      os_deref S od st = od \<or> os_deref S od st = od'"
    and id_law: "\<And>st oid od. ok st \<Longrightarrow> orders_of st oid = Some od \<Longrightarrow> or_id od = oid \<and> valid_id oid"
    and unscoped_law: "valid_scope Unscoped"

section \<open>InMemoryOrderStore\<close>

type_synonym mem_orders = "(string, order) jmap"

definition ims_create :: "order \<Rightarrow> (mem_orders, unit) act" where
  "ims_create od = update_state (jset (or_id od) od)"

definition ims_get :: "string \<Rightarrow> scope \<Rightarrow> (mem_orders, order option) act" where
  "ims_get oid businessId = read_state (\<lambda>orders.
     case jget orders oid of
       None \<Rightarrow> None
     | Some od \<Rightarrow>
         (case businessId of
            Unscoped \<Rightarrow> Some od
          | Scoped b \<Rightarrow> if or_businessId od \<noteq> b then None else Some od))"

definition ims_updateStatus ::
  "string \<Rightarrow> order_status \<Rightarrow> order_event \<Rightarrow> int \<Rightarrow> (mem_orders, unit) act" where
  "ims_updateStatus oid status event now orders =
     (case jget orders oid of
        None \<Rightarrow> (Inl (UnknownOrder oid), orders)
      | Some od \<Rightarrow>
          (Inr (), jset oid (od\<lparr>or_status := status, or_history := or_history od @ [event],
                               or_updatedAt := now\<rparr>) orders))"

definition ims_all :: "scope \<Rightarrow> (mem_orders, order list) act" where
  "ims_all businessId = read_state (\<lambda>orders.
     case businessId of
       Unscoped \<Rightarrow> jvalues orders
     | Scoped b \<Rightarrow> filter (\<lambda>od. or_businessId od = b) (jvalues orders))"

definition ims_nonTerminal :: "(mem_orders, order list) act" where
  "ims_nonTerminal = read_state (\<lambda>orders. filter (\<lambda>od. \<not> isTerminalStatus (or_status od)) (jvalues orders))"

definition ims_deref :: "order \<Rightarrow> mem_orders \<Rightarrow> order" where
  "ims_deref od orders = (case jget orders (or_id od) of None \<Rightarrow> od | Some od' \<Rightarrow> od')"

definition InMemoryOrderStore :: "mem_orders order_store" where
  "InMemoryOrderStore =
     \<lparr>os_create = ims_create, os_get = ims_get, os_updateStatus = ims_updateStatus,
      os_all = ims_all, os_nonTerminal = ims_nonTerminal, os_deref = ims_deref\<rparr>"

section \<open>It implements the contract\<close>

definition ims_ok :: "mem_orders \<Rightarrow> bool" where
  "ims_ok orders \<longleftrightarrow> jmap_ok orders \<and> (\<forall>k od. (k, od) \<in> set orders \<longrightarrow> or_id od = k)"

lemma ims_ok_empty [simp]: "ims_ok []"
  by (simp add: ims_ok_def)

lemma ims_ok_get: "ims_ok orders \<Longrightarrow> jget orders k = Some od \<Longrightarrow> or_id od = k"
  by (auto simp: ims_ok_def dest: jget_in_set)

lemma ims_ok_jset: "ims_ok orders \<Longrightarrow> or_id od = k \<Longrightarrow> ims_ok (jset k od orders)"
proof -
  assume a: "ims_ok orders" "or_id od = k"
  have "set (jset k od orders) \<subseteq> insert (k, od) (set orders)"
    by (induction orders) auto
  with a show ?thesis unfolding ims_ok_def by blast
qed

lemma ims_values: "ims_ok orders \<Longrightarrow> od \<in> set (jvalues orders) \<longleftrightarrow> jget orders (or_id od) = Some od"
proof -
  assume a: "ims_ok orders"
  have "od \<in> set (jvalues orders) \<longleftrightarrow> (\<exists>k. (k, od) \<in> set orders)"
    by (force simp: jvalues_def)
  also have "\<dots> \<longleftrightarrow> (or_id od, od) \<in> set orders"
    using a unfolding ims_ok_def by blast
  finally show ?thesis using a by (simp add: ims_ok_def jget_iff_in_set)
qed

lemma ims_distinct: "ims_ok orders \<Longrightarrow> distinct (map or_id (jvalues orders))"
proof -
  assume a: "ims_ok orders"
  then have "map or_id (jvalues orders) = map fst orders"
    by (auto simp: ims_ok_def jvalues_def)
  with a show ?thesis by (simp add: ims_ok_def jmap_ok_def)
qed

lemma distinct_map_filter': "distinct (map f xs) \<Longrightarrow> distinct (map f (filter P xs))"
  by (induction xs) auto

interpretation ims: order_store InMemoryOrderStore "\<lambda>orders. jget orders" ims_ok "\<lambda>_. True" "\<lambda>_. True" "\<lambda>j. j"
proof (unfold_locales, goal_cases)
  case (1 st od)
  then show ?case by (auto simp: InMemoryOrderStore_def ims_create_def ims_ok_jset fun_eq_iff)
next
  case (2 st oid sc)
  then show ?case
    by (cases sc) (auto simp: InMemoryOrderStore_def ims_get_def split: option.splits)
next
  case (3 st oid status ev now od)
  then have "ims_ok (jset oid (with_event status ev now od) st)"
    by (auto intro!: ims_ok_jset simp: with_event_def dest: ims_ok_get)
  with 3 show ?case
    by (auto simp: InMemoryOrderStore_def ims_updateStatus_def with_event_def fun_eq_iff intro!: exI [of _ now])
next
  case (4 st oid status ev now)
  then show ?case by (simp add: InMemoryOrderStore_def ims_updateStatus_def)
next
  case (5 st sc)
  then show ?case
    using ims_values [of st] ims_distinct [of st]
    by (cases sc) (auto simp: InMemoryOrderStore_def ims_all_def distinct_map_filter')
next
  case (6 st)
  then show ?case
    using ims_values [of st] ims_distinct [of st]
    by (auto simp: InMemoryOrderStore_def ims_nonTerminal_def distinct_map_filter')
next
  case (7 st od od')
  then show ?case by (simp add: InMemoryOrderStore_def ims_deref_def)
next
  case (8 st oid od)
  then show ?case by (simp add: ims_ok_get)
qed simp

end
