(* ===== verification/Event_Bus.thy ===== *)
theory Event_Bus
  imports Json
begin

text \<open>
  \<open>src/lib/eventBus.ts\<close>: the interface of the bus and \<open>InMemoryEventBus\<close>, with a cursor per
  consumer group and the draining loop. A handler is a name; \<open>H\<close> says what a handler does, and
  may itself change the bus (publish, subscribe), throw, or change the state of its owner, the
  second component of the state.
\<close>

section \<open>Events and the interface\<close>

record domain_event =
  de_type :: string
  de_payload :: json
  de_at :: int
  de_key :: "string option"

definition event_json :: "domain_event \<Rightarrow> json" where
  "event_json e = JObj ([(''type'', JStr (de_type e)), (''payload'', de_payload e), (''at'', JNum (Num (de_at e)))]
      @ (case de_key e of None \<Rightarrow> [] | Some k \<Rightarrow> [(''key'', JStr k)]))"

record 'b event_bus =
  eb_publish :: "string \<Rightarrow> domain_event \<Rightarrow> ('b, unit) act"
  eb_history :: "string \<Rightarrow> 'b \<Rightarrow> domain_event list"

text \<open>What publishers rely on: publishing succeeds and appends to the topic's log only.\<close>

locale event_bus_laws =
  fixes B :: "'b event_bus"
    and bus_ok :: "'b \<Rightarrow> bool"
  assumes publish_law: "\<And>b topic ev. bus_ok b \<Longrightarrow>
      \<exists>b'. eb_publish B topic ev b = (Inr (), b') \<and> bus_ok b' \<and>
        (\<forall>t. eb_history B t b' = (if t = topic then eb_history B t b @ [ev] else eb_history B t b))"

section \<open>InMemoryEventBus\<close>

record 'h bus =
  bs_topics :: "(string, domain_event list) jmap"
  bs_cursors :: "(string, nat) jmap"
  bs_handlers :: "(string, 'h list) jmap"
  bs_draining :: bool

type_synonym ('h, 'e) bus_state = "'h bus \<times> 'e"

text \<open>What a handler does with an event.\<close>

type_synonym ('h, 'e) handling = "'h \<Rightarrow> domain_event \<Rightarrow> (('h, 'e) bus_state, unit) act"

definition new_bus :: "'h bus" where
  "new_bus = \<lparr>bs_topics = [], bs_cursors = [], bs_handlers = [], bs_draining = False\<rparr>"

definition topic_log :: "'h bus \<Rightarrow> string \<Rightarrow> domain_event list" where
  "topic_log b topic = (case jget (bs_topics b) topic of None \<Rightarrow> [] | Some l \<Rightarrow> l)"

definition handlers_of :: "'h bus \<Rightarrow> string \<Rightarrow> 'h list" where
  "handlers_of b key = (case jget (bs_handlers b) key of None \<Rightarrow> [] | Some hs \<Rightarrow> hs)"

definition group_key :: "string \<Rightarrow> string \<Rightarrow> string" where
  "group_key topic groupId = topic @ '':'' @ groupId"

definition splitKey :: "string \<Rightarrow> string \<times> string" where
  "splitKey key =
     (case index_of (CHR '':'') key of
        None \<Rightarrow> (butlast key, key)
      | Some idx \<Rightarrow> (take idx key, drop (Suc idx) key))"

definition push_event :: "string \<Rightarrow> domain_event \<Rightarrow> 'h bus \<Rightarrow> 'h bus" where
  "push_event topic ev b = b\<lparr>bs_topics := jset topic (topic_log b topic @ [ev]) (bs_topics b)\<rparr>"

definition set_cursor :: "string \<Rightarrow> nat \<Rightarrow> 'h bus \<Rightarrow> 'h bus" where
  "set_cursor key n b = b\<lparr>bs_cursors := jset key n (bs_cursors b)\<rparr>"

definition subscribe :: "string \<Rightarrow> string \<Rightarrow> 'h \<Rightarrow> 'h bus \<Rightarrow> 'h bus" where
  "subscribe topic groupId h b =
     (let key = group_key topic groupId;
          b1 = b\<lparr>bs_handlers := jset key (handlers_of b key @ [h]) (bs_handlers b)\<rparr> in
      if \<not> jhas (bs_cursors b1) key then set_cursor key 0 b1 else b1)"

text \<open>
  One run of the draining loop from group number \<open>i\<close> on. \<open>None\<close> is a loop that never ends (the
  handlers may publish forever); a throw leaves the cursor of its group where it was.
\<close>

partial_function (option) drain_loop ::
  "('h, 'e) handling \<Rightarrow> string \<Rightarrow> nat \<Rightarrow> bool \<Rightarrow> ('h, 'e) bus_state \<Rightarrow>
     ((js_error + unit) \<times> ('h, 'e) bus_state) option" where
  "drain_loop H topic i madeProgress s =
     (if i < length (bs_cursors (fst s)) then
        let key = fst (bs_cursors (fst s) ! i); cursor = snd (bs_cursors (fst s) ! i);
            t = fst (splitKey key); log = topic_log (fst s) t in
        if t \<noteq> topic then drain_loop H topic (Suc i) madeProgress s
        else if length log \<le> cursor then drain_loop H topic (Suc i) madeProgress s
        else
          (case for_each (\<lambda>h. H h (log ! cursor)) (handlers_of (fst s) key) s of
             (Inl e, s') \<Rightarrow> Some (Inl e, s')
           | (Inr _, s') \<Rightarrow>
               drain_loop H topic (Suc i) True (set_cursor key (Suc cursor) (fst s'), snd s'))
      else if madeProgress then drain_loop H topic 0 False s
      else Some (Inr (), s))"

declare drain_loop.simps [code]

definition drain ::
  "('h, 'e) handling \<Rightarrow> string \<Rightarrow> ('h, 'e) bus_state \<Rightarrow> ((js_error + unit) \<times> ('h, 'e) bus_state) option" where
  "drain H topic s =
     (if bs_draining (fst s) then Some (Inr (), s)
      else
        (case drain_loop H topic 0 False ((fst s)\<lparr>bs_draining := True\<rparr>, snd s) of
           None \<Rightarrow> None
         | Some (r, s') \<Rightarrow> Some (r, (fst s')\<lparr>bs_draining := False\<rparr>, snd s')))"

definition publish ::
  "('h, 'e) handling \<Rightarrow> string \<Rightarrow> domain_event \<Rightarrow> ('h, 'e) bus_state \<Rightarrow>
     ((js_error + unit) \<times> ('h, 'e) bus_state) option" where
  "publish H topic ev s = drain H topic (push_event topic ev (fst s), snd s)"

definition history :: "string \<Rightarrow> 'h bus \<Rightarrow> domain_event list" where
  "history topic b = topic_log b topic"

text \<open>The class behind the interface; a loop that never ends is a promise that never settles.\<close>

definition InMemoryEventBus :: "('h, 'e) handling \<Rightarrow> ('h, 'e) bus_state event_bus" where
  "InMemoryEventBus H =
     \<lparr>eb_publish = (\<lambda>topic ev s. case publish H topic ev s of None \<Rightarrow> (Inl NeverSettles, s) | Some r \<Rightarrow> r),
      eb_history = (\<lambda>topic s. history topic (fst s))\<rparr>"

lemma InMemoryEventBus_history [simp]: "eb_history (InMemoryEventBus H) topic s = history topic (fst s)"
  by (simp add: InMemoryEventBus_def)

definition close_bus :: "'h bus \<Rightarrow> 'h bus" where
  "close_bus b = b\<lparr>bs_topics := [], bs_cursors := [], bs_handlers := []\<rparr>"

section \<open>Keys of consumer groups\<close>

lemma splitKey_group_key: "CHR '':'' \<notin> set topic \<Longrightarrow> splitKey (group_key topic g) = (topic, g)"
  by (simp add: splitKey_def group_key_def index_of_append)

lemma group_key_inject: "group_key topic g = group_key topic g' \<longleftrightarrow> g = g'"
  by (simp add: group_key_def)

lemma topic_log_push [simp]:
  "topic_log (push_event topic ev b) t = (if t = topic then topic_log b t @ [ev] else topic_log b t)"
  by (simp add: topic_log_def push_event_def)

lemma topic_log_cursor [simp]: "topic_log (set_cursor k n b) t = topic_log b t"
  by (simp add: topic_log_def set_cursor_def)

lemma topic_log_draining [simp]: "topic_log (b\<lparr>bs_draining := d\<rparr>) t = topic_log b t"
  by (simp add: topic_log_def)

lemma handlers_of_simps [simp]:
  "handlers_of (push_event topic ev b) k = handlers_of b k"
  "handlers_of (set_cursor k' n b) k = handlers_of b k"
  "handlers_of (b\<lparr>bs_draining := d\<rparr>) k = handlers_of b k"
  by (simp_all add: handlers_of_def push_event_def set_cursor_def)

lemma bus_fields [simp]:
  "bs_cursors (push_event topic ev b) = bs_cursors b"
  "bs_draining (push_event topic ev b) = bs_draining b"
  "bs_cursors (set_cursor k n b) = jset k n (bs_cursors b)"
  "bs_draining (set_cursor k n b) = bs_draining b"
  by (simp_all add: push_event_def set_cursor_def)

section \<open>Draining with handlers that leave the bus alone\<close>

text \<open>
  A passive handler neither throws nor touches the bus; \<open>eff\<close> is its effect on its owner. The
  subscribers of the source are passive: the warehouse nodes, the server-sent events hub, and
  the saga runner, which only starts a run.
\<close>

locale passive_handlers =
  fixes H :: "('h, 'e) handling"
    and eff :: "'h \<Rightarrow> domain_event \<Rightarrow> 'e \<Rightarrow> 'e"
  assumes inert: "\<And>h ev b e. H h ev (b, e) = (Inr (), (b, eff h ev e))"

definition deliver :: "('h \<Rightarrow> domain_event \<Rightarrow> 'e \<Rightarrow> 'e) \<Rightarrow> 'h bus \<Rightarrow> string \<times> domain_event \<Rightarrow> 'e \<Rightarrow> 'e" where
  "deliver eff b d e = fold (\<lambda>h. eff h (snd d)) (handlers_of b (fst d)) e"

definition on_topic :: "string \<Rightarrow> string \<Rightarrow> bool" where
  "on_topic topic key \<longleftrightarrow> fst (splitKey key) = topic"

definition deliveries_to :: "string \<Rightarrow> (string \<times> domain_event) list \<Rightarrow> domain_event list" where
  "deliveries_to key D = map snd (filter (\<lambda>d. fst d = key) D)"

text \<open>
  What a run of the loop delivers: to every group of the topic exactly the events of the log
  from its cursor on, in order, and to no other group anything.
\<close>

definition delivers :: "string \<Rightarrow> 'h bus \<Rightarrow> (string \<times> domain_event) list \<Rightarrow> bool" where
  "delivers topic b D \<longleftrightarrow>
     (\<forall>(k, c) \<in> set (bs_cursors b). on_topic topic k \<longrightarrow> deliveries_to k D = drop c (topic_log b topic)) \<and>
     (\<forall>d \<in> set D. on_topic topic (fst d) \<and> fst d \<in> fst ` set (bs_cursors b))"

definition caught_up :: "string \<Rightarrow> 'h bus \<Rightarrow> (string, nat) jmap" where
  "caught_up topic b =
     map (\<lambda>(k, c). (k, if on_topic topic k then max c (length (topic_log b topic)) else c)) (bs_cursors b)"

definition pending :: "string \<Rightarrow> 'h bus \<Rightarrow> nat" where
  "pending topic b =
     sum_list (map (\<lambda>(k, c). if on_topic topic k then length (topic_log b topic) - c else 0) (bs_cursors b))"

definition loop_measure :: "string \<Rightarrow> nat \<Rightarrow> bool \<Rightarrow> 'h bus \<Rightarrow> nat" where
  "loop_measure topic i mp b =
     pending topic b * (2 * (length (bs_cursors b) + 2)) + (if mp then length (bs_cursors b) + 1 else 0)
       + (length (bs_cursors b) - i)"

lemma deliver_bus [simp]:
  "deliver eff (set_cursor k n b) = deliver eff b"
  "deliver eff (b\<lparr>bs_draining := d\<rparr>) = deliver eff b"
  "deliver eff (push_event t ev b) = deliver eff b"
  by (simp_all add: deliver_def fun_eq_iff)

lemma deliveries_to_simps [simp]:
  "deliveries_to k [] = []"
  "deliveries_to k (d # D) = (if fst d = k then snd d # deliveries_to k D else deliveries_to k D)"
  by (simp_all add: deliveries_to_def)

lemma pending_advance:
  assumes "jmap_ok (bs_cursors b)" "i < length (bs_cursors b)" "bs_cursors b ! i = (k, c)"
    and "on_topic topic k" "c < length (topic_log b topic)"
  shows "pending topic b = Suc (pending topic (set_cursor k (Suc c) b))"
proof -
  let ?w = "\<lambda>(k, c). if on_topic topic k then length (topic_log b topic) - c else 0"
  have upd: "jset k (Suc c) (bs_cursors b) = (bs_cursors b)[i := (k, Suc c)]"
    using jset_nth [OF assms(1,2), of "Suc c"] assms(3) by simp
  have "map ?w (bs_cursors b) ! i \<le> sum_list (map ?w (bs_cursors b))"
    using assms(2) by (intro elem_le_sum_list) simp
  then show ?thesis
    unfolding pending_def bus_fields topic_log_cursor upd map_update
    using assms by (simp add: sum_list_update)
qed

lemma drain_loop_step:
  "drain_loop H topic i mp (b, e) =
     (if i < length (bs_cursors b) then
        (case bs_cursors b ! i of (key, cursor) \<Rightarrow>
          if \<not> on_topic topic key \<or> length (topic_log b topic) \<le> cursor then drain_loop H topic (Suc i) mp (b, e)
          else
            (case for_each (\<lambda>h. H h (topic_log b topic ! cursor)) (handlers_of b key) (b, e) of
               (Inl err, s') \<Rightarrow> Some (Inl err, s')
             | (Inr _, s') \<Rightarrow> drain_loop H topic (Suc i) True (set_cursor key (Suc cursor) (fst s'), snd s')))
      else if mp then drain_loop H topic 0 False (b, e)
      else Some (Inr (), (b, e)))"
  by (cases "bs_cursors b ! i") (subst drain_loop.simps, simp add: Let_def on_topic_def)

lemma delivers_skip_all:
  assumes "\<forall>(k, c) \<in> set (bs_cursors b). on_topic topic k \<longrightarrow> length (topic_log b topic) \<le> c"
  shows "delivers topic b []" and "caught_up topic b = bs_cursors b"
  using assms by (auto simp: delivers_def caught_up_def intro!: map_idI)

lemma delivers_step:
  assumes "jmap_ok (bs_cursors b)" "(k, c) \<in> set (bs_cursors b)" "on_topic topic k"
    and "c < length (topic_log b topic)"
    and "delivers topic (set_cursor k (Suc c) b) D"
  shows "delivers topic b ((k, topic_log b topic ! c) # D)"
proof -
  let ?cs = "bs_cursors b"
  have keys: "fst ` set (jset k (Suc c) ?cs) = fst ` set ?cs"
  proof -
    have "jhas ?cs k" using assms(1,2) by (simp add: jhas_def jget_iff_in_set [THEN iffD2])
    then have "map fst (jset k (Suc c) ?cs) = map fst ?cs" by (simp add: keys_jset)
    then show ?thesis by (metis list.set_map)
  qed
  have mem: "(k', c') \<in> set (jset k (Suc c) ?cs) \<longleftrightarrow> (if k' = k then c' = Suc c else (k', c') \<in> set ?cs)" for k' c'
    using jget_iff_in_set [of "jset k (Suc c) ?cs" k' c'] assms(1) jget_iff_in_set [of ?cs k' c'] by auto
  have "c' = c" if "(k, c') \<in> set ?cs" for c'
    using that assms(1,2) by (metis jget_iff_in_set option.inject)
  note same = this
  let ?L = "topic_log b topic"
  from assms(5) have D: "\<And>k' c'. (k', c') \<in> set (jset k (Suc c) ?cs) \<Longrightarrow> on_topic topic k' \<Longrightarrow>
      deliveries_to k' D = drop c' ?L"
    and only: "\<And>d. d \<in> set D \<Longrightarrow> on_topic topic (fst d) \<and> fst d \<in> fst ` set ?cs"
    by (auto simp: delivers_def keys [symmetric])
  have "deliveries_to k' ((k, ?L ! c) # D) = drop c' ?L"
    if "(k', c') \<in> set ?cs" "on_topic topic k'" for k' c'
  proof (cases "k' = k")
    case True
    with that same have "c' = c" by blast
    moreover have "deliveries_to k D = drop (Suc c) ?L" using D [of k "Suc c"] mem assms(3) by simp
    ultimately show ?thesis using True assms(4) by (simp add: Cons_nth_drop_Suc)
  next
    case False
    with that D [of k' c'] mem show ?thesis by simp
  qed
  moreover have "k \<in> fst ` set ?cs" using assms(2) by force
  ultimately show ?thesis using only assms(3) unfolding delivers_def by auto
qed

lemma caught_up_step:
  assumes "jmap_ok (bs_cursors b)" "i < length (bs_cursors b)" "bs_cursors b ! i = (k, c)"
    and "on_topic topic k" "c < length (topic_log b topic)"
  shows "caught_up topic (set_cursor k (Suc c) b) = caught_up topic b"
proof -
  let ?f = "\<lambda>(k, c). (k, if on_topic topic k then max c (length (topic_log b topic)) else c)"
  have upd: "jset k (Suc c) (bs_cursors b) = (bs_cursors b)[i := (k, Suc c)]"
    using jset_nth [OF assms(1,2), of "Suc c"] assms(3) by simp
  have "?f (k, Suc c) = map ?f (bs_cursors b) ! i" using assms by auto
  then have "(map ?f (bs_cursors b)) [i := ?f (k, Suc c)] = map ?f (bs_cursors b)"
    by (simp only: list_update_id)
  then show ?thesis unfolding caught_up_def bus_fields topic_log_cursor upd map_update .
qed

text \<open>
  The draining loop with passive handlers ends, delivers to each group of the topic exactly what
  it had not yet seen, and moves its cursor to the end of the log.
\<close>

context passive_handlers
begin

lemma for_each_inert: "for_each (\<lambda>h. H h ev) hs (b, e) = (Inr (), (b, fold (\<lambda>h. eff h ev) hs e))"
  by (induction hs arbitrary: e) (simp_all add: bind_apply inert)

lemma drain_loop_passive:
  assumes "jmap_ok (bs_cursors b)" and "i \<le> length (bs_cursors b)"
    and "\<not> mp \<Longrightarrow> \<forall>(k, c) \<in> set (take i (bs_cursors b)). on_topic topic k \<longrightarrow> length (topic_log b topic) \<le> c"
  shows "\<exists>D. drain_loop H topic i mp (b, e) =
      Some (Inr (), (b\<lparr>bs_cursors := caught_up topic b\<rparr>, fold (deliver eff b) D e)) \<and> delivers topic b D"
  using assms
proof (induction "loop_measure topic i mp b" arbitrary: b e i mp rule: less_induct)
  case less
  let ?n = "length (bs_cursors b)" and ?L = "topic_log b topic"
  show ?case
  proof (cases "i < ?n")
    case False
    with less.prems(2) have i: "i = ?n" by simp
    show ?thesis
    proof (cases mp)
      case True
      then have "loop_measure topic 0 False b < loop_measure topic i mp b" by (simp add: loop_measure_def i)
      from less.hyps [OF this less.prems(1)] True False show ?thesis
        by (simp add: drain_loop_step [of _ _ i])
    next
      case False
      with less.prems(3) i have all: "\<forall>(k, c) \<in> set (bs_cursors b). on_topic topic k \<longrightarrow> length ?L \<le> c"
        by simp
      show ?thesis
        using False i delivers_skip_all [OF all] by (intro exI [of _ "[]"]) (simp add: drain_loop_step)
    qed
  next
    case True
    obtain k c where kc: "bs_cursors b ! i = (k, c)" by (cases "bs_cursors b ! i")
    with True have mem: "(k, c) \<in> set (bs_cursors b)" by (metis nth_mem)
    show ?thesis
    proof (cases "\<not> on_topic topic k \<or> length ?L \<le> c")
      case skip: True
      have "loop_measure topic (Suc i) mp b < loop_measure topic i mp b" using True by (simp add: loop_measure_def)
      moreover have "\<forall>(k, c) \<in> set (take (Suc i) (bs_cursors b)). on_topic topic k \<longrightarrow> length ?L \<le> c" if "\<not> mp"
        using less.prems(3) [OF that] True kc skip by (auto simp: take_Suc_conv_app_nth)
      ultimately obtain D where
        "drain_loop H topic (Suc i) mp (b, e) =
           Some (Inr (), (b\<lparr>bs_cursors := caught_up topic b\<rparr>, fold (deliver eff b) D e))" "delivers topic b D"
        using less.hyps [of "Suc i" mp b e] less.prems(1) True by auto
      with True kc skip show ?thesis by (auto simp: drain_loop_step [of _ _ i])
    next
      case step: False
      let ?b = "set_cursor k (Suc c) b"
      let ?e = "deliver eff b (k, ?L ! c) e"
      have ok: "jmap_ok (bs_cursors ?b)" using less.prems(1) by simp
      have len: "length (bs_cursors ?b) = ?n"
        using mem less.prems(1) by (simp add: length_jset jhas_def jget_iff_in_set [THEN iffD2])
      have p: "pending topic b = Suc (pending topic ?b)"
        using pending_advance [OF less.prems(1) True kc] step by simp
      have "loop_measure topic (Suc i) True ?b < loop_measure topic i mp b"
        unfolding loop_measure_def len p using True by simp
      from less.hyps [OF this ok] len True obtain D where
        D: "drain_loop H topic (Suc i) True (?b, ?e) =
           Some (Inr (), (?b\<lparr>bs_cursors := caught_up topic ?b\<rparr>, fold (deliver eff ?b) D ?e))"
          "delivers topic ?b D" by auto
      have cu: "caught_up topic ?b = caught_up topic b"
        using caught_up_step [OF less.prems(1) True kc] step by simp
      have upd: "?b\<lparr>bs_cursors := cs\<rparr> = b\<lparr>bs_cursors := cs\<rparr>" for cs by (simp add: set_cursor_def)
      have e: "fold (\<lambda>h. eff h (?L ! c)) (handlers_of b k) e = ?e" by (simp add: deliver_def)
      have "drain_loop H topic i mp (b, e) = drain_loop H topic (Suc i) True (?b, ?e)"
        using True kc step by (simp add: drain_loop_step [of _ _ i] for_each_inert e)
      then have "drain_loop H topic i mp (b, e) =
          Some (Inr (), (b\<lparr>bs_cursors := caught_up topic b\<rparr>, fold (deliver eff b) ((k, ?L ! c) # D) e))"
        by (simp only: D(1) cu upd deliver_bus fold.simps comp_apply)
      moreover have "delivers topic b ((k, ?L ! c) # D)"
        using delivers_step [OF less.prems(1) mem _ _ D(2)] step by simp
      ultimately show ?thesis by blast
    qed
  qed
qed

lemma publish_passive:
  fixes b :: "'h bus" and topic :: string and ev :: domain_event
  assumes "jmap_ok (bs_cursors b)" and "\<not> bs_draining b"
  defines "b1 \<equiv> push_event topic ev b"
  shows "\<exists>D. publish H topic ev (b, e) =
      Some (Inr (), (b1\<lparr>bs_cursors := caught_up topic b1\<rparr>, fold (deliver eff b) D e)) \<and> delivers topic b1 D"
proof -
  let ?b = "b1\<lparr>bs_draining := True\<rparr>"
  have ok: "jmap_ok (bs_cursors ?b)" using assms by simp
  from drain_loop_passive [OF ok, of 0 False topic e] obtain D where
    D: "drain_loop H topic 0 False (?b, e) =
       Some (Inr (), (?b\<lparr>bs_cursors := caught_up topic ?b\<rparr>, fold (deliver eff ?b) D e))"
      "delivers topic ?b D" by auto
  have "deliver eff ?b = deliver eff b" by (simp add: b1_def)
  moreover have "caught_up topic ?b = caught_up topic b1" unfolding caught_up_def topic_log_draining by simp
  moreover have "delivers topic b1 D" using D(2) by (simp add: delivers_def)
  moreover have "\<not> bs_draining b1" using assms(2) by (simp add: b1_def)
  ultimately show ?thesis
    using D(1) by (intro exI [of _ D]) (cases b1, simp add: publish_def drain_def flip: b1_def)
qed

end

text \<open>So a bus with passive subscribers keeps the contract of publishers.\<close>

definition bus_ready :: "('h, 'e) bus_state \<Rightarrow> bool" where
  "bus_ready s \<longleftrightarrow> jmap_ok (bs_cursors (fst s)) \<and> \<not> bs_draining (fst s)"

lemma caught_up_keys: "map fst (caught_up topic b) = map fst (bs_cursors b)"
  by (auto simp: caught_up_def)

sublocale passive_handlers \<subseteq> inmem: event_bus_laws "InMemoryEventBus H" bus_ready
proof
  fix s :: "('h, 'e) bus_state" and topic ev
  assume ready: "bus_ready s"
  obtain b e where s: "s = (b, e)" by (cases s)
  let ?b1 = "push_event topic ev b"
  from publish_passive [of b topic ev e] ready obtain D where
    D: "publish H topic ev (b, e) =
      Some (Inr (), (?b1\<lparr>bs_cursors := caught_up topic ?b1\<rparr>, fold (deliver eff b) D e))"
    by (auto simp: s bus_ready_def)
  have "bus_ready (?b1\<lparr>bs_cursors := caught_up topic ?b1\<rparr>, e')" for e'
    using ready by (simp add: bus_ready_def s jmap_ok_def caught_up_keys)
  moreover have "topic_log (?b1\<lparr>bs_cursors := cs\<rparr>) t = topic_log ?b1 t" for cs t
    by (simp add: topic_log_def)
  ultimately show "\<exists>s'. eb_publish (InMemoryEventBus H) topic ev s = (Inr (), s') \<and> bus_ready s' \<and>
      (\<forall>t. eb_history (InMemoryEventBus H) t s' =
         (if t = topic then eb_history (InMemoryEventBus H) t s @ [ev] else eb_history (InMemoryEventBus H) t s))"
    using D by (simp add: InMemoryEventBus_def history_def s)
qed

end
