(* ===== verification/Saga.thy ===== *)
theory Saga
  imports Inventory Participants Order_Store Event_Bus
begin

text \<open>
  \<open>SagaOrchestrator\<close> of \<open>src/orders/sagaOrchestrator.ts\<close> and the startup sweep of
  \<open>src/orders/recoverStuckOrders.ts\<close>, over any stock store, order store and event bus.
\<close>

section \<open>The world of an orchestrator\<close>

record ('r, 'st, 'b) world = "'r process" +
  w_payments :: payment_gateway
  w_shipping :: shipping_provider
  w_bus :: 'b
  w_store :: 'st

text \<open>What the constructor is given, beside the participants whose state is in the world.\<close>

record ('r, 'st, 'b) deps =
  dp_redis :: "'r redis_like"
  dp_store :: "'st order_store"
  dp_bus :: "'b event_bus"
  dp_env :: env

definition SagaOrchestrator ::
  "'r redis_like \<Rightarrow> 'st order_store \<Rightarrow> 'b event_bus \<Rightarrow> env \<Rightarrow> ('r, 'st, 'b) deps" where
  "SagaOrchestrator R S B E = \<lparr>dp_redis = R, dp_store = S, dp_bus = B, dp_env = E\<rparr>"

lemma SagaOrchestrator_fields [simp]:
  "dp_redis (SagaOrchestrator R S B E) = R" "dp_store (SagaOrchestrator R S B E) = S"
  "dp_bus (SagaOrchestrator R S B E) = B" "dp_env (SagaOrchestrator R S B E) = E"
  by (simp_all add: SagaOrchestrator_def)

type_synonym ('r, 'st, 'b, 'a) saga_act = "(('r, 'st, 'b) world, 'a) act"

definition on_store :: "('st, 'a) act \<Rightarrow> ('r, 'st, 'b, 'a) saga_act" where
  "on_store m = zoom w_store (\<lambda>st w. w\<lparr>w_store := st\<rparr>) m"

definition on_bus :: "('b, 'a) act \<Rightarrow> ('r, 'st, 'b, 'a) saga_act" where
  "on_bus m = zoom w_bus (\<lambda>b w. w\<lparr>w_bus := b\<rparr>) m"

definition on_payments :: "(payment_gateway \<Rightarrow> 'a \<times> payment_gateway) \<Rightarrow> ('r, 'st, 'b, 'a) saga_act" where
  "on_payments f w = (case f (w_payments w) of (a, g) \<Rightarrow> (Inr a, w\<lparr>w_payments := g\<rparr>))"

definition on_shipping :: "(shipping_provider \<Rightarrow> 'a \<times> shipping_provider) \<Rightarrow> ('r, 'st, 'b, 'a) saga_act" where
  "on_shipping f w = (case f (w_shipping w) of (a, p) \<Rightarrow> (Inr a, w\<lparr>w_shipping := p\<rparr>))"

section \<open>Events, transitions and lookups\<close>

definition ORDERS_TOPIC :: string where
  "ORDERS_TOPIC = ''orders''"

type_synonym fields = "(string \<times> json) list"

definition publish_saga :: "('r, 'st, 'b) deps \<Rightarrow> string \<Rightarrow> string \<Rightarrow> fields \<Rightarrow> ('r, 'st, 'b, unit) saga_act" where
  "publish_saga D orderId type payload =
     bind (date_now (dp_env D)) (\<lambda>stamp.
       on_bus (eb_publish (dp_bus D) ORDERS_TOPIC
         \<lparr>de_type = type, de_payload = JObj (spread [(''orderId'', JStr orderId)] payload), de_at = stamp,
          de_key = Some orderId\<rparr>))"

definition transition ::
  "('r, 'st, 'b) deps \<Rightarrow> string \<Rightarrow> order_status \<Rightarrow> string \<Rightarrow> fields \<Rightarrow> ('r, 'st, 'b, unit) saga_act" where
  "transition D orderId status eventType detail =
     bind (date_now (dp_env D)) (\<lambda>stamp.
     bind (date_now (dp_env D)) (\<lambda>now.
     bind (on_store (os_updateStatus (dp_store D) orderId status
             \<lparr>ev_type = eventType, ev_at = stamp, ev_detail = Some (JObj detail)\<rparr> now)) (\<lambda>_.
     bind (publish_saga D orderId eventType detail) (\<lambda>_.
       if status = CONFIRMED \<or> status = CANCELLED
       then on_metrics (\<lambda>m. m\<lparr>sagaOutcomes := inc [(''status'', status_text status)] (sagaOutcomes m)\<rparr>)
       else ret ()))))"

definition mustGet :: "('r, 'st, 'b) deps \<Rightarrow> string \<Rightarrow> ('r, 'st, 'b, order) saga_act" where
  "mustGet D oid =
     bind (on_store (os_get (dp_store D) oid Unscoped)) (\<lambda>found.
       case found of None \<Rightarrow> throw (UnknownOrder oid) | Some od \<Rightarrow> ret od)"

definition fail ::
  "('r, 'st, 'b) deps \<Rightarrow> string \<Rightarrow> string \<Rightarrow> fields \<Rightarrow> ('r, 'st, 'b, unit) saga_act" where
  "fail D orderId reason detail =
     transition D orderId CANCELLED ''order.cancelled'' (spread [(''reason'', JStr reason)] detail)"

section \<open>createOrder\<close>

definition created_payload :: "string \<Rightarrow> order_line list \<Rightarrow> int \<Rightarrow> string option \<Rightarrow> fields" where
  "created_payload customerId lns amountCents businessId =
     [(''customerId'', JStr customerId), (''lines'', JArr (map line_json lns)),
      (''amountCents'', JNum (Num amountCents)), (''businessId'', nullable businessId)]"

definition createOrder ::
  "('r, 'st, 'b) deps \<Rightarrow> string \<Rightarrow> order_line list \<Rightarrow> int \<Rightarrow> string option \<Rightarrow> ('r, 'st, 'b, string) saga_act" where
  "createOrder D customerId lns amountCents businessId =
     bind (random_uuid (dp_env D)) (\<lambda>oid.
     bind (date_now (dp_env D)) (\<lambda>createdAt.
     bind (date_now (dp_env D)) (\<lambda>updatedAt.
     bind (on_store (os_create (dp_store D)
             \<lparr>or_id = oid, or_customerId = customerId, or_lines = lns, or_amountCents = amountCents,
              or_status = CREATED, or_history = [], or_createdAt = createdAt, or_updatedAt = updatedAt,
              or_businessId = businessId\<rparr>)) (\<lambda>_.
     bind (publish_saga D oid ''order.created'' (created_payload customerId lns amountCents businessId)) (\<lambda>_.
     ret oid)))))"

section \<open>Reservations of an order\<close>

record reservation =
  rv_warehouseId :: string
  rv_sku :: string
  rv_reservationId :: string

definition reservation_json :: "reservation \<Rightarrow> json" where
  "reservation_json r =
     JObj [(''warehouseId'', JStr (rv_warehouseId r)), (''sku'', JStr (rv_sku r)),
           (''reservationId'', JStr (rv_reservationId r))]"

text \<open>
  Reading a field of a recorded reservation, as the cast in \<open>reservationsFromHistory\<close> does:
  a missing field is undefined.
\<close>

definition json_str :: "json \<Rightarrow> string \<Rightarrow> string" where
  "json_str j k = (case json_field j k of Some (JStr s) \<Rightarrow> s | _ \<Rightarrow> ''undefined'')"

definition reservation_of_json :: "json \<Rightarrow> reservation" where
  "reservation_of_json j =
     \<lparr>rv_warehouseId = json_str j ''warehouseId'', rv_sku = json_str j ''sku'',
      rv_reservationId = json_str j ''reservationId''\<rparr>"

definition reservationsFromHistory :: "order \<Rightarrow> reservation list" where
  "reservationsFromHistory od =
     (case find (\<lambda>h. ev_type h = ''order.inventory_reserved'') (or_history od) of
        None \<Rightarrow> []
      | Some reservedEvent \<Rightarrow>
          (case ev_detail reservedEvent of
             None \<Rightarrow> []
           | Some detail \<Rightarrow>
               (case json_field detail ''reservations'' of
                  Some (JArr rs) \<Rightarrow> map reservation_of_json rs
                | _ \<Rightarrow> [])))"

text \<open>The loop of step 1: the line that could not be reserved, if any, and what was reserved.\<close>

fun reserve_loop ::
  "('r, 'st, 'b) deps \<Rightarrow> order_line list \<Rightarrow> reservation list \<Rightarrow>
     ('r, 'st, 'b, order_line option \<times> reservation list) saga_act" where
  "reserve_loop D [] reservations = ret (None, reservations)"
| "reserve_loop D (l # ls) reservations =
     bind (reserve (dp_redis D) (dp_env D) (ol_warehouseId l) (ol_sku l) (Num (ol_qty l))
             DEFAULT_RESERVATION_TTL_SECONDS) (\<lambda>result.
       if \<not> rr_ok result then ret (Some l, reservations)
       else reserve_loop D ls
         (reservations @ [\<lparr>rv_warehouseId = ol_warehouseId l, rv_sku = ol_sku l,
                           rv_reservationId = the (rr_reservationId result)\<rparr>]))"

definition release_reservation :: "('r, 'st, 'b) deps \<Rightarrow> reservation \<Rightarrow> ('r, 'st, 'b, unit) saga_act" where
  "release_reservation D r =
     bind (release (dp_redis D) (dp_env D) (rv_warehouseId r) (rv_sku r) (rv_reservationId r)) (\<lambda>_. ret ())"

definition commit_reservation :: "('r, 'st, 'b) deps \<Rightarrow> reservation \<Rightarrow> ('r, 'st, 'b, unit) saga_act" where
  "commit_reservation D r =
     bind (commit (dp_redis D) (dp_env D) (rv_warehouseId r) (rv_sku r) (rv_reservationId r)) (\<lambda>_. ret ())"

section \<open>compensate and run\<close>

definition compensate ::
  "('r, 'st, 'b) deps \<Rightarrow> string \<Rightarrow> reservation list \<Rightarrow> bool \<Rightarrow> bool \<Rightarrow> ('r, 'st, 'b, unit) saga_act" where
  "compensate D oid reservations paid shipped =
     bind (transition D oid COMPENSATING ''order.compensating'' []) (\<lambda>_.
     bind (if shipped then bind (on_shipping (cancel oid)) (\<lambda>_. ret ()) else ret ()) (\<lambda>_.
     bind (if paid then bind (on_payments (refund oid)) (\<lambda>_. ret ()) else ret ()) (\<lambda>_.
     for_each (release_reservation D) reservations)))"

definition primaryWarehouse :: "order \<Rightarrow> string" where
  "primaryWarehouse od = (case or_lines od of [] \<Rightarrow> ''unknown'' | l # _ \<Rightarrow> ol_warehouseId l)"

definition run :: "('r, 'st, 'b) deps \<Rightarrow> string \<Rightarrow> ('r, 'st, 'b, order) saga_act" where
  "run D orderId =
     bind (mustGet D orderId) (\<lambda>od.
     bind (reserve_loop D (or_lines od) []) (\<lambda>(failed, reservations).
     case failed of
       Some line \<Rightarrow>
         bind (compensate D (or_id od) reservations False False) (\<lambda>_.
         bind (fail D (or_id od) ''INVENTORY_UNAVAILABLE''
                 [(''sku'', JStr (ol_sku line)), (''warehouseId'', JStr (ol_warehouseId line))]) (\<lambda>_.
         mustGet D orderId))
     | None \<Rightarrow>
         bind (transition D (or_id od) INVENTORY_RESERVED ''order.inventory_reserved''
                 [(''reservations'', JArr (map reservation_json reservations))]) (\<lambda>_.
         bind (on_payments (charge (or_id od) (or_amountCents od))) (\<lambda>payment.
         if \<not> pr_ok payment then
           bind (compensate D (or_id od) reservations False False) (\<lambda>_.
           bind (fail D (or_id od) ''PAYMENT_FAILED'' [(''reason'', nullable (pr_reason payment))]) (\<lambda>_.
           mustGet D orderId))
         else
           bind (transition D (or_id od) PAYMENT_CHARGED ''order.payment_charged''
                   [(''paymentId'', nullable (pr_paymentId payment))]) (\<lambda>_.
           bind (on_shipping (schedule (or_id od) (primaryWarehouse od))) (\<lambda>shipment.
           if \<not> sr_ok shipment then
             bind (compensate D (or_id od) reservations True False) (\<lambda>_.
             bind (fail D (or_id od) ''SHIPPING_FAILED'' [(''reason'', nullable (sr_reason shipment))]) (\<lambda>_.
             mustGet D orderId))
           else
             bind (transition D (or_id od) SHIPPING_SCHEDULED ''order.shipping_scheduled''
                     [(''shipmentId'', nullable (sr_shipmentId shipment))]) (\<lambda>_.
             bind (for_each (commit_reservation D) reservations) (\<lambda>_.
             bind (transition D (or_id od) CONFIRMED ''order.confirmed'' []) (\<lambda>_.
             mustGet D orderId)))))))))"

section \<open>Recovery\<close>

definition has_event :: "string \<Rightarrow> order \<Rightarrow> bool" where
  "has_event type od \<longleftrightarrow> (\<exists>h \<in> set (or_history od). ev_type h = type)"

definition recoverStuck :: "('r, 'st, 'b) deps \<Rightarrow> order \<Rightarrow> ('r, 'st, 'b, order) saga_act" where
  "recoverStuck D od =
     bind (read_state (\<lambda>w. os_deref (dp_store D) od (w_store w))) (\<lambda>cur.
     if isTerminalStatus (or_status cur) then ret cur
     else
       bind (compensate D (or_id cur) (reservationsFromHistory cur)
               (has_event ''order.payment_charged'' cur) (has_event ''order.shipping_scheduled'' cur)) (\<lambda>_.
       bind (read_state (\<lambda>w. os_deref (dp_store D) od (w_store w))) (\<lambda>later.
       bind (fail D (or_id cur) ''RECOVERED_AFTER_RESTART''
               [(''previousStatus'', JStr (status_text (or_status later)))]) (\<lambda>_.
       mustGet D (or_id cur)))))"

definition recover_one :: "('r, 'st, 'b) deps \<Rightarrow> order \<Rightarrow> ('r, 'st, 'b, unit) saga_act" where
  "recover_one D od = bind (recoverStuck D od) (\<lambda>_. ret ())"

definition recoverStuckOrders :: "('r, 'st, 'b) deps \<Rightarrow> ('r, 'st, 'b, nat) saga_act" where
  "recoverStuckOrders D =
     bind (on_store (os_nonTerminal (dp_store D))) (\<lambda>stuck.
     bind (for_each (recover_one D) stuck) (\<lambda>_.
     ret (length stuck)))"

lemma reservation_json_roundtrip [simp]: "reservation_of_json (reservation_json r) = r"
  by (simp add: reservation_of_json_def reservation_json_def json_str_def)

lemma reservations_json_roundtrip [simp]:
  "map reservation_of_json (map reservation_json rs) = rs"
  by (induction rs) simp_all

end
