(* ===== verification/Cookies.thy ===== *)
theory Cookies
  imports Js_Value
begin

text \<open>
  The session cookie of \<open>src/auth/cookies.ts\<close>: parsing a \<open>Cookie\<close> header, writing \<open>Set-Cookie\<close>,
  and the percent encoding they rely on. Text is the list of its UTF-8 bytes, white space is ASCII
  white space.
\<close>

section \<open>UTF-8\<close>

text \<open>The ranges of the bytes that may follow a first byte in well-formed UTF-8.\<close>

definition utf8_tail :: "nat \<Rightarrow> (nat \<times> nat) list option" where
  "utf8_tail b =
     (let c = (128, 191) in
      if b < 128 then Some []
      else if b < 194 then None
      else if b < 224 then Some [c]
      else if b = 224 then Some [(160, 191), c]
      else if b = 237 then Some [(128, 159), c]
      else if b < 240 then Some [c, c]
      else if b = 240 then Some [(144, 191), c, c]
      else if b < 244 then Some [c, c, c]
      else if b = 244 then Some [(128, 143), c, c]
      else None)"

fun tail_ok :: "(nat \<times> nat) list \<Rightarrow> string \<Rightarrow> bool" where
  "tail_ok [] cs = True"
| "tail_ok (r # rs) [] = False"
| "tail_ok (r # rs) (c # cs) = (fst r \<le> of_char c \<and> of_char c \<le> snd r \<and> tail_ok rs cs)"

function utf8_ok :: "string \<Rightarrow> bool" where
  "utf8_ok [] = True"
| "utf8_ok (c # cs) =
     (case utf8_tail (of_char c) of
        None \<Rightarrow> False
      | Some rs \<Rightarrow> tail_ok rs cs \<and> utf8_ok (drop (length rs) cs))"
  by pat_completeness auto
termination by (relation "measure length") auto

section \<open>encodeURIComponent and decodeURIComponent\<close>

definition hex_char :: "nat \<Rightarrow> char" where
  "hex_char d = (if d < 10 then char_of (48 + d) else char_of (55 + d))"

definition unreserved :: "char \<Rightarrow> bool" where
  "unreserved c \<longleftrightarrow>
     (let n = of_char c :: nat in
      48 \<le> n \<and> n \<le> 57 \<or> 65 \<le> n \<and> n \<le> 90 \<or> 97 \<le> n \<and> n \<le> 122) \<or> c \<in> set ''-_.!~*()'' \<or> c = CHR 0x27"

definition percent :: "char \<Rightarrow> string" where
  "percent c = [CHR ''%'', hex_char (of_char c div 16), hex_char (of_char c mod 16)]"

definition encodeURIComponent :: "string \<Rightarrow> string" where
  "encodeURIComponent s = concat (map (\<lambda>c. if unreserved c then [c] else percent c) s)"

fun percent_byte :: "string \<Rightarrow> (nat \<times> string) option" where
  "percent_byte (p # h # l # cs) =
     (if p \<noteq> CHR ''%'' then None
      else case (hex_value h, hex_value l) of
             (Some a, Some b) \<Rightarrow> Some (16 * a + b, cs)
           | _ \<Rightarrow> None)"
| "percent_byte _ = None"

fun percent_tail :: "(nat \<times> nat) list \<Rightarrow> string \<Rightarrow> (string \<times> string) option" where
  "percent_tail [] s = Some ([], s)"
| "percent_tail (r # rs) s =
     (case percent_byte s of
        None \<Rightarrow> None
      | Some (b, s') \<Rightarrow>
          if fst r \<le> b \<and> b \<le> snd r
          then map_option (\<lambda>(t, s''). (char_of b # t, s'')) (percent_tail rs s')
          else None)"

lemma percent_byte_shorter: "percent_byte s = Some (b, s') \<Longrightarrow> length s' < length s"
  by (cases s rule: percent_byte.cases) (auto split: if_splits option.splits)

lemma percent_tail_shorter: "percent_tail rs s = Some (t, s') \<Longrightarrow> length s' \<le> length s"
proof (induction rs s arbitrary: t s' rule: percent_tail.induct)
  case (2 r rs s)
  then show ?case using percent_byte_shorter by (fastforce split: option.splits prod.splits if_splits)
qed simp

text \<open>\<open>None\<close> is the \<open>URIError\<close> of a malformed sequence.\<close>

function decodeURIComponent :: "string \<Rightarrow> string option" where
  "decodeURIComponent [] = Some []"
| "decodeURIComponent (c # cs) =
     (if c \<noteq> CHR ''%'' then map_option ((#) c) (decodeURIComponent cs)
      else case percent_byte (c # cs) of
             None \<Rightarrow> None
           | Some (b, s) \<Rightarrow>
               (case utf8_tail b of
                  None \<Rightarrow> None
                | Some rs \<Rightarrow>
                    (case percent_tail rs s of
                       None \<Rightarrow> None
                     | Some (t, s') \<Rightarrow> map_option (\<lambda>u. char_of b # t @ u) (decodeURIComponent s'))))"
  by pat_completeness auto
termination
proof (relation "measure length")
  fix c cs p b s rs q t s'
  assume "percent_byte (c # cs) = Some p" "(b, s) = p" "percent_tail rs s = Some q" "(t, s') = q"
  then show "(s', c # cs) \<in> measure length"
    using percent_byte_shorter [of "c # cs" b s] percent_tail_shorter [of rs s t s'] by auto
qed auto

section \<open>The cookie header\<close>

definition SESSION_COOKIE_NAME :: string where
  "SESSION_COOKIE_NAME = ''scs_session''"

definition MAX_AGE_SECONDS :: int where
  "MAX_AGE_SECONDS = 30 * 24 * 60 * 60"

type_synonym cookies = "(string, string) jmap"

text \<open>
  \<open>out[key] = value\<close> on an object literal: assigning a string to \<open>__proto__\<close> does nothing.
\<close>

definition set_cookie :: "string \<Rightarrow> string \<Rightarrow> cookies \<Rightarrow> cookies" where
  "set_cookie key v out = (if key = ''__proto__'' then out else jset key v out)"

definition parse_part :: "string \<Rightarrow> cookies \<Rightarrow> cookies" where
  "parse_part part out =
     (case index_of (CHR ''='') part of
        None \<Rightarrow> out
      | Some eq \<Rightarrow>
          let key = js_trim (take eq part); v = js_trim (drop (eq + 1) part) in
          if key = [] then out
          else case decodeURIComponent v of
                 Some decoded \<Rightarrow> set_cookie key decoded out
               | None \<Rightarrow> set_cookie key v out)"

definition parseCookies :: "string option \<Rightarrow> cookies" where
  "parseCookies header =
     (case header of
        None \<Rightarrow> []
      | Some h \<Rightarrow> if h = [] then [] else fold parse_part (js_split (CHR '';'') h) [])"

definition serializeSessionCookie :: "string \<Rightarrow> bool \<Rightarrow> string" where
  "serializeSessionCookie token secure =
     js_join ''; ''
       ([SESSION_COOKIE_NAME @ ''='' @ encodeURIComponent token, ''Path=/'', ''HttpOnly'', ''SameSite=Lax'',
         ''Max-Age='' @ int_string MAX_AGE_SECONDS] @ (if secure then [''Secure''] else []))"

definition serializeClearCookie :: "bool \<Rightarrow> string" where
  "serializeClearCookie secure =
     js_join ''; ''
       ([SESSION_COOKIE_NAME @ ''='', ''Path=/'', ''HttpOnly'', ''SameSite=Lax'', ''Max-Age=0''] @
        (if secure then [''Secure''] else []))"

section \<open>Decoding undoes encoding\<close>

lemma hex_value_hex_char [simp]: "d < 16 \<Longrightarrow> hex_value (hex_char d) = Some d"
  by (auto simp: hex_value_def hex_char_def Let_def)

lemma percent_byte_percent [simp]: "percent_byte (percent c @ s) = Some (of_char c, s)"
proof -
  have "(of_char c :: nat) < 256" using of_char_mod_256 [of c, where 'a=nat] by (metis mod_less_divisor zero_less_numeral)
  then have "(of_char c :: nat) div 16 < 16" by (simp add: less_mult_imp_div_less)
  then show ?thesis by (simp add: percent_def)
qed

lemma unreserved_ascii: "unreserved c \<Longrightarrow> (of_char c :: nat) < 128"
  by (auto simp: unreserved_def Let_def)

lemma unreserved_not_percent: "unreserved c \<Longrightarrow> c \<noteq> CHR ''%''"
  by (auto simp: unreserved_def Let_def)

definition encode_char :: "char \<Rightarrow> string" where
  "encode_char c = (if unreserved c then [c] else percent c)"

lemma encodeURIComponent_Cons: "encodeURIComponent (c # s) = encode_char c @ encodeURIComponent s"
  by (simp add: encodeURIComponent_def encode_char_def)

lemma encodeURIComponent_Nil: "encodeURIComponent [] = []"
  by (simp add: encodeURIComponent_def)

lemma utf8_tail_high: "utf8_tail b = Some rs \<Longrightarrow> \<forall>r \<in> set rs. 128 \<le> fst r"
  by (auto simp: utf8_tail_def Let_def split: if_splits)

lemma percent_tail_encode:
  "tail_ok rs cs \<Longrightarrow> \<forall>r \<in> set rs. 128 \<le> fst r \<Longrightarrow>
     percent_tail rs (encodeURIComponent cs) =
       Some (take (length rs) cs, encodeURIComponent (drop (length rs) cs))"
proof (induction rs cs rule: tail_ok.induct)
  case (3 r rs c cs)
  have "\<not> unreserved c" using 3(2,3) unreserved_ascii [of c] by auto
  with 3 show ?case by (simp add: encodeURIComponent_Cons encode_char_def)
qed (simp_all add: encodeURIComponent_Nil)

lemma decode_encode: "utf8_ok s \<Longrightarrow> decodeURIComponent (encodeURIComponent s) = Some s"
proof (induction s rule: utf8_ok.induct)
  case 1
  then show ?case by (simp add: encodeURIComponent_Nil)
next
  case (2 c cs)
  then obtain rs where rs: "utf8_tail (of_char c) = Some rs" "tail_ok rs cs" "utf8_ok (drop (length rs) cs)"
    by (auto split: option.splits)
  have IH: "decodeURIComponent (encodeURIComponent (drop (length rs) cs)) = Some (drop (length rs) cs)"
    using 2 rs by auto
  show ?case
  proof (cases "unreserved c")
    case True
    then have "rs = []" using rs(1) unreserved_ascii [of c] by (simp add: utf8_tail_def)
    then show ?thesis
      using True IH unreserved_not_percent [OF True] by (simp add: encodeURIComponent_Cons encode_char_def)
  next
    case False
    obtain h l where p: "percent c = [CHR ''%'', h, l]" by (simp add: percent_def)
    have b: "percent_byte (CHR ''%'' # h # l # encodeURIComponent cs) = Some (of_char c, encodeURIComponent cs)"
      using percent_byte_percent [of c "encodeURIComponent cs"] by (simp only: p append_Cons append_Nil)
    show ?thesis
      using False rs IH b percent_tail_encode [OF rs(2) utf8_tail_high [OF rs(1)]]
      by (simp add: encodeURIComponent_Cons encode_char_def p del: percent_byte.simps)
  qed
qed

section \<open>Cookies in a header\<close>

lemma encode_char_set: "d \<in> set (encode_char c) \<Longrightarrow> d = CHR ''%'' \<or> unreserved d"
proof -
  assume d: "d \<in> set (encode_char c)"
  have hex: "unreserved (hex_char n)" if "n < 16" for n
    using that by (simp add: unreserved_def hex_char_def Let_def)
  have "(of_char c :: nat) < 256"
    using of_char_mod_256 [of c, where 'a=nat] by (metis mod_less_divisor zero_less_numeral)
  then have "(of_char c :: nat) div 16 < 16" by (simp add: less_mult_imp_div_less)
  then show ?thesis using d hex by (auto simp: encode_char_def percent_def split: if_splits)
qed

lemma encoded_set: "d \<in> set (encodeURIComponent s) \<Longrightarrow> d = CHR ''%'' \<or> unreserved d"
  by (induction s) (auto simp: encodeURIComponent_Nil encodeURIComponent_Cons dest: encode_char_set)

lemma unreserved_plain: "unreserved d \<Longrightarrow> d \<noteq> CHR '';'' \<and> d \<noteq> CHR ''='' \<and> \<not> is_space d"
  by (auto simp: unreserved_def is_space_def Let_def)

lemma encoded_plain:
  "CHR '';'' \<notin> set (encodeURIComponent s)" "\<forall>d \<in> set (encodeURIComponent s). \<not> is_space d"
proof -
  have "\<not> is_space (CHR ''%'')" by (simp add: is_space_def)
  then show "CHR '';'' \<notin> set (encodeURIComponent s)" "\<forall>d \<in> set (encodeURIComponent s). \<not> is_space d"
    using encoded_set [of _ s] unreserved_plain by blast+
qed

text \<open>What the browser sends back of a cookie: its name and its encoded value.\<close>

definition cookie_pair :: "string \<Rightarrow> string \<Rightarrow> string" where
  "cookie_pair name v = name @ ''='' @ encodeURIComponent v"

definition name_ok :: "string \<Rightarrow> bool" where
  "name_ok name \<longleftrightarrow> name \<noteq> [] \<and> name \<noteq> ''__proto__'' \<and> CHR ''='' \<notin> set name \<and> CHR '';'' \<notin> set name \<and>
     (\<forall>d \<in> set name. \<not> is_space d)"

lemma trim_blank: "is_space b \<Longrightarrow> js_trim (b # s) = js_trim s"
  by (simp add: js_trim_def)

lemma parse_pair:
  assumes "name_ok name" and "utf8_ok v" and "pad = [] \<or> pad = '' ''"
  shows "parse_part (pad @ cookie_pair name v) out = jset name v out"
proof -
  have notin: "CHR ''='' \<notin> set (pad @ name)" using assms(1,3) by (elim disjE) (simp_all add: name_ok_def)
  have eq: "index_of (CHR ''='') (pad @ cookie_pair name v) = Some (length (pad @ name))"
    using index_of_append [OF notin, of "encodeURIComponent v"] by (simp add: cookie_pair_def)
  have key: "js_trim (take (length (pad @ name)) (pad @ cookie_pair name v)) = name"
    using assms(1,3) trim_no_space [of name] trim_blank [of "CHR '' ''" name]
    by (auto simp: cookie_pair_def name_ok_def is_space_def)
  have val: "js_trim (drop (length (pad @ name) + 1) (pad @ cookie_pair name v)) = encodeURIComponent v"
    using trim_no_space [OF encoded_plain(2), of v] by (simp add: cookie_pair_def)
  show ?thesis
    using assms(1) unfolding parse_part_def eq option.case Let_def key val decode_encode [OF assms(2)]
    by (simp add: name_ok_def set_cookie_def)
qed

lemma name_ok_session: "name_ok SESSION_COOKIE_NAME"
  by (simp add: name_ok_def SESSION_COOKIE_NAME_def is_space_def)

lemma pair_plain: "CHR '';'' \<notin> set (cookie_pair SESSION_COOKIE_NAME v)"
  using name_ok_session encoded_plain(1) [of v] by (simp add: cookie_pair_def name_ok_def)

lemma parse_session_pair:
  assumes "utf8_ok v"
  shows "jget (parseCookies (Some (cookie_pair SESSION_COOKIE_NAME v))) SESSION_COOKIE_NAME = Some v"
proof -
  have "cookie_pair SESSION_COOKIE_NAME v \<noteq> []" by (simp add: cookie_pair_def)
  then show ?thesis
    using parse_pair [OF name_ok_session assms, of "[]"] js_split_none [OF pair_plain, of v]
    by (simp add: parseCookies_def)
qed

lemma first_attribute:
  "takeWhile (\<lambda>c. c \<noteq> CHR '';'') (serializeSessionCookie token secure) = cookie_pair SESSION_COOKIE_NAME token"
  "takeWhile (\<lambda>c. c \<noteq> CHR '';'') (serializeClearCookie secure) = cookie_pair SESSION_COOKIE_NAME []"
proof -
  have tw: "takeWhile (\<lambda>c. c \<noteq> CHR '';'') (cookie_pair SESSION_COOKIE_NAME v @ CHR '';'' # rest) = cookie_pair SESSION_COOKIE_NAME v"
    for v rest using pair_plain [of v] by (subst takeWhile_append2) auto
  show "takeWhile (\<lambda>c. c \<noteq> CHR '';'') (serializeSessionCookie token secure) = cookie_pair SESSION_COOKIE_NAME token"
    using tw [of token] by (simp add: serializeSessionCookie_def cookie_pair_def)
  show "takeWhile (\<lambda>c. c \<noteq> CHR '';'') (serializeClearCookie secure) = cookie_pair SESSION_COOKIE_NAME []"
    using tw [of "[]"] by (simp add: serializeClearCookie_def cookie_pair_def encodeURIComponent_Nil)
qed

lemma ascii_utf8: "\<forall>c \<in> set s. (of_char c :: nat) < 128 \<Longrightarrow> utf8_ok s"
proof (induction s rule: utf8_ok.induct)
  case (2 c cs)
  have "utf8_tail (of_char c) = Some []" using 2(2) by (simp add: utf8_tail_def)
  then show ?case using 2 by simp
qed simp

text \<open>A part with another key leaves the cookie alone.\<close>

definition part_key :: "string \<Rightarrow> string" where
  "part_key part = (case index_of (CHR ''='') part of None \<Rightarrow> [] | Some eq \<Rightarrow> js_trim (take eq part))"

lemma parse_other: "part_key part \<noteq> name \<Longrightarrow> jget (parse_part part out) name = jget out name"
  by (auto simp: parse_part_def part_key_def set_cookie_def Let_def split: option.splits)

lemma fold_other:
  "\<forall>part \<in> set parts. part_key part \<noteq> name \<Longrightarrow> jget (fold parse_part parts out) name = jget out name"
  by (induction parts arbitrary: out) (simp_all add: parse_other)

lemma js_split_append:
  "js_split c (xs @ c # ys) = js_split c xs @ js_split c ys"
proof (induction xs)
  case (Cons x xs)
  then show ?case using js_split_nonempty [of c xs] by (auto split: list.splits)
qed simp

text \<open>The session cookie survives the round trip through the browser: when the Cookie header holds the
  name and the value that serializeSessionCookie put into Set-Cookie - after any other cookies, and before
  cookies of other names - parseCookies gives back the token, for any token of well-formed UTF-8.\<close>

theorem session_cookie_roundtrip:
  assumes "utf8_ok token" and "before = [] \<or> (\<exists>b. before = b @ ''; '')"
    and "after = [] \<or> (\<exists>a. after = CHR '';'' # a \<and> (\<forall>part \<in> set (js_split (CHR '';'') a). part_key part \<noteq> SESSION_COOKIE_NAME))"
  shows "(\<exists>attrs. serializeSessionCookie token secure = cookie_pair SESSION_COOKIE_NAME token @ '';'' @ attrs)
    \<and> jget (parseCookies (Some (before @ cookie_pair SESSION_COOKIE_NAME token @ after))) SESSION_COOKIE_NAME = Some token"
proof
  show "\<exists>attrs. serializeSessionCookie token secure = cookie_pair SESSION_COOKIE_NAME token @ '';'' @ attrs"
    by (simp add: serializeSessionCookie_def cookie_pair_def)
  let ?p = "cookie_pair SESSION_COOKIE_NAME token"
  have name: "name_ok SESSION_COOKIE_NAME" by (simp add: name_ok_def SESSION_COOKIE_NAME_def is_space_def)
  have plain: "CHR '';'' \<notin> set (pad @ ?p)" if "pad = [] \<or> pad = '' ''" for pad
    using that name encoded_plain(1) [of token] by (elim disjE) (simp_all add: cookie_pair_def name_ok_def)
  obtain pad parts where pad: "pad = [] \<or> pad = '' ''"
    and b: "js_split (CHR '';'') (before @ ?p @ after) = parts @ js_split (CHR '';'') (pad @ ?p @ after)"
    using assms(2) js_split_append [of "CHR '';''" _ "CHR '' '' # ?p @ after"]
    by (metis append_Cons append_Nil append_assoc)
  have whole: "\<exists>post. js_split (CHR '';'') (pad @ ?p @ after) = (pad @ ?p) # post \<and> (\<forall>part \<in> set post. part_key part \<noteq> SESSION_COOKIE_NAME)"
    using assms(3)
  proof
    assume "after = []"
    then show ?thesis using js_split_none [OF plain [OF pad]] by simp
  next
    assume "\<exists>a. after = CHR '';'' # a \<and> (\<forall>part \<in> set (js_split (CHR '';'') a). part_key part \<noteq> SESSION_COOKIE_NAME)"
    then show ?thesis using js_split_sep [OF plain [OF pad]] by auto
  qed
  then obtain post where post: "js_split (CHR '';'') (pad @ ?p @ after) = (pad @ ?p) # post"
    "\<forall>part \<in> set post. part_key part \<noteq> SESSION_COOKIE_NAME" by blast
  have "before @ ?p @ after \<noteq> []" by (simp add: cookie_pair_def)
  then show "jget (parseCookies (Some (before @ ?p @ after))) SESSION_COOKIE_NAME = Some token"
    unfolding parseCookies_def option.case b post
    by (simp add: fold_other [OF post(2)] parse_pair [OF name assms(1) pad])
qed

lemma session_cookie_roundtrip_witness:
  "jget (parseCookies (Some (''theme=dark; '' @ cookie_pair SESSION_COOKIE_NAME ''a.1;b'' @ ''; lang=en''))) SESSION_COOKIE_NAME
     = Some ''a.1;b''"
proof -
  have utf8: "utf8_ok ''a.1;b''" by (simp add: utf8_tail_def)
  have part: "\<forall>part \<in> set (js_split (CHR '';'') '' lang=en''). part_key part \<noteq> SESSION_COOKIE_NAME"
    by (simp add: part_key_def SESSION_COOKIE_NAME_def js_trim_def is_space_def)
  show ?thesis
    using session_cookie_roundtrip [OF utf8, of "''theme=dark; ''" "''; lang=en''" True] part by simp
qed

end
