(* ===== verification/Auth.thy ===== *)
theory Auth
  imports Cookies
begin

text \<open>
  Session tokens (\<open>src/auth/session.ts\<close>), password hashes (\<open>src/auth/passwords.ts\<close>) and the
  business of a request (\<open>src/auth/currentBusiness.ts\<close>). HMAC-SHA256 and scrypt are parameters:
  functions from text to bytes.
\<close>

section \<open>Hexadecimal\<close>

text \<open>\<open>toString("hex")\<close>, and \<open>Buffer.from(s, "hex")\<close>, which stops at the first pair that is no byte.\<close>

definition lower_hex :: "nat \<Rightarrow> char" where
  "lower_hex d = (if d < 10 then char_of (48 + d) else char_of (87 + d))"

definition hex_encode :: "string \<Rightarrow> string" where
  "hex_encode bytes = concat (map (\<lambda>c. [lower_hex (of_char c div 16), lower_hex (of_char c mod 16)]) bytes)"

fun hex_decode :: "string \<Rightarrow> string" where
  "hex_decode (h # l # cs) =
     (case (hex_value h, hex_value l) of
        (Some a, Some b) \<Rightarrow> char_of (16 * a + b) # hex_decode cs
      | _ \<Rightarrow> [])"
| "hex_decode _ = []"

lemma hex_value_lower [simp]: "d < 16 \<Longrightarrow> hex_value (lower_hex d) = Some d"
  by (auto simp: hex_value_def lower_hex_def Let_def)

lemma char_byte: "(of_char c :: nat) < 256"
  using of_char_mod_256 [of c, where 'a=nat] by (metis mod_less_divisor zero_less_numeral)

lemma hex_decode_encode [simp]: "hex_decode (hex_encode bytes) = bytes"
proof (induction bytes)
  case (Cons c bytes)
  have "(of_char c :: nat) div 16 < 16" using char_byte [of c] by (simp add: less_mult_imp_div_less)
  then show ?case using Cons by (simp add: hex_encode_def)
qed (simp add: hex_encode_def)

lemma lower_hex_plain: "d < 16 \<Longrightarrow> lower_hex d \<noteq> CHR ''.'' \<and> lower_hex d \<noteq> CHR '':''"
proof -
  assume d: "d < 16"
  have "hex_value (CHR ''.'') = None" "hex_value (CHR '':'') = None" by (simp_all add: hex_value_def)
  then show ?thesis using hex_value_lower [OF d] by (metis option.distinct(1))
qed

lemma hex_encode_plain: "CHR ''.'' \<notin> set (hex_encode bytes)" "CHR '':'' \<notin> set (hex_encode bytes)"
proof -
  have "\<exists>n < 16. d = lower_hex n" if d: "d \<in> set (hex_encode bytes)" for d
  proof -
    obtain c where c: "d = lower_hex (of_char c div 16) \<or> d = lower_hex (of_char c mod 16)"
      using d by (auto simp: hex_encode_def)
    have "(of_char c :: nat) div 16 < 16" "(of_char c :: nat) mod 16 < 16"
      using char_byte [of c] by (simp_all add: less_mult_imp_div_less)
    then show ?thesis using c by blast
  qed
  then show "CHR ''.'' \<notin> set (hex_encode bytes)" "CHR '':'' \<notin> set (hex_encode bytes)"
    using lower_hex_plain by metis+
qed

lemma hex_encode_empty [simp]: "hex_encode bytes = [] \<longleftrightarrow> bytes = []"
  by (cases bytes) (simp_all add: hex_encode_def)

section \<open>Session tokens\<close>

definition SESSION_TTL_MS :: int where
  "SESSION_TTL_MS = 30 * 24 * 60 * 60 * 1000"

text \<open>
  The environment variable, the bytes \<open>randomBytes(32)\<close> would give for the fallback secret, and HMAC.
  The state is \<open>devFallbackSecret\<close>.
\<close>

record auth_env =
  au_SESSION_SECRET :: "string option"
  au_randomBytes :: string
  au_hmac :: "string \<Rightarrow> string \<Rightarrow> string"

type_synonym dev_secret = "string option"

definition truthy :: "string option \<Rightarrow> bool" where
  "truthy v \<longleftrightarrow> v \<noteq> None \<and> v \<noteq> Some []"

definition getSecret :: "auth_env \<Rightarrow> dev_secret \<Rightarrow> string \<times> dev_secret" where
  "getSecret A dev =
     (if truthy (au_SESSION_SECRET A) then (the (au_SESSION_SECRET A), dev)
      else
        let dev' = (if \<not> truthy dev then Some (hex_encode (au_randomBytes A)) else dev) in
        (the dev', dev'))"

definition sign :: "auth_env \<Rightarrow> string \<Rightarrow> dev_secret \<Rightarrow> string \<times> dev_secret" where
  "sign A payload dev = (case getSecret A dev of (secret, dev') \<Rightarrow> (hex_encode (au_hmac A secret payload), dev'))"

definition createSessionToken :: "auth_env \<Rightarrow> string \<Rightarrow> int \<Rightarrow> dev_secret \<Rightarrow> string \<times> dev_secret" where
  "createSessionToken A businessId now dev =
     (let expiresAt = now + SESSION_TTL_MS;
          payload = businessId @ ''.'' @ int_string expiresAt in
      case sign A payload dev of (signature, dev') \<Rightarrow> (payload @ ''.'' @ signature, dev'))"

definition verifySessionToken :: "auth_env \<Rightarrow> string option \<Rightarrow> int \<Rightarrow> dev_secret \<Rightarrow> string option \<times> dev_secret" where
  "verifySessionToken A token now dev =
     (if \<not> truthy token then (None, dev)
      else case js_split (CHR ''.'') (the token) of
        [businessId, expiresAtStr, signature] \<Rightarrow>
          if businessId = [] \<or> expiresAtStr = [] \<or> signature = [] then (None, dev)
          else (case sign A (businessId @ ''.'' @ expiresAtStr) dev of
            (expected, dev') \<Rightarrow>
              let sigBuf = hex_decode signature; expectedBuf = hex_decode expected in
              if length sigBuf \<noteq> length expectedBuf \<or> sigBuf \<noteq> expectedBuf then (None, dev')
              else
                let expiresAt = js_Number expiresAtStr in
                if \<not> is_finite expiresAt \<or> js_lt expiresAt (Num now) then (None, dev')
                else (Some businessId, dev'))
      | _ \<Rightarrow> (None, dev))"

definition currentBusinessId :: "auth_env \<Rightarrow> string option \<Rightarrow> int \<Rightarrow> dev_secret \<Rightarrow> string option \<times> dev_secret" where
  "currentBusinessId A cookieHeader now dev =
     verifySessionToken A (jget (parseCookies cookieHeader) SESSION_COOKIE_NAME) now dev"

text \<open>The secret in force, and the state once it has been asked for.\<close>

lemma getSecret_again: "getSecret A (snd (getSecret A dev)) = (fst (getSecret A dev), snd (getSecret A dev))"
  if "au_randomBytes A \<noteq> []"
  using that by (auto simp: getSecret_def truthy_def Let_def)

lemma int_string_plain: "CHR ''.'' \<notin> set (int_string n)"
  using digits_free [of "CHR ''.''"] by (auto simp: int_string_def)

lemma int_string_nonempty [simp]: "int_string n \<noteq> []"
  by (simp add: int_string_def)

section \<open>Passwords\<close>

text \<open>The first three parts of the stored hash; a missing one is undefined.\<close>

definition hashPassword :: "(string \<Rightarrow> string \<Rightarrow> string) \<Rightarrow> string \<Rightarrow> string \<Rightarrow> string" where
  "hashPassword scrypt saltBytes password =
     (let salt = hex_encode saltBytes; derivedKey = hex_encode (scrypt password salt) in
      ''scrypt:'' @ salt @ '':'' @ derivedKey)"

definition part_at :: "string list \<Rightarrow> nat \<Rightarrow> string option" where
  "part_at parts i = (if i < length parts then Some (parts ! i) else None)"

definition verifyPassword :: "(string \<Rightarrow> string \<Rightarrow> string) \<Rightarrow> string \<Rightarrow> string \<Rightarrow> bool" where
  "verifyPassword scrypt password stored =
     (let parts = js_split (CHR '':'') stored;
          scheme = part_at parts 0; salt = part_at parts 1; derivedKeyHex = part_at parts 2 in
      if scheme \<noteq> Some ''scrypt'' \<or> \<not> truthy salt \<or> \<not> truthy derivedKeyHex then False
      else
        let candidate = scrypt password (the salt); expected = hex_decode (the derivedKeyHex) in
        if length candidate \<noteq> length expected then False else candidate = expected)"

section \<open>The properties\<close>

lemma split_token:
  assumes "CHR ''.'' \<notin> set a" "CHR ''.'' \<notin> set b" "CHR ''.'' \<notin> set c"
  shows "js_split (CHR ''.'') (a @ ''.'' @ b @ ''.'' @ c) = [a, b, c]"
  using js_split_sep [OF assms(1)] js_split_sep [OF assms(2)] js_split_none [OF assms(3)] by simp

lemma created_token:
  assumes "businessId \<noteq> []" and "CHR ''.'' \<notin> set businessId" and "au_randomBytes A \<noteq> []"
    and "\<forall>k p. au_hmac A k p \<noteq> []"
  shows "fst (verifySessionToken A (Some (fst (createSessionToken A businessId issued dev))) now
                (snd (createSessionToken A businessId issued dev))) =
           (if now \<le> issued + SESSION_TTL_MS then Some businessId else None)
    \<and> (truthy (au_SESSION_SECRET A) \<longrightarrow>
         fst (verifySessionToken A (Some (fst (createSessionToken A businessId issued dev))) now other) =
           (if now \<le> issued + SESSION_TTL_MS then Some businessId else None))"
proof -
  let ?exp = "int_string (issued + SESSION_TTL_MS)"
  let ?payload = "businessId @ ''.'' @ ?exp"
  obtain k d where k: "getSecret A dev = (k, d)" by (cases "getSecret A dev")
  let ?sig = "hex_encode (au_hmac A k ?payload)"
  have token: "createSessionToken A businessId issued dev = (businessId @ ''.'' @ ?exp @ ''.'' @ ?sig, d)"
    by (simp add: createSessionToken_def sign_def k Let_def)
  have split: "js_split (CHR ''.'') (businessId @ ''.'' @ ?exp @ ''.'' @ ?sig) = [businessId, ?exp, ?sig]"
    by (rule split_token [OF assms(2) int_string_plain hex_encode_plain(1)])
  have accept: "fst (verifySessionToken A (Some (businessId @ ''.'' @ ?exp @ ''.'' @ ?sig)) now d') =
      (if now \<le> issued + SESSION_TTL_MS then Some businessId else None)" if "fst (getSecret A d') = k" for d'
  proof -
    obtain d'' where "getSecret A d' = (k, d'')" using \<open>fst (getSecret A d') = k\<close> by (cases "getSecret A d'") simp
    then have s: "sign A ?payload d' = (?sig, d'')" by (simp add: sign_def)
    show ?thesis
      using assms(1,4) unfolding verifySessionToken_def option.sel split list.case s
      by (simp add: truthy_def Let_def)
  qed
  have "fst (getSecret A d) = k" using getSecret_again [OF assms(3), of dev] by (simp add: k)
  moreover have "truthy (au_SESSION_SECRET A) \<Longrightarrow> fst (getSecret A other) = k"
    using k by (auto simp: getSecret_def)
  ultimately show ?thesis using accept by (simp add: token)
qed

text \<open>A session token is accepted for the business it was issued to until its thirty days are over and
  not after, by every process that has the same secret, and by the process that issued it when the secret is
  the random fallback.\<close>

theorem session_token_roundtrip:
  assumes "businessId \<noteq> []" and "CHR ''.'' \<notin> set businessId" and "au_randomBytes A \<noteq> []"
    and "\<forall>k p. au_hmac A k p \<noteq> []"
  shows "fst (verifySessionToken A (Some (fst (createSessionToken A businessId issued dev))) now
                (snd (createSessionToken A businessId issued dev))) =
           (if now \<le> issued + SESSION_TTL_MS then Some businessId else None)
    \<and> (truthy (au_SESSION_SECRET A) \<longrightarrow>
         fst (verifySessionToken A (Some (fst (createSessionToken A businessId issued dev))) now other) =
           (if now \<le> issued + SESSION_TTL_MS then Some businessId else None))"
  using assms by (rule created_token)

definition demo_auth :: auth_env where
  "demo_auth = \<lparr>au_SESSION_SECRET = Some ''key'', au_randomBytes = ''r'', au_hmac = \<lambda>k p. CHR ''h'' # k @ p\<rparr>"

lemma session_token_roundtrip_witness:
  "fst (verifySessionToken demo_auth (Some (fst (createSessionToken demo_auth ''b1'' 5 None))) 6 None) = Some ''b1''
   \<and> fst (verifySessionToken demo_auth (Some (fst (createSessionToken demo_auth ''b1'' 5 None))) 2592000006 None) = None"
proof -
  have id: "''b1'' \<noteq> []" "CHR ''.'' \<notin> set ''b1''" by simp_all
  have env: "au_randomBytes demo_auth \<noteq> []" "truthy (au_SESSION_SECRET demo_auth)"
    by (simp_all add: demo_auth_def truthy_def)
  have hmac: "\<forall>k p. au_hmac demo_auth k p \<noteq> []" by (simp add: demo_auth_def)
  show ?thesis
    using session_token_roundtrip [OF id env(1) hmac, of 5 None 6 None]
      session_token_roundtrip [OF id env(1) hmac, of 5 None 2592000006 None] env(2)
    by (simp add: SESSION_TTL_MS_def)
qed

text \<open>C21: A token is accepted only as one of the form id.expiry.signature whose signature is the HMAC of
  id.expiry under the secret in force, not yet expired; and the text that was signed determines the id and
  the expiry, so that a signature issued for one business or one expiry is the signature of no other.\<close>

theorem session_token_sound:
  assumes "fst (verifySessionToken A token now dev) = Some businessId"
  shows "\<exists>expiry signature n. token = Some (businessId @ ''.'' @ expiry @ ''.'' @ signature)
     \<and> hex_decode signature = au_hmac A (fst (getSecret A dev)) (businessId @ ''.'' @ expiry)
     \<and> js_Number expiry = Num n \<and> now \<le> n \<and> businessId \<noteq> []
     \<and> (\<forall>b e. CHR ''.'' \<notin> set b \<and> b @ ''.'' @ e = businessId @ ''.'' @ expiry \<longrightarrow> b = businessId \<and> e = expiry)"
proof -
  obtain t where t: "token = Some t" using assms by (cases token) (auto simp: verifySessionToken_def truthy_def)
  have "\<exists>e g. js_split (CHR ''.'') t = [businessId, e, g] \<and> e \<noteq> [] \<and> businessId \<noteq> []
      \<and> hex_decode g = au_hmac A (fst (getSecret A dev)) (businessId @ ''.'' @ e)
      \<and> (\<exists>n. js_Number e = Num n \<and> now \<le> n)"
    using assms unfolding t verifySessionToken_def
    by (cases "getSecret A dev")
       (auto simp: sign_def Let_def not_less elim!: is_finite.elims split: if_splits list.splits)
  then obtain e g n where e: "js_split (CHR ''.'') t = [businessId, e, g]" "e \<noteq> []" "businessId \<noteq> []"
    "hex_decode g = au_hmac A (fst (getSecret A dev)) (businessId @ ''.'' @ e)" "js_Number e = Num n" "now \<le> n"
    by blast
  have "t = businessId @ ''.'' @ e @ ''.'' @ g"
    using js_join_split [of "CHR ''.''" t] e(1) by simp
  moreover have "\<forall>b x. CHR ''.'' \<notin> set b \<and> b @ ''.'' @ x = businessId @ ''.'' @ e \<longrightarrow> b = businessId \<and> x = e"
  proof (intro allI impI)
    fix b x assume b: "CHR ''.'' \<notin> set b \<and> b @ ''.'' @ x = businessId @ ''.'' @ e"
    have "CHR ''.'' \<notin> set businessId"
      by (metis e(1) list.set_intros(1) js_split_no_sep)
    then show "b = businessId \<and> x = e" using b sep_inject [of "CHR ''.''" b businessId x e] by simp
  qed
  ultimately show ?thesis using t e by blast
qed

lemma session_token_sound_witness:
  "\<exists>expiry signature n.
     Some (fst (createSessionToken demo_auth ''b1'' 5 None)) = Some (''b1'' @ ''.'' @ expiry @ ''.'' @ signature)
     \<and> js_Number expiry = Num n \<and> 6 \<le> n"
proof -
  have run: "fst (verifySessionToken demo_auth (Some (fst (createSessionToken demo_auth ''b1'' 5 None))) 6 None) = Some ''b1''"
  proof -
    have "\<forall>k p. au_hmac demo_auth k p \<noteq> []" "au_randomBytes demo_auth \<noteq> []" "truthy (au_SESSION_SECRET demo_auth)"
      by (simp_all add: demo_auth_def truthy_def)
    then show ?thesis
      using created_token [of "''b1''" demo_auth 5 None 6 None] by (simp add: SESSION_TTL_MS_def)
  qed
  show ?thesis using session_token_sound [OF run] by blast
qed

lemma verify_hashed:
  assumes "saltBytes \<noteq> []" and "\<forall>p s. scrypt p s \<noteq> []"
  shows "verifyPassword scrypt p (hashPassword scrypt saltBytes q) \<longleftrightarrow>
     scrypt p (hex_encode saltBytes) = scrypt q (hex_encode saltBytes)"
proof -
  let ?salt = "hex_encode saltBytes" and ?key = "hex_encode (scrypt q (hex_encode saltBytes))"
  have "CHR '':'' \<notin> set ''scrypt''" by simp
  from js_split_sep [OF this] js_split_sep [OF hex_encode_plain(2) [of saltBytes]]
    js_split_none [OF hex_encode_plain(2) [of "scrypt q ?salt"]]
  have "js_split (CHR '':'') (hashPassword scrypt saltBytes q) = [''scrypt'', ?salt, ?key]"
    by (simp add: hashPassword_def Let_def)
  then show ?thesis
    using assms by (auto simp: verifyPassword_def part_at_def truthy_def Let_def)
qed

text \<open>A password is accepted against a stored hash exactly when scrypt derives the stored key from it and
  the stored salt; for a hash made by hashPassword that is the password it was made from, up to collisions
  of scrypt. A stored value of any other form is rejected, never an error.\<close>

theorem password_verify:
  assumes "saltBytes \<noteq> []" and "\<forall>p s. scrypt p s \<noteq> []"
  shows "(verifyPassword scrypt p (hashPassword scrypt saltBytes q) \<longleftrightarrow>
            scrypt p (hex_encode saltBytes) = scrypt q (hex_encode saltBytes))
    \<and> (verifyPassword scrypt p stored \<longleftrightarrow>
         (\<exists>salt key rest. js_split (CHR '':'') stored = ''scrypt'' # salt # key # rest
            \<and> salt \<noteq> [] \<and> key \<noteq> [] \<and> hex_decode key = scrypt p salt))"
proof
  show "verifyPassword scrypt p (hashPassword scrypt saltBytes q) \<longleftrightarrow>
      scrypt p (hex_encode saltBytes) = scrypt q (hex_encode saltBytes)"
    using assms by (rule verify_hashed)
  have three: "\<exists>a b c rest. xs = a # b # c # rest" if "2 < length xs" for xs :: "string list"
    using that by (cases xs; cases "tl xs"; cases "tl (tl xs)") auto
  show "verifyPassword scrypt p stored \<longleftrightarrow>
      (\<exists>salt key rest. js_split (CHR '':'') stored = ''scrypt'' # salt # key # rest
         \<and> salt \<noteq> [] \<and> key \<noteq> [] \<and> hex_decode key = scrypt p salt)"
  proof
    assume v: "verifyPassword scrypt p stored"
    then have "2 < length (js_split (CHR '':'') stored)"
      by (auto simp: verifyPassword_def part_at_def truthy_def Let_def split: if_splits)
    then obtain a b c rest where "js_split (CHR '':'') stored = a # b # c # rest" using three by blast
    with v show "\<exists>salt key rest. js_split (CHR '':'') stored = ''scrypt'' # salt # key # rest
         \<and> salt \<noteq> [] \<and> key \<noteq> [] \<and> hex_decode key = scrypt p salt"
      by (auto simp: verifyPassword_def part_at_def truthy_def Let_def split: if_splits)
  next
    assume "\<exists>salt key rest. js_split (CHR '':'') stored = ''scrypt'' # salt # key # rest
         \<and> salt \<noteq> [] \<and> key \<noteq> [] \<and> hex_decode key = scrypt p salt"
    then show "verifyPassword scrypt p stored"
      by (auto simp: verifyPassword_def part_at_def truthy_def Let_def)
  qed
qed

lemma password_verify_witness:
  "verifyPassword (\<lambda>p s. CHR ''k'' # p) ''pw'' (hashPassword (\<lambda>p s. CHR ''k'' # p) ''salt'' ''pw'')
   \<and> \<not> verifyPassword (\<lambda>p s. CHR ''k'' # p) ''no'' (hashPassword (\<lambda>p s. CHR ''k'' # p) ''salt'' ''pw'')"
  using password_verify [of "''salt''" "\<lambda>p s. CHR ''k'' # p" "''pw''" "''pw''" "[]"]
    password_verify [of "''salt''" "\<lambda>p s. CHR ''k'' # p" "''no''" "''pw''" "[]"] by simp

end
