(* ===== verification/Business_Store.thy ===== *)
theory Business_Store
  imports Domain
begin

text \<open>
  The accounts: the interface of \<open>src/business/businessStore.ts\<close> with its contract,
  \<open>InMemoryBusinessStore\<close>, and \<open>PgBusinessStore\<close> of \<open>src/business/pgBusinessStore.ts\<close> on the
  table of \<open>docs/schema.sql\<close>. What the database makes of a text it casts to a UUID is the parameter
  \<open>uuid_in\<close>.
\<close>

section \<open>The interface\<close>

text \<open>\<open>update\<close> takes the time it stamps the account with.\<close>

record 'st business_store =
  bz_create :: "business \<Rightarrow> ('st, unit) act"
  bz_getById :: "string \<Rightarrow> ('st, business option) act"
  bz_getByEmail :: "string \<Rightarrow> ('st, business option) act"
  bz_update :: "string \<Rightarrow> business_profile_patch \<Rightarrow> int \<Rightarrow> ('st, business) act"

definition over :: "'a option \<Rightarrow> 'a \<Rightarrow> 'a" where
  "over new old = (case new of None \<Rightarrow> old | Some x \<Rightarrow> x)"

text \<open>\<open>Object.assign(business, patch, { updatedAt: now })\<close>.\<close>

definition apply_patch :: "business_profile_patch \<Rightarrow> int \<Rightarrow> business \<Rightarrow> business" where
  "apply_patch p now b =
     b\<lparr>bu_businessName := over (pp_businessName p) (bu_businessName b),
       bu_businessType := over (pp_businessType p) (bu_businessType b),
       bu_description := over (pp_description p) (bu_description b),
       bu_accentColor := over (pp_accentColor p) (bu_accentColor b),
       bu_updatedAt := now\<rparr>"

lemma apply_patch_key [simp]:
  "bu_id (apply_patch p now b) = bu_id b" "bu_email (apply_patch p now b) = bu_email b"
  "bu_passwordHash (apply_patch p now b) = bu_passwordHash b"
  by (simp_all add: apply_patch_def)

text \<open>The contract over the accounts a store holds, by id.\<close>

locale business_store =
  fixes S :: "'st business_store"
    and biz_of :: "'st \<Rightarrow> string \<rightharpoonup> business"
    and ok :: "'st \<Rightarrow> bool"
    and valid_id :: "string \<Rightarrow> bool"
  assumes create_law: "\<And>st b. ok st \<Longrightarrow> valid_id (bu_id b) \<Longrightarrow> biz_of st (bu_id b) = None \<Longrightarrow>
      \<forall>b' \<in> ran (biz_of st). bu_email b' \<noteq> bu_email b \<Longrightarrow>
      \<exists>st'. bz_create S b st = (Inr (), st') \<and> ok st' \<and> biz_of st' = (biz_of st)(bu_id b \<mapsto> b)"
    and getById_law: "\<And>st i. ok st \<Longrightarrow> valid_id i \<Longrightarrow> bz_getById S i st = (Inr (biz_of st i), st)"
    and getByEmail_law: "\<And>st e. ok st \<Longrightarrow>
      \<exists>r. bz_getByEmail S e st = (Inr r, st) \<and> (\<forall>b. r = Some b \<longleftrightarrow> biz_of st (bu_id b) = Some b \<and> bu_email b = e)"
    and update_law: "\<And>st i p now b. ok st \<Longrightarrow> valid_id i \<Longrightarrow> biz_of st i = Some b \<Longrightarrow>
      \<exists>st'. bz_update S i p now st = (Inr (apply_patch p now b), st') \<and> ok st' \<and>
        biz_of st' = (biz_of st)(i \<mapsto> apply_patch p now b)"
    and update_unknown: "\<And>st i p now. ok st \<Longrightarrow> valid_id i \<Longrightarrow> biz_of st i = None \<Longrightarrow>
      bz_update S i p now st = (Inl (UnknownBusiness i), st)"
    and id_law: "\<And>st i b. ok st \<Longrightarrow> biz_of st i = Some b \<Longrightarrow> bu_id b = i \<and> valid_id i"

context business_store
begin

lemma email_unique:
  assumes "ok st" "biz_of st i = Some b" "biz_of st j = Some c" "bu_email b = bu_email c"
  shows "b = c"
proof -
  from getByEmail_law [OF assms(1), of "bu_email b"] obtain r where
    r: "\<forall>x. r = Some x \<longleftrightarrow> biz_of st (bu_id x) = Some x \<and> bu_email x = bu_email b" by blast
  have "bu_id b = i" "bu_id c = j" using id_law assms(1-3) by blast+
  with r assms(2-4) have "r = Some b" "r = Some c" by simp_all
  then show ?thesis by simp
qed

lemma getByEmail_known:
  assumes "ok st" "biz_of st i = Some b" "bu_email b = e"
  shows "bz_getByEmail S e st = (Inr (Some b), st)"
proof -
  have "bu_id b = i" using id_law [OF assms(1,2)] by simp
  with assms(2,3) getByEmail_law [OF assms(1), of e] show ?thesis by auto
qed

lemma getByEmail_unknown:
  assumes "ok st" "\<forall>b \<in> ran (biz_of st). bu_email b \<noteq> e"
  shows "bz_getByEmail S e st = (Inr None, st)"
proof -
  from getByEmail_law [OF assms(1), of e] obtain r where
    r: "bz_getByEmail S e st = (Inr r, st)" "\<forall>b. r = Some b \<longleftrightarrow> biz_of st (bu_id b) = Some b \<and> bu_email b = e" by blast
  have "r = None"
  proof (cases r)
    case (Some b)
    then have "b \<in> ran (biz_of st)" "bu_email b = e" using r(2) by (auto intro: ranI)
    then show ?thesis using assms(2) by blast
  qed simp
  then show ?thesis using r(1) by simp
qed

end

section \<open>InMemoryBusinessStore\<close>

record business_maps =
  bm_byId :: "(string, business) jmap"
  bm_idByEmail :: "(string, string) jmap"

definition new_business_maps :: business_maps where
  "new_business_maps = \<lparr>bm_byId = [], bm_idByEmail = []\<rparr>"

definition imb_create :: "business \<Rightarrow> (business_maps, unit) act" where
  "imb_create b = update_state (\<lambda>s.
     s\<lparr>bm_byId := jset (bu_id b) b (bm_byId s), bm_idByEmail := jset (bu_email b) (bu_id b) (bm_idByEmail s)\<rparr>)"

definition imb_getById :: "string \<Rightarrow> (business_maps, business option) act" where
  "imb_getById i = read_state (\<lambda>s. jget (bm_byId s) i)"

definition imb_getByEmail :: "string \<Rightarrow> (business_maps, business option) act" where
  "imb_getByEmail email = read_state (\<lambda>s.
     case jget (bm_idByEmail s) email of
       None \<Rightarrow> None
     | Some i \<Rightarrow> if i = [] then None else jget (bm_byId s) i)"

definition imb_update :: "string \<Rightarrow> business_profile_patch \<Rightarrow> int \<Rightarrow> (business_maps, business) act" where
  "imb_update i p now s =
     (case jget (bm_byId s) i of
        None \<Rightarrow> (Inl (UnknownBusiness i), s)
      | Some b \<Rightarrow> (Inr (apply_patch p now b), s\<lparr>bm_byId := jset i (apply_patch p now b) (bm_byId s)\<rparr>))"

definition InMemoryBusinessStore :: "business_maps business_store" where
  "InMemoryBusinessStore =
     \<lparr>bz_create = imb_create, bz_getById = imb_getById, bz_getByEmail = imb_getByEmail, bz_update = imb_update\<rparr>"

definition imb_ok :: "business_maps \<Rightarrow> bool" where
  "imb_ok s \<longleftrightarrow>
     (\<forall>i b. jget (bm_byId s) i = Some b \<longrightarrow> bu_id b = i \<and> i \<noteq> [] \<and> jget (bm_idByEmail s) (bu_email b) = Some i) \<and>
     (\<forall>e i. jget (bm_idByEmail s) e = Some i \<longrightarrow> (\<exists>b. jget (bm_byId s) i = Some b \<and> bu_email b = e))"

lemma imb_okD:
  assumes "imb_ok s"
  shows "jget (bm_byId s) i = Some b \<Longrightarrow> bu_id b = i \<and> i \<noteq> [] \<and> jget (bm_idByEmail s) (bu_email b) = Some i"
    and "jget (bm_idByEmail s) e = Some i \<Longrightarrow> \<exists>b. jget (bm_byId s) i = Some b \<and> bu_email b = e"
  using assms unfolding imb_ok_def by blast+

lemma imb_ok_new [simp]: "imb_ok new_business_maps"
  by (simp add: imb_ok_def new_business_maps_def)

lemma imb_ok_create:
  assumes "imb_ok s" "bu_id b \<noteq> []" "jget (bm_byId s) (bu_id b) = None"
    "\<forall>b' \<in> ran (jget (bm_byId s)). bu_email b' \<noteq> bu_email b"
  shows "imb_ok (s\<lparr>bm_byId := jset (bu_id b) b (bm_byId s), bm_idByEmail := jset (bu_email b) (bu_id b) (bm_idByEmail s)\<rparr>)"
proof -
  have other: "bu_email c \<noteq> bu_email b" if "jget (bm_byId s) i = Some c" for i c
    using assms(4) that by (blast intro: ranI)
  have fresh: "i \<noteq> bu_id b" if "jget (bm_idByEmail s) e = Some i" for e i
    using imb_okD(2) [OF assms(1) that] assms(3) by auto
  show ?thesis
    using imb_okD [OF assms(1)] assms(2) other fresh
    unfolding imb_ok_def by simp
qed

lemma imb_ok_update:
  assumes "imb_ok s" "jget (bm_byId s) i = Some b"
  shows "imb_ok (s\<lparr>bm_byId := jset i (apply_patch p now b) (bm_byId s)\<rparr>)"
  unfolding imb_ok_def
proof (intro conjI allI impI)
  fix j c
  assume c: "jget (bm_byId (s\<lparr>bm_byId := jset i (apply_patch p now b) (bm_byId s)\<rparr>)) j = Some c"
  have "bu_id c = j \<and> j \<noteq> [] \<and> jget (bm_idByEmail s) (bu_email c) = Some j"
  proof (cases "j = i")
    case True
    then have "c = apply_patch p now b" using c by simp
    then show ?thesis using True imb_okD(1) [OF assms] by simp
  next
    case False
    then have "jget (bm_byId s) j = Some c" using c by simp
    then show ?thesis by (rule imb_okD(1) [OF assms(1)])
  qed
  then show "bu_id c = j" "j \<noteq> []"
    "jget (bm_idByEmail (s\<lparr>bm_byId := jset i (apply_patch p now b) (bm_byId s)\<rparr>)) (bu_email c) = Some j"
    by simp_all
next
  fix e j
  assume "jget (bm_idByEmail (s\<lparr>bm_byId := jset i (apply_patch p now b) (bm_byId s)\<rparr>)) e = Some j"
  then have "jget (bm_idByEmail s) e = Some j" by simp
  from imb_okD(2) [OF assms(1) this] assms(2)
  show "\<exists>c. jget (bm_byId (s\<lparr>bm_byId := jset i (apply_patch p now b) (bm_byId s)\<rparr>)) j = Some c \<and> bu_email c = e"
    by auto
qed

interpretation imb: business_store InMemoryBusinessStore "\<lambda>s. jget (bm_byId s)" imb_ok "\<lambda>i. i \<noteq> []"
proof (unfold_locales, goal_cases)
  case (1 st b)
  then show ?case
    using imb_ok_create [of st b] by (simp add: InMemoryBusinessStore_def imb_create_def fun_eq_iff)
next
  case (2 st i)
  then show ?case by (simp add: InMemoryBusinessStore_def imb_getById_def)
next
  case (3 st e)
  show ?case
  proof (cases "jget (bm_idByEmail st) e")
    case None
    have "\<not> (jget (bm_byId st) (bu_id b) = Some b \<and> bu_email b = e)" for b
      using imb_okD(1) [OF 3, of "bu_id b" b] None by auto
    then show ?thesis using None by (simp add: InMemoryBusinessStore_def imb_getByEmail_def)
  next
    case (Some i)
    from imb_okD(2) [OF 3 this] obtain b where b: "jget (bm_byId st) i = Some b" "bu_email b = e" by blast
    have i: "bu_id b = i" "i \<noteq> []" using imb_okD(1) [OF 3 b(1)] by simp_all
    have "Some b = Some c \<longleftrightarrow> jget (bm_byId st) (bu_id c) = Some c \<and> bu_email c = e" for c
    proof
      assume "jget (bm_byId st) (bu_id c) = Some c \<and> bu_email c = e"
      then have "bu_id c = i" using imb_okD(1) [OF 3, of "bu_id c" c] Some by simp
      then show "Some b = Some c" using \<open>jget (bm_byId st) (bu_id c) = Some c \<and> bu_email c = e\<close> b by simp
    qed (use b i in simp)
    then show ?thesis using Some b i by (intro exI [of _ "Some b"]) (simp add: InMemoryBusinessStore_def imb_getByEmail_def)
  qed
next
  case (4 st i p now b)
  then show ?case
    using imb_ok_update [of st i b p now] by (simp add: InMemoryBusinessStore_def imb_update_def fun_eq_iff)
next
  case (5 st i p now)
  then show ?case by (simp add: InMemoryBusinessStore_def imb_update_def)
next
  case (6 st i b)
  then show ?case using imb_okD(1) by blast
qed

section \<open>PgBusinessStore\<close>

record business_row =
  bw_id :: string
  bw_email :: string
  bw_password_hash :: string
  bw_business_name :: string
  bw_business_type :: business_type
  bw_description :: string
  bw_accent_color :: string
  bw_created_at :: int
  bw_updated_at :: int

type_synonym businesses = "business_row list"

definition toBusiness :: "business_row \<Rightarrow> business" where
  "toBusiness row =
     \<lparr>bu_id = bw_id row, bu_email = bw_email row, bu_passwordHash = bw_password_hash row,
      bu_businessName = bw_business_name row, bu_businessType = bw_business_type row,
      bu_description = bw_description row, bu_accentColor = bw_accent_color row,
      bu_createdAt = bw_created_at row, bu_updatedAt = bw_updated_at row\<rparr>"

definition biz_uuid :: "(string \<Rightarrow> string option) \<Rightarrow> string \<Rightarrow> (businesses, string) act" where
  "biz_uuid uuid_in s =
     (case uuid_in s of None \<Rightarrow> throw (PgError ''invalid input syntax for type uuid'') | Some u \<Rightarrow> ret u)"

text \<open>\<open>INSERT\<close> under the primary key and the unique email.\<close>

definition insert_business :: "business_row \<Rightarrow> (businesses, unit) act" where
  "insert_business row rows =
     (if bw_id row \<in> bw_id ` set rows then (Inl (PgError ''businesses_pkey''), rows)
      else if bw_email row \<in> bw_email ` set rows then (Inl (PgError ''businesses_email_key''), rows)
      else (Inr (), rows @ [row]))"

definition pgb_create :: "(string \<Rightarrow> string option) \<Rightarrow> business \<Rightarrow> (businesses, unit) act" where
  "pgb_create uuid_in b =
     bind (biz_uuid uuid_in (bu_id b)) (\<lambda>i.
       insert_business
         \<lparr>bw_id = i, bw_email = bu_email b, bw_password_hash = bu_passwordHash b,
          bw_business_name = bu_businessName b, bw_business_type = bu_businessType b,
          bw_description = bu_description b, bw_accent_color = bu_accentColor b,
          bw_created_at = bu_createdAt b, bw_updated_at = bu_updatedAt b\<rparr>)"

definition pgb_getById :: "(string \<Rightarrow> string option) \<Rightarrow> string \<Rightarrow> (businesses, business option) act" where
  "pgb_getById uuid_in s =
     bind (biz_uuid uuid_in s) (\<lambda>i. read_state (\<lambda>rows. map_option toBusiness (find (\<lambda>r. bw_id r = i) rows)))"

definition pgb_getByEmail :: "string \<Rightarrow> (businesses, business option) act" where
  "pgb_getByEmail email = read_state (\<lambda>rows. map_option toBusiness (find (\<lambda>r. bw_email r = email) rows))"

text \<open>\<open>COALESCE($n, column)\<close> of each patched column; \<open>now\<close> is the clock of the database.\<close>

definition patch_row :: "business_profile_patch \<Rightarrow> int \<Rightarrow> business_row \<Rightarrow> business_row" where
  "patch_row p now row =
     row\<lparr>bw_business_name := over (pp_businessName p) (bw_business_name row),
         bw_business_type := over (pp_businessType p) (bw_business_type row),
         bw_description := over (pp_description p) (bw_description row),
         bw_accent_color := over (pp_accentColor p) (bw_accent_color row),
         bw_updated_at := now\<rparr>"

definition pgb_update ::
  "(string \<Rightarrow> string option) \<Rightarrow> string \<Rightarrow> business_profile_patch \<Rightarrow> int \<Rightarrow> (businesses, business) act" where
  "pgb_update uuid_in s p now =
     bind (biz_uuid uuid_in s) (\<lambda>i.
     bind (update_state (map (\<lambda>r. if bw_id r = i then patch_row p now r else r))) (\<lambda>_.
     bind (read_state (find (\<lambda>r. bw_id r = i))) (\<lambda>returned.
     case returned of None \<Rightarrow> throw (UnknownBusiness s) | Some row \<Rightarrow> ret (toBusiness row))))"

definition PgBusinessStore :: "(string \<Rightarrow> string option) \<Rightarrow> businesses business_store" where
  "PgBusinessStore uuid_in =
     \<lparr>bz_create = pgb_create uuid_in, bz_getById = pgb_getById uuid_in, bz_getByEmail = pgb_getByEmail,
      bz_update = pgb_update uuid_in\<rparr>"

definition pgb_businesses :: "businesses \<Rightarrow> string \<rightharpoonup> business" where
  "pgb_businesses rows i = map_option toBusiness (find (\<lambda>r. bw_id r = i) rows)"

definition pgb_ok :: "(string \<Rightarrow> string option) \<Rightarrow> businesses \<Rightarrow> bool" where
  "pgb_ok uuid_in rows \<longleftrightarrow>
     distinct (map bw_id rows) \<and> distinct (map bw_email rows) \<and> (\<forall>r \<in> set rows. uuid_in (bw_id r) = Some (bw_id r))"

lemma toBusiness_key [simp]: "bu_id (toBusiness r) = bw_id r" "bu_email (toBusiness r) = bw_email r"
  by (simp_all add: toBusiness_def)

lemma find_key: "distinct (map f rows) \<Longrightarrow> find (\<lambda>r. f r = k) rows = Some r \<longleftrightarrow> r \<in> set rows \<and> f r = k"
  by (induction rows) (auto simp: rev_image_eqI)

lemma find_key_None: "find (\<lambda>r. f r = k) rows = None \<longleftrightarrow> k \<notin> f ` set rows"
  by (induction rows) auto

lemma find_snoc: "find P (rows @ [r]) = (case find P rows of None \<Rightarrow> if P r then Some r else None | Some x \<Rightarrow> Some x)"
  by (induction rows) auto

lemma pgb_businesses_Some:
  "pgb_ok uuid_in rows \<Longrightarrow> pgb_businesses rows i = Some b \<longleftrightarrow> (\<exists>r \<in> set rows. bw_id r = i \<and> toBusiness r = b)"
  by (auto simp: pgb_businesses_def pgb_ok_def find_key)

lemma find_patch:
  "find (\<lambda>r. bw_id r = k) (map (\<lambda>r. if bw_id r = i then patch_row p now r else r) rows) =
     map_option (\<lambda>r. if bw_id r = i then patch_row p now r else r) (find (\<lambda>r. bw_id r = k) rows)"
  by (induction rows) (simp_all add: patch_row_def)

lemma toBusiness_patch: "toBusiness (patch_row p now r) = apply_patch p now (toBusiness r)"
  by (simp add: toBusiness_def patch_row_def apply_patch_def)

interpretation pgb: business_store "PgBusinessStore uuid_in" pgb_businesses "pgb_ok uuid_in" "\<lambda>i. uuid_in i = Some i"
  for uuid_in
proof (unfold_locales, goal_cases)
  case (1 rows b)
  let ?row = "\<lparr>bw_id = bu_id b, bw_email = bu_email b, bw_password_hash = bu_passwordHash b,
      bw_business_name = bu_businessName b, bw_business_type = bu_businessType b,
      bw_description = bu_description b, bw_accent_color = bu_accentColor b,
      bw_created_at = bu_createdAt b, bw_updated_at = bu_updatedAt b\<rparr>"
  have whole: "toBusiness ?row = b" by (simp add: toBusiness_def)
  have id: "bu_id b \<notin> bw_id ` set rows"
    using 1(3) by (simp add: pgb_businesses_def find_key_None)
  have email: "bu_email b \<notin> bw_email ` set rows"
  proof
    assume "bu_email b \<in> bw_email ` set rows"
    then obtain r where r: "r \<in> set rows" "bw_email r = bu_email b" by auto
    then have "pgb_businesses rows (bw_id r) = Some (toBusiness r)"
      using pgb_businesses_Some [OF 1(1)] by blast
    then have "toBusiness r \<in> ran (pgb_businesses rows)" by (rule ranI)
    with 1(4) r(2) show False by (metis toBusiness_key(2))
  qed
  have ok: "pgb_ok uuid_in (rows @ [?row])" using 1(1,2) id email by (auto simp: pgb_ok_def)
  have "pgb_businesses (rows @ [?row]) = (pgb_businesses rows)(bu_id b \<mapsto> b)"
    using 1(3) whole by (auto simp: pgb_businesses_def find_snoc fun_eq_iff split: option.splits)
  with ok id email 1(2) show ?case
    by (simp add: PgBusinessStore_def pgb_create_def biz_uuid_def insert_business_def ret_def)
next
  case (2 rows i)
  then show ?case by (simp add: PgBusinessStore_def pgb_getById_def biz_uuid_def pgb_businesses_def)
next
  case (3 rows e)
  have "map_option toBusiness (find (\<lambda>r. bw_email r = e) rows) = Some b \<longleftrightarrow>
      pgb_businesses rows (bu_id b) = Some b \<and> bu_email b = e" for b
  proof -
    have "distinct (map bw_email rows)" using 3 by (simp add: pgb_ok_def)
    then have "map_option toBusiness (find (\<lambda>r. bw_email r = e) rows) = Some b \<longleftrightarrow>
        (\<exists>r \<in> set rows. bw_email r = e \<and> toBusiness r = b)"
      by (simp add: find_key) blast
    also have "\<dots> \<longleftrightarrow> (\<exists>r \<in> set rows. bw_id r = bu_id b \<and> toBusiness r = b) \<and> bu_email b = e"
      by (metis toBusiness_key)
    finally show ?thesis using pgb_businesses_Some [OF 3] by simp
  qed
  then show ?case by (simp add: PgBusinessStore_def pgb_getByEmail_def)
next
  case (4 rows i p now b)
  let ?rows = "map (\<lambda>r. if bw_id r = i then patch_row p now r else r) rows"
  from 4(3) obtain r where r: "find (\<lambda>r. bw_id r = i) rows = Some r" "toBusiness r = b"
    by (auto simp: pgb_businesses_def)
  have rid: "bw_id r = i" using r(1) by (auto simp: find_Some_iff)
  have keys: "map bw_id ?rows = map bw_id rows" "map bw_email ?rows = map bw_email rows"
    by (simp_all add: patch_row_def)
  have ok: "pgb_ok uuid_in ?rows" using 4(1) unfolding pgb_ok_def keys by (auto simp: patch_row_def)
  have "pgb_businesses ?rows k = ((pgb_businesses rows)(i \<mapsto> apply_patch p now b)) k" for k
  proof (cases "find (\<lambda>r. bw_id r = k) rows")
    case None
    then show ?thesis using r(1) by (auto simp: pgb_businesses_def find_patch)
  next
    case (Some r')
    then have "bw_id r' = k" by (auto simp: find_Some_iff)
    then show ?thesis using Some r by (auto simp: pgb_businesses_def find_patch toBusiness_patch)
  qed
  then have "pgb_businesses ?rows = (pgb_businesses rows)(i \<mapsto> apply_patch p now b)" by (rule ext)
  moreover have "find (\<lambda>r. bw_id r = i) ?rows = Some (patch_row p now r)"
    unfolding find_patch using r rid by simp
  ultimately show ?case
    using ok 4(2) r(2)
    by (simp add: PgBusinessStore_def pgb_update_def biz_uuid_def toBusiness_patch)
next
  case (5 rows i p now)
  then have none: "find (\<lambda>r. bw_id r = i) rows = None" by (simp add: pgb_businesses_def)
  then have "i \<notin> bw_id ` set rows" by (simp add: find_key_None)
  then have same: "map (\<lambda>r. if bw_id r = i then patch_row p now r else r) rows = rows" by (induction rows) auto
  show ?case using 5(2) none same by (simp add: PgBusinessStore_def pgb_update_def biz_uuid_def)
next
  case (6 rows i b)
  then show ?case by (auto simp: pgb_businesses_Some pgb_ok_def)
qed

end
