(* ===== verification/Api.thy ===== *)
theory Api
  imports Saga Auth Business_Store
begin

text \<open>
  The HTTP interface: the routers of \<open>src/api/routes\<close>, \<open>asyncHandler\<close> and the endpoints of
  \<open>src/api/server.ts\<close>, over any stock client, order store, business store and bus. Express hands
  a request to the handler of its route; what a Zod schema makes of the body is an argument of the
  handler: the details of its error when it rejects it, the parsed data otherwise.
\<close>

section \<open>Requests and responses\<close>

record request =
  rq_cookie :: "string option"
  rq_secure :: bool

datatype body =
    NoBody
  | ErrorBody string "string option"
  | InvalidPayload json
  | InternalError js_error
  | OrderBody "order option"
  | OrderList "order list"
  | Account public_business
  | StockList "known_stock_record list"
  | StockBody string string jsnum
  | Summary metrics_summary
  | PlainText string
  | Health bool "js_error option"

record response =
  rp_status :: nat
  rp_setCookie :: "string option"
  rp_location :: "string option"
  rp_body :: body

definition reply_with :: "nat \<Rightarrow> body \<Rightarrow> response" where
  "reply_with status b = \<lparr>rp_status = status, rp_setCookie = None, rp_location = None, rp_body = b\<rparr>"

lemma reply_with_fields [simp]:
  "rp_status (reply_with st b) = st" "rp_body (reply_with st b) = b"
  "rp_setCookie (reply_with st b) = None" "rp_location (reply_with st b) = None"
  by (simp_all add: reply_with_def)

text \<open>The bodies of the errors; the message is absent where the code sends the error alone.\<close>

abbreviation not_found :: body where
  "not_found \<equiv> ErrorBody ''NOT_FOUND'' None"

abbreviation unauthenticated :: body where
  "unauthenticated \<equiv> ErrorBody ''UNAUTHENTICATED'' None"

abbreviation login_to_update :: body where
  "login_to_update \<equiv> ErrorBody ''UNAUTHENTICATED'' (Some ''Log in to update warehouse stock.'')"

abbreviation email_taken :: body where
  "email_taken \<equiv> ErrorBody ''EMAIL_TAKEN'' (Some ''An account with that email already exists.'')"

abbreviation invalid_credentials :: body where
  "invalid_credentials \<equiv> ErrorBody ''INVALID_CREDENTIALS'' (Some ''Incorrect email or password.'')"

text \<open>The result of \<open>safeParse\<close>, and the data the schemas accept.\<close>

type_synonym 'a safe_parse = "json + 'a"

record order_payload =
  op_customerId :: string
  op_amountCents :: int
  op_lines :: "order_line list"

definition createOrderSchema :: "order_payload \<Rightarrow> bool" where
  "createOrderSchema d \<longleftrightarrow>
     op_customerId d \<noteq> [] \<and> 0 < op_amountCents d \<and> op_lines d \<noteq> [] \<and>
     (\<forall>l \<in> set (op_lines d). ol_sku l \<noteq> [] \<and> 0 < ol_qty l \<and> ol_warehouseId l \<noteq> [])"

record stock_payload =
  sp_warehouseId :: string
  sp_sku :: string
  sp_qty :: int

definition setStockSchema :: "stock_payload \<Rightarrow> bool" where
  "setStockSchema d \<longleftrightarrow> sp_warehouseId d \<noteq> [] \<and> sp_sku d \<noteq> [] \<and> 0 \<le> sp_qty d"

record register_payload =
  rg_email :: string
  rg_password :: string
  rg_businessName :: string
  rg_businessType :: business_type
  rg_description :: string
  rg_accentColor :: string

record login_payload =
  lg_email :: string
  lg_password :: string

definition profileUpdateSchema :: "business_profile_patch \<Rightarrow> bool" where
  "profileUpdateSchema p \<longleftrightarrow>
     pp_businessName p \<noteq> None \<or> pp_businessType p \<noteq> None \<or> pp_description p \<noteq> None \<or> pp_accentColor p \<noteq> None"

section \<open>The server the routers close over\<close>

record ('r, 'st, 'b, 'bz) api =
  ap_deps :: "('r, 'st, 'b) deps"
  ap_businesses :: "'bz business_store"
  ap_auth :: auth_env
  ap_scrypt :: "string \<Rightarrow> string \<Rightarrow> string"
  ap_localeLe :: "string \<Rightarrow> string \<Rightarrow> bool"

record ('r, 'st, 'b, 'bz) web =
  wb_world :: "('r, 'st, 'b) world"
  wb_businesses :: 'bz
  wb_dev :: dev_secret

type_synonym ('r, 'st, 'b, 'bz, 'a) web_act = "(('r, 'st, 'b, 'bz) web, 'a) act"

definition in_world :: "('r, 'st, 'b, 'a) saga_act \<Rightarrow> ('r, 'st, 'b, 'bz, 'a) web_act" where
  "in_world m = zoom wb_world (\<lambda>x w. w\<lparr>wb_world := x\<rparr>) m"

definition in_businesses :: "('bz, 'a) act \<Rightarrow> ('r, 'st, 'b, 'bz, 'a) web_act" where
  "in_businesses m = zoom wb_businesses (\<lambda>x w. w\<lparr>wb_businesses := x\<rparr>) m"

definition with_dev :: "(dev_secret \<Rightarrow> 'a \<times> dev_secret) \<Rightarrow> ('r, 'st, 'b, 'bz, 'a) web_act" where
  "with_dev f w = (case f (wb_dev w) of (a, dev) \<Rightarrow> (Inr a, w\<lparr>wb_dev := dev\<rparr>))"

abbreviation api_env :: "('r, 'st, 'b, 'bz) api \<Rightarrow> env" where
  "api_env P \<equiv> dp_env (ap_deps P)"

definition request_business :: "('r, 'st, 'b, 'bz) api \<Rightarrow> request \<Rightarrow> ('r, 'st, 'b, 'bz, string option) web_act" where
  "request_business P req =
     bind (in_world (date_now (api_env P))) (\<lambda>now.
       with_dev (currentBusinessId (ap_auth P) (rq_cookie req) now))"

text \<open>A rejected promise goes to the last-resort error handler of \<open>server.ts\<close>; a promise that never
  settles leaves the request unanswered.\<close>

definition last_resort :: "js_error \<Rightarrow> response" where
  "last_resort err = reply_with 500 (InternalError err)"

definition asyncHandler :: "('w, response) act \<Rightarrow> 'w \<Rightarrow> response option \<times> 'w" where
  "asyncHandler handler w =
     (case handler w of
        (Inr r, w') \<Rightarrow> (Some r, w')
      | (Inl NeverSettles, w') \<Rightarrow> (None, w')
      | (Inl err, w') \<Rightarrow> (Some (last_resort err), w'))"

section \<open>ordersRouter\<close>

definition scopeFor :: "('r, 'st, 'b, 'bz) api \<Rightarrow> request \<Rightarrow> ('r, 'st, 'b, 'bz, string option) web_act" where
  "scopeFor P req = request_business P req"

definition post_orders ::
  "('r, 'st, 'b, 'bz) api \<Rightarrow> order_payload safe_parse \<Rightarrow> request \<Rightarrow> ('r, 'st, 'b, 'bz, response) web_act" where
  "post_orders P parsed req =
     (case parsed of
        Inl details \<Rightarrow> ret (reply_with 400 (InvalidPayload details))
      | Inr d \<Rightarrow>
          bind (scopeFor P req) (\<lambda>businessId.
          bind (in_world (createOrder (ap_deps P) (op_customerId d) (op_lines d) (op_amountCents d) businessId)) (\<lambda>orderId.
          bind (in_world (on_store (os_get (dp_store (ap_deps P)) orderId Unscoped))) (\<lambda>od.
          ret \<lparr>rp_status = 202, rp_setCookie = None, rp_location = Some (''/api/orders/'' @ orderId),
               rp_body = OrderBody od\<rparr>))))"

definition get_order ::
  "('r, 'st, 'b, 'bz) api \<Rightarrow> string \<Rightarrow> request \<Rightarrow> ('r, 'st, 'b, 'bz, response) web_act" where
  "get_order P oid req =
     bind (scopeFor P req) (\<lambda>businessId.
     bind (in_world (on_store (os_get (dp_store (ap_deps P)) oid (Scoped businessId)))) (\<lambda>found.
     ret (case found of
            None \<Rightarrow> reply_with 404 not_found
          | Some od \<Rightarrow> reply_with 200 (OrderBody (Some od)))))"

definition get_orders ::
  "('r, 'st, 'b, 'bz) api \<Rightarrow> request \<Rightarrow> ('r, 'st, 'b, 'bz, response) web_act" where
  "get_orders P req =
     bind (scopeFor P req) (\<lambda>businessId.
     bind (in_world (on_store (os_all (dp_store (ap_deps P)) (Scoped businessId)))) (\<lambda>ods.
     ret (reply_with 200 (OrderList ods))))"

section \<open>businessRouter\<close>

definition toPublic :: "business \<Rightarrow> public_business" where
  "toPublic b =
     \<lparr>pb_id = bu_id b, pb_email = bu_email b, pb_businessName = bu_businessName b,
      pb_businessType = bu_businessType b, pb_description = bu_description b,
      pb_accentColor = bu_accentColor b, pb_createdAt = bu_createdAt b, pb_updatedAt = bu_updatedAt b\<rparr>"

definition session_cookie ::
  "('r, 'st, 'b, 'bz) api \<Rightarrow> request \<Rightarrow> string \<Rightarrow> ('r, 'st, 'b, 'bz, string) web_act" where
  "session_cookie P req businessId =
     bind (in_world (date_now (api_env P))) (\<lambda>now.
     bind (with_dev (createSessionToken (ap_auth P) businessId now)) (\<lambda>token.
     ret (serializeSessionCookie token (rq_secure req))))"

text \<open>\<open>saltBytes\<close> are the bytes \<open>randomBytes(16)\<close> gives in this call.\<close>

definition register_business ::
  "('r, 'st, 'b, 'bz) api \<Rightarrow> register_payload safe_parse \<Rightarrow> string \<Rightarrow> request \<Rightarrow> ('r, 'st, 'b, 'bz, response) web_act" where
  "register_business P parsed saltBytes req =
     (case parsed of
        Inl details \<Rightarrow> ret (reply_with 400 (InvalidPayload details))
      | Inr d \<Rightarrow>
          bind (in_businesses (bz_getByEmail (ap_businesses P) (rg_email d))) (\<lambda>taken.
          if taken \<noteq> None then ret (reply_with 409 email_taken)
          else
            bind (in_world (date_now (api_env P))) (\<lambda>now.
            bind (in_world (random_uuid (api_env P))) (\<lambda>i.
            let b = \<lparr>bu_id = i, bu_email = rg_email d,
                     bu_passwordHash = hashPassword (ap_scrypt P) saltBytes (rg_password d),
                     bu_businessName = rg_businessName d, bu_businessType = rg_businessType d,
                     bu_description = rg_description d, bu_accentColor = rg_accentColor d,
                     bu_createdAt = now, bu_updatedAt = now\<rparr> in
            bind (in_businesses (bz_create (ap_businesses P) b)) (\<lambda>_.
            bind (session_cookie P req (bu_id b)) (\<lambda>cookie.
            ret \<lparr>rp_status = 201, rp_setCookie = Some cookie, rp_location = None,
                 rp_body = Account (toPublic b)\<rparr>))))))"

definition login_business ::
  "('r, 'st, 'b, 'bz) api \<Rightarrow> login_payload safe_parse \<Rightarrow> request \<Rightarrow> ('r, 'st, 'b, 'bz, response) web_act" where
  "login_business P parsed req =
     (case parsed of
        Inl details \<Rightarrow> ret (reply_with 400 (InvalidPayload details))
      | Inr d \<Rightarrow>
          bind (in_businesses (bz_getByEmail (ap_businesses P) (lg_email d))) (\<lambda>found.
          case found of
            None \<Rightarrow> ret (reply_with 401 invalid_credentials)
          | Some b \<Rightarrow>
              if \<not> verifyPassword (ap_scrypt P) (lg_password d) (bu_passwordHash b)
              then ret (reply_with 401 invalid_credentials)
              else
                bind (session_cookie P req (bu_id b)) (\<lambda>cookie.
                ret \<lparr>rp_status = 200, rp_setCookie = Some cookie, rp_location = None,
                     rp_body = Account (toPublic b)\<rparr>)))"

definition logout_business :: "request \<Rightarrow> response" where
  "logout_business req =
     \<lparr>rp_status = 204, rp_setCookie = Some (serializeClearCookie (rq_secure req)), rp_location = None,
      rp_body = NoBody\<rparr>"

definition get_me ::
  "('r, 'st, 'b, 'bz) api \<Rightarrow> request \<Rightarrow> ('r, 'st, 'b, 'bz, response) web_act" where
  "get_me P req =
     bind (request_business P req) (\<lambda>businessId.
     bind (case businessId of
             None \<Rightarrow> ret None
           | Some i \<Rightarrow> in_businesses (bz_getById (ap_businesses P) i)) (\<lambda>found.
     ret (case found of
            None \<Rightarrow> reply_with 401 unauthenticated
          | Some b \<Rightarrow> reply_with 200 (Account (toPublic b)))))"

definition patch_profile ::
  "('r, 'st, 'b, 'bz) api \<Rightarrow> business_profile_patch safe_parse \<Rightarrow> request \<Rightarrow> ('r, 'st, 'b, 'bz, response) web_act" where
  "patch_profile P parsed req =
     bind (request_business P req) (\<lambda>businessId.
     case businessId of
       None \<Rightarrow> ret (reply_with 401 unauthenticated)
     | Some i \<Rightarrow>
         (case parsed of
            Inl details \<Rightarrow> ret (reply_with 400 (InvalidPayload details))
          | Inr p \<Rightarrow>
              bind (in_world (date_now (api_env P))) (\<lambda>now.
              bind (in_businesses (bz_update (ap_businesses P) i p now)) (\<lambda>updated.
              ret (reply_with 200 (Account (toPublic updated)))))))"

section \<open>inventoryRouter and metricsRouter\<close>

definition put_inventory ::
  "('r, 'st, 'b, 'bz) api \<Rightarrow> stock_payload safe_parse \<Rightarrow> request \<Rightarrow> ('r, 'st, 'b, 'bz, response) web_act" where
  "put_inventory P parsed req =
     bind (request_business P req) (\<lambda>businessId.
     if businessId = None then ret (reply_with 401 login_to_update)
     else case parsed of
            Inl details \<Rightarrow> ret (reply_with 400 (InvalidPayload details))
          | Inr d \<Rightarrow>
              bind (in_world (setStock (dp_redis (ap_deps P)) (sp_warehouseId d) (sp_sku d) (Num (sp_qty d)))) (\<lambda>_.
              ret (reply_with 204 NoBody)))"

definition get_inventory :: "('r, 'st, 'b, 'bz) api \<Rightarrow> ('r, 'st, 'b, 'bz, response) web_act" where
  "get_inventory P =
     bind (in_world (listAll (dp_redis (ap_deps P)) (api_env P) (ap_localeLe P))) (\<lambda>rs.
     ret (reply_with 200 (StockList rs)))"

definition get_inventory_item ::
  "('r, 'st, 'b, 'bz) api \<Rightarrow> string \<Rightarrow> string \<Rightarrow> ('r, 'st, 'b, 'bz, response) web_act" where
  "get_inventory_item P warehouseId sku =
     bind (in_world (getAvailable (dp_redis (ap_deps P)) (api_env P) warehouseId sku)) (\<lambda>available.
     ret (reply_with 200 (StockBody warehouseId sku available)))"

definition get_summary :: "('r, 'st, 'b, 'bz) web \<Rightarrow> response" where
  "get_summary w = reply_with 200 (Summary (metricsSnapshotJson (co_metrics (wb_world w))))"

section \<open>The endpoints of the server\<close>

definition get_metrics :: "('r, 'st, 'b, 'bz) web \<Rightarrow> response" where
  "get_metrics w = reply_with 200 (PlainText (metricsSnapshotText (co_metrics (wb_world w))))"

definition get_healthz :: response where
  "get_healthz = reply_with 200 (Health True None)"

text \<open>\<open>timedOut\<close>: the timer of 1500 ms has won the race against the probe.\<close>

definition get_readyz ::
  "('r, 'st, 'b, 'bz) api \<Rightarrow> bool \<Rightarrow> ('r, 'st, 'b, 'bz) web \<Rightarrow> response \<times> ('r, 'st, 'b, 'bz) web" where
  "get_readyz P timedOut w =
     (case in_world (on_redis_at (api_env P) (rl_get (dp_redis (ap_deps P)) ''__readyz_probe__'')) w of
        (probe, w') \<Rightarrow>
          if timedOut then (reply_with 503 (Health False (Some (DriverError ''timeout''))), w')
          else (case probe of
                  Inr _ \<Rightarrow> (reply_with 200 (Health True None), w')
                | Inl err \<Rightarrow> (reply_with 503 (Health False (Some err)), w')))"

datatype endpoint =
    PostOrders "order_payload safe_parse"
  | GetOrder string
  | GetOrders
  | Register "register_payload safe_parse" string
  | Login "login_payload safe_parse"
  | Logout
  | Me
  | PatchProfile "business_profile_patch safe_parse"
  | PutInventory "stock_payload safe_parse"
  | GetInventory
  | GetInventoryItem string string
  | MetricsSummary
  | Metrics
  | Healthz
  | Readyz bool

definition answered :: "response \<times> 'w \<Rightarrow> response option \<times> 'w" where
  "answered rw = (Some (fst rw), snd rw)"

fun handle ::
  "('r, 'st, 'b, 'bz) api \<Rightarrow> endpoint \<Rightarrow> request \<Rightarrow> ('r, 'st, 'b, 'bz) web \<Rightarrow> response option \<times> ('r, 'st, 'b, 'bz) web" where
  "handle P (PostOrders parsed) req w = asyncHandler (post_orders P parsed req) w"
| "handle P (GetOrder oid) req w = asyncHandler (get_order P oid req) w"
| "handle P GetOrders req w = asyncHandler (get_orders P req) w"
| "handle P (Register parsed salt) req w = asyncHandler (register_business P parsed salt req) w"
| "handle P (Login parsed) req w = asyncHandler (login_business P parsed req) w"
| "handle P Logout req w = (Some (logout_business req), w)"
| "handle P Me req w = asyncHandler (get_me P req) w"
| "handle P (PatchProfile parsed) req w = asyncHandler (patch_profile P parsed req) w"
| "handle P (PutInventory parsed) req w = asyncHandler (put_inventory P parsed req) w"
| "handle P GetInventory req w = asyncHandler (get_inventory P) w"
| "handle P (GetInventoryItem wh sku) req w = asyncHandler (get_inventory_item P wh sku) w"
| "handle P MetricsSummary req w = (Some (get_summary w), w)"
| "handle P Metrics req w = (Some (get_metrics w), w)"
| "handle P Healthz req w = (Some get_healthz, w)"
| "handle P (Readyz timedOut) req w = answered (get_readyz P timedOut w)"

section \<open>Running a handler\<close>

lemma in_world_apply:
  "in_world m w = (fst (m (wb_world w)), w\<lparr>wb_world := snd (m (wb_world w))\<rparr>)"
  by (simp add: in_world_def zoom_apply)

lemma in_businesses_apply:
  "in_businesses m w = (fst (m (wb_businesses w)), w\<lparr>wb_businesses := snd (m (wb_businesses w))\<rparr>)"
  by (simp add: in_businesses_def zoom_apply)

lemmas web_acts = in_world_apply in_businesses_apply with_dev_def date_now_def random_uuid_def on_store_def zoom_apply
  bind_apply

text \<open>Who is asking: the business of the session cookie at the next clock reading.\<close>

definition asking :: "('r, 'st, 'b, 'bz) api \<Rightarrow> request \<Rightarrow> ('r, 'st, 'b, 'bz) web \<Rightarrow> string option" where
  "asking P req w =
     fst (currentBusinessId (ap_auth P) (rq_cookie req) (env_now (api_env P) (co_ticks (wb_world w))) (wb_dev w))"

text \<open>The state after the question has been asked: one clock reading more, and perhaps a fallback secret.\<close>

definition asked :: "('r, 'st, 'b, 'bz) api \<Rightarrow> request \<Rightarrow> ('r, 'st, 'b, 'bz) web \<Rightarrow> ('r, 'st, 'b, 'bz) web" where
  "asked P req w =
     w\<lparr>wb_world := (wb_world w)\<lparr>co_ticks := Suc (co_ticks (wb_world w))\<rparr>,
       wb_dev := snd (currentBusinessId (ap_auth P) (rq_cookie req)
         (env_now (api_env P) (co_ticks (wb_world w))) (wb_dev w))\<rparr>"

lemma request_business_run: "request_business P req w = (Inr (asking P req w), asked P req w)"
  by (simp add: request_business_def web_acts asking_def asked_def split: prod.splits)

lemma scopeFor_run: "scopeFor P req w = (Inr (asking P req w), asked P req w)"
  by (simp add: scopeFor_def request_business_run)

lemma asked_fields [simp]:
  "w_store (wb_world (asked P req w)) = w_store (wb_world w)" "w_bus (wb_world (asked P req w)) = w_bus (wb_world w)"
  "co_redis (wb_world (asked P req w)) = co_redis (wb_world w)" "wb_businesses (asked P req w) = wb_businesses w"
  "co_uuids (wb_world (asked P req w)) = co_uuids (wb_world w)"
  "co_ticks (wb_world (asked P req w)) = Suc (co_ticks (wb_world w))"
  "co_known (wb_world (asked P req w)) = co_known (wb_world w)"
  "w_payments (wb_world (asked P req w)) = w_payments (wb_world w)"
  "w_shipping (wb_world (asked P req w)) = w_shipping (wb_world w)"
  by (simp_all add: asked_def)

end
