(* ===== verification/Business_Correct.thy ===== *)
theory Business_Correct
  imports Business_Store
begin

text \<open>
  The two business stores answer every sequence of calls alike, as long as no email is registered
  twice; a second registration of an email is where they differ.
\<close>

section \<open>Sequences of calls\<close>

datatype business_op =
    OpCreate business
  | OpGetById string
  | OpGetByEmail string
  | OpUpdate string business_profile_patch int

datatype business_answer = Stored | Found "business option" | Updated business

fun call_store :: "'st business_store \<Rightarrow> business_op \<Rightarrow> ('st, business_answer) act" where
  "call_store S (OpCreate b) = bind (bz_create S b) (\<lambda>_. ret Stored)"
| "call_store S (OpGetById i) = bind (bz_getById S i) (\<lambda>r. ret (Found r))"
| "call_store S (OpGetByEmail e) = bind (bz_getByEmail S e) (\<lambda>r. ret (Found r))"
| "call_store S (OpUpdate i p now) = bind (bz_update S i p now) (\<lambda>b. ret (Updated b))"

fun answers :: "'st business_store \<Rightarrow> business_op list \<Rightarrow> 'st \<Rightarrow> (js_error + business_answer) list" where
  "answers S [] st = []"
| "answers S (x # xs) st = (case call_store S x st of (r, st') \<Rightarrow> r # answers S xs st')"

fun created :: "business_op list \<Rightarrow> business list" where
  "created [] = []"
| "created (OpCreate b # xs) = b # created xs"
| "created (_ # xs) = created xs"

fun op_ids :: "business_op \<Rightarrow> string list" where
  "op_ids (OpCreate b) = [bu_id b]"
| "op_ids (OpGetById i) = [i]"
| "op_ids (OpGetByEmail e) = []"
| "op_ids (OpUpdate i p now) = [i]"

text \<open>Identifiers are canonical UUIDs, and no identifier and no email is registered twice.\<close>

definition calls_ok :: "(string \<Rightarrow> string option) \<Rightarrow> business_op list \<Rightarrow> bool" where
  "calls_ok uuid_in xs \<longleftrightarrow>
     distinct (map bu_id (created xs)) \<and> distinct (map bu_email (created xs)) \<and>
     (\<forall>x \<in> set xs. \<forall>i \<in> set (op_ids x). i \<noteq> [] \<and> uuid_in i = Some i)"

definition apart :: "(string \<rightharpoonup> business) \<Rightarrow> business_op list \<Rightarrow> bool" where
  "apart m xs \<longleftrightarrow> (\<forall>b \<in> ran m. bu_id b \<notin> bu_id ` set (created xs) \<and> bu_email b \<notin> bu_email ` set (created xs))"

section \<open>One call\<close>

text \<open>Two stores that hold the same accounts give the same answer and hold the same accounts after.\<close>

lemma same_answer:
  assumes S: "business_store S biz ok v" "ok st" and S': "business_store S' biz' ok' v'" "ok' st'"
    and same: "biz st = biz' st'"
    and ids: "\<forall>i \<in> set (op_ids x). v i \<and> v' i"
    and fresh: "\<forall>b. x = OpCreate b \<longrightarrow> biz st (bu_id b) = None \<and> (\<forall>c \<in> ran (biz st). bu_email c \<noteq> bu_email b)"
  shows "\<exists>r t t'. call_store S x st = (r, t) \<and> call_store S' x st' = (r, t') \<and> ok t \<and> ok' t' \<and> biz t = biz' t' \<and>
    (\<forall>b \<in> ran (biz t). (\<exists>c \<in> ran (biz st). bu_id b = bu_id c \<and> bu_email b = bu_email c) \<or> x = OpCreate b)"
proof (cases x)
  case (OpCreate b)
  have pre: "biz' st' (bu_id b) = None" "\<forall>c \<in> ran (biz' st'). bu_email c \<noteq> bu_email b"
    using fresh same OpCreate by simp_all
  obtain t where t: "bz_create S b st = (Inr (), t)" "ok t" "biz t = (biz st)(bu_id b \<mapsto> b)"
    using business_store.create_law [OF S] ids fresh OpCreate by auto
  obtain t' where t': "bz_create S' b st' = (Inr (), t')" "ok' t'" "biz' t' = (biz' st')(bu_id b \<mapsto> b)"
    using business_store.create_law [OF S' _ pre] ids OpCreate by auto
  have "ran (biz t) = insert b (ran (biz st))"
    using t(3) fresh OpCreate by simp
  then show ?thesis using t t' same OpCreate by (auto simp: bind_apply)
next
  case (OpGetById i)
  then show ?thesis
    using business_store.getById_law [OF S, of i] business_store.getById_law [OF S', of i] ids same S(2) S'(2)
    by (auto simp: bind_apply)
next
  case (OpGetByEmail e)
  obtain r where r: "bz_getByEmail S e st = (Inr r, st)" "\<forall>b. r = Some b \<longleftrightarrow> biz st (bu_id b) = Some b \<and> bu_email b = e"
    using business_store.getByEmail_law [OF S] by blast
  obtain r' where r': "bz_getByEmail S' e st' = (Inr r', st')" "\<forall>b. r' = Some b \<longleftrightarrow> biz' st' (bu_id b) = Some b \<and> bu_email b = e"
    using business_store.getByEmail_law [OF S'] by blast
  have "r = r'" using r(2) r'(2) same by (metis option.exhaust)
  then show ?thesis using r(1) r'(1) OpGetByEmail same S(2) S'(2) by (auto simp: bind_apply)
next
  case (OpUpdate i p now)
  have v: "v i" "v' i" using ids OpUpdate by simp_all
  show ?thesis
  proof (cases "biz st i")
    case None
    then show ?thesis
      using business_store.update_unknown [OF S v(1) None] business_store.update_unknown [OF S' v(2), of p now]
        OpUpdate same S(2) S'(2)
      by (auto simp: bind_apply)
  next
    case (Some b)
    have Some': "biz' st' i = Some b" using Some same by simp
    obtain t where t: "bz_update S i p now st = (Inr (apply_patch p now b), t)" "ok t"
        "biz t = (biz st)(i \<mapsto> apply_patch p now b)"
      using business_store.update_law [OF S v(1) Some] by blast
    obtain t' where t': "bz_update S' i p now st' = (Inr (apply_patch p now b), t')" "ok' t'"
        "biz' t' = (biz' st')(i \<mapsto> apply_patch p now b)"
      using business_store.update_law [OF S' v(2) Some'] by blast
    have "\<forall>c \<in> ran (biz t). \<exists>d \<in> ran (biz st). bu_id c = bu_id d \<and> bu_email c = bu_email d"
    proof
      fix c assume "c \<in> ran (biz t)"
      then obtain j where j: "biz t j = Some c" by (auto simp: ran_def)
      show "\<exists>d \<in> ran (biz st). bu_id c = bu_id d \<and> bu_email c = bu_email d"
      proof (cases "j = i")
        case True
        then have "c = apply_patch p now b" using j t(3) by simp
        then show ?thesis using Some by (auto intro: ranI)
      next
        case False
        then have "biz st j = Some c" using j t(3) by simp
        then show ?thesis by (auto intro: ranI)
      qed
    qed
    then show ?thesis using t t' same OpUpdate by (auto simp: bind_apply)
  qed
qed

lemma created_Cons: "created (x # xs) = created [x] @ created xs"
  by (cases x) simp_all

lemma same_answers:
  assumes "business_store S biz ok (\<lambda>i. i \<noteq> [])" "ok st"
    and "business_store S' biz' ok' (\<lambda>i. uuid_in i = Some i)" "ok' st'"
    and "biz st = biz' st'" "calls_ok uuid_in xs" "apart (biz st) xs"
  shows "answers S xs st = answers S' xs st'"
  using assms(2,4-7)
proof (induction xs arbitrary: st st')
  case (Cons x xs)
  have ids: "\<forall>i \<in> set (op_ids x). i \<noteq> [] \<and> uuid_in i = Some i"
    using Cons.prems(4) by (simp add: calls_ok_def)
  have fresh: "\<forall>b. x = OpCreate b \<longrightarrow> biz st (bu_id b) = None \<and> (\<forall>c \<in> ran (biz st). bu_email c \<noteq> bu_email b)"
  proof (intro allI impI)
    fix b assume x: "x = OpCreate b"
    have out: "\<forall>c \<in> ran (biz st). bu_id c \<noteq> bu_id b \<and> bu_email c \<noteq> bu_email b"
      using Cons.prems(5) x by (simp add: apart_def)
    moreover have "biz st (bu_id b) = None"
    proof (cases "biz st (bu_id b)")
      case (Some c)
      then have "bu_id c = bu_id b" using business_store.id_law [OF assms(1) Cons.prems(1)] by blast
      then show ?thesis using out Some by (blast intro: ranI)
    qed
    ultimately show "biz st (bu_id b) = None \<and> (\<forall>c \<in> ran (biz st). bu_email c \<noteq> bu_email b)" by blast
  qed
  from same_answer [OF assms(1) Cons.prems(1) assms(3) Cons.prems(2,3) ids fresh]
  obtain r t t' where r: "call_store S x st = (r, t)" "call_store S' x st' = (r, t')" "ok t" "ok' t'" "biz t = biz' t'"
    "\<forall>b \<in> ran (biz t). (\<exists>c \<in> ran (biz st). bu_id b = bu_id c \<and> bu_email b = bu_email c) \<or> x = OpCreate b"
    by blast
  have ok: "calls_ok uuid_in xs" using Cons.prems(4) by (cases x) (simp_all add: calls_ok_def)
  have "apart (biz t) xs"
    unfolding apart_def
  proof
    fix b assume "b \<in> ran (biz t)"
    with r(6) consider c where "c \<in> ran (biz st)" "bu_id b = bu_id c" "bu_email b = bu_email c" | "x = OpCreate b" by blast
    then show "bu_id b \<notin> bu_id ` set (created xs) \<and> bu_email b \<notin> bu_email ` set (created xs)"
    proof cases
      case 1
      then show ?thesis using Cons.prems(5) unfolding apart_def created_Cons [of x xs] by auto
    next
      case 2
      then show ?thesis using Cons.prems(4) by (simp add: calls_ok_def)
    qed
  qed
  with Cons.IH [OF r(3-5) ok] r(1,2) show ?case by simp
qed simp

section \<open>The properties\<close>

text \<open>C36: InMemoryBusinessStore and PgBusinessStore, from empty, give the same answers to every sequence of
  calls in which identifiers are canonical UUIDs and no identifier or email is registered twice: the same
  accounts by id and by email, the same result of every profile update, the same errors.\<close>

theorem business_stores_agree:
  assumes "calls_ok uuid_in xs"
  shows "answers InMemoryBusinessStore xs new_business_maps = answers (PgBusinessStore uuid_in) xs []"
proof (rule same_answers [OF imb.business_store_axioms _ pgb.business_store_axioms])
  show "calls_ok uuid_in xs" by (rule assms)
qed (simp_all add: pgb_ok_def new_business_maps_def pgb_businesses_def apart_def fun_eq_iff imb_ok_def)

definition demo_account :: "string \<Rightarrow> string \<Rightarrow> business" where
  "demo_account i e =
     \<lparr>bu_id = i, bu_email = e, bu_passwordHash = ''h'', bu_businessName = ''n'', bu_businessType = B2B,
      bu_description = [], bu_accentColor = ''#9fd3ff'', bu_createdAt = 1, bu_updatedAt = 1\<rparr>"

lemma business_stores_agree_witness:
  "answers InMemoryBusinessStore
     [OpCreate (demo_account ''u1'' ''a''), OpGetByEmail ''a'', OpUpdate ''u2'' \<lparr>pp_businessName = None, pp_businessType = None,
        pp_description = Some ''d'', pp_accentColor = None\<rparr> 2] new_business_maps =
   answers (PgBusinessStore Some)
     [OpCreate (demo_account ''u1'' ''a''), OpGetByEmail ''a'', OpUpdate ''u2'' \<lparr>pp_businessName = None, pp_businessType = None,
        pp_description = Some ''d'', pp_accentColor = None\<rparr> 2] []"
  by (rule business_stores_agree) (simp add: calls_ok_def demo_account_def)

text \<open>A second registration of an email (two requests that both found the email free): Postgres rejects it
  and keeps the first account as it was; the in-memory store accepts it, and the first account can no longer
  be found by its email - its owner's login reaches the second account.\<close>

theorem second_registration_of_an_email:
  assumes "bu_email b = bu_email c" and "bu_id b \<noteq> bu_id c"
    and "imb_ok st" "jget (bm_byId st) (bu_id b) = Some b" "bu_id c \<noteq> []"
    and "pgb_ok uuid_in rows" "pgb_businesses rows (bu_id b) = Some b" "uuid_in (bu_id c) = Some (bu_id c)"
  shows "\<exists>st'. imb_create c st = (Inr (), st') \<and> imb_getByEmail (bu_email b) st' = (Inr (Some c), st')
      \<and> imb_getById (bu_id b) st' = (Inr (Some b), st')
    \<and> (\<exists>e. pgb_create uuid_in c rows = (Inl (PgError e), rows))
    \<and> pgb_getByEmail (bu_email b) rows = (Inr (Some b), rows)"
proof -
  from assms(6,7) obtain r where r: "r \<in> set rows" "bw_id r = bu_id b" "toBusiness r = b"
    by (auto simp: pgb_businesses_Some)
  have "bw_email r = bu_email c" using r(3) assms(1) by (metis toBusiness_key(2))
  then have taken: "bu_email c \<in> bw_email ` set rows" using r(1) by (metis imageI)
  then have "\<exists>e. pgb_create uuid_in c rows = (Inl (PgError e), rows)"
    by (auto simp: pgb_create_def biz_uuid_def insert_business_def assms(8))
  moreover have "pgb_getByEmail (bu_email b) rows = (Inr (Some b), rows)"
    using pgb.getByEmail_known [OF assms(6,7), of "bu_email b"] by (simp add: PgBusinessStore_def)
  ultimately show ?thesis
    using assms(1,2,4,5) by (simp add: imb_create_def imb_getByEmail_def imb_getById_def)
qed

lemma second_registration_of_an_email_witness:
  "\<exists>st'. imb_create (demo_account ''u2'' ''a'') (snd (imb_create (demo_account ''u1'' ''a'') new_business_maps)) = (Inr (), st')
     \<and> imb_getByEmail ''a'' st' = (Inr (Some (demo_account ''u2'' ''a'')), st')"
proof -
  let ?b = "demo_account ''u1'' ''a''" and ?c = "demo_account ''u2'' ''a''"
  let ?st = "snd (imb_create ?b new_business_maps)"
  let ?row = "\<lparr>bw_id = ''u1'', bw_email = ''a'', bw_password_hash = ''h'', bw_business_name = ''n'', bw_business_type = B2B,
      bw_description = [], bw_accent_color = ''#9fd3ff'', bw_created_at = 1, bw_updated_at = 1\<rparr>"
  have "bu_email ?b = bu_email ?c" "bu_id ?b \<noteq> bu_id ?c" "imb_ok ?st" "jget (bm_byId ?st) (bu_id ?b) = Some ?b" "bu_id ?c \<noteq> []"
    "pgb_ok Some [?row]" "pgb_businesses [?row] (bu_id ?b) = Some ?b" "Some (bu_id ?c) = Some (bu_id ?c)"
    by (simp_all add: demo_account_def imb_create_def new_business_maps_def imb_ok_def pgb_ok_def pgb_businesses_def toBusiness_def)
  from second_registration_of_an_email [of ?b ?c ?st Some "[?row]", OF this] show ?thesis
    by (auto simp: demo_account_def)
qed

end
