(* ===== verification/Saga_Stock.thy ===== *)
theory Saga_Stock
  imports Saga
begin

text \<open>
  What an order does to the stock: the abstract view of a stock store as stock levels and
  pledged reservations, and the loops of the saga that reserve, release and commit the lines of
  an order.
\<close>

section \<open>Stock levels and pledges\<close>

text \<open>
  From \<open>now\<close> on the store shows the levels \<open>L\<close> under its stock keys and the reservations \<open>\<rho>\<close>
  under its reservation keys.
\<close>

definition repr :: "int \<Rightarrow> (string \<Rightarrow> int option) \<Rightarrow> kv \<Rightarrow> kv \<Rightarrow> bool" where
  "repr now L \<rho> m \<longleftrightarrow>
     (\<forall>t \<ge> now. (\<forall>w s. lookup t m (stockKey w s) = L (stockKey w s)) \<and>
                (\<forall>i. lookup t m (reservationKey i) = lookup t \<rho> i))"

lemma repr_later: "repr now L \<rho> m \<Longrightarrow> now \<le> now' \<Longrightarrow> repr now' L \<rho> m"
  by (simp add: repr_def)

lemma repr_eq: "repr now L \<rho> m \<Longrightarrow> kv_eq now m' m \<Longrightarrow> repr now L \<rho> m'"
  by (simp add: repr_def kv_eq_def)

lemma repr_level: "repr now L \<rho> m \<Longrightarrow> lookup now m (stockKey w s) = L (stockKey w s)"
  by (simp add: repr_def)

lemma repr_pledge: "repr now L \<rho> m \<Longrightarrow> lookup now m (reservationKey i) = lookup now \<rho> i"
  by (simp add: repr_def)

lemma repr_reserve:
  assumes "repr now L \<rho> m" "L (stockKey w s) = Some a" "q \<le> a"
  shows "repr now (L(stockKey w s \<mapsto> a - q)) (\<rho>(i \<mapsto> (q, Some (now + ttl * 1000))))
           (snd (spec_reserve now (stockKey w s) (reservationKey i) q ttl m))"
  using assms repr_level [OF assms(1), of w s] unfolding repr_def
  by (auto simp: spec_reserve_lookup)

lemma repr_reserve_fails:
  assumes "repr now L \<rho> m" "\<And>a. L (stockKey w s) = Some a \<Longrightarrow> a < q"
  shows "snd (spec_reserve now (stockKey w s) rk q ttl m) = m"
  using assms repr_level [OF assms(1), of w s] by (auto simp: spec_reserve_def split: option.splits)

lemma repr_release:
  assumes "repr now L \<rho> m" "L (stockKey w s) = Some a" "lookup now \<rho> i = Some q"
  shows "repr now (L(stockKey w s \<mapsto> a + q)) (\<rho>(i := None))
           (snd (spec_resolve now (stockKey w s) (reservationKey i) ''RELEASE'' m))"
  using assms repr_level [OF assms(1), of w s] repr_pledge [OF assms(1), of i] unfolding repr_def
  by (auto simp: spec_resolve_lookup)

lemma repr_commit:
  assumes "repr now L \<rho> m" "lookup now \<rho> i = Some q"
  shows "repr now L (\<rho>(i := None))
           (snd (spec_resolve now (stockKey w s) (reservationKey i) ''COMMIT'' m))"
  using assms repr_pledge [OF assms(1), of i] unfolding repr_def
  by (auto simp: spec_resolve_lookup)

section \<open>The demand of an order\<close>

definition line_key :: "order_line \<Rightarrow> string" where
  "line_key l = stockKey (ol_warehouseId l) (ol_sku l)"

definition demand :: "order_line list \<Rightarrow> string \<Rightarrow> int" where
  "demand ls k = sum_list (map (\<lambda>l. if line_key l = k then ol_qty l else 0) ls)"

definition debit :: "(string \<Rightarrow> int option) \<Rightarrow> order_line list \<Rightarrow> string \<Rightarrow> int option" where
  "debit L ls k = map_option (\<lambda>n. n - demand ls k) (L k)"

text \<open>An order can be fulfilled when every line asks for something the levels cover, all lines
  of the same key together.\<close>

definition fulfillable :: "(string \<Rightarrow> int option) \<Rightarrow> order_line list \<Rightarrow> bool" where
  "fulfillable L ls \<longleftrightarrow>
     (\<forall>l \<in> set ls. 0 < ol_qty l \<and>
        (case L (line_key l) of None \<Rightarrow> False | Some n \<Rightarrow> demand ls (line_key l) \<le> n))"

lemma demand_simps [simp]:
  "demand [] k = 0"
  "demand (l # ls) k = (if line_key l = k then ol_qty l else 0) + demand ls k"
  "demand (xs @ ys) k = demand xs k + demand ys k"
  by (simp_all add: demand_def)

lemma debit_Nil [simp]: "debit L [] = L"
  by (simp add: debit_def fun_eq_iff option.map_ident)

lemma debit_snoc:
  "L (line_key l) = Some n \<Longrightarrow>
     debit L (ls @ [l]) = (debit L ls)(line_key l \<mapsto> n - demand ls (line_key l) - ol_qty l)"
  by (auto simp: debit_def fun_eq_iff)

lemma debit_Cons:
  "L (line_key l) = Some n \<Longrightarrow>
     (debit L (l # ls))(line_key l \<mapsto> n - demand (l # ls) (line_key l) + ol_qty l) = debit L ls"
  by (auto simp: debit_def fun_eq_iff)

lemma demand_nonneg: "\<forall>l \<in> set ls. 0 < ol_qty l \<Longrightarrow> 0 \<le> demand ls k"
  by (induction ls) auto

lemma fulfillable_Nil [simp]: "fulfillable L []"
  by (simp add: fulfillable_def)

lemma fulfillable_iff:
  "fulfillable L ls \<longleftrightarrow>
     (\<forall>l \<in> set ls. 0 < ol_qty l \<and> (\<exists>n. L (line_key l) = Some n \<and> demand ls (line_key l) \<le> n))"
  by (auto simp: fulfillable_def split: option.splits)

lemma fulfillable_prefix:
  assumes "fulfillable L (xs @ ys)"
  shows "fulfillable L xs"
  unfolding fulfillable_iff
proof
  fix l assume l: "l \<in> set xs"
  have "\<forall>l \<in> set ys. 0 < ol_qty l" using assms by (simp add: fulfillable_iff)
  then have "0 \<le> demand ys (line_key l)" by (rule demand_nonneg)
  moreover from assms l obtain n where
    "0 < ol_qty l" "L (line_key l) = Some n" "demand (xs @ ys) (line_key l) \<le> n"
    unfolding fulfillable_iff by auto
  ultimately show "0 < ol_qty l \<and> (\<exists>n. L (line_key l) = Some n \<and> demand xs (line_key l) \<le> n)" by simp
qed

lemma fulfillable_snoc:
  assumes "fulfillable L ls"
  shows "fulfillable L (ls @ [l]) \<longleftrightarrow>
    0 < ol_qty l \<and> (\<exists>n. L (line_key l) = Some n \<and> ol_qty l \<le> n - demand ls (line_key l))"
proof (intro iffI; clarsimp?)
  assume "fulfillable L (ls @ [l])"
  then show "0 < ol_qty l \<and> (\<exists>n. L (line_key l) = Some n \<and> ol_qty l \<le> n - demand ls (line_key l))"
    by (auto simp: fulfillable_iff)
next
  fix n assume "0 < ol_qty l" "L (line_key l) = Some n" "ol_qty l \<le> n - demand ls (line_key l)"
  with assms show "fulfillable L (ls @ [l])"
    by (auto simp: fulfillable_iff)
qed

section \<open>What an order has taken\<close>

text \<open>A line with the reservation it got: its identifier and its deadline.\<close>

type_synonym taken = "order_line \<times> string \<times> int"

definition pledge :: "kv \<Rightarrow> taken list \<Rightarrow> kv" where
  "pledge \<rho> tk = \<rho> ++ map_of (map (\<lambda>(l, i, d). (i, (ol_qty l, Some d))) tk)"

definition rsv :: "taken \<Rightarrow> reservation" where
  "rsv x = (case x of (l, i, d) \<Rightarrow>
     \<lparr>rv_warehouseId = ol_warehouseId l, rv_sku = ol_sku l, rv_reservationId = i\<rparr>)"

abbreviation ids :: "taken list \<Rightarrow> string list" where
  "ids tk \<equiv> map (fst \<circ> snd) tk"

abbreviation lines_of :: "taken list \<Rightarrow> order_line list" where
  "lines_of tk \<equiv> map fst tk"

definition separate :: "kv \<Rightarrow> taken list \<Rightarrow> bool" where
  "separate \<rho> tk \<longleftrightarrow> distinct (ids tk) \<and> set (ids tk) \<inter> dom \<rho> = {}"

lemma pledge_Nil [simp]: "pledge \<rho> [] = \<rho>"
  by (simp add: pledge_def)

lemma pledge_Cons: "pledge \<rho> ((l, i, d) # tk) =
    (\<lambda>j. if j = i then Some (ol_qty l, Some d) else pledge \<rho> tk j)"
  by (auto simp: pledge_def fun_eq_iff map_add_def)

lemma pledge_out: "i \<notin> set (ids tk) \<Longrightarrow> pledge \<rho> tk i = \<rho> i"
  by (induction tk) (auto simp: pledge_Cons)

lemma pledge_snoc:
  "i \<notin> set (ids tk) \<Longrightarrow> pledge \<rho> (tk @ [(l, i, d)]) = (pledge \<rho> tk)(i \<mapsto> (ol_qty l, Some d))"
  by (induction tk) (auto simp: pledge_Cons fun_eq_iff)

lemma pledge_redeem:
  assumes "separate \<rho> ((l, i, d) # tk)"
  shows "(pledge \<rho> ((l, i, d) # tk))(i := None) = pledge \<rho> tk"
proof
  fix j
  have "pledge \<rho> tk i = \<rho> i" "\<rho> i = None"
    using assms by (intro pledge_out, auto simp: separate_def)+
  then show "((pledge \<rho> ((l, i, d) # tk))(i := None)) j = pledge \<rho> tk j" by (simp add: pledge_Cons)
qed

lemma separate_tl: "separate \<rho> (x # tk) \<Longrightarrow> separate \<rho> tk"
  by (auto simp: separate_def)

lemma separate_snoc:
  "separate \<rho> tk \<Longrightarrow> i \<notin> set (ids tk) \<Longrightarrow> i \<notin> dom \<rho> \<Longrightarrow> separate \<rho> (tk @ [(l, i, d)])"
  by (auto simp: separate_def)

lemma lookup_pledge: "t < d \<Longrightarrow> lookup t (pledge \<rho> ((l, i, d) # tk)) i = Some (ol_qty l)"
  by (simp add: lookup_def pledge_Cons)

section \<open>The loops of the saga\<close>

text \<open>What the loops leave alone.\<close>

definition same_rest :: "('r, 'st, 'b) world \<Rightarrow> ('r, 'st, 'b) world \<Rightarrow> bool" where
  "same_rest w w' \<longleftrightarrow> w_payments w' = w_payments w \<and> w_shipping w' = w_shipping w \<and>
     w_bus w' = w_bus w \<and> w_store w' = w_store w \<and>
     sagaOutcomes (co_metrics w') = sagaOutcomes (co_metrics w)"

lemma same_rest_refl [simp, intro]: "same_rest w w"
  by (simp add: same_rest_def)

lemma same_rest_trans [trans]: "same_rest w w1 \<Longrightarrow> same_rest w1 w2 \<Longrightarrow> same_rest w w2"
  by (simp add: same_rest_def)

text \<open>The environment of a run: a clock that does not go back and identifiers never reused.\<close>

definition clock_ok :: "env \<Rightarrow> bool" where
  "clock_ok E \<longleftrightarrow> mono (env_now E)"

definition fresh_ids :: "env \<Rightarrow> nat \<Rightarrow> string set \<Rightarrow> bool" where
  "fresh_ids E n X \<longleftrightarrow> inj (env_uuid E) \<and> (\<forall>k \<ge> n. env_uuid E k \<notin> X)"

lemma clock_le: "clock_ok E \<Longrightarrow> i \<le> j \<Longrightarrow> env_now E i \<le> env_now E j"
  by (simp add: clock_ok_def monoD)

lemma fresh_ids_next:
  "fresh_ids E n X \<Longrightarrow> env_uuid E n \<notin> X \<and> fresh_ids E (Suc n) (insert (env_uuid E n) X)"
  by (auto simp: fresh_ids_def dest: injD)

text \<open>Every deadline of a list of reservations lies after a time.\<close>

definition due_after :: "int \<Rightarrow> taken list \<Rightarrow> bool" where
  "due_after t tk \<longleftrightarrow> (\<forall>(l, i, d) \<in> set tk. t < d)"

lemma due_after_Cons: "due_after t ((l, i, d) # tk) \<longleftrightarrow> t < d \<and> due_after t tk"
  by (simp add: due_after_def)

lemma due_after_earlier: "due_after t tk \<Longrightarrow> t' \<le> t \<Longrightarrow> due_after t' tk"
  by (fastforce simp: due_after_def)

context stock_redis
begin

definition holding ::
  "env \<Rightarrow> ('r, 'z) process_scheme \<Rightarrow> (string \<Rightarrow> int option) \<Rightarrow> kv \<Rightarrow> taken list \<Rightarrow> taken list \<Rightarrow> bool" where
  "holding E w L \<rho> tk pl \<longleftrightarrow> invar (co_redis w) \<and>
     repr (env_now E (co_ticks w)) (debit L (lines_of tk)) (pledge \<rho> pl) (kv_of (co_redis w))"

lemma holding_tick:
  "holding E w L \<rho> tk pl \<Longrightarrow> clock_ok E \<Longrightarrow> co_redis w' = co_redis w \<Longrightarrow> co_ticks w \<le> co_ticks w' \<Longrightarrow>
     holding E w' L \<rho> tk pl"
  by (auto simp: holding_def intro: repr_later clock_le)

lemma release_reservation_run:
  assumes h: "holding E w L \<rho> (x # tk) (x # pl)" and sep: "separate \<rho> (x # pl)"
    and cover: "L (line_key (fst x)) \<noteq> None"
    and due: "due_after (env_now E (co_ticks w)) [x]"
    and clock: "clock_ok E" and D: "dp_redis D = R" "dp_env D = E"
  shows "\<exists>w'. release_reservation D (rsv x) w = (Inr (), w') \<and> holding E w' L \<rho> tk pl \<and>
     same_rest w w' \<and> co_ticks w' = Suc (co_ticks w) \<and> co_uuids w' = co_uuids w"
proof -
  obtain l i d where x: "x = (l, i, d)" by (cases x)
  obtain n where n: "L (line_key l) = Some n" using cover x by auto
  let ?now = "env_now E (co_ticks w)" and ?w = "ol_warehouseId l" and ?s = "ol_sku l"
  let ?m = "kv_of (co_redis w)"
  let ?sp = "spec_resolve ?now (stockKey ?w ?s) (reservationKey i) ''RELEASE'' ?m"
  from resolve_run [of w E ?w ?s i "''RELEASE''"] h obtain r' where
    run: "resolve R E ?w ?s i ''RELEASE'' w = (map_sum id fst (fst ?sp), w\<lparr>co_redis := r', co_ticks := Suc (co_ticks w)\<rparr>)"
    and r': "invar r'" "kv_eq ?now (kv_of r') (snd ?sp)"
    unfolding holding_def by blast
  have r: "repr ?now (debit L (lines_of (x # tk))) (pledge \<rho> (x # pl)) ?m" using h by (simp add: holding_def)
  have q: "lookup ?now (pledge \<rho> (x # pl)) i = Some (ol_qty l)"
    using due by (simp add: x lookup_pledge due_after_def)
  then have "lookup ?now ?m (reservationKey i) = Some (ol_qty l)" using repr_pledge [OF r] by simp
  then have res: "fst ?sp = Inr (''RELEASED'', Num (ol_qty l))" by (simp add: spec_resolve_reply)
  have "debit L (lines_of (x # tk)) (stockKey ?w ?s) = Some (n - demand (lines_of (x # tk)) (line_key l))"
    using n by (simp add: debit_def line_key_def)
  from repr_release [OF r this q] have
    "repr ?now (debit L (lines_of tk)) (pledge \<rho> pl) (snd ?sp)"
    using debit_Cons [of L l n "lines_of tk"] n sep pledge_redeem [of \<rho> l i d pl]
    by (simp add: x line_key_def)
  then have "repr ?now (debit L (lines_of tk)) (pledge \<rho> pl) (kv_of r')" using r'(2) by (rule repr_eq)
  then have "holding E (w\<lparr>co_redis := r', co_ticks := Suc (co_ticks w)\<rparr>) L \<rho> tk pl"
    using r'(1) clock_le [OF clock, of "co_ticks w" "Suc (co_ticks w)"] by (auto simp: holding_def elim: repr_later)
  then show ?thesis
    using run res D
    by (auto simp: release_reservation_def release_def rsv_def x bind_apply same_rest_def)
qed

lemma release_all_run:
  assumes "holding E w L \<rho> tk tk" and "separate \<rho> tk" and "\<forall>x \<in> set tk. L (line_key (fst x)) \<noteq> None"
    and "due_after (env_now E (co_ticks w + length tk)) tk"
    and clock: "clock_ok E" and D: "dp_redis D = R" "dp_env D = E"
  shows "\<exists>w'. for_each (release_reservation D) (map rsv tk) w = (Inr (), w') \<and> holding E w' L \<rho> [] [] \<and>
     same_rest w w' \<and> co_ticks w' = co_ticks w + length tk \<and> co_uuids w' = co_uuids w"
  using assms(1-4)
proof (induction tk arbitrary: w)
  case Nil
  then show ?case by simp
next
  case (Cons x tk)
  have "due_after (env_now E (co_ticks w + length (x # tk))) [x]"
    using Cons.prems(4) by (simp add: due_after_def)
  then have due: "due_after (env_now E (co_ticks w)) [x]"
    by (rule due_after_earlier) (simp add: clock clock_le)
  from Cons.prems(3) have "L (line_key (fst x)) \<noteq> None" by simp
  from release_reservation_run [OF Cons.prems(1,2) this due clock D] obtain w1 where
    w1: "release_reservation D (rsv x) w = (Inr (), w1)" "holding E w1 L \<rho> tk tk" "same_rest w w1"
      "co_ticks w1 = Suc (co_ticks w)" "co_uuids w1 = co_uuids w" by blast
  have "due_after (env_now E (co_ticks w1 + length tk)) tk"
    using Cons.prems(4) w1(4) by (simp add: due_after_def)
  with Cons.IH [OF w1(2) separate_tl [OF Cons.prems(2)]] Cons.prems(3) obtain w2 where
    "for_each (release_reservation D) (map rsv tk) w1 = (Inr (), w2)" "holding E w2 L \<rho> [] []"
    "same_rest w1 w2" "co_ticks w2 = co_ticks w1 + length tk" "co_uuids w2 = co_uuids w1" by auto
  with w1 show ?case by (auto simp: bind_apply intro: same_rest_trans)
qed

lemma commit_reservation_run:
  assumes h: "holding E w L \<rho> tk (x # pl)" and sep: "separate \<rho> (x # pl)"
    and due: "due_after (env_now E (co_ticks w)) [x]"
    and clock: "clock_ok E" and D: "dp_redis D = R" "dp_env D = E"
  shows "\<exists>w'. commit_reservation D (rsv x) w = (Inr (), w') \<and> holding E w' L \<rho> tk pl \<and>
     same_rest w w' \<and> co_ticks w' = Suc (co_ticks w) \<and> co_uuids w' = co_uuids w"
proof -
  obtain l i d where x: "x = (l, i, d)" by (cases x)
  let ?now = "env_now E (co_ticks w)" and ?w = "ol_warehouseId l" and ?s = "ol_sku l"
  let ?m = "kv_of (co_redis w)"
  let ?sp = "spec_resolve ?now (stockKey ?w ?s) (reservationKey i) ''COMMIT'' ?m"
  from resolve_run [of w E ?w ?s i "''COMMIT''"] h obtain r' where
    run: "resolve R E ?w ?s i ''COMMIT'' w = (map_sum id fst (fst ?sp), w\<lparr>co_redis := r', co_ticks := Suc (co_ticks w)\<rparr>)"
    and r': "invar r'" "kv_eq ?now (kv_of r') (snd ?sp)"
    unfolding holding_def by blast
  have r: "repr ?now (debit L (lines_of tk)) (pledge \<rho> (x # pl)) ?m" using h by (simp add: holding_def)
  have q: "lookup ?now (pledge \<rho> (x # pl)) i = Some (ol_qty l)"
    using due by (simp add: x lookup_pledge due_after_def)
  then have "lookup ?now ?m (reservationKey i) = Some (ol_qty l)" using repr_pledge [OF r] by simp
  then have res: "fst ?sp = Inr (''COMMITTED'', Num (ol_qty l))" by (simp add: spec_resolve_reply)
  from repr_commit [OF r q, of ?w ?s] have "repr ?now (debit L (lines_of tk)) (pledge \<rho> pl) (snd ?sp)"
    using sep pledge_redeem [of \<rho> l i d pl] by (simp add: x)
  then have "repr ?now (debit L (lines_of tk)) (pledge \<rho> pl) (kv_of r')" using r'(2) by (rule repr_eq)
  then have "holding E (w\<lparr>co_redis := r', co_ticks := Suc (co_ticks w)\<rparr>) L \<rho> tk pl"
    using r'(1) clock_le [OF clock, of "co_ticks w" "Suc (co_ticks w)"] by (auto simp: holding_def elim: repr_later)
  then show ?thesis
    using run res D
    by (auto simp: commit_reservation_def commit_def rsv_def x bind_apply same_rest_def)
qed

lemma commit_all_run:
  assumes "holding E w L \<rho> tk pl" and "separate \<rho> pl"
    and "due_after (env_now E (co_ticks w + length pl)) pl"
    and clock: "clock_ok E" and D: "dp_redis D = R" "dp_env D = E"
  shows "\<exists>w'. for_each (commit_reservation D) (map rsv pl) w = (Inr (), w') \<and> holding E w' L \<rho> tk [] \<and>
     same_rest w w' \<and> co_ticks w' = co_ticks w + length pl \<and> co_uuids w' = co_uuids w"
  using assms(1-3)
proof (induction pl arbitrary: w)
  case Nil
  then show ?case by simp
next
  case (Cons x pl)
  have "due_after (env_now E (co_ticks w + length (x # pl))) [x]"
    using Cons.prems(3) by (simp add: due_after_def)
  then have due: "due_after (env_now E (co_ticks w)) [x]"
    by (rule due_after_earlier) (simp add: clock clock_le)
  from commit_reservation_run [OF Cons.prems(1,2) due clock D] obtain w1 where
    w1: "commit_reservation D (rsv x) w = (Inr (), w1)" "holding E w1 L \<rho> tk pl" "same_rest w w1"
      "co_ticks w1 = Suc (co_ticks w)" "co_uuids w1 = co_uuids w" by blast
  have "due_after (env_now E (co_ticks w1 + length pl)) pl"
    using Cons.prems(3) w1(4) by (simp add: due_after_def)
  with Cons.IH [OF w1(2) separate_tl [OF Cons.prems(2)]] obtain w2 where
    "for_each (commit_reservation D) (map rsv pl) w1 = (Inr (), w2)" "holding E w2 L \<rho> tk []"
    "same_rest w1 w2" "co_ticks w2 = co_ticks w1 + length pl" "co_uuids w2 = co_uuids w1" by auto
  with w1 show ?case by (auto simp: bind_apply intro: same_rest_trans)
qed

text \<open>One line: it is reserved when the levels cover it after what is already taken.\<close>

lemma reserve_line_run:
  assumes h: "holding E w L \<rho> tk tk" and sep: "separate \<rho> tk" and full: "fulfillable L (lines_of tk)"
    and fresh: "fresh_ids E (co_uuids w) (dom \<rho> \<union> set (ids tk))"
    and clock: "clock_ok E"
  shows "\<exists>res w'. reserve R E (ol_warehouseId l) (ol_sku l) (Num (ol_qty l)) DEFAULT_RESERVATION_TTL_SECONDS w
       = (Inr res, w') \<and> same_rest w w' \<and>
     co_ticks w \<le> co_ticks w' \<and> co_ticks w' \<le> co_ticks w + 3 \<and>
     (if fulfillable L (lines_of tk @ [l]) then
        \<exists>i d. rr_ok res \<and> rr_reservationId res = Some i \<and> holding E w' L \<rho> (tk @ [(l, i, d)]) (tk @ [(l, i, d)]) \<and>
          separate \<rho> (tk @ [(l, i, d)]) \<and> env_now E (co_ticks w) + 900000 \<le> d \<and>
          fresh_ids E (co_uuids w') (dom \<rho> \<union> set (ids (tk @ [(l, i, d)])))
      else \<not> rr_ok res \<and> holding E w' L \<rho> tk tk \<and> fresh_ids E (co_uuids w') (dom \<rho> \<union> set (ids tk)))"
proof (cases "0 < ol_qty l")
  case False
  then show ?thesis
    using h fresh by (simp add: reserve_invalid rejected_result_def fulfillable_snoc [OF full])
next
  case True
  let ?now = "env_now E (co_ticks w + 1)" and ?w = "ol_warehouseId l" and ?s = "ol_sku l"
  let ?m = "kv_of (co_redis w)" and ?i = "env_uuid E (co_uuids w)"
  let ?d = "?now + 900 * 1000"
  let ?sp = "spec_reserve ?now (stockKey ?w ?s) (reservationKey ?i) (ol_qty l) 900 ?m"
  have later: "env_now E (co_ticks w) \<le> ?now" "?now \<le> env_now E (co_ticks w + 3)"
    using clock by (simp_all add: clock_le)
  have r: "repr ?now (debit L (lines_of tk)) (pledge \<rho> tk) ?m"
    using h later(1) by (auto simp: holding_def elim: repr_later)
  have inv: "invar (co_redis w)" using h by (simp add: holding_def)
  from reserve_run [OF inv True, of 900 E ?w ?s] obtain r' w' where
    run: "reserve R E ?w ?s (Num (ol_qty l)) DEFAULT_RESERVATION_TTL_SECONDS w =
        (Inr (reserve_result ?i (fst ?sp)), w')"
    and w': "co_redis w' = r'" "co_ticks w' = co_ticks w + 3" "co_uuids w' = Suc (co_uuids w)" "same_rest w w'"
    and r': "invar r'" "kv_eq ?now (kv_of r') (snd ?sp)"
    unfolding DEFAULT_RESERVATION_TTL_SECONDS_def
    by (auto simp: same_rest_def reserve_metrics_def Let_def)
  have new: "?i \<notin> dom \<rho>" "?i \<notin> set (ids tk)"
    using fresh by (auto simp: fresh_ids_def)
  have lev: "lookup ?now ?m (stockKey ?w ?s) = debit L (lines_of tk) (stockKey ?w ?s)"
    by (rule repr_level [OF r])
  have fin: "holding E w' L \<rho> tk' tk'" if "repr ?now (debit L (lines_of tk')) (pledge \<rho> tk') (snd ?sp)" for tk'
    using repr_eq [OF that r'(2)] later(2) r'(1) w' by (auto simp: holding_def elim: repr_later)
  show ?thesis
  proof (cases "fulfillable L (lines_of tk @ [l])")
    case ok: True
    then obtain n where n: "L (line_key l) = Some n" "ol_qty l \<le> n - demand (lines_of tk) (line_key l)"
      by (auto simp: fulfillable_snoc [OF full])
    let ?a = "n - demand (lines_of tk) (line_key l)"
    have a: "debit L (lines_of tk) (stockKey ?w ?s) = Some ?a"
      using n(1) by (simp add: debit_def line_key_def)
    have rep: "fst ?sp = (''OK'', Num (?a - ol_qty l))"
      using n(2) lev a by (simp add: spec_reserve_reply)
    from repr_reserve [OF r a n(2), of ?i 900]
    have "holding E w' L \<rho> (tk @ [(l, ?i, ?d)]) (tk @ [(l, ?i, ?d)])"
      using debit_snoc [of L l n "lines_of tk"] n(1)
      by (intro fin) (simp add: line_key_def pledge_snoc [OF new(2)])
    moreover have "fresh_ids E (co_uuids w') (dom \<rho> \<union> set (ids (tk @ [(l, ?i, ?d)])))"
      using fresh_ids_next [OF fresh] w'(3) by (simp add: insert_commute)
    ultimately show ?thesis
      using ok run rep w' later(1) separate_snoc [OF sep new(2,1)]
      by (auto simp: reserve_result_def accepted_result_def)
  next
    case no: False
    have low: "a < ol_qty l" if "debit L (lines_of tk) (stockKey ?w ?s) = Some a" for a
      using no that True by (auto simp: fulfillable_snoc [OF full] debit_def line_key_def)
    have "snd ?sp = ?m" using low by (rule repr_reserve_fails [OF r])
    then have "holding E w' L \<rho> tk tk" using r by (intro fin) simp
    moreover have "\<not> rr_ok (reserve_result ?i (fst ?sp))"
      using low lev by (auto simp: spec_reserve_reply split: option.splits)
    moreover have "fresh_ids E (co_uuids w') (dom \<rho> \<union> set (ids tk))"
      using fresh w'(3) by (auto simp: fresh_ids_def)
    ultimately show ?thesis using no run w' by auto
  qed
qed

lemma reserve_loop_run:
  assumes "holding E w L \<rho> tk tk" and "separate \<rho> tk" and "fulfillable L (lines_of tk)"
    and "fresh_ids E (co_uuids w) (dom \<rho> \<union> set (ids tk))"
    and "due_after t tk" and "t < env_now E (co_ticks w) + 900000"
    and clock: "clock_ok E" and D: "dp_redis D = R" "dp_env D = E"
  shows "\<exists>f tk' w'. reserve_loop D ls (map rsv tk) w = (Inr (f, map rsv tk'), w') \<and>
     holding E w' L \<rho> tk' tk' \<and> separate \<rho> tk' \<and> fulfillable L (lines_of tk') \<and> due_after t tk' \<and>
     same_rest w w' \<and> co_ticks w \<le> co_ticks w' \<and> co_ticks w' \<le> co_ticks w + 3 * length ls \<and>
     length tk' \<le> length tk + length ls \<and>
     (case f of None \<Rightarrow> lines_of tk' = lines_of tk @ ls
      | Some l \<Rightarrow> l \<in> set ls \<and> \<not> fulfillable L (lines_of tk @ ls))"
  using assms(1-6)
proof (induction ls arbitrary: tk w)
  case Nil
  then show ?case by auto
next
  case (Cons l ls)
  from reserve_line_run [OF Cons.prems(1-4) clock, of l] obtain res w1 where
    w1: "reserve R E (ol_warehouseId l) (ol_sku l) (Num (ol_qty l)) DEFAULT_RESERVATION_TTL_SECONDS w = (Inr res, w1)"
      "same_rest w w1" "co_ticks w \<le> co_ticks w1" "co_ticks w1 \<le> co_ticks w + 3"
    and cases: "if fulfillable L (lines_of tk @ [l]) then
        \<exists>i d. rr_ok res \<and> rr_reservationId res = Some i \<and> holding E w1 L \<rho> (tk @ [(l, i, d)]) (tk @ [(l, i, d)]) \<and>
          separate \<rho> (tk @ [(l, i, d)]) \<and> env_now E (co_ticks w) + 900000 \<le> d \<and>
          fresh_ids E (co_uuids w1) (dom \<rho> \<union> set (ids (tk @ [(l, i, d)])))
      else \<not> rr_ok res \<and> holding E w1 L \<rho> tk tk \<and> fresh_ids E (co_uuids w1) (dom \<rho> \<union> set (ids tk))" by blast
  show ?case
  proof (cases "fulfillable L (lines_of tk @ [l])")
    case True
    with cases obtain i d where
      ok: "rr_ok res" "rr_reservationId res = Some i"
        "holding E w1 L \<rho> (tk @ [(l, i, d)]) (tk @ [(l, i, d)])" "separate \<rho> (tk @ [(l, i, d)])"
        "env_now E (co_ticks w) + 900000 \<le> d"
        "fresh_ids E (co_uuids w1) (dom \<rho> \<union> set (ids (tk @ [(l, i, d)])))" by auto
    let ?tk = "tk @ [(l, i, d)]"
    have "due_after t ?tk" using Cons.prems(5,6) ok(5) by (auto simp: due_after_def)
    moreover have "t < env_now E (co_ticks w1) + 900000"
      using Cons.prems(6) clock_le [OF clock w1(3)] by simp
    moreover have "fulfillable L (lines_of ?tk)" using True by simp
    ultimately obtain f tk' w2 where
      w2: "reserve_loop D ls (map rsv ?tk) w1 = (Inr (f, map rsv tk'), w2)"
        "holding E w2 L \<rho> tk' tk'" "separate \<rho> tk'" "fulfillable L (lines_of tk')" "due_after t tk'"
        "same_rest w1 w2" "co_ticks w1 \<le> co_ticks w2" "co_ticks w2 \<le> co_ticks w1 + 3 * length ls"
        "length tk' \<le> length ?tk + length ls"
      and f: "case f of None \<Rightarrow> lines_of tk' = lines_of ?tk @ ls
          | Some l' \<Rightarrow> l' \<in> set ls \<and> \<not> fulfillable L (lines_of ?tk @ ls)"
      using Cons.IH [OF ok(3,4) _ ok(6)] by blast
    have "reserve_loop D (l # ls) (map rsv tk) w = (Inr (f, map rsv tk'), w2)"
      using w1(1) ok(1,2) w2(1) by (simp add: bind_apply D rsv_def)
    moreover have "case f of None \<Rightarrow> lines_of tk' = lines_of tk @ l # ls
          | Some l' \<Rightarrow> l' \<in> set (l # ls) \<and> \<not> fulfillable L (lines_of tk @ l # ls)"
      using f by (auto split: option.splits)
    ultimately show ?thesis
      using w1 w2 same_rest_trans [OF w1(2) w2(6)]
      by (intro exI [of _ f] exI [of _ tk'] exI [of _ w2]) auto
  next
    case False
    then have "\<not> fulfillable L (lines_of tk @ l # ls)"
      using fulfillable_prefix [of L "lines_of tk @ [l]" ls] by auto
    moreover have "reserve_loop D (l # ls) (map rsv tk) w = (Inr (Some l, map rsv tk), w1)"
      using w1(1) cases False by (simp add: bind_apply D)
    ultimately show ?thesis
      using w1 cases False Cons.prems
      by (intro exI [of _ "Some l"] exI [of _ tk] exI [of _ w1]) auto
  qed
qed

end

end
