(* ===== verification/Saga_Correct.thy ===== *)
theory Saga_Correct
  imports Saga_Stock
begin

text \<open>
  The saga over any stock store, order store and event bus that keep their contracts: what a
  transition does, what a rollback does, and the outcome of a whole run.
\<close>

section \<open>Histories without their times\<close>

definition untimed :: "order \<Rightarrow> order" where
  "untimed od = od\<lparr>or_history := map (\<lambda>h. h\<lparr>ev_at := 0\<rparr>) (or_history od), or_updatedAt := 0\<rparr>"

type_synonym saga_step = "order_status \<times> string \<times> fields"

definition apply_step :: "(json \<Rightarrow> json) \<Rightarrow> saga_step \<Rightarrow> order \<Rightarrow> order" where
  "apply_step kept x = (case x of (status, type, detail) \<Rightarrow>
     with_event status \<lparr>ev_type = type, ev_at = 0, ev_detail = Some (kept (JObj detail))\<rparr> 0)"

definition announced :: "string \<Rightarrow> saga_step \<Rightarrow> string \<times> json \<times> string option" where
  "announced oid x = (case x of (status, type, detail) \<Rightarrow>
     (type, JObj (spread [(''orderId'', JStr oid)] detail), Some oid))"

lemma untimed_with_event:
  "untimed (with_event st (kept_event kept \<lparr>ev_type = ty, ev_at = a, ev_detail = Some (JObj det)\<rparr>) u od) =
     apply_step kept (st, ty, det) (untimed od)"
  by (simp add: untimed_def apply_step_def with_event_def kept_event_def)

lemma apply_step_fields [simp]:
  "or_id (apply_step kept x od) = or_id od" "or_lines (apply_step kept x od) = or_lines od"
  "or_amountCents (apply_step kept x od) = or_amountCents od" "or_businessId (apply_step kept x od) = or_businessId od"
  "or_customerId (apply_step kept x od) = or_customerId od" "or_status (apply_step kept x od) = fst x"
  by (simp_all add: apply_step_def with_event_def split: prod.splits)

lemma untimed_fields [simp]:
  "or_id (untimed od) = or_id od" "or_lines (untimed od) = or_lines od"
  "or_amountCents (untimed od) = or_amountCents od" "or_businessId (untimed od) = or_businessId od"
  "or_customerId (untimed od) = or_customerId od" "or_status (untimed od) = or_status od"
  by (simp_all add: untimed_def)

lemma fold_apply_step_status:
  "or_status (fold (apply_step kept) (ss @ [x]) od) = fst x"
  by simp

lemma step_types: "map ev_type (or_history (fold (apply_step kept) steps od)) =
    map ev_type (or_history od) @ map (\<lambda>x. fst (snd x)) steps"
  by (induction steps arbitrary: od) (simp_all add: apply_step_def with_event_def split: prod.splits)

lemma untimed_types: "map ev_type (or_history (untimed od)) = map ev_type (or_history od)"
  by (simp add: untimed_def comp_def)

lemma bind_date_now:
  "bind (date_now E) f w = f (env_now E (co_ticks w)) (w\<lparr>co_ticks := Suc (co_ticks w)\<rparr>)"
  by (simp add: bind_apply date_now_def)

lemma bind_on_store:
  "bind (on_store m) f w = (case m (w_store w) of
     (Inl e, st) \<Rightarrow> (Inl e, w\<lparr>w_store := st\<rparr>) | (Inr a, st) \<Rightarrow> f a (w\<lparr>w_store := st\<rparr>))"
  by (simp add: bind_apply on_store_def zoom_def split: prod.splits sum.splits)

section \<open>The steps of a run\<close>

definition reserved_step :: "reservation list \<Rightarrow> saga_step" where
  "reserved_step rs = (INVENTORY_RESERVED, ''order.inventory_reserved'',
     [(''reservations'', JArr (map reservation_json rs))])"

definition charged_step :: "string \<Rightarrow> saga_step" where
  "charged_step oid = (PAYMENT_CHARGED, ''order.payment_charged'', [(''paymentId'', JStr (payment_ticket oid))])"

definition scheduled_step :: "string \<Rightarrow> saga_step" where
  "scheduled_step oid =
     (SHIPPING_SCHEDULED, ''order.shipping_scheduled'', [(''shipmentId'', JStr (shipment_ticket oid))])"

definition confirmed_step :: saga_step where
  "confirmed_step = (CONFIRMED, ''order.confirmed'', [])"

definition rollback :: "string \<Rightarrow> fields \<Rightarrow> saga_step list" where
  "rollback reason det =
     [(COMPENSATING, ''order.compensating'', []),
      (CANCELLED, ''order.cancelled'', spread [(''reason'', JStr reason)] det)]"

definition stock_shortage :: "order_line \<Rightarrow> saga_step list" where
  "stock_shortage l = rollback ''INVENTORY_UNAVAILABLE''
     [(''sku'', JStr (ol_sku l)), (''warehouseId'', JStr (ol_warehouseId l))]"

definition declined_by :: "string \<Rightarrow> string \<Rightarrow> saga_step list" where
  "declined_by code reason = rollback code [(''reason'', JStr reason)]"

definition recovered_step :: "order_status \<Rightarrow> saga_step list" where
  "recovered_step previous = rollback ''RECOVERED_AFTER_RESTART''
     [(''previousStatus'', JStr (status_text previous))]"

definition counted :: "order_status \<Rightarrow> counter \<Rightarrow> counter" where
  "counted status c = (if status = CONFIRMED \<or> status = CANCELLED then inc [(''status'', status_text status)] c else c)"

text \<open>What a compensation does when the flag of its step is set.\<close>

definition undo_if :: "bool \<Rightarrow> ('s \<Rightarrow> 'a \<times> 's) \<Rightarrow> 's \<Rightarrow> 's" where
  "undo_if done f s = (if done then snd (f s) else s)"

text \<open>The run from the payment on, and from the shipment on.\<close>

definition ship_stage ::
  "('r, 'st, 'b) deps \<Rightarrow> string \<Rightarrow> order \<Rightarrow> reservation list \<Rightarrow> ('r, 'st, 'b, order) saga_act" where
  "ship_stage D orderId od reservations =
     bind (on_shipping (schedule (or_id od) (primaryWarehouse od))) (\<lambda>shipment.
       if \<not> sr_ok shipment then
         bind (compensate D (or_id od) reservations True False) (\<lambda>_.
         bind (fail D (or_id od) ''SHIPPING_FAILED'' [(''reason'', nullable (sr_reason shipment))]) (\<lambda>_.
         mustGet D orderId))
       else
         bind (transition D (or_id od) SHIPPING_SCHEDULED ''order.shipping_scheduled''
                 [(''shipmentId'', nullable (sr_shipmentId shipment))]) (\<lambda>_.
         bind (for_each (commit_reservation D) reservations) (\<lambda>_.
         bind (transition D (or_id od) CONFIRMED ''order.confirmed'' []) (\<lambda>_.
         mustGet D orderId))))"

definition pay_stage ::
  "('r, 'st, 'b) deps \<Rightarrow> string \<Rightarrow> order \<Rightarrow> reservation list \<Rightarrow> ('r, 'st, 'b, order) saga_act" where
  "pay_stage D orderId od reservations =
     bind (on_payments (charge (or_id od) (or_amountCents od))) (\<lambda>payment.
       if \<not> pr_ok payment then
         bind (compensate D (or_id od) reservations False False) (\<lambda>_.
         bind (fail D (or_id od) ''PAYMENT_FAILED'' [(''reason'', nullable (pr_reason payment))]) (\<lambda>_.
         mustGet D orderId))
       else
         bind (transition D (or_id od) PAYMENT_CHARGED ''order.payment_charged''
                 [(''paymentId'', nullable (pr_paymentId payment))]) (\<lambda>_.
         ship_stage D orderId od reservations))"

lemma run_stages:
  "run D orderId =
     bind (mustGet D orderId) (\<lambda>od.
     bind (reserve_loop D (or_lines od) []) (\<lambda>(failed, reservations).
     case failed of
       Some line \<Rightarrow>
         bind (compensate D (or_id od) reservations False False) (\<lambda>_.
         bind (fail D (or_id od) ''INVENTORY_UNAVAILABLE''
                 [(''sku'', JStr (ol_sku line)), (''warehouseId'', JStr (ol_warehouseId line))]) (\<lambda>_.
         mustGet D orderId))
     | None \<Rightarrow>
         bind (transition D (or_id od) INVENTORY_RESERVED ''order.inventory_reserved''
                 [(''reservations'', JArr (map reservation_json reservations))]) (\<lambda>_.
         pay_stage D orderId od reservations)))"
  by (simp only: run_def pay_stage_def ship_stage_def)

text \<open>
  What a run should come to, as a function of the stock levels and of what the participants
  decline: the steps the order takes, the levels, the charges and the shipments after it.
\<close>

datatype verdict = Short order_line | No_Payment | No_Courier | Done

fun verdict_steps :: "string \<Rightarrow> reservation list \<Rightarrow> verdict \<Rightarrow> saga_step list" where
  "verdict_steps oid rs (Short l) = stock_shortage l"
| "verdict_steps oid rs No_Payment = reserved_step rs # declined_by ''PAYMENT_FAILED'' ''CARD_DECLINED''"
| "verdict_steps oid rs No_Courier =
     reserved_step rs # charged_step oid # declined_by ''SHIPPING_FAILED'' ''NO_COURIER_AVAILABLE''"
| "verdict_steps oid rs Done = [reserved_step rs, charged_step oid, scheduled_step oid, confirmed_step]"

definition verdict_ok ::
  "(string \<Rightarrow> int option) \<Rightarrow> order \<Rightarrow> payment_gateway \<Rightarrow> shipping_provider \<Rightarrow> verdict \<Rightarrow> bool" where
  "verdict_ok L od g p v =
     (let pay = injected (failPaymentForOrderIds (pg_failures g)) (or_id od);
          ship = injected (failShippingForOrderIds (sp_failures p)) (or_id od) in
      case v of
        Short l \<Rightarrow> \<not> fulfillable L (or_lines od) \<and> l \<in> set (or_lines od)
      | No_Payment \<Rightarrow> fulfillable L (or_lines od) \<and> pay
      | No_Courier \<Rightarrow> fulfillable L (or_lines od) \<and> \<not> pay \<and> ship
      | Done \<Rightarrow> fulfillable L (or_lines od) \<and> \<not> pay \<and> \<not> ship)"

definition charges_after :: "string \<Rightarrow> verdict \<Rightarrow> (string \<rightharpoonup> string) \<Rightarrow> string \<rightharpoonup> string" where
  "charges_after oid v c =
     (if v = Done then c(oid \<mapsto> payment_ticket oid) else if v = No_Courier then c(oid := None) else c)"

definition shipments_after :: "string \<Rightarrow> verdict \<Rightarrow> (string \<rightharpoonup> string) \<Rightarrow> string \<rightharpoonup> string" where
  "shipments_after oid v c = (if v = Done then c(oid \<mapsto> shipment_ticket oid) else c)"

definition reserves :: "reservation list \<Rightarrow> order_line list \<Rightarrow> bool" where
  "reserves rs ls \<longleftrightarrow>
     map (\<lambda>r. (rv_warehouseId r, rv_sku r)) rs = map (\<lambda>l. (ol_warehouseId l, ol_sku l)) ls \<and>
     distinct (map rv_reservationId rs)"

lemma reserves_rsv: "separate \<rho> tk \<Longrightarrow> reserves (map rsv tk) (lines_of tk)"
proof -
  assume "separate \<rho> tk"
  moreover have "map rv_reservationId (map rsv tk) = ids tk" by (auto simp: rsv_def)
  moreover have "map (\<lambda>r. (rv_warehouseId r, rv_sku r)) (map rsv tk) =
      map (\<lambda>l. (ol_warehouseId l, ol_sku l)) (lines_of tk)" by (auto simp: rsv_def)
  ultimately show ?thesis unfolding reserves_def separate_def by presburger
qed

section \<open>The orchestrator over its contracts\<close>

locale saga = stock_redis R kv_of invar + order_store S orders_of ok valid_id valid_scope kept
    + event_bus_laws B bus_ok
  for R :: "'r redis_like" and kv_of invar and S :: "'st order_store" and orders_of ok valid_id valid_scope kept
    and B :: "'b event_bus" and bus_ok
begin

definition tracks :: "env \<Rightarrow> ('r, 'st, 'b) world \<Rightarrow> string \<Rightarrow> order \<Rightarrow> bool" where
  "tracks E w oid od \<longleftrightarrow> ok (w_store w) \<and> bus_ok (w_bus w) \<and> orders_of (w_store w) oid = Some od \<and>
     (\<forall>h \<in> set (or_history od). ev_at h \<le> env_now E (co_ticks w))"

definition announcements :: "('r, 'st, 'b) world \<Rightarrow> (string \<times> json \<times> string option) list" where
  "announcements w = map (\<lambda>e. (de_type e, de_payload e, de_key e)) (eb_history B ORDERS_TOPIC (w_bus w))"

text \<open>The order \<open>oid\<close> went through \<open>steps\<close>, each recorded in its history and published; no
  other order changed.\<close>

definition went ::
  "env \<Rightarrow> string \<Rightarrow> saga_step list \<Rightarrow> ('r, 'st, 'b) world \<Rightarrow> order \<Rightarrow> ('r, 'st, 'b) world \<Rightarrow> order \<Rightarrow> bool" where
  "went E oid steps w od w' od' \<longleftrightarrow> tracks E w' oid od' \<and>
     untimed od' = fold (apply_step kept) steps (untimed od) \<and>
     orders_of (w_store w') = (orders_of (w_store w))(oid \<mapsto> od') \<and>
     announcements w' = announcements w @ map (announced oid) steps"

lemma went_refl: "tracks E w oid od \<Longrightarrow> went E oid [] w od w od"
  by (simp add: went_def tracks_def fun_upd_idem)

lemma went_trans: "went E oid s1 w od w1 od1 \<Longrightarrow> went E oid s2 w1 od1 w2 od2 \<Longrightarrow>
    went E oid (s1 @ s2) w od w2 od2"
  by (simp add: went_def)

lemma went_same:
  assumes "went E oid s w od w1 od1" "clock_ok E" "w_store w2 = w_store w1" "w_bus w2 = w_bus w1"
    "co_ticks w1 \<le> co_ticks w2"
  shows "went E oid s w od w2 od1"
proof -
  have "env_now E (co_ticks w1) \<le> env_now E (co_ticks w2)" using assms by (simp add: clock_le)
  with assms show ?thesis by (force simp: went_def tracks_def announcements_def)
qed

lemma mustGet_run:
  "tracks E w oid od \<Longrightarrow> mustGet (SagaOrchestrator R S B E) oid w = (Inr od, w)"
  using id_law [of "w_store w" oid od]
  by (simp add: tracks_def mustGet_def bind_apply on_store_def zoom_apply get_law unscoped_law)

text \<open>What a transition leaves alone.\<close>

definition keeps :: "('r, 'st, 'b) world \<Rightarrow> ('r, 'st, 'b) world \<Rightarrow> bool" where
  "keeps w w' \<longleftrightarrow> w_payments w' = w_payments w \<and> w_shipping w' = w_shipping w \<and>
     co_redis w' = co_redis w \<and> co_uuids w' = co_uuids w"

lemma publish_saga_run:
  assumes "bus_ok (w_bus w)"
  shows "\<exists>w'. publish_saga (SagaOrchestrator R S B E) oid ty det w = (Inr (), w') \<and> bus_ok (w_bus w') \<and>
     announcements w' = announcements w @ [announced oid (st, ty, det)] \<and> keeps w w' \<and>
     w_store w' = w_store w \<and> co_ticks w' = Suc (co_ticks w) \<and> co_metrics w' = co_metrics w"
proof -
  let ?ev = "\<lparr>de_type = ty, de_payload = JObj (spread [(''orderId'', JStr oid)] det),
              de_at = env_now E (co_ticks w), de_key = Some oid\<rparr>"
  from publish_law [OF assms, of ORDERS_TOPIC ?ev] obtain b' where
    b': "eb_publish B ORDERS_TOPIC ?ev (w_bus w) = (Inr (), b')" "bus_ok b'"
      "eb_history B ORDERS_TOPIC b' = eb_history B ORDERS_TOPIC (w_bus w) @ [?ev]" by auto
  then show ?thesis
    by (simp add: publish_saga_def process_acts on_bus_def keeps_def announcements_def announced_def)
qed

lemma transition_run:
  assumes t: "tracks E w oid od" and clock: "clock_ok E"
  shows "\<exists>w' od'. transition (SagaOrchestrator R S B E) oid st ty det w = (Inr (), w') \<and>
     went E oid [(st, ty, det)] w od w' od' \<and> keeps w w' \<and> co_ticks w' = co_ticks w + 3 \<and>
     sagaOutcomes (co_metrics w') = counted st (sagaOutcomes (co_metrics w))"
proof -
  let ?D = "SagaOrchestrator R S B E"
  let ?a = "env_now E (co_ticks w)"
  let ?ev = "\<lparr>ev_type = ty, ev_at = ?a, ev_detail = Some (JObj det)\<rparr>"
  let ?n = "env_now E (Suc (co_ticks w))"
  from t have T: "ok (w_store w)" "bus_ok (w_bus w)" "orders_of (w_store w) oid = Some od"
    "\<forall>h \<in> set (or_history od). ev_at h \<le> ?a" by (simp_all add: tracks_def)
  have v: "valid_id oid" using id_law T by blast
  from update_law [OF T(1) v T(3), of ?ev st ?n] T(4) obtain st' u where
    up: "os_updateStatus S oid st ?ev ?n (w_store w) = (Inr (), st')" "ok st'"
      "orders_of st' = (orders_of (w_store w))(oid \<mapsto> with_event st (kept_event kept ?ev) u od)" by auto
  let ?od = "with_event st (kept_event kept ?ev) u od"
  let ?w1 = "w\<lparr>co_ticks := Suc (Suc (co_ticks w)), w_store := st'\<rparr>"
  have "bus_ok (w_bus ?w1)" using T(2) by simp
  from publish_saga_run [OF this, of E oid ty det st] obtain w2 where
    w2: "publish_saga ?D oid ty det ?w1 = (Inr (), w2)" "bus_ok (w_bus w2)"
      "announcements w2 = announcements ?w1 @ [announced oid (st, ty, det)]" "keeps ?w1 w2"
      "w_store w2 = w_store ?w1" "co_ticks w2 = Suc (co_ticks ?w1)" "co_metrics w2 = co_metrics ?w1" by blast
  let ?w3 = "w2\<lparr>co_metrics := (co_metrics w2)\<lparr>sagaOutcomes := counted st (sagaOutcomes (co_metrics w2))\<rparr>\<rparr>"
  have tick: "co_ticks w2 = co_ticks w + 3" using w2(6) by simp
  have le: "?a \<le> env_now E (co_ticks w + 3)" using clock by (simp add: clock_le)
  with T(4) have "\<forall>h \<in> set (or_history ?od). ev_at h \<le> env_now E (co_ticks w + 3)"
    by (auto simp: with_event_def)
  then have "went E oid [(st, ty, det)] w od ?w3 ?od"
    using up w2(2,3,5) tick by (simp add: went_def tracks_def untimed_with_event announcements_def)
  moreover have "transition ?D oid st ty det w = (Inr (), ?w3)"
  proof -
    have "transition ?D oid st ty det w =
        bind (publish_saga ?D oid ty det) (\<lambda>_. if st = CONFIRMED \<or> st = CANCELLED
          then on_metrics (\<lambda>m. m\<lparr>sagaOutcomes := inc [(''status'', status_text st)] (sagaOutcomes m)\<rparr>)
          else ret ()) ?w1"
      unfolding transition_def bind_date_now bind_on_store using up(1) by simp
    also have "\<dots> = (Inr (), ?w3)"
      unfolding bind_Inr [of "publish_saga ?D oid ty det", OF w2(1)] counted_def
      by (cases "st = CONFIRMED \<or> st = CANCELLED") (simp_all add: on_metrics_def)
    finally show ?thesis .
  qed
  moreover have "keeps w ?w3" using w2(4) by (simp add: keeps_def)
  ultimately show ?thesis
    using tick w2(7) by (intro exI [of _ ?w3] exI [of _ ?od]) simp
qed

text \<open>A rollback: the held reservations go back to stock, and what was done is undone.\<close>

lemma compensate_run:
  assumes t: "tracks E w oid od" and h: "holding E w L \<rho> tk tk" and sep: "separate \<rho> tk"
    and cover: "\<forall>x \<in> set tk. L (line_key (fst x)) \<noteq> None"
    and due: "due_after (env_now E (co_ticks w + 3 + length tk)) tk" and clock: "clock_ok E"
  shows "\<exists>w' od'. compensate (SagaOrchestrator R S B E) oid (map rsv tk) paid shipped w = (Inr (), w') \<and>
     went E oid [(COMPENSATING, ''order.compensating'', [])] w od w' od' \<and> holding E w' L \<rho> [] [] \<and>
     w_payments w' = undo_if paid (refund oid) (w_payments w) \<and>
     w_shipping w' = undo_if shipped (cancel oid) (w_shipping w) \<and>
     co_ticks w' = co_ticks w + 3 + length tk \<and>
     sagaOutcomes (co_metrics w') = sagaOutcomes (co_metrics w)"
proof -
  let ?D = "SagaOrchestrator R S B E"
  from transition_run [OF t clock, of COMPENSATING "''order.compensating''" "[]"] obtain w1 od1 where
    w1: "transition ?D oid COMPENSATING ''order.compensating'' [] w = (Inr (), w1)"
      "went E oid [(COMPENSATING, ''order.compensating'', [])] w od w1 od1" "keeps w w1"
      "co_ticks w1 = co_ticks w + 3" "sagaOutcomes (co_metrics w1) = counted COMPENSATING (sagaOutcomes (co_metrics w))"
    by blast
  let ?w2 = "w1\<lparr>w_shipping := undo_if shipped (cancel oid) (w_shipping w1),
                w_payments := undo_if paid (refund oid) (w_payments w1)\<rparr>"
  have "holding E ?w2 L \<rho> tk tk"
    using holding_tick [OF h clock, of ?w2] w1(3,4) by (simp add: keeps_def)
  from release_all_run [OF this sep cover _ clock, of ?D] due w1(4) obtain w3 where
    w3: "for_each (release_reservation ?D) (map rsv tk) ?w2 = (Inr (), w3)" "holding E w3 L \<rho> [] []"
      "same_rest ?w2 w3" "co_ticks w3 = co_ticks w + 3 + length tk" by auto
  have "compensate ?D oid (map rsv tk) paid shipped w = for_each (release_reservation ?D) (map rsv tk) ?w2"
    unfolding compensate_def bind_Inr [of "transition _ _ _ _ _", OF w1(1)]
    by (cases paid; cases shipped)
       (simp_all add: bind_apply on_shipping_def on_payments_def undo_if_def split: prod.splits)
  moreover have "went E oid [(COMPENSATING, ''order.compensating'', [])] w od w3 od1"
    using went_same [OF w1(2) clock, of w3] w3(3,4) w1(4) by (simp add: same_rest_def)
  ultimately show ?thesis
    using w3 w1(3,5) by (intro exI [of _ w3] exI [of _ od1]) (simp add: same_rest_def keeps_def counted_def)
qed

text \<open>The end of every failed order: cancelled, with the reason, and counted once.\<close>

lemma fail_run:
  assumes "tracks E w oid od" and "clock_ok E"
  shows "\<exists>w' od'. fail (SagaOrchestrator R S B E) oid reason det w = (Inr (), w') \<and>
     went E oid [(CANCELLED, ''order.cancelled'', spread [(''reason'', JStr reason)] det)] w od w' od' \<and>
     keeps w w' \<and> co_ticks w' = co_ticks w + 3 \<and>
     sagaOutcomes (co_metrics w') = inc [(''status'', ''CANCELLED'')] (sagaOutcomes (co_metrics w))"
  using transition_run [OF assms, of CANCELLED "''order.cancelled''"]
  by (simp add: fail_def counted_def)

lemma rollback_run:
  assumes t: "tracks E w oid od" and h: "holding E w L \<rho> tk tk" and sep: "separate \<rho> tk"
    and cover: "\<forall>x \<in> set tk. L (line_key (fst x)) \<noteq> None"
    and due: "due_after (env_now E (co_ticks w + 3 + length tk)) tk" and clock: "clock_ok E"
  shows "\<exists>w' od'. bind (compensate (SagaOrchestrator R S B E) oid (map rsv tk) paid shipped) (\<lambda>_.
        bind (fail (SagaOrchestrator R S B E) oid reason det) (\<lambda>_. mustGet (SagaOrchestrator R S B E) oid)) w
        = (Inr od', w') \<and>
     went E oid (rollback reason det) w od w' od' \<and> holding E w' L \<rho> [] [] \<and>
     w_payments w' = undo_if paid (refund oid) (w_payments w) \<and>
     w_shipping w' = undo_if shipped (cancel oid) (w_shipping w) \<and>
     sagaOutcomes (co_metrics w') = inc [(''status'', ''CANCELLED'')] (sagaOutcomes (co_metrics w))"
proof -
  let ?D = "SagaOrchestrator R S B E"
  from compensate_run [OF assms, of paid shipped] obtain w1 od1 where
    w1: "compensate ?D oid (map rsv tk) paid shipped w = (Inr (), w1)"
      "went E oid [(COMPENSATING, ''order.compensating'', [])] w od w1 od1" "holding E w1 L \<rho> [] []"
      "w_payments w1 = undo_if paid (refund oid) (w_payments w)"
      "w_shipping w1 = undo_if shipped (cancel oid) (w_shipping w)"
      "sagaOutcomes (co_metrics w1) = sagaOutcomes (co_metrics w)" by blast
  then have "tracks E w1 oid od1" by (simp add: went_def)
  from fail_run [OF this clock, of reason det] obtain w2 od2 where
    w2: "fail ?D oid reason det w1 = (Inr (), w2)"
      "went E oid [(CANCELLED, ''order.cancelled'', spread [(''reason'', JStr reason)] det)] w1 od1 w2 od2"
      "keeps w1 w2" "co_ticks w2 = co_ticks w1 + 3"
      "sagaOutcomes (co_metrics w2) = inc [(''status'', ''CANCELLED'')] (sagaOutcomes (co_metrics w1))" by blast
  have t2: "tracks E w2 oid od2" using w2(2) by (simp add: went_def)
  have "went E oid (rollback reason det) w od w2 od2"
    using went_trans [OF w1(2) w2(2)] by (simp add: rollback_def)
  moreover have "holding E w2 L \<rho> [] []"
    using holding_tick [OF w1(3) clock, of w2] w2(3,4) by (simp add: keeps_def)
  ultimately show ?thesis
    using w1(1,4,5,6) w2(1,3,5) mustGet_run [OF t2]
    by (intro exI [of _ w2] exI [of _ od2]) (simp add: bind_apply keeps_def)
qed

text \<open>From the shipment on: cancelled with the charge refunded, or confirmed.\<close>

lemma ship_stage_run:
  assumes t: "tracks E w oid od1" and od: "or_id od = oid" and h: "holding E w L \<rho> tk tk" and sep: "separate \<rho> tk"
    and cover: "\<forall>x \<in> set tk. L (line_key (fst x)) \<noteq> None"
    and due: "due_after (env_now E (co_ticks w + 3 + length tk)) tk" and clock: "clock_ok E"
  defines "declined \<equiv> injected (failShippingForOrderIds (sp_failures (w_shipping w))) oid"
  shows "\<exists>w' od'. ship_stage (SagaOrchestrator R S B E) oid od (map rsv tk) w = (Inr od', w') \<and>
     went E oid (if declined then declined_by ''SHIPPING_FAILED'' ''NO_COURIER_AVAILABLE''
                 else [scheduled_step oid, confirmed_step]) w od1 w' od' \<and>
     holding E w' (if declined then L else debit L (lines_of tk)) \<rho> [] [] \<and>
     charges (w_payments w') = (if declined then (charges (w_payments w))(oid := None) else charges (w_payments w)) \<and>
     shipments (w_shipping w') = (if declined then shipments (w_shipping w)
        else (shipments (w_shipping w))(oid \<mapsto> shipment_ticket oid)) \<and>
     sagaOutcomes (co_metrics w') =
       inc [(''status'', if declined then ''CANCELLED'' else ''CONFIRMED'')] (sagaOutcomes (co_metrics w))"
proof -
  let ?D = "SagaOrchestrator R S B E"
  show ?thesis
  proof (rule schedule_cases [of "w_shipping w" oid "primaryWarehouse od"])
    assume c: "injected (failShippingForOrderIds (sp_failures (w_shipping w))) oid"
      and s: "schedule oid (primaryWarehouse od) (w_shipping w) =
        (\<lparr>sr_ok = False, sr_shipmentId = None, sr_reason = Some ''NO_COURIER_AVAILABLE''\<rparr>, w_shipping w)"
    have "ship_stage ?D oid od (map rsv tk) w =
       bind (compensate ?D oid (map rsv tk) True False) (\<lambda>_.
         bind (fail ?D oid ''SHIPPING_FAILED'' [(''reason'', JStr ''NO_COURIER_AVAILABLE'')]) (\<lambda>_. mustGet ?D oid)) w"
      using s od by (simp add: ship_stage_def bind_apply [of "on_shipping _"] on_shipping_def nullable_def)
    with rollback_run [OF t h sep cover due clock, of True False "''SHIPPING_FAILED''"
        "[(''reason'', JStr ''NO_COURIER_AVAILABLE'')]"] c
    show ?thesis by (auto simp: declined_def declined_by_def undo_if_def refund_charges)
  next
    fix p' assume c: "\<not> injected (failShippingForOrderIds (sp_failures (w_shipping w))) oid"
      and s: "schedule oid (primaryWarehouse od) (w_shipping w) =
        (\<lparr>sr_ok = True, sr_shipmentId = Some (shipment_ticket oid), sr_reason = None\<rparr>, p')"
      and p': "shipments p' = (shipments (w_shipping w))(oid \<mapsto> shipment_ticket oid)"
    let ?w1 = "w\<lparr>w_shipping := p'\<rparr>"
    have "tracks E ?w1 oid od1" using t by (simp add: tracks_def)
    from transition_run [OF this clock, of SHIPPING_SCHEDULED "''order.shipping_scheduled''"
        "[(''shipmentId'', JStr (shipment_ticket oid))]"] obtain w2 od2 where
      w2: "transition ?D oid SHIPPING_SCHEDULED ''order.shipping_scheduled''
             [(''shipmentId'', JStr (shipment_ticket oid))] ?w1 = (Inr (), w2)"
        "went E oid [scheduled_step oid] ?w1 od1 w2 od2" "keeps ?w1 w2" "co_ticks w2 = co_ticks ?w1 + 3"
        "sagaOutcomes (co_metrics w2) = counted SHIPPING_SCHEDULED (sagaOutcomes (co_metrics ?w1))"
      unfolding scheduled_step_def by blast
    have "holding E w2 L \<rho> tk tk"
      using holding_tick [OF h clock, of w2] w2(3,4) by (simp add: keeps_def)
    from commit_all_run [OF this sep _ clock, of ?D] due w2(4) obtain w3 where
      w3: "for_each (commit_reservation ?D) (map rsv tk) w2 = (Inr (), w3)" "holding E w3 L \<rho> tk []"
        "same_rest w2 w3" "co_ticks w3 = co_ticks w2 + length tk" by auto
    have g3: "went E oid [scheduled_step oid] ?w1 od1 w3 od2"
      using went_same [OF w2(2) clock, of w3] w3(3,4) by (simp add: same_rest_def)
    then have "tracks E w3 oid od2" by (simp add: went_def)
    from transition_run [OF this clock, of CONFIRMED "''order.confirmed''" "[]"] obtain w4 od4 where
      w4: "transition ?D oid CONFIRMED ''order.confirmed'' [] w3 = (Inr (), w4)"
        "went E oid [confirmed_step] w3 od2 w4 od4" "keeps w3 w4" "co_ticks w4 = co_ticks w3 + 3"
        "sagaOutcomes (co_metrics w4) = counted CONFIRMED (sagaOutcomes (co_metrics w3))"
      unfolding confirmed_step_def by blast
    have t4: "tracks E w4 oid od4" using w4(2) by (simp add: went_def)
    have "ship_stage ?D oid od (map rsv tk) w = (Inr od4, w4)"
      using s od w2(1) w3(1) w4(1) mustGet_run [OF t4]
      by (simp add: ship_stage_def bind_apply on_shipping_def nullable_def)
    moreover have "went E oid [scheduled_step oid, confirmed_step] ?w1 od1 w4 od4"
      using went_trans [OF g3 w4(2)] by simp
    moreover have "holding E w4 L \<rho> tk []"
      using holding_tick [OF w3(2) clock, of w4] w4(3,4) by (simp add: keeps_def)
    ultimately show ?thesis
      using c p' w2(3,5) w3(3) w4(3,5)
      by (auto simp: declined_def keeps_def same_rest_def holding_def counted_def went_def announcements_def)
  qed
qed

lemma pay_stage_run:
  assumes t: "tracks E w oid od1" and od: "or_id od = oid" and h: "holding E w L \<rho> tk tk" and sep: "separate \<rho> tk"
    and full: "fulfillable L (lines_of tk)" and lns: "lines_of tk = or_lines od"
    and due: "due_after (env_now E (co_ticks w + 6 + length tk)) tk" and clock: "clock_ok E"
  shows "\<exists>w' od' v. pay_stage (SagaOrchestrator R S B E) oid od (map rsv tk) w = (Inr od', w') \<and>
     verdict_ok L od (w_payments w) (w_shipping w) v \<and>
     went E oid (tl (verdict_steps oid (map rsv tk) v)) w od1 w' od' \<and>
     holding E w' (if v = Done then debit L (or_lines od) else L) \<rho> [] [] \<and>
     charges (w_payments w') = charges_after oid v (charges (w_payments w)) \<and>
     shipments (w_shipping w') = shipments_after oid v (shipments (w_shipping w)) \<and>
     sagaOutcomes (co_metrics w') =
       inc [(''status'', if v = Done then ''CONFIRMED'' else ''CANCELLED'')] (sagaOutcomes (co_metrics w))"
proof -
  let ?D = "SagaOrchestrator R S B E"
  have cover: "\<forall>x \<in> set tk. L (line_key (fst x)) \<noteq> None" using full by (auto simp: fulfillable_iff)
  show ?thesis
  proof (rule charge_cases [of "w_payments w" oid "or_amountCents od"])
    assume c: "injected (failPaymentForOrderIds (pg_failures (w_payments w))) oid"
      and s: "charge oid (or_amountCents od) (w_payments w) =
        (\<lparr>pr_ok = False, pr_paymentId = None, pr_reason = Some ''CARD_DECLINED''\<rparr>, w_payments w)"
    have "pay_stage ?D oid od (map rsv tk) w =
       bind (compensate ?D oid (map rsv tk) False False) (\<lambda>_.
         bind (fail ?D oid ''PAYMENT_FAILED'' [(''reason'', JStr ''CARD_DECLINED'')]) (\<lambda>_. mustGet ?D oid)) w"
      using s od by (simp add: pay_stage_def bind_apply [of "on_payments _"] on_payments_def nullable_def)
    moreover have "due_after (env_now E (co_ticks w + 3 + length tk)) tk"
      using due by (rule due_after_earlier) (simp add: clock clock_le)
    moreover have "verdict_ok L od (w_payments w) (w_shipping w) No_Payment"
      using full lns c od by (simp add: verdict_ok_def)
    ultimately show ?thesis
      using rollback_run [OF t h sep cover _ clock, of False False "''PAYMENT_FAILED''"
        "[(''reason'', JStr ''CARD_DECLINED'')]"]
      by (fastforce intro!: exI [of _ No_Payment] simp: declined_by_def undo_if_def charges_after_def shipments_after_def)
  next
    fix g' assume c: "\<not> injected (failPaymentForOrderIds (pg_failures (w_payments w))) oid"
      and s: "charge oid (or_amountCents od) (w_payments w) =
        (\<lparr>pr_ok = True, pr_paymentId = Some (payment_ticket oid), pr_reason = None\<rparr>, g')"
      and g': "charges g' = (charges (w_payments w))(oid \<mapsto> payment_ticket oid)"
    let ?w1 = "w\<lparr>w_payments := g'\<rparr>"
    let ?v = "if injected (failShippingForOrderIds (sp_failures (w_shipping w))) oid then No_Courier else Done"
    have "tracks E ?w1 oid od1" using t by (simp add: tracks_def)
    from transition_run [OF this clock, of PAYMENT_CHARGED "''order.payment_charged''"
        "[(''paymentId'', JStr (payment_ticket oid))]"] obtain w2 od2 where
      w2: "transition ?D oid PAYMENT_CHARGED ''order.payment_charged''
             [(''paymentId'', JStr (payment_ticket oid))] ?w1 = (Inr (), w2)"
        "went E oid [charged_step oid] ?w1 od1 w2 od2" "keeps ?w1 w2" "co_ticks w2 = co_ticks ?w1 + 3"
        "sagaOutcomes (co_metrics w2) = counted PAYMENT_CHARGED (sagaOutcomes (co_metrics ?w1))"
      unfolding charged_step_def by blast
    have h2: "holding E w2 L \<rho> tk tk"
      using holding_tick [OF h clock, of w2] w2(3,4) by (simp add: keeps_def)
    have t2: "tracks E w2 oid od2" using w2(2) by (simp add: went_def)
    have due2: "due_after (env_now E (co_ticks w2 + 3 + length tk)) tk" using due w2(4) by (simp add: add.commute)
    from ship_stage_run [OF t2 od h2 sep cover due2 clock] obtain w3 od3 where
      w3: "ship_stage ?D oid od (map rsv tk) w2 = (Inr od3, w3)"
        "went E oid (if ?v = No_Courier then declined_by ''SHIPPING_FAILED'' ''NO_COURIER_AVAILABLE''
                 else [scheduled_step oid, confirmed_step]) w2 od2 w3 od3"
        "holding E w3 (if ?v = No_Courier then L else debit L (or_lines od)) \<rho> [] []"
        "charges (w_payments w3) = (if ?v = No_Courier then (charges (w_payments w2))(oid := None) else charges (w_payments w2))"
        "shipments (w_shipping w3) = (if ?v = No_Courier then shipments (w_shipping w2)
          else (shipments (w_shipping w2))(oid \<mapsto> shipment_ticket oid))"
        "sagaOutcomes (co_metrics w3) =
          inc [(''status'', if ?v = No_Courier then ''CANCELLED'' else ''CONFIRMED'')] (sagaOutcomes (co_metrics w2))"
      using w2(3) lns by (auto simp: keeps_def split: if_splits)
    have "pay_stage ?D oid od (map rsv tk) w = (Inr od3, w3)"
      using s od w2(1) w3(1) by (simp add: pay_stage_def bind_apply on_payments_def nullable_def)
    moreover have "verdict_ok L od (w_payments w) (w_shipping w) ?v"
      using full lns c od by (simp add: verdict_ok_def)
    moreover have "went E oid (tl (verdict_steps oid (map rsv tk) ?v)) w od1 w3 od3"
      using went_trans [OF w2(2) w3(2)] by (auto simp: went_def announcements_def)
    ultimately show ?thesis
      using w3 w2(3,5) g'
      by (intro exI [of _ w3] exI [of _ od3] exI [of _ ?v])
         (auto simp: keeps_def counted_def charges_after_def shipments_after_def)
  qed
qed

text \<open>The outcome of a whole run.\<close>

theorem run_outcome:
  assumes t: "tracks E w oid od" and h: "holding E w L \<rho> [] []"
    and fresh: "fresh_ids E (co_uuids w) (dom \<rho>)" and clock: "clock_ok E"
    and window: "env_now E (co_ticks w + 4 * length (or_lines od) + 9) < env_now E (co_ticks w) + 900000"
  shows "\<exists>w' od' v rs. run (SagaOrchestrator R S B E) oid w = (Inr od', w') \<and>
     verdict_ok L od (w_payments w) (w_shipping w) v \<and>
     (fulfillable L (or_lines od) \<longrightarrow> reserves rs (or_lines od)) \<and>
     went E oid (verdict_steps oid rs v) w od w' od' \<and>
     holding E w' (if v = Done then debit L (or_lines od) else L) \<rho> [] [] \<and>
     charges (w_payments w') = charges_after oid v (charges (w_payments w)) \<and>
     shipments (w_shipping w') = shipments_after oid v (shipments (w_shipping w)) \<and>
     sagaOutcomes (co_metrics w') =
       inc [(''status'', if v = Done then ''CONFIRMED'' else ''CANCELLED'')] (sagaOutcomes (co_metrics w))"
proof -
  let ?D = "SagaOrchestrator R S B E"
  let ?n = "length (or_lines od)" and ?T = "env_now E (co_ticks w + 4 * length (or_lines od) + 9)"
  have oid: "or_id od = oid" using t by (auto simp: tracks_def dest: id_law)
  have "separate \<rho> []" "fulfillable L (lines_of [])" "fresh_ids E (co_uuids w) (dom \<rho> \<union> set (ids []))"
    "due_after ?T []" "dp_redis ?D = R" "dp_env ?D = E"
    using fresh by (simp_all add: separate_def due_after_def)
  from reserve_loop_run [OF h this(1-4) window clock this(5,6), of "or_lines od", unfolded list.map append_Nil list.size add_0]
  obtain f tk w1 where
    w1: "reserve_loop ?D (or_lines od) [] w = (Inr (f, map rsv tk), w1)"
      "holding E w1 L \<rho> tk tk" "separate \<rho> tk" "fulfillable L (lines_of tk)" "due_after ?T tk" "same_rest w w1"
      "co_ticks w \<le> co_ticks w1" "co_ticks w1 \<le> co_ticks w + 3 * ?n" "length tk \<le> ?n"
    and f: "case f of None \<Rightarrow> lines_of tk = or_lines od
      | Some l \<Rightarrow> l \<in> set (or_lines od) \<and> \<not> fulfillable L (or_lines od)" by blast
  have cover: "\<forall>x \<in> set tk. L (line_key (fst x)) \<noteq> None" using w1(4) by (auto simp: fulfillable_iff)
  have "went E oid [] w od w1 od"
    using went_same [OF went_refl [OF t] clock, of w1] w1(6,7) by (simp add: same_rest_def)
  note g1 = this
  then have t1: "tracks E w1 oid od" by (simp add: went_def)
  have same: "w_payments w1 = w_payments w" "w_shipping w1 = w_shipping w"
    "sagaOutcomes (co_metrics w1) = sagaOutcomes (co_metrics w)" using w1(6) by (simp_all add: same_rest_def)
  have due: "due_after (env_now E (co_ticks w1 + 9 + length tk)) tk"
    using w1(5) by (rule due_after_earlier) (use w1(8,9) clock in \<open>simp add: clock_le\<close>)
  show ?thesis
  proof (cases f)
    case (Some l)
    have "due_after (env_now E (co_ticks w1 + 3 + length tk)) tk"
      using due by (rule due_after_earlier) (simp add: clock clock_le)
    from rollback_run [OF t1 w1(2,3) cover this clock, of False False "''INVENTORY_UNAVAILABLE''"
        "[(''sku'', JStr (ol_sku l)), (''warehouseId'', JStr (ol_warehouseId l))]"] obtain w2 od2 where
      w2: "bind (compensate ?D oid (map rsv tk) False False) (\<lambda>_.
           bind (fail ?D oid ''INVENTORY_UNAVAILABLE''
             [(''sku'', JStr (ol_sku l)), (''warehouseId'', JStr (ol_warehouseId l))]) (\<lambda>_. mustGet ?D oid)) w1 = (Inr od2, w2)"
        "went E oid (stock_shortage l) w1 od w2 od2" "holding E w2 L \<rho> [] []"
        "w_payments w2 = w_payments w1" "w_shipping w2 = w_shipping w1"
        "sagaOutcomes (co_metrics w2) = inc [(''status'', ''CANCELLED'')] (sagaOutcomes (co_metrics w1))"
      unfolding stock_shortage_def by (auto simp: undo_if_def)
    have "run ?D oid w = (Inr od2, w2)"
      unfolding run_stages bind_Inr [of "mustGet _ _", OF mustGet_run [OF t]] bind_Inr [of "reserve_loop _ _ _", OF w1(1)]
      using w2(1) Some oid by simp
    moreover have "verdict_ok L od (w_payments w) (w_shipping w) (Short l)"
      using f Some by (simp add: verdict_ok_def)
    ultimately show ?thesis
      using w2 same went_trans [OF g1 w2(2)] f Some
      by (intro exI [of _ w2] exI [of _ od2] exI [of _ "Short l"] exI [of _ "[]"])
         (simp add: charges_after_def shipments_after_def)
  next
    case None
    with f have lns: "lines_of tk = or_lines od" by simp
    from transition_run [OF t1 clock, of INVENTORY_RESERVED "''order.inventory_reserved''"
        "[(''reservations'', JArr (map reservation_json (map rsv tk)))]"] obtain w2 od2 where
      w2: "transition ?D oid INVENTORY_RESERVED ''order.inventory_reserved''
             [(''reservations'', JArr (map reservation_json (map rsv tk)))] w1 = (Inr (), w2)"
        "went E oid [reserved_step (map rsv tk)] w1 od w2 od2" "keeps w1 w2" "co_ticks w2 = co_ticks w1 + 3"
        "sagaOutcomes (co_metrics w2) = counted INVENTORY_RESERVED (sagaOutcomes (co_metrics w1))"
      unfolding reserved_step_def by blast
    have h2: "holding E w2 L \<rho> tk tk"
      using holding_tick [OF w1(2) clock, of w2] w2(3,4) by (simp add: keeps_def)
    have t2: "tracks E w2 oid od2" using w2(2) by (simp add: went_def)
    have due2: "due_after (env_now E (co_ticks w2 + 6 + length tk)) tk" using due w2(4) by (simp add: add.commute)
    have same2: "w_payments w2 = w_payments w" "w_shipping w2 = w_shipping w"
      "sagaOutcomes (co_metrics w2) = sagaOutcomes (co_metrics w)"
      using w2(3,5) same by (simp_all add: keeps_def counted_def)
    from pay_stage_run [OF t2 oid h2 w1(3,4) lns due2 clock] obtain w3 od3 v where
      w3: "pay_stage ?D oid od (map rsv tk) w2 = (Inr od3, w3)"
        "verdict_ok L od (w_payments w) (w_shipping w) v"
        "went E oid (tl (verdict_steps oid (map rsv tk) v)) w2 od2 w3 od3"
        "holding E w3 (if v = Done then debit L (or_lines od) else L) \<rho> [] []"
        "charges (w_payments w3) = charges_after oid v (charges (w_payments w))"
        "shipments (w_shipping w3) = shipments_after oid v (shipments (w_shipping w))"
        "sagaOutcomes (co_metrics w3) =
            inc [(''status'', if v = Done then ''CONFIRMED'' else ''CANCELLED'')] (sagaOutcomes (co_metrics w))"
      unfolding same2 by blast
    have run: "run ?D oid w = (Inr od3, w3)"
      unfolding run_stages bind_Inr [of "mustGet _ _", OF mustGet_run [OF t]] bind_Inr [of "reserve_loop _ _ _", OF w1(1)]
      using w2(1) w3(1) None oid by (simp add: bind_apply)
    have "reserved_step (map rsv tk) # tl (verdict_steps oid (map rsv tk) v) = verdict_steps oid (map rsv tk) v"
      using w3(2) w1(4) lns by (cases v) (auto simp: verdict_ok_def)
    then have "went E oid (verdict_steps oid (map rsv tk) v) w od w3 od3"
      using went_trans [OF g1 went_trans [OF w2(2) w3(3)]] by simp
    with run w3(2,4-7) reserves_rsv [OF w1(3)] lns show ?thesis
      by (intro exI [of _ w3] exI [of _ od3] exI [of _ v] exI [of _ "map rsv tk"]) simp
  qed
qed

end

end
