(* ===== verification/Saga_Recovery.thy ===== *)
theory Saga_Recovery
  imports Saga_Correct
begin

text \<open>
  Recovery after a crash: rolling one stuck order back from any partial progress that its
  history records, and the startup sweep over all stuck orders.
\<close>

context stock_redis
begin

text \<open>
  Releasing a list of reservations of which only some are still held: the held ones go back to
  stock, the others change nothing. This is what makes a rollback repeatable.
\<close>

lemma release_spent_run:
  assumes h: "holding E w L \<rho> pl pl" and free: "i \<notin> set (ids pl)" "i \<notin> dom \<rho>"
    and clock: "clock_ok E" and D: "dp_redis D = R" "dp_env D = E"
  shows "\<exists>w'. release_reservation D (rsv (l, i, d)) w = (Inr (), w') \<and> holding E w' L \<rho> pl pl \<and>
     same_rest w w' \<and> co_ticks w' = Suc (co_ticks w)"
proof -
  let ?now = "env_now E (co_ticks w)" and ?w = "ol_warehouseId l" and ?s = "ol_sku l"
  let ?m = "kv_of (co_redis w)"
  let ?sp = "spec_resolve ?now (stockKey ?w ?s) (reservationKey i) ''RELEASE'' ?m"
  from resolve_run [of w E ?w ?s i "''RELEASE''"] h obtain r' where
    run: "resolve R E ?w ?s i ''RELEASE'' w = (map_sum id fst (fst ?sp), w\<lparr>co_redis := r', co_ticks := Suc (co_ticks w)\<rparr>)"
    and r': "invar r'" "kv_eq ?now (kv_of r') (snd ?sp)"
    unfolding holding_def by blast
  have r: "repr ?now (debit L (lines_of pl)) (pledge \<rho> pl) ?m" using h by (simp add: holding_def)
  have "pledge \<rho> pl i = None" unfolding pledge_out [OF free(1)] using free(2) by (simp only: domIff not_not)
  then have "lookup ?now ?m (reservationKey i) = None" using repr_pledge [OF r] by (simp add: lookup_def)
  then have sp: "?sp = (Inr (''ALREADY_RESOLVED'', Num 0), ?m)" by (simp add: spec_resolve_def)
  from r r'(2) have "repr ?now (debit L (lines_of pl)) (pledge \<rho> pl) (kv_of r')" unfolding sp by (auto intro: repr_eq)
  then have "holding E (w\<lparr>co_redis := r', co_ticks := Suc (co_ticks w)\<rparr>) L \<rho> pl pl"
    using r'(1) clock_le [OF clock, of "co_ticks w" "Suc (co_ticks w)"] by (auto simp: holding_def elim: repr_later)
  then show ?thesis
    using run sp D
    by (auto simp: release_reservation_def release_def rsv_def bind_apply same_rest_def)
qed

lemma separate_filter: "separate \<rho> tk \<Longrightarrow> separate \<rho> (filter P tk)"
  by (auto simp: separate_def distinct_map inj_on_def)

lemma release_some_run:
  assumes "holding E w L \<rho> (filter P tk) (filter P tk)" and "separate \<rho> tk"
    and "\<forall>x \<in> set tk. P x \<longrightarrow> L (line_key (fst x)) \<noteq> None"
    and "due_after (env_now E (co_ticks w + length tk)) (filter P tk)"
    and clock: "clock_ok E" and D: "dp_redis D = R" "dp_env D = E"
  shows "\<exists>w'. for_each (release_reservation D) (map rsv tk) w = (Inr (), w') \<and> holding E w' L \<rho> [] [] \<and>
     same_rest w w' \<and> co_ticks w' = co_ticks w + length tk"
  using assms(1-4)
proof (induction tk arbitrary: w)
  case Nil
  then show ?case by simp
next
  case (Cons x tk)
  obtain l i d where x: "x = (l, i, d)" by (cases x)
  have sep: "separate \<rho> (x # filter P tk)"
    using separate_filter [OF Cons.prems(2), of "\<lambda>y. y = x \<or> P y"] Cons.prems(2)
    by (auto simp: separate_def distinct_map inj_on_def)
  have "\<exists>w1. release_reservation D (rsv x) w = (Inr (), w1) \<and> holding E w1 L \<rho> (filter P tk) (filter P tk) \<and>
     same_rest w w1 \<and> co_ticks w1 = Suc (co_ticks w)"
  proof (cases "P x")
    case True
    have "due_after (env_now E (co_ticks w + length (x # tk))) [x]"
      using Cons.prems(4) True by (simp add: due_after_def)
    then have due: "due_after (env_now E (co_ticks w)) [x]"
      by (rule due_after_earlier) (simp add: clock clock_le)
    show ?thesis
      using release_reservation_run [OF _ sep _ due clock D, of L] Cons.prems(1,3) True by auto
  next
    case False
    have "i \<notin> set (ids (filter P tk))" "i \<notin> dom \<rho>" using sep x by (auto simp: separate_def)
    then show ?thesis
      using release_spent_run [OF _ _ _ clock D, of w L \<rho> "filter P tk" i l d] Cons.prems(1) False x by simp
  qed
  then obtain w1 where w1: "release_reservation D (rsv x) w = (Inr (), w1)"
    "holding E w1 L \<rho> (filter P tk) (filter P tk)" "same_rest w w1" "co_ticks w1 = Suc (co_ticks w)" by blast
  have "due_after (env_now E (co_ticks w1 + length tk)) (filter P tk)"
    using Cons.prems(4) w1(4) by (simp add: due_after_def split: if_splits)
  with Cons.IH [OF w1(2) separate_tl [OF Cons.prems(2)]] Cons.prems(3) obtain w2 where
    "for_each (release_reservation D) (map rsv tk) w1 = (Inr (), w2)" "holding E w2 L \<rho> [] []"
    "same_rest w1 w2" "co_ticks w2 = co_ticks w1 + length tk" by auto
  with w1 show ?case by (auto simp: bind_apply intro: same_rest_trans)
qed

text \<open>Whatever was recorded, a release does not fail and touches nothing but the stock store.\<close>

lemma release_any_run:
  assumes "invar (co_redis w)" and D: "dp_redis D = R" "dp_env D = E"
  shows "\<exists>w'. for_each (release_reservation D) rs w = (Inr (), w') \<and> invar (co_redis w') \<and>
     same_rest w w' \<and> co_ticks w' = co_ticks w + length rs"
  using assms(1)
proof (induction rs arbitrary: w)
  case Nil
  then show ?case by simp
next
  case (Cons r rs)
  let ?now = "env_now E (co_ticks w)"
  let ?sp = "spec_resolve ?now (stockKey (rv_warehouseId r) (rv_sku r)) (reservationKey (rv_reservationId r))
     ''RELEASE'' (kv_of (co_redis w))"
  from resolve_run [OF Cons.prems, of E "rv_warehouseId r" "rv_sku r" "rv_reservationId r" "''RELEASE''"] obtain r' where
    r': "resolve R E (rv_warehouseId r) (rv_sku r) (rv_reservationId r) ''RELEASE'' w =
      (map_sum id fst (fst ?sp), w\<lparr>co_redis := r', co_ticks := Suc (co_ticks w)\<rparr>)" "invar r'" by blast
  have "\<exists>x. fst ?sp = Inr x" by (simp add: spec_resolve_reply split: option.splits)
  then obtain x where "fst ?sp = Inr x" ..
  with r'(1) have one: "release_reservation D r w = (Inr (), w\<lparr>co_redis := r', co_ticks := Suc (co_ticks w)\<rparr>)"
    by (simp add: release_reservation_def release_def bind_apply D)
  from Cons.IH [of "w\<lparr>co_redis := r', co_ticks := Suc (co_ticks w)\<rparr>"] r'(2) one show ?case
    by (auto simp: bind_apply same_rest_def)
qed

end

context saga
begin

text \<open>The rollback of any non-terminal order ends with it cancelled, whatever its state.\<close>

lemma recoverStuck_terminal:
  "isTerminalStatus (or_status (os_deref S od (w_store w))) \<Longrightarrow>
     recoverStuck (SagaOrchestrator R S B E) od w = (Inr (os_deref S od (w_store w)), w)"
  by (simp add: recoverStuck_def)

text \<open>
  What follows the release loop, once it is known where it leads; \<open>previous\<close> is the status read
  after the transition to \<open>COMPENSATING\<close>, so it depends on whether the order object is shared
  with the store.
\<close>

definition undone_rest :: "string \<Rightarrow> bool \<Rightarrow> bool \<Rightarrow> ('r, 'st, 'b) world \<Rightarrow> ('r, 'st, 'b) world \<Rightarrow> bool" where
  "undone_rest oid paid shipped w w' \<longleftrightarrow>
     w_payments w' = undo_if paid (refund oid) (w_payments w) \<and>
     w_shipping w' = undo_if shipped (cancel oid) (w_shipping w) \<and>
     sagaOutcomes (co_metrics w') = inc [(''status'', ''CANCELLED'')] (sagaOutcomes (co_metrics w))"

lemma recoverStuck_run:
  assumes t: "tracks E w oid od" and unfin: "\<not> isTerminalStatus (or_status od)" and clock: "clock_ok E"
    and loop: "\<forall>w1. co_redis w1 = co_redis w \<and> co_ticks w1 = co_ticks w + 3 \<longrightarrow>
       (\<exists>w2. for_each (release_reservation (SagaOrchestrator R S B E)) (reservationsFromHistory od) w1 = (Inr (), w2) \<and>
         P w2 \<and> same_rest w1 w2 \<and> co_ticks w1 \<le> co_ticks w2 \<and>
         co_ticks w2 \<le> co_ticks w1 + length (reservationsFromHistory od))"
    and stays: "\<forall>w2 w3. P w2 \<and> co_redis w3 = co_redis w2 \<and> co_ticks w2 \<le> co_ticks w3 \<longrightarrow> P w3"
  shows "\<exists>w' od' previous. recoverStuck (SagaOrchestrator R S B E) od w = (Inr od', w') \<and>
     previous \<in> {or_status od, COMPENSATING} \<and>
     went E oid (recovered_step previous) w od w' od' \<and> P w' \<and> co_ticks w \<le> co_ticks w' \<and>
     co_ticks w' \<le> co_ticks w + length (reservationsFromHistory od) + 6 \<and>
     undone_rest oid (has_event ''order.payment_charged'' od) (has_event ''order.shipping_scheduled'' od) w w'"
proof -
  let ?D = "SagaOrchestrator R S B E"
  let ?paid = "has_event ''order.payment_charged'' od" and ?shipped = "has_event ''order.shipping_scheduled'' od"
  have oid: "or_id od = oid" using t by (auto simp: tracks_def dest: id_law)
  have cur: "os_deref S od (w_store w) = od"
    using deref_law [of "w_store w" od od] t oid by (auto simp: tracks_def)
  from transition_run [OF t clock, of COMPENSATING "''order.compensating''" "[]"] obtain w1 od1 where
    w1: "transition ?D oid COMPENSATING ''order.compensating'' [] w = (Inr (), w1)"
      "went E oid [(COMPENSATING, ''order.compensating'', [])] w od w1 od1" "keeps w w1"
      "co_ticks w1 = co_ticks w + 3" "sagaOutcomes (co_metrics w1) = counted COMPENSATING (sagaOutcomes (co_metrics w))"
    by blast
  let ?w2 = "w1\<lparr>w_shipping := undo_if ?shipped (cancel oid) (w_shipping w1),
                w_payments := undo_if ?paid (refund oid) (w_payments w1)\<rparr>"
  have "co_redis ?w2 = co_redis w" "co_ticks ?w2 = co_ticks w + 3" using w1(3,4) by (simp_all add: keeps_def)
  with loop obtain w3 where
    w3: "for_each (release_reservation ?D) (reservationsFromHistory od) ?w2 = (Inr (), w3)" "P w3"
      "same_rest ?w2 w3" "co_ticks ?w2 \<le> co_ticks w3"
      "co_ticks w3 \<le> co_ticks ?w2 + length (reservationsFromHistory od)" by blast
  have comp: "compensate ?D oid (reservationsFromHistory od) ?paid ?shipped w = (Inr (), w3)"
    unfolding compensate_def bind_Inr [of "transition _ _ _ _ _", OF w1(1)]
    using w3(1) by (cases ?paid; cases ?shipped)
       (simp_all add: bind_apply on_shipping_def on_payments_def undo_if_def case_prod_unfold)
  have g3: "went E oid [(COMPENSATING, ''order.compensating'', [])] w od w3 od1"
    using went_same [OF w1(2) clock, of w3] w3(3,4) by (simp add: same_rest_def)
  then have t3: "tracks E w3 oid od1" by (simp add: went_def)
  have "or_status (untimed od1) = COMPENSATING" using w1(2) by (simp add: went_def)
  then have st1: "or_status od1 = COMPENSATING" by simp
  let ?prev = "or_status (os_deref S od (w_store w3))"
  have prev: "?prev \<in> {or_status od, COMPENSATING}"
    using deref_law [of "w_store w3" od od1] t3 oid st1 by (auto simp: tracks_def)
  from fail_run [OF t3 clock, of "''RECOVERED_AFTER_RESTART''" "[(''previousStatus'', JStr (status_text ?prev))]"]
  obtain w4 od4 where
    w4: "fail ?D oid ''RECOVERED_AFTER_RESTART'' [(''previousStatus'', JStr (status_text ?prev))] w3 = (Inr (), w4)"
      "went E oid [(CANCELLED, ''order.cancelled'', spread [(''reason'', JStr ''RECOVERED_AFTER_RESTART'')]
         [(''previousStatus'', JStr (status_text ?prev))])] w3 od1 w4 od4"
      "keeps w3 w4" "co_ticks w4 = co_ticks w3 + 3"
      "sagaOutcomes (co_metrics w4) = inc [(''status'', ''CANCELLED'')] (sagaOutcomes (co_metrics w3))" by blast
  have t4: "tracks E w4 oid od4" using w4(2) by (simp add: went_def)
  have "recoverStuck ?D od w = (Inr od4, w4)"
    using unfin oid comp w4(1) mustGet_run [OF t4]
    by (simp add: recoverStuck_def cur bind_apply)
  moreover have "went E oid (recovered_step ?prev) w od w4 od4"
    using went_trans [OF g3 w4(2)] by (simp add: recovered_step_def rollback_def)
  moreover have "P w4" using stays [rule_format, of w3 w4] w3(2) w4(3,4) by (simp add: keeps_def)
  ultimately show ?thesis
    using prev w1(3,4,5) w3(3-5) w4(3,4,5)
    by (intro exI [of _ w4] exI [of _ od4] exI [of _ ?prev])
       (auto simp: undone_rest_def keeps_def same_rest_def counted_def)
qed

text \<open>
  An order whose reservations are recorded is restored completely, whichever of its reservations
  an earlier attempt has released already.
\<close>

lemma recoverStuck_restores:
  assumes t: "tracks E w oid od" and unfin: "\<not> isTerminalStatus (or_status od)" and clock: "clock_ok E"
    and rec: "reservationsFromHistory od = map rsv tk"
    and h: "holding E w L \<rho> (filter P tk) (filter P tk)" and sep: "separate \<rho> tk"
    and cover: "\<forall>x \<in> set tk. P x \<longrightarrow> L (line_key (fst x)) \<noteq> None"
    and due: "due_after (env_now E (co_ticks w + 3 + length tk)) (filter P tk)"
  shows "\<exists>w' od' previous. recoverStuck (SagaOrchestrator R S B E) od w = (Inr od', w') \<and>
     previous \<in> {or_status od, COMPENSATING} \<and>
     went E oid (recovered_step previous) w od w' od' \<and> holding E w' L \<rho> [] [] \<and>
     co_ticks w \<le> co_ticks w' \<and> co_ticks w' \<le> co_ticks w + length tk + 6 \<and>
     undone_rest oid (has_event ''order.payment_charged'' od) (has_event ''order.shipping_scheduled'' od) w w'"
proof -
  let ?D = "SagaOrchestrator R S B E"
  have loop: "\<exists>w2. for_each (release_reservation ?D) (reservationsFromHistory od) w1 = (Inr (), w2) \<and>
      holding E w2 L \<rho> [] [] \<and> same_rest w1 w2 \<and> co_ticks w1 \<le> co_ticks w2 \<and>
      co_ticks w2 \<le> co_ticks w1 + length (reservationsFromHistory od)"
    if w1: "co_redis w1 = co_redis w" "co_ticks w1 = co_ticks w + 3" for w1 :: "('r, 'st, 'b) world"
  proof -
    have "holding E w1 L \<rho> (filter P tk) (filter P tk)" using holding_tick [OF h clock w1(1)] w1(2) by simp
    moreover have "due_after (env_now E (co_ticks w1 + length tk)) (filter P tk)" using due w1(2) by simp
    ultimately show ?thesis
      using release_some_run [of E w1 L \<rho> P tk ?D] sep cover clock rec by auto
  qed
  have stays: "\<forall>w2 w3. holding E w2 L \<rho> [] [] \<and> co_redis w3 = co_redis w2 \<and> co_ticks w2 \<le> co_ticks w3 \<longrightarrow>
      holding E (w3 :: ('r, 'st, 'b) world) L \<rho> [] []" using holding_tick clock by blast
  have "\<exists>w' od' previous. recoverStuck ?D od w = (Inr od', w') \<and> previous \<in> {or_status od, COMPENSATING} \<and>
      went E oid (recovered_step previous) w od w' od' \<and> holding E w' L \<rho> [] [] \<and> co_ticks w \<le> co_ticks w' \<and>
      co_ticks w' \<le> co_ticks w + length (reservationsFromHistory od) + 6 \<and>
      undone_rest oid (has_event ''order.payment_charged'' od) (has_event ''order.shipping_scheduled'' od) w w'"
    by (rule recoverStuck_run [OF t unfin clock]) (use loop stays in auto)
  then show ?thesis by (simp only: rec length_map)
qed

lemma recoverStuck_cancels:
  assumes t: "tracks E w oid od" and unfin: "\<not> isTerminalStatus (or_status od)" and clock: "clock_ok E"
    and inv: "invar (co_redis w)"
  shows "\<exists>w' od' previous. recoverStuck (SagaOrchestrator R S B E) od w = (Inr od', w') \<and>
     went E oid (recovered_step previous) w od w' od' \<and> invar (co_redis w') \<and> co_ticks w \<le> co_ticks w' \<and>
     undone_rest oid (has_event ''order.payment_charged'' od) (has_event ''order.shipping_scheduled'' od) w w'"
proof -
  let ?D = "SagaOrchestrator R S B E"
  have loop: "\<exists>w2. for_each (release_reservation ?D) (reservationsFromHistory od) w1 = (Inr (), w2) \<and>
      invar (co_redis w2) \<and> same_rest w1 w2 \<and> co_ticks w1 \<le> co_ticks w2 \<and>
      co_ticks w2 \<le> co_ticks w1 + length (reservationsFromHistory od)"
    if w1: "co_redis w1 = co_redis w" "co_ticks w1 = co_ticks w + 3" for w1 :: "('r, 'st, 'b) world"
    using release_any_run [of w1 ?D E "reservationsFromHistory od"] w1 inv by auto
  have "\<exists>w' od' previous. recoverStuck ?D od w = (Inr od', w') \<and> previous \<in> {or_status od, COMPENSATING} \<and>
      went E oid (recovered_step previous) w od w' od' \<and> invar (co_redis w') \<and> co_ticks w \<le> co_ticks w' \<and>
      co_ticks w' \<le> co_ticks w + length (reservationsFromHistory od) + 6 \<and>
      undone_rest oid (has_event ''order.payment_charged'' od) (has_event ''order.shipping_scheduled'' od) w w'"
    by (rule recoverStuck_run [OF t unfin clock]) (use loop in auto)
  then show ?thesis by blast
qed

text \<open>The startup sweep.\<close>

definition sound :: "env \<Rightarrow> ('r, 'st, 'b) world \<Rightarrow> bool" where
  "sound E w \<longleftrightarrow> invar (co_redis w) \<and> ok (w_store w) \<and> bus_ok (w_bus w) \<and>
     (\<forall>oid od. orders_of (w_store w) oid = Some od \<longrightarrow> (\<forall>h \<in> set (or_history od). ev_at h \<le> env_now E (co_ticks w)))"

definition stuck_in :: "('r, 'st, 'b) world \<Rightarrow> order \<Rightarrow> bool" where
  "stuck_in w od \<longleftrightarrow> orders_of (w_store w) (or_id od) = Some od \<and> \<not> isTerminalStatus (or_status od)"

lemma sound_tracks: "sound E w \<Longrightarrow> orders_of (w_store w) oid = Some od \<Longrightarrow> tracks E w oid od"
  by (simp add: sound_def tracks_def)

lemma sound_went:
  assumes "sound E w" "went E oid steps w od w' od'" "invar (co_redis w')" "co_ticks w \<le> co_ticks w'" "clock_ok E"
  shows "sound E w'"
proof -
  have "env_now E (co_ticks w) \<le> env_now E (co_ticks w')" using assms(4,5) by (simp add: clock_le)
  with assms show ?thesis
    by (force simp: sound_def went_def tracks_def intro: order_trans split: if_splits)
qed

text \<open>What a sweep publishes creates no order.\<close>

definition creates_none :: "('r, 'st, 'b) world \<Rightarrow> ('r, 'st, 'b) world \<Rightarrow> bool" where
  "creates_none w w' \<longleftrightarrow>
     (\<exists>evs. announcements w' = announcements w @ evs \<and> (\<forall>e \<in> set evs. fst e \<noteq> ''order.created''))"

lemma creates_none_refl: "creates_none w w"
  by (simp add: creates_none_def)

lemma creates_none_trans:
  assumes "creates_none w w1" "creates_none w1 w2"
  shows "creates_none w w2"
proof -
  from assms obtain e1 e2 where
    "announcements w1 = announcements w @ e1" "announcements w2 = announcements w1 @ e2"
    "\<forall>e \<in> set e1. fst e \<noteq> ''order.created''" "\<forall>e \<in> set e2. fst e \<noteq> ''order.created''"
    unfolding creates_none_def by blast
  then show ?thesis unfolding creates_none_def by (intro exI [of _ "e1 @ e2"]) auto
qed

lemma recovered_creates_none: "went E oid (recovered_step previous) w od w' od' \<Longrightarrow> creates_none w w'"
  unfolding creates_none_def went_def
  by (intro exI [of _ "map (announced oid) (recovered_step previous)"])
     (simp add: recovered_step_def rollback_def announced_def)

lemma recover_loop_run:
  assumes "sound E w" and "distinct (map or_id ods)" and "\<forall>od \<in> set ods. stuck_in w od" and clock: "clock_ok E"
  shows "\<exists>w'. for_each (recover_one (SagaOrchestrator R S B E)) ods w = (Inr (), w') \<and>
     sound E w' \<and> creates_none w w' \<and>
     (\<forall>oid. oid \<notin> or_id ` set ods \<longrightarrow> orders_of (w_store w') oid = orders_of (w_store w) oid) \<and>
     (\<forall>od \<in> set ods. \<exists>od' previous. orders_of (w_store w') (or_id od) = Some od' \<and>
        untimed od' = fold (apply_step kept) (recovered_step previous) (untimed od))"
  using assms(1-3)
proof (induction ods arbitrary: w)
  case Nil
  then show ?case by (simp add: creates_none_refl)
next
  case (Cons od ods)
  let ?D = "SagaOrchestrator R S B E"
  have od: "orders_of (w_store w) (or_id od) = Some od" "\<not> isTerminalStatus (or_status od)"
    using Cons.prems(3) by (simp_all add: stuck_in_def)
  have "invar (co_redis w)" using Cons.prems(1) by (simp add: sound_def)
  from recoverStuck_cancels [OF sound_tracks [OF Cons.prems(1) od(1)] od(2) clock this] obtain w1 od1 previous where
    w1: "recoverStuck ?D od w = (Inr od1, w1)" "went E (or_id od) (recovered_step previous) w od w1 od1"
      "invar (co_redis w1)" "co_ticks w \<le> co_ticks w1" by blast
  have s1: "sound E w1" by (rule sound_went [OF Cons.prems(1) w1(2-4) clock])
  have upd: "orders_of (w_store w1) = (orders_of (w_store w))(or_id od \<mapsto> od1)"
    "untimed od1 = fold (apply_step kept) (recovered_step previous) (untimed od)" using w1(2) by (simp_all add: went_def)
  have "\<forall>od' \<in> set ods. or_id od' \<noteq> or_id od" using Cons.prems(2) by (metis distinct.simps(2) image_eqI list.set_map list.simps(9))
  with Cons.prems(3) upd(1) have "\<forall>od' \<in> set ods. stuck_in w1 od'" by (simp add: stuck_in_def)
  with Cons.IH [OF s1] Cons.prems(2) obtain w2 where
    w2: "for_each (recover_one ?D) ods w1 = (Inr (), w2)" "sound E w2" "creates_none w1 w2"
      "\<forall>oid. oid \<notin> or_id ` set ods \<longrightarrow> orders_of (w_store w2) oid = orders_of (w_store w1) oid"
      "\<forall>od \<in> set ods. \<exists>od' previous. orders_of (w_store w2) (or_id od) = Some od' \<and>
         untimed od' = fold (apply_step kept) (recovered_step previous) (untimed od)" by auto
  have "or_id od \<notin> or_id ` set ods" using Cons.prems(2) by simp
  then have "orders_of (w_store w2) (or_id od) = Some od1" using w2(4) upd(1) by simp
  moreover have "recover_one ?D od w = (Inr (), w1)" using w1(1) by (simp add: recover_one_def bind_apply)
  moreover have "creates_none w w2" by (rule creates_none_trans [OF recovered_creates_none [OF w1(2)] w2(3)])
  ultimately show ?case using w2 upd by (auto simp: bind_apply)
qed

lemma recoverStuckOrders_run:
  assumes s: "sound E w" and clock: "clock_ok E"
  shows "\<exists>w' n. recoverStuckOrders (SagaOrchestrator R S B E) w = (Inr n, w') \<and> sound E w' \<and> creates_none w w' \<and>
     n = card {od. stuck_in w od} \<and>
     (\<forall>oid. case orders_of (w_store w) oid of
        None \<Rightarrow> orders_of (w_store w') oid = None
      | Some od \<Rightarrow>
          if isTerminalStatus (or_status od) then orders_of (w_store w') oid = Some od
          else \<exists>od' previous. orders_of (w_store w') oid = Some od' \<and> or_status od' = CANCELLED \<and>
            untimed od' = fold (apply_step kept) (recovered_step previous) (untimed od))"
proof -
  let ?D = "SagaOrchestrator R S B E"
  from nonTerminal_law [of "w_store w"] s obtain ods where
    ods: "os_nonTerminal S (w_store w) = (Inr ods, w_store w)" "distinct (map or_id ods)"
      "\<And>od. od \<in> set ods \<longleftrightarrow> stuck_in w od"
    by (auto simp: sound_def stuck_in_def)
  from recover_loop_run [OF s ods(2) _ clock] ods(3) obtain w' where
    w': "for_each (recover_one ?D) ods w = (Inr (), w')" "sound E w'" "creates_none w w'"
      "\<forall>oid. oid \<notin> or_id ` set ods \<longrightarrow> orders_of (w_store w') oid = orders_of (w_store w) oid"
      "\<forall>od \<in> set ods. \<exists>od' previous. orders_of (w_store w') (or_id od) = Some od' \<and>
         untimed od' = fold (apply_step kept) (recovered_step previous) (untimed od)" by auto
  have "recoverStuckOrders ?D w = (Inr (length ods), w')"
    unfolding recoverStuckOrders_def bind_on_store using w'(1) ods(1) by (simp add: bind_apply)
  moreover have "length ods = card {od. stuck_in w od}"
  proof -
    have "{od. stuck_in w od} = set ods" using ods(3) by auto
    then show ?thesis using distinct_card [of ods] ods(2) by (simp add: distinct_map)
  qed
  moreover have "case orders_of (w_store w) oid of
        None \<Rightarrow> orders_of (w_store w') oid = None
      | Some od \<Rightarrow>
          if isTerminalStatus (or_status od) then orders_of (w_store w') oid = Some od
          else \<exists>od' previous. orders_of (w_store w') oid = Some od' \<and> or_status od' = CANCELLED \<and>
            untimed od' = fold (apply_step kept) (recovered_step previous) (untimed od)" for oid
  proof (cases "oid \<in> or_id ` set ods")
    case True
    then obtain od where od: "od \<in> set ods" "oid = or_id od" by auto
    with w'(5) obtain od' previous where
      od': "orders_of (w_store w') oid = Some od'" "untimed od' = fold (apply_step kept) (recovered_step previous) (untimed od)"
      by blast
    have "or_status (untimed od') = CANCELLED" unfolding od'(2) recovered_step_def rollback_def by simp
    then have "or_status od' = CANCELLED" by simp
    with od od' ods(3) [of od] show ?thesis by (auto simp: stuck_in_def)
  next
    case False
    have "isTerminalStatus (or_status od)" if "orders_of (w_store w) oid = Some od" for od
    proof (rule ccontr)
      assume "\<not> isTerminalStatus (or_status od)"
      moreover have "or_id od = oid" using that s by (auto simp: sound_def dest: id_law)
      ultimately have "od \<in> set ods" using that ods(3) by (simp add: stuck_in_def)
      with False \<open>or_id od = oid\<close> show False by auto
    qed
    with False w'(4) show ?thesis by (auto split: option.splits)
  qed
  ultimately show ?thesis using w'(2,3) by blast
qed

end

end
