(* ===== verification/Subscribers.thy ===== *)
theory Subscribers
  imports Saga
begin

text \<open>
  The two subscribers the server wires to the bus: the saga runner of
  \<open>src/orders/asyncSagaRunner.ts\<close> and the server-sent events hub of \<open>src/api/sseHub.ts\<close>.
  A handler of the runner only starts a run, so its effect is the list of runs started; the runs
  themselves are the subject of the saga theories.
\<close>

section \<open>What the subscribers own\<close>

record sse_client =
  cl_id :: nat
  cl_status :: int
  cl_headers :: "(string \<times> string) list"
  cl_body :: string

record app_side =
  as_started :: "string list"
  as_clients :: "sse_client list"

datatype subscriber = SagaRunner | SseBroadcast

type_synonym app_bus = "(subscriber, app_side) bus_state"

definition CONSUMER_GROUP :: string where
  "CONSUMER_GROUP = ''saga-runner''"

definition SSE_GROUP :: string where
  "SSE_GROUP = ''sse-hub''"

section \<open>The handlers\<close>

definition runs_for :: "domain_event \<Rightarrow> string list" where
  "runs_for event =
     (if de_type event \<noteq> ''order.created'' then [] else [json_str (de_payload event) ''orderId''])"

definition start_run :: "domain_event \<Rightarrow> app_side \<Rightarrow> app_side" where
  "start_run event a = a\<lparr>as_started := as_started a @ runs_for event\<rparr>"

definition sse_frame :: "domain_event \<Rightarrow> string" where
  "sse_frame event = ''data: '' @ json_text (event_json event) @ [CHR 0x0A, CHR 0x0A]"

definition broadcast :: "domain_event \<Rightarrow> app_side \<Rightarrow> app_side" where
  "broadcast event a =
     a\<lparr>as_clients := map (\<lambda>c. c\<lparr>cl_body := cl_body c @ sse_frame event\<rparr>) (as_clients a)\<rparr>"

definition addClient :: "nat \<Rightarrow> app_side \<Rightarrow> app_side" where
  "addClient cid a = a\<lparr>as_clients := as_clients a @
     [\<lparr>cl_id = cid, cl_status = 200,
       cl_headers = [(''Content-Type'', ''text/event-stream''), (''Cache-Control'', ''no-cache''),
                     (''Connection'', ''keep-alive'')],
       cl_body = '': connected'' @ [CHR 0x0A, CHR 0x0A]\<rparr>]\<rparr>"

definition closeClient :: "nat \<Rightarrow> app_side \<Rightarrow> app_side" where
  "closeClient cid a = a\<lparr>as_clients := filter (\<lambda>c. cl_id c \<noteq> cid) (as_clients a)\<rparr>"

fun app_effect :: "subscriber \<Rightarrow> domain_event \<Rightarrow> app_side \<Rightarrow> app_side" where
  "app_effect SagaRunner ev a = start_run ev a"
| "app_effect SseBroadcast ev a = broadcast ev a"

definition app_handler :: "(subscriber, app_side) handling" where
  "app_handler h ev = update_state (\<lambda>(b, a). (b, app_effect h ev a))"

definition wireAsyncSagaExecution :: "app_bus \<Rightarrow> app_bus" where
  "wireAsyncSagaExecution s = (subscribe ORDERS_TOPIC CONSUMER_GROUP SagaRunner (fst s), snd s)"

definition wireSseHub :: "app_bus \<Rightarrow> app_bus" where
  "wireSseHub s = (subscribe ORDERS_TOPIC SSE_GROUP SseBroadcast (fst s), snd s)"

text \<open>The bus as \<open>main\<close> of \<open>src/api/server.ts\<close> sets it up.\<close>

definition server_bus :: app_bus where
  "server_bus = wireSseHub (wireAsyncSagaExecution (new_bus, \<lparr>as_started = [], as_clients = []\<rparr>))"

interpretation app: passive_handlers app_handler app_effect
  by unfold_locales (simp add: app_handler_def)

section \<open>Every event reaches both subscribers once\<close>

abbreviation runner_key :: string where
  "runner_key \<equiv> group_key ORDERS_TOPIC CONSUMER_GROUP"

abbreviation sse_key :: string where
  "sse_key \<equiv> group_key ORDERS_TOPIC SSE_GROUP"

text \<open>The state between two publications: both groups have seen the whole log.\<close>

definition wired :: "app_bus \<Rightarrow> bool" where
  "wired s \<longleftrightarrow>
     (let n = length (topic_log (fst s) ORDERS_TOPIC) in
      bs_cursors (fst s) = [(runner_key, n), (sse_key, n)] \<and>
      bs_handlers (fst s) = [(runner_key, [SagaRunner]), (sse_key, [SseBroadcast])] \<and>
      \<not> bs_draining (fst s))"

lemma keys_differ [simp]: "runner_key \<noteq> sse_key" "sse_key \<noteq> runner_key"
  by (simp_all add: group_key_inject CONSUMER_GROUP_def SSE_GROUP_def)

lemma wired_server_bus: "wired server_bus"
  by (simp add: wired_def server_bus_def wireSseHub_def wireAsyncSagaExecution_def subscribe_def
      Let_def new_bus_def handlers_of_def set_cursor_def topic_log_def jhas_def)

lemma on_topic_group [simp]: "on_topic ORDERS_TOPIC (group_key ORDERS_TOPIC g)"
  by (simp add: on_topic_def splitKey_group_key ORDERS_TOPIC_def)

lemma wired_ready: "wired s \<Longrightarrow> bus_ready s"
  by (simp add: wired_def bus_ready_def jmap_ok_def Let_def)

lemma fold_deliver_app:
  assumes "handlers_of b runner_key = [SagaRunner]" "handlers_of b sse_key = [SseBroadcast]"
    and "\<forall>d \<in> set D. fst d = runner_key \<or> fst d = sse_key"
  shows "fold (deliver app_effect b) D a =
     \<lparr>as_started = as_started a @ concat (map runs_for (deliveries_to runner_key D)),
      as_clients = map (\<lambda>c. c\<lparr>cl_body := cl_body c @ concat (map sse_frame (deliveries_to sse_key D))\<rparr>)
        (as_clients a)\<rparr>"
  using assms(3)
proof (induction D arbitrary: a)
  case Nil
  then show ?case by simp
next
  case (Cons d D)
  have one: "deliver app_effect b d a =
      (if fst d = runner_key then start_run (snd d) a else broadcast (snd d) a)"
    using Cons.prems assms by (cases d) (auto simp: deliver_def)
  from Cons.prems have "\<forall>d \<in> set D. fst d = runner_key \<or> fst d = sse_key" by simp
  note IH = Cons.IH [OF this]
  show ?case
  proof (cases "fst d = runner_key")
    case True
    then show ?thesis using IH one by (simp add: start_run_def)
  next
    case False
    with Cons.prems have "fst d = sse_key" by simp
    with False IH one show ?thesis by (simp add: broadcast_def o_def)
  qed
qed

lemma publish_wired:
  assumes "wired s"
  shows "\<exists>s'. eb_publish (InMemoryEventBus app_handler) ORDERS_TOPIC ev s = (Inr (), s') \<and> wired s' \<and>
     topic_log (fst s') ORDERS_TOPIC = topic_log (fst s) ORDERS_TOPIC @ [ev] \<and>
     snd s' = \<lparr>as_started = as_started (snd s) @ runs_for ev,
               as_clients = map (\<lambda>c. c\<lparr>cl_body := cl_body c @ sse_frame ev\<rparr>) (as_clients (snd s))\<rparr>"
proof -
  obtain b a where s: "s = (b, a)" by (cases s)
  let ?b1 = "push_event ORDERS_TOPIC ev b"
  let ?b2 = "?b1\<lparr>bs_cursors := caught_up ORDERS_TOPIC ?b1\<rparr>"
  let ?n = "length (topic_log b ORDERS_TOPIC)"
  have w: "bs_cursors b = [(runner_key, ?n), (sse_key, ?n)]" "\<not> bs_draining b"
    "bs_handlers b = [(runner_key, [SagaRunner]), (sse_key, [SseBroadcast])]"
    using assms by (simp_all add: wired_def s Let_def)
  from app.publish_passive [of b ORDERS_TOPIC ev a] w(1,2) obtain D where
    D: "publish app_handler ORDERS_TOPIC ev (b, a) = Some (Inr (), (?b2, fold (deliver app_effect b) D a))"
      "delivers ORDERS_TOPIC ?b1 D" by (auto simp: jmap_ok_def)
  have "deliveries_to runner_key D = [ev]" "deliveries_to sse_key D = [ev]"
    and only: "\<forall>d \<in> set D. fst d = runner_key \<or> fst d = sse_key"
    using D(2) w(1) by (auto simp: delivers_def)
  moreover have "handlers_of b runner_key = [SagaRunner]" "handlers_of b sse_key = [SseBroadcast]"
    using w(3) by (simp_all add: handlers_of_def)
  ultimately have eff: "fold (deliver app_effect b) D a =
      \<lparr>as_started = as_started a @ runs_for ev,
       as_clients = map (\<lambda>c. c\<lparr>cl_body := cl_body c @ sse_frame ev\<rparr>) (as_clients a)\<rparr>"
    by (simp add: fold_deliver_app [OF _ _ only])
  have log: "topic_log ?b2 ORDERS_TOPIC = topic_log b ORDERS_TOPIC @ [ev]"
    by (simp add: topic_log_def push_event_def)
  have "caught_up ORDERS_TOPIC ?b1 = [(runner_key, Suc ?n), (sse_key, Suc ?n)]"
    using w(1) by (simp add: caught_up_def)
  with w have "wired (?b2, x)" for x
    unfolding wired_def fst_conv log Let_def by (simp add: push_event_def)
  then show ?thesis using D(1) eff log by (auto simp: InMemoryEventBus_def s)
qed

end
