(* ===== verification/Server_Saga.thy ===== *)
theory Server_Saga
  imports Saga_Recovery Subscribers
begin

text \<open>
  The saga as the server runs it by default: over \<open>InMemoryRedisClient\<close>,
  \<open>InMemoryOrderStore\<close> and the \<open>InMemoryEventBus\<close> with the two subscribers of \<open>main\<close>. The
  contracts of the saga theories are discharged on these three, and the properties stated over
  them.
\<close>

section \<open>The orchestrator of the server\<close>

type_synonym server_world = "(redis_mem, mem_orders, app_bus) world"

definition server_saga :: "env \<Rightarrow> (redis_mem, mem_orders, app_bus) deps" where
  "server_saga E = SagaOrchestrator InMemoryRedis InMemoryOrderStore (InMemoryEventBus app_handler) E"

interpretation server: saga InMemoryRedis mem_kv mem_ok InMemoryOrderStore "\<lambda>orders. jget orders" ims_ok
    "\<lambda>_. True" "\<lambda>_. True" "\<lambda>j. j" "InMemoryEventBus app_handler" bus_ready
  by unfold_locales

section \<open>The state of the server, abstractly\<close>

text \<open>The store shows stock levels and open reservations from the next clock reading on.\<close>

definition shows_stock :: "env \<Rightarrow> (string \<Rightarrow> int option) \<Rightarrow> kv \<Rightarrow> server_world \<Rightarrow> bool" where
  "shows_stock E L \<rho> w \<longleftrightarrow> mem_ok (co_redis w) \<and> repr (env_now E (co_ticks w)) L \<rho> (mem_kv (co_redis w))"

definition past_events :: "env \<Rightarrow> order \<Rightarrow> server_world \<Rightarrow> bool" where
  "past_events E od w \<longleftrightarrow> (\<forall>h \<in> set (or_history od). ev_at h \<le> env_now E (co_ticks w))"

definition stored :: "env \<Rightarrow> order \<Rightarrow> server_world \<Rightarrow> bool" where
  "stored E od w \<longleftrightarrow> ims_ok (w_store w) \<and> bus_ready (w_bus w) \<and> jget (w_store w) (or_id od) = Some od \<and>
     past_events E od w"

text \<open>Before a run: the order is stored, the identifiers to come are fresh, and the clock moves
  less than the fifteen minutes of a reservation while the run lasts.\<close>

definition ready_to_run :: "env \<Rightarrow> (string \<Rightarrow> int option) \<Rightarrow> kv \<Rightarrow> order \<Rightarrow> server_world \<Rightarrow> bool" where
  "ready_to_run E L \<rho> od w \<longleftrightarrow> stored E od w \<and> shows_stock E L \<rho> w \<and> clock_ok E \<and>
     fresh_ids E (co_uuids w) (dom \<rho>) \<and>
     env_now E (co_ticks w + 4 * length (or_lines od) + 9) < env_now E (co_ticks w) + 900000"

definition events_of :: "server_world \<Rightarrow> (string \<times> json \<times> string option) list" where
  "events_of w = map (\<lambda>e. (de_type e, de_payload e, de_key e)) (history ORDERS_TOPIC (fst (w_bus w)))"

lemma events_of_server: "server.announcements w = events_of w"
  by (simp add: server.announcements_def events_of_def)

lemma stored_tracks: "stored E od w \<Longrightarrow> server.tracks E w (or_id od) od"
  by (simp add: stored_def past_events_def server.tracks_def)

lemma shows_stock_holding: "shows_stock E L \<rho> w \<longleftrightarrow> mem.holding E w L \<rho> [] []"
  by (simp add: shows_stock_def mem.holding_def)

lemma server_run:
  assumes "ready_to_run E L \<rho> od w"
  shows "\<exists>w' od' v rs. run (server_saga E) (or_id od) w = (Inr od', w') \<and>
     verdict_ok L od (w_payments w) (w_shipping w) v \<and>
     (fulfillable L (or_lines od) \<longrightarrow> reserves rs (or_lines od)) \<and>
     untimed od' = fold (apply_step (\<lambda>j. j)) (verdict_steps (or_id od) rs v) (untimed od) \<and>
     jget (w_store w') = (jget (w_store w))(or_id od \<mapsto> od') \<and>
     events_of w' = events_of w @ map (announced (or_id od)) (verdict_steps (or_id od) rs v) \<and>
     shows_stock E (if v = Done then debit L (or_lines od) else L) \<rho> w' \<and>
     charges (w_payments w') = charges_after (or_id od) v (charges (w_payments w)) \<and>
     shipments (w_shipping w') = shipments_after (or_id od) v (shipments (w_shipping w)) \<and>
     sagaOutcomes (co_metrics w') =
       inc [(''status'', if v = Done then ''CONFIRMED'' else ''CANCELLED'')] (sagaOutcomes (co_metrics w))"
  using server.run_outcome [of E w "or_id od" od L \<rho>] assms
  unfolding ready_to_run_def shows_stock_holding server_saga_def [symmetric] server.went_def events_of_server
  by (blast dest: stored_tracks)

lemma verdict_status:
  "or_status (fold (apply_step kept) (verdict_steps oid rs v) od) = (if v = Done then CONFIRMED else CANCELLED)"
  by (cases v) (simp_all add: stock_shortage_def declined_by_def rollback_def confirmed_step_def)

section \<open>Properties\<close>

text \<open>C1: all or nothing. A run always ends, with the order confirmed or cancelled in the store.
  Confirmed: every line has left the stock, the payment is charged and the shipment scheduled,
  and no reservation of the order is left. Cancelled: stock levels, reservations, charges and
  shipments are exactly what they were before.\<close>

theorem saga_all_or_nothing:
  assumes "ready_to_run E L \<rho> od w" and "charges (w_payments w) (or_id od) = None"
  shows "\<exists>w' od'. run (server_saga E) (or_id od) w = (Inr od', w') \<and> jget (w_store w') (or_id od) = Some od' \<and>
     (or_status od' = CONFIRMED \<and> shows_stock E (debit L (or_lines od)) \<rho> w' \<and>
        charges (w_payments w') = (charges (w_payments w))(or_id od \<mapsto> payment_ticket (or_id od)) \<and>
        shipments (w_shipping w') = (shipments (w_shipping w))(or_id od \<mapsto> shipment_ticket (or_id od)) \<or>
      or_status od' = CANCELLED \<and> shows_stock E L \<rho> w' \<and>
        charges (w_payments w') = charges (w_payments w) \<and> shipments (w_shipping w') = shipments (w_shipping w))"
proof -
  from server_run [OF assms(1)] obtain w' od' v rs where
    r: "run (server_saga E) (or_id od) w = (Inr od', w')"
      "untimed od' = fold (apply_step (\<lambda>j. j)) (verdict_steps (or_id od) rs v) (untimed od)"
      "jget (w_store w') = (jget (w_store w))(or_id od \<mapsto> od')"
      "shows_stock E (if v = Done then debit L (or_lines od) else L) \<rho> w'"
      "charges (w_payments w') = charges_after (or_id od) v (charges (w_payments w))"
      "shipments (w_shipping w') = shipments_after (or_id od) v (shipments (w_shipping w))" by blast
  have "or_status od' = (if v = Done then CONFIRMED else CANCELLED)"
    using arg_cong [OF r(2), of or_status] by (simp add: verdict_status)
  with r assms(2) show ?thesis
    by (cases "v = Done") (auto simp: charges_after_def shipments_after_def fun_upd_idem)
qed

text \<open>C9: the verdict of a run and its trace. The order is confirmed exactly when every line
  asks for something the stock covers and neither participant declines; the steps recorded in
  its history are those of its verdict, the same steps are published in the same order, no
  other order changes, and the outcome is counted once.\<close>

theorem saga_verdict_and_trace:
  assumes "ready_to_run E L \<rho> od w"
  shows "\<exists>w' od' v rs. run (server_saga E) (or_id od) w = (Inr od', w') \<and>
     verdict_ok L od (w_payments w) (w_shipping w) v \<and>
     (fulfillable L (or_lines od) \<longrightarrow> reserves rs (or_lines od)) \<and>
     untimed od' = fold (apply_step (\<lambda>j. j)) (verdict_steps (or_id od) rs v) (untimed od) \<and>
     jget (w_store w') = (jget (w_store w))(or_id od \<mapsto> od') \<and>
     events_of w' = events_of w @ map (announced (or_id od)) (verdict_steps (or_id od) rs v) \<and>
     sagaOutcomes (co_metrics w') =
       inc [(''status'', if v = Done then ''CONFIRMED'' else ''CANCELLED'')] (sagaOutcomes (co_metrics w))"
  using server_run [OF assms] by blast

section \<open>A concrete server\<close>

text \<open>Five units of one item, and an order for two of them.\<close>

definition demo_env :: env where
  "demo_env = \<lparr>env_now = int, env_perf = (\<lambda>_. 0), env_uuid = (\<lambda>n. ''id-'' @ replicate n (CHR ''i''))\<rparr>"

definition demo_order :: order where
  "demo_order =
     \<lparr>or_id = ''o1'', or_customerId = ''c1'', or_lines = [\<lparr>ol_sku = ''s1'', ol_qty = 2, ol_warehouseId = ''w1''\<rparr>],
      or_amountCents = 500, or_status = CREATED, or_history = [], or_createdAt = 0, or_updatedAt = 0,
      or_businessId = None\<rparr>"

definition demo_levels :: "string \<Rightarrow> int option" where
  "demo_levels = [stockKey ''w1'' ''s1'' \<mapsto> 5]"

definition demo_world_with :: "order \<Rightarrow> server_world" where
  "demo_world_with od =
     \<lparr>co_redis = \<lparr>rm_store = [(stockKey ''w1'' ''s1'', int_string 5)], rm_expiresAt = []\<rparr>,
      co_known = [], co_metrics = init_metrics, co_ticks = 0, co_uuids = 0,
      w_payments = new_payment_gateway no_failures, w_shipping = new_shipping_provider no_failures,
      w_bus = server_bus, w_store = [(or_id od, od)]\<rparr>"

abbreviation demo_world :: server_world where
  "demo_world \<equiv> demo_world_with demo_order"

lemma demo_env_ok: "clock_ok demo_env" "fresh_ids demo_env n {}"
  by (auto simp: demo_env_def clock_ok_def fresh_ids_def mono_def inj_def)

lemma demo_shows_stock: "shows_stock demo_env demo_levels Map.empty (demo_world_with od)"
  by (auto simp: shows_stock_def demo_world_with_def mem_ok_def repr_def lookup_def mem_kv_def
      demo_levels_def jhas_def)

lemma demo_stored: "or_history od = [] \<Longrightarrow> stored demo_env od (demo_world_with od)"
  using wired_ready [OF wired_server_bus]
  by (simp add: stored_def demo_world_with_def past_events_def ims_ok_def jmap_ok_def)

lemma demo_ready: "or_history od = [] \<Longrightarrow> length (or_lines od) \<le> 1 \<Longrightarrow>
    ready_to_run demo_env demo_levels Map.empty od (demo_world_with od)"
  using demo_shows_stock demo_stored demo_env_ok
  by (simp add: ready_to_run_def) (simp add: demo_world_with_def demo_env_def)

lemma demo_world_participants [simp]:
  "w_payments (demo_world_with od) = new_payment_gateway no_failures"
  "w_shipping (demo_world_with od) = new_shipping_provider no_failures"
  by (simp_all add: demo_world_with_def)

theorem saga_all_or_nothing_witness:
  "\<exists>w' od'. run (server_saga demo_env) (or_id demo_order) demo_world = (Inr od', w') \<and>
     jget (w_store w') (or_id demo_order) = Some od' \<and> or_status od' \<in> {CONFIRMED, CANCELLED}"
proof -
  have "ready_to_run demo_env demo_levels Map.empty demo_order demo_world"
    by (rule demo_ready) (simp_all add: demo_order_def)
  moreover have "charges (w_payments demo_world) (or_id demo_order) = None"
    by (simp add: new_payment_gateway_def)
  ultimately show ?thesis
    using saga_all_or_nothing [of demo_env demo_levels Map.empty demo_order demo_world] by auto
qed

theorem saga_verdict_and_trace_witness:
  "\<exists>w' od' rs. run (server_saga demo_env) (or_id demo_order) demo_world = (Inr od', w') \<and>
     untimed od' = fold (apply_step (\<lambda>j. j)) (verdict_steps ''o1'' rs Done) (untimed demo_order)"
proof -
  have full: "fulfillable demo_levels (or_lines demo_order)"
    by (simp add: fulfillable_def demo_levels_def demo_order_def line_key_def)
  have "v = Done" if "verdict_ok demo_levels demo_order (w_payments demo_world) (w_shipping demo_world) v" for v
    using that full
    by (cases v) (auto simp: verdict_ok_def new_payment_gateway_def new_shipping_provider_def no_failures_def)
  moreover have "ready_to_run demo_env demo_levels Map.empty demo_order demo_world"
    by (rule demo_ready) (simp_all add: demo_order_def)
  moreover have "or_id demo_order = ''o1''" by (simp add: demo_order_def)
  ultimately show ?thesis
    using saga_verdict_and_trace [of demo_env demo_levels Map.empty demo_order demo_world] by metis
qed

end
