(* ===== verification/Api_Correct.thy ===== *)
theory Api_Correct
  imports Api Business_Correct Server_Saga
begin

text \<open>
  The HTTP interface end to end: who sees which order, what an account can do, and what a request
  without a session can do, over any stores that keep their contracts.
\<close>

section \<open>Orders belong to the business that placed them\<close>

lemma get_order_run:
  assumes "order_store S orders_of ok valid_id valid_scope kept" "dp_store (ap_deps P) = S"
    "ok (w_store (wb_world w))" "valid_scope (Scoped (asking P req w))" "valid_id oid"
  shows "get_order P oid req w =
    (Inr (case orders_of (w_store (wb_world w)) oid of
            Some od \<Rightarrow> if or_businessId od = asking P req w then reply_with 200 (OrderBody (Some od))
                       else reply_with 404 not_found
          | None \<Rightarrow> reply_with 404 not_found), asked P req w)"
proof -
  have store: "ok (w_store (wb_world (asked P req w)))" using assms(3) by simp
  have same: "asked P req w\<lparr>wb_world := wb_world (asked P req w)\<lparr>w_store := w_store (wb_world w)\<rparr>\<rparr> = asked P req w"
    by (simp add: asked_def)
  show ?thesis
    using order_store.get_law [OF assms(1) store assms(5,4)] assms(2) same
    by (simp add: get_order_def bind_apply scopeFor_run in_world_apply on_store_def zoom_apply split: option.splits)
qed

lemma get_orders_run:
  assumes "order_store S orders_of ok valid_id valid_scope kept" "dp_store (ap_deps P) = S"
    "ok (w_store (wb_world w))" "valid_scope (Scoped (asking P req w))"
  shows "\<exists>ods. get_orders P req w = (Inr (reply_with 200 (OrderList ods)), asked P req w) \<and> distinct (map or_id ods) \<and>
    (\<forall>od. od \<in> set ods \<longleftrightarrow> orders_of (w_store (wb_world w)) (or_id od) = Some od \<and> or_businessId od = asking P req w)"
proof -
  have store: "ok (w_store (wb_world (asked P req w)))" using assms(3) by simp
  have same: "asked P req w\<lparr>wb_world := wb_world (asked P req w)\<lparr>w_store := w_store (wb_world w)\<rparr>\<rparr> = asked P req w"
    by (simp add: asked_def)
  obtain ods where ods: "os_all S (Scoped (asking P req w)) (w_store (wb_world w)) = (Inr ods, w_store (wb_world w))"
    "distinct (map or_id ods)"
    "\<forall>od. od \<in> set ods \<longleftrightarrow> orders_of (w_store (wb_world w)) (or_id od) = Some od \<and> in_scope (Scoped (asking P req w)) od"
    using order_store.all_law [OF assms(1,3,4)] by blast
  then show ?thesis
    using assms(2) same
    by (intro exI [of _ ods])
       (simp add: get_orders_def bind_apply scopeFor_run in_world_apply on_store_def zoom_apply)
qed

lemma asyncHandler_Inr [simp]: "m w = (Inr r, w') \<Longrightarrow> asyncHandler m w = (Some r, w')"
  by (simp add: asyncHandler_def)

lemma int_string_ascii: "c \<in> set (int_string n) \<Longrightarrow> (of_char c :: nat) < 128"
  using nat_string_digits [of c] by (auto simp: int_string_def split: if_splits dest!: nat_string_digits)

lemma lower_hex_ascii: "d < 16 \<Longrightarrow> (of_char (lower_hex d) :: nat) < 128"
  by (auto simp: lower_hex_def)

lemma hex_encode_ascii: "c \<in> set (hex_encode bytes) \<Longrightarrow> (of_char c :: nat) < 128"
proof -
  assume "c \<in> set (hex_encode bytes)"
  then obtain b where b: "c = lower_hex (of_char b div 16) \<or> c = lower_hex (of_char b mod 16)"
    by (auto simp: hex_encode_def)
  have "(of_char b :: nat) div 16 < 16" "(of_char b :: nat) mod 16 < 16"
    using char_byte [of b] by (simp_all add: less_mult_imp_div_less)
  then show ?thesis using b lower_hex_ascii by metis
qed

lemma token_utf8:
  assumes "\<forall>c \<in> set i. (of_char c :: nat) < 128"
  shows "utf8_ok (fst (createSessionToken A i t dev))"
proof (rule ascii_utf8, rule ballI)
  fix c assume "c \<in> set (fst (createSessionToken A i t dev))"
  then have "c \<in> set i \<or> c = CHR ''.'' \<or> c \<in> set (int_string (t + SESSION_TTL_MS)) \<or> (\<exists>b. c \<in> set (hex_encode b))"
    by (auto simp: createSessionToken_def sign_def Let_def split: prod.splits)
  then show "(of_char c :: nat) < 128"
    using assms int_string_ascii hex_encode_ascii by auto
qed

text \<open>The cookie a browser keeps of a \<open>Set-Cookie\<close>: its first attribute.\<close>

definition kept_cookie :: "string \<Rightarrow> string" where
  "kept_cookie setCookie = takeWhile (\<lambda>c. c \<noteq> CHR '';'') setCookie"

lemma asking_with_token:
  assumes "rq_cookie req = Some (cookie_pair SESSION_COOKIE_NAME (fst (createSessionToken (ap_auth P) i t dev)))"
    and "wb_dev w = snd (createSessionToken (ap_auth P) i t dev)"
    and "i \<noteq> []" "CHR ''.'' \<notin> set i" "\<forall>c \<in> set i. (of_char c :: nat) < 128"
    and "au_randomBytes (ap_auth P) \<noteq> []" "\<forall>k p. au_hmac (ap_auth P) k p \<noteq> []"
  shows "asking P req w =
    (if env_now (api_env P) (co_ticks (wb_world w)) \<le> t + SESSION_TTL_MS then Some i else None)"
  using created_token [OF assms(3,4,6,7), of t dev "env_now (api_env P) (co_ticks (wb_world w))" dev]
    parse_session_pair [OF token_utf8 [OF assms(5)]]
  by (simp add: asking_def currentBusinessId_def assms(1,2))

text \<open>A server and a request with a session of account \<open>b1\<close>, for the witnesses.\<close>

definition demo_api :: "(redis_mem, mem_orders, app_bus, business_maps) api" where
  "demo_api =
     \<lparr>ap_deps = server_saga demo_env, ap_businesses = InMemoryBusinessStore, ap_auth = demo_auth,
      ap_scrypt = (\<lambda>p s. CHR ''k'' # p), ap_localeLe = (\<lambda>_ _. True)\<rparr>"

definition demo_account_b1 :: business where
  "demo_account_b1 =
     \<lparr>bu_id = ''b1'', bu_email = ''e@x'', bu_passwordHash = hashPassword (\<lambda>p s. CHR ''k'' # p) ''salt'' ''pw'',
      bu_businessName = ''n'', bu_businessType = B2B, bu_description = [], bu_accentColor = ''#9fd3ff'',
      bu_createdAt = 0, bu_updatedAt = 0\<rparr>"

definition demo_web :: "business_maps \<Rightarrow> (redis_mem, mem_orders, app_bus, business_maps) web" where
  "demo_web accounts = \<lparr>wb_world = demo_world, wb_businesses = accounts, wb_dev = None\<rparr>"

definition demo_accounts :: business_maps where
  "demo_accounts = \<lparr>bm_byId = [(''b1'', demo_account_b1)], bm_idByEmail = [(''e@x'', ''b1'')]\<rparr>"

definition anonymous :: request where
  "anonymous = \<lparr>rq_cookie = None, rq_secure = True\<rparr>"

definition demo_request :: request where
  "demo_request =
     \<lparr>rq_cookie = Some (cookie_pair SESSION_COOKIE_NAME (fst (createSessionToken demo_auth ''b1'' 0 None))),
      rq_secure = True\<rparr>"

lemma demo_api_fields [simp]:
  "ap_deps demo_api = SagaOrchestrator InMemoryRedis InMemoryOrderStore (InMemoryEventBus app_handler) demo_env"
  "ap_businesses demo_api = InMemoryBusinessStore" "ap_auth demo_api = demo_auth"
  "ap_scrypt demo_api = (\<lambda>p s. CHR ''k'' # p)"
  by (simp_all add: demo_api_def server_saga_def)

lemma demo_web_fields [simp]:
  "wb_world (demo_web a) = demo_world" "wb_businesses (demo_web a) = a" "wb_dev (demo_web a) = None"
  by (simp_all add: demo_web_def)

lemma demo_world_parts:
  "w_store demo_world = [(''o1'', demo_order)]" "bus_ready (w_bus demo_world)" "mem_ok (co_redis demo_world)"
  "co_ticks demo_world = 0" "co_uuids demo_world = 0"
  using wired_ready [OF wired_server_bus] demo_shows_stock [of demo_order]
  by (simp_all add: demo_world_with_def demo_order_def shows_stock_def)

lemma demo_order_business: "or_businessId demo_order = None"
  by (simp add: demo_order_def)

lemma demo_store_ok: "ims_ok [(''o1'', demo_order)]"
  by (simp add: ims_ok_def jmap_ok_def demo_order_def)

lemma demo_accounts_ok: "imb_ok demo_accounts"
  by (simp add: imb_ok_def demo_accounts_def demo_account_b1_def)

lemma demo_auth_ok: "au_randomBytes demo_auth \<noteq> []" "\<forall>k p. au_hmac demo_auth k p \<noteq> []"
  "snd (createSessionToken demo_auth i t dev) = dev"
  by (simp_all add: demo_auth_def createSessionToken_def sign_def getSecret_def truthy_def Let_def)

lemma anonymous_asking: "asking P anonymous w = None"
  by (simp add: asking_def anonymous_def currentBusinessId_def parseCookies_def verifySessionToken_def truthy_def)

lemma demo_asking: "asking demo_api demo_request (demo_web a) = Some ''b1''"
proof -
  have "\<forall>c \<in> set ''b1''. (of_char c :: nat) < 128" "CHR ''.'' \<notin> set ''b1''" "''b1'' \<noteq> []" by simp_all
  then show ?thesis
    using asking_with_token [of demo_request demo_api "''b1''" 0 None "demo_web a"] demo_auth_ok
    by (simp add: demo_request_def demo_world_parts demo_env_def SESSION_TTL_MS_def)
qed



definition new_order :: "string \<Rightarrow> order_payload \<Rightarrow> int \<Rightarrow> int \<Rightarrow> string option \<Rightarrow> order" where
  "new_order oid d c u b =
     \<lparr>or_id = oid, or_customerId = op_customerId d, or_lines = op_lines d, or_amountCents = op_amountCents d,
      or_status = CREATED, or_history = [], or_createdAt = c, or_updatedAt = u, or_businessId = b\<rparr>"

text \<open>What the schema of the request lets through can be stored when the amounts fit the columns and no
  line repeats an item of one warehouse.\<close>

definition fits_columns :: "order_payload \<Rightarrow> bool" where
  "fits_columns d \<longleftrightarrow> op_amountCents d < 2 ^ 31 \<and> (\<forall>l \<in> set (op_lines d). ol_qty l < 2 ^ 31) \<and>
     distinct (map (\<lambda>l. (ol_sku l, ol_warehouseId l)) (op_lines d))"

lemma post_orders_run:
  assumes S: "order_store S orders_of ok valid_id valid_scope kept" and B: "event_bus_laws B bus_ok"
    and D: "ap_deps P = SagaOrchestrator R S B E"
    and w: "ok (w_store (wb_world w))" "bus_ok (w_bus (wb_world w))"
    and scope: "valid_scope (Scoped (asking P req w))"
    and oid: "oid = env_uuid E (co_uuids (wb_world w))" "valid_id oid" "orders_of (w_store (wb_world w)) oid = None"
    and d: "createOrderSchema d" "fits_columns d"
  shows "\<exists>w' c u. post_orders P (Inr d) req w =
      (Inr \<lparr>rp_status = 202, rp_setCookie = None, rp_location = Some (''/api/orders/'' @ oid),
            rp_body = OrderBody (Some (new_order oid d c u (asking P req w)))\<rparr>, w') \<and>
    ok (w_store (wb_world w')) \<and> bus_ok (w_bus (wb_world w')) \<and>
    orders_of (w_store (wb_world w')) = (orders_of (w_store (wb_world w)))(oid \<mapsto> new_order oid d c u (asking P req w)) \<and>
    co_redis (wb_world w') = co_redis (wb_world w) \<and> wb_businesses w' = wb_businesses w"
proof -
  let ?t = "co_ticks (wb_world w)"
  let ?od = "new_order oid d (env_now E (Suc ?t)) (env_now E (Suc (Suc ?t))) (asking P req w)"
  let ?ev = "\<lparr>de_type = ''order.created'',
     de_payload = JObj (spread [(''orderId'', JStr oid)]
       (created_payload (op_customerId d) (op_lines d) (op_amountCents d) (asking P req w))),
     de_at = env_now E (Suc (Suc (Suc ?t))), de_key = Some oid\<rparr>"
  have "storable ?od" using d by (auto simp: storable_def new_order_def createOrderSchema_def fits_columns_def)
  then obtain st' where st': "os_create S ?od (w_store (wb_world w)) = (Inr (), st')" "ok st'"
      "orders_of st' = (orders_of (w_store (wb_world w)))(oid \<mapsto> ?od)"
    using order_store.create_law [OF S w(1), of ?od] scope oid(2,3) by (auto simp: new_order_def)
  obtain b' where b': "eb_publish B ORDERS_TOPIC ?ev (w_bus (wb_world w)) = (Inr (), b')" "bus_ok b'"
    using event_bus_laws.publish_law [OF B w(2)] by blast
  have get: "os_get S oid Unscoped st' = (Inr (Some ?od), st')"
    using order_store.get_law [OF S st'(2) oid(2) order_store.unscoped_law [OF S]] st'(3) by simp
  have "\<exists>w'. post_orders P (Inr d) req w =
      (Inr \<lparr>rp_status = 202, rp_setCookie = None, rp_location = Some (''/api/orders/'' @ oid),
            rp_body = OrderBody (Some ?od)\<rparr>, w') \<and>
    w_store (wb_world w') = st' \<and> w_bus (wb_world w') = b' \<and>
    co_redis (wb_world w') = co_redis (wb_world w) \<and> wb_businesses w' = wb_businesses w"
    using st'(1) b'(1) get oid(1)
    by (simp add: post_orders_def bind_apply scopeFor_run in_world_apply D createOrder_def process_acts on_store_def
        on_bus_def publish_saga_def new_order_def)
  then show ?thesis using st' b' by blast
qed



section \<open>Stock\<close>

text \<open>C37: Writing stock needs a session: without a valid one PUT /inventory is answered 401 whatever the
  payload, with one a rejected payload 400, and in both cases stock and registry stay as they were. With a
  session an accepted payload is answered 204 and sets the level, which a GET of the item then reads,
  whoever asks.\<close>

theorem inventory_write_gate:
  assumes "stock_redis R kv_of invar" and "dp_redis (ap_deps P) = R" and "invar (co_redis (wb_world w))"
  shows "(asking P req w = None \<or> parsed = Inl e \<longrightarrow>
      handle P (PutInventory parsed) req w =
        (Some (if asking P req w = None then reply_with 401 login_to_update
               else reply_with 400 (InvalidPayload e)), asked P req w)
      \<and> co_redis (wb_world (asked P req w)) = co_redis (wb_world w)
      \<and> co_known (wb_world (asked P req w)) = co_known (wb_world w))
    \<and> (asking P req w \<noteq> None \<longrightarrow>
        (\<exists>w'. handle P (PutInventory (Inr d)) req w = (Some (reply_with 204 NoBody), w')
          \<and> (\<forall>req'. fst (handle P (GetInventoryItem (sp_warehouseId d) (sp_sku d)) req' w') =
               Some (reply_with 200 (StockBody (sp_warehouseId d) (sp_sku d) (Num (sp_qty d)))))))"
proof (intro conjI impI)
  assume "asking P req w = None \<or> parsed = Inl e"
  then show "handle P (PutInventory parsed) req w =
        (Some (if asking P req w = None then reply_with 401 login_to_update
               else reply_with 400 (InvalidPayload e)), asked P req w)"
    by (auto simp: put_inventory_def asyncHandler_def bind_apply request_business_run)
next
  assume asking: "asking P req w \<noteq> None"
  let ?wh = "sp_warehouseId d" and ?s = "sp_sku d"
  let ?p = "wb_world (asked P req w)"
  have inv: "invar (co_redis ?p)" using assms(3) by simp
  obtain r' where set: "setStock R ?wh ?s (Num (sp_qty d)) ?p =
      (Inr (), ?p\<lparr>co_redis := r', co_known := jset (stockKey ?wh ?s) (?wh, ?s) (co_known ?p)\<rparr>)"
    "invar r'" "kv_of r' = (kv_of (co_redis ?p))(stockKey ?wh ?s \<mapsto> (sp_qty d, None))"
    using stock_redis.setStock_run [OF assms(1) inv] by blast
  let ?w' = "asked P req w\<lparr>wb_world := ?p\<lparr>co_redis := r', co_known := jset (stockKey ?wh ?s) (?wh, ?s) (co_known ?p)\<rparr>\<rparr>"
  have put: "handle P (PutInventory (Inr d)) req w = (Some (reply_with 204 NoBody), ?w')"
    using asking set(1) assms(2)
    by (auto simp: put_inventory_def asyncHandler_def bind_apply request_business_run in_world_apply)
  have inv': "invar (co_redis (wb_world ?w'))" using set(2) by simp
  have "fst (handle P (GetInventoryItem ?wh ?s) req' ?w') =
      Some (reply_with 200 (StockBody ?wh ?s (Num (sp_qty d))))" for req'
    using stock_redis.getAvailable_run [OF assms(1) inv', of "api_env P" ?wh ?s] set(3) assms(2)
    by (auto simp: get_inventory_item_def asyncHandler_def bind_apply in_world_apply lookup_def)
  with put show "\<exists>w'. handle P (PutInventory (Inr d)) req w = (Some (reply_with 204 NoBody), w')
      \<and> (\<forall>req'. fst (handle P (GetInventoryItem ?wh ?s) req' w') =
           Some (reply_with 200 (StockBody ?wh ?s (Num (sp_qty d)))))" by blast
qed simp_all

lemma inventory_write_gate_witness:
  "fst (handle demo_api (PutInventory (Inr \<lparr>sp_warehouseId = ''w'', sp_sku = ''s'', sp_qty = 3\<rparr>)) anonymous (demo_web demo_accounts))
      = Some (reply_with 401 login_to_update)
   \<and> fst (handle demo_api (PutInventory (Inr \<lparr>sp_warehouseId = ''w'', sp_sku = ''s'', sp_qty = 3\<rparr>)) demo_request (demo_web demo_accounts))
      = Some (reply_with 204 NoBody)"
proof -
  have deps: "dp_redis (ap_deps demo_api) = InMemoryRedis" by simp
  have ok: "mem_ok (co_redis (wb_world (demo_web demo_accounts)))" by (simp add: demo_world_parts)
  show ?thesis
    using inventory_write_gate [OF mem.stock_redis_axioms deps ok, of anonymous "Inr \<lparr>sp_warehouseId = ''w'', sp_sku = ''s'', sp_qty = 3\<rparr>"]
      inventory_write_gate [OF mem.stock_redis_axioms deps ok, of demo_request "Inl JNull" JNull "\<lparr>sp_warehouseId = ''w'', sp_sku = ''s'', sp_qty = 3\<rparr>"]
    by (auto simp: anonymous_asking demo_asking simp del: handle.simps)
qed

section \<open>Accounts\<close>

lemma session_cookie_run:
  "session_cookie P req i w =
     (let token = createSessionToken (ap_auth P) i (env_now (api_env P) (co_ticks (wb_world w))) (wb_dev w) in
      (Inr (serializeSessionCookie (fst token) (rq_secure req)),
       w\<lparr>wb_world := (wb_world w)\<lparr>co_ticks := Suc (co_ticks (wb_world w))\<rparr>, wb_dev := snd token\<rparr>))"
  by (simp add: session_cookie_def web_acts Let_def split: prod.splits)

lemma session_cookie_keeps: "\<exists>cookie w'. session_cookie P req i w = (Inr cookie, w') \<and> wb_businesses w' = wb_businesses w"
  by (simp add: session_cookie_run Let_def)

definition registered :: "register_payload \<Rightarrow> string \<Rightarrow> string \<Rightarrow> int \<Rightarrow> business" where
  "registered d hash i now =
     \<lparr>bu_id = i, bu_email = rg_email d, bu_passwordHash = hash,
      bu_businessName = rg_businessName d, bu_businessType = rg_businessType d,
      bu_description = rg_description d, bu_accentColor = rg_accentColor d,
      bu_createdAt = now, bu_updatedAt = now\<rparr>"

lemma register_run:
  assumes S: "business_store S biz ok valid_id" and P: "ap_businesses P = S"
    and ok: "ok (wb_businesses w)" and new: "\<forall>b \<in> ran (biz (wb_businesses w)). bu_email b \<noteq> rg_email d"
    and i: "i = env_uuid (api_env P) (co_uuids (wb_world w))" "valid_id i" "biz (wb_businesses w) i = None"
    and b_def: "b = registered d (hashPassword (ap_scrypt P) saltBytes (rg_password d)) i
      (env_now (api_env P) (co_ticks (wb_world w)))"
  shows "\<exists>cookie w'. register_business P (Inr d) saltBytes req w =
      (Inr \<lparr>rp_status = 201, rp_setCookie = Some cookie, rp_location = None, rp_body = Account (toPublic b)\<rparr>, w') \<and>
    ok (wb_businesses w') \<and> biz (wb_businesses w') = (biz (wb_businesses w))(i \<mapsto> b)"
proof -
  have key: "bu_id b = i" "bu_email b = rg_email d" by (simp_all add: b_def registered_def)
  have taken: "bz_getByEmail S (rg_email d) (wb_businesses w) = (Inr None, wb_businesses w)"
    using business_store.getByEmail_unknown [OF S ok] new by blast
  obtain st' where st': "bz_create S b (wb_businesses w) = (Inr (), st')" "ok st'"
      "biz st' = (biz (wb_businesses w))(i \<mapsto> b)"
    using business_store.create_law [OF S ok, of b] i(2,3) new key by auto
  let ?w1 = "w\<lparr>wb_world := (wb_world w)\<lparr>co_ticks := Suc (co_ticks (wb_world w)),
      co_uuids := Suc (co_uuids (wb_world w))\<rparr>, wb_businesses := st'\<rparr>"
  obtain cookie w' where c: "session_cookie P req i ?w1 = (Inr cookie, w')" "wb_businesses w' = st'"
    using session_cookie_keeps [of P req i ?w1] by auto
  have "register_business P (Inr d) saltBytes req w =
      (Inr \<lparr>rp_status = 201, rp_setCookie = Some cookie, rp_location = None, rp_body = Account (toPublic b)\<rparr>, w')"
    using taken st'(1) c(1) i(1) key(1)
    by (simp add: register_business_def bind_apply in_businesses_apply in_world_apply P date_now_def random_uuid_def
        Let_def b_def registered_def)
  then show ?thesis using st'(2,3) c(2) by blast
qed

lemma login_run:
  assumes S: "business_store S biz ok valid_id" and P: "ap_businesses P = S" and ok: "ok (wb_businesses w)"
    and b: "biz (wb_businesses w) i = Some b" "bu_email b = lg_email g"
  shows "\<exists>cookie w'. login_business P (Inr g) req w =
      (Inr (if verifyPassword (ap_scrypt P) (lg_password g) (bu_passwordHash b)
            then \<lparr>rp_status = 200, rp_setCookie = Some cookie, rp_location = None, rp_body = Account (toPublic b)\<rparr>
            else reply_with 401 invalid_credentials), w')"
proof -
  have same: "w\<lparr>wb_businesses := wb_businesses w\<rparr> = w" by simp
  have found: "bz_getByEmail S (lg_email g) (wb_businesses w) = (Inr (Some b), wb_businesses w)"
    using business_store.getByEmail_known [OF S ok b] .
  obtain cookie w' where "session_cookie P req (bu_id b) w = (Inr cookie, w')"
    using session_cookie_keeps by blast
  then show ?thesis
    using found same by (auto simp: login_business_def bind_apply in_businesses_apply P)
qed

lemma login_unknown:
  assumes "business_store S biz ok valid_id" "ap_businesses P = S" "ok (wb_businesses w)"
    "\<forall>c \<in> ran (biz (wb_businesses w)). bu_email c \<noteq> lg_email g"
  shows "login_business P (Inr g) req w = (Inr (reply_with 401 invalid_credentials), w)"
proof -
  have "w\<lparr>wb_businesses := wb_businesses w\<rparr> = w" by simp
  then show ?thesis
    using business_store.getByEmail_unknown [OF assms(1,3,4)] assms(2)
    by (simp add: login_business_def bind_apply in_businesses_apply)
qed

lemma register_taken:
  assumes "business_store S biz ok valid_id" "ap_businesses P = S" "ok (wb_businesses w)"
    "biz (wb_businesses w) i = Some b" "bu_email b = rg_email d"
  shows "register_business P (Inr d) salt req w = (Inr (reply_with 409 email_taken), w)"
proof -
  have "w\<lparr>wb_businesses := wb_businesses w\<rparr> = w" by simp
  then show ?thesis
    using business_store.getByEmail_known [OF assms(1,3,4,5)] assms(2)
    by (simp add: register_business_def bind_apply in_businesses_apply)
qed

text \<open>C24: Registration and login, on every business store. Registering an email nobody has is answered 201 with
  the public account and a session cookie for it, and stores the account; registering the email again is
  answered 409 and stores nothing; logging in with the email is answered 200 with the account and a cookie
  when the password is the registered one (up to collisions of scrypt) and 401 otherwise, with the same
  answer for an email nobody has.\<close>

theorem register_then_login:
  assumes S: "business_store S biz ok valid_id" and P: "ap_businesses P = S"
    and ok: "ok (wb_businesses w)" and new: "\<forall>b \<in> ran (biz (wb_businesses w)). bu_email b \<noteq> rg_email d"
    and i: "i = env_uuid (api_env P) (co_uuids (wb_world w))" "valid_id i" "biz (wb_businesses w) i = None"
    and scrypt: "\<forall>p s. ap_scrypt P p s \<noteq> []" "saltBytes \<noteq> []"
  shows "\<exists>w' b cookie. handle P (Register (Inr d) saltBytes) req w =
        (Some \<lparr>rp_status = 201, rp_setCookie = Some cookie, rp_location = None, rp_body = Account (toPublic b)\<rparr>, w')
    \<and> bu_id b = i \<and> bu_email b = rg_email d \<and> bu_businessName b = rg_businessName d
    \<and> biz (wb_businesses w') = (biz (wb_businesses w))(i \<mapsto> b)
    \<and> (\<forall>d' salt' req'. rg_email d' = rg_email d \<longrightarrow>
         handle P (Register (Inr d') salt') req' w' = (Some (reply_with 409 email_taken), w'))
    \<and> (\<forall>req' g. lg_email g = rg_email d \<longrightarrow>
         (\<exists>cookie' w''. handle P (Login (Inr g)) req' w' =
           (Some (if ap_scrypt P (lg_password g) (hex_encode saltBytes) = ap_scrypt P (rg_password d) (hex_encode saltBytes)
                  then \<lparr>rp_status = 200, rp_setCookie = Some cookie', rp_location = None, rp_body = Account (toPublic b)\<rparr>
                  else reply_with 401 invalid_credentials), w'')))
    \<and> (\<forall>req' g. (\<forall>c \<in> ran (biz (wb_businesses w')). bu_email c \<noteq> lg_email g) \<longrightarrow>
         handle P (Login (Inr g)) req' w' = (Some (reply_with 401 invalid_credentials), w'))"
proof -
  let ?b = "registered d (hashPassword (ap_scrypt P) saltBytes (rg_password d)) i
      (env_now (api_env P) (co_ticks (wb_world w)))"
  obtain cookie w' where r: "register_business P (Inr d) saltBytes req w =
      (Inr \<lparr>rp_status = 201, rp_setCookie = Some cookie, rp_location = None, rp_body = Account (toPublic ?b)\<rparr>, w')"
    "ok (wb_businesses w')" "biz (wb_businesses w') = (biz (wb_businesses w))(i \<mapsto> ?b)"
    using register_run [OF S P ok new i refl] by blast
  have key: "bu_id ?b = i" "bu_email ?b = rg_email d" "bu_businessName ?b = rg_businessName d"
    "bu_passwordHash ?b = hashPassword (ap_scrypt P) saltBytes (rg_password d)"
    by (simp_all add: registered_def)
  have at: "biz (wb_businesses w') i = Some ?b" using r(3) by simp
  have again: "handle P (Register (Inr d') salt') req' w' = (Some (reply_with 409 email_taken), w')"
    if "rg_email d' = rg_email d" for d' salt' req'
    using register_taken [OF S P r(2) at, of d'] key(2) that by simp
  have login: "\<exists>cookie' w''. handle P (Login (Inr g)) req' w' =
      (Some (if ap_scrypt P (lg_password g) (hex_encode saltBytes) = ap_scrypt P (rg_password d) (hex_encode saltBytes)
             then \<lparr>rp_status = 200, rp_setCookie = Some cookie', rp_location = None, rp_body = Account (toPublic ?b)\<rparr>
             else reply_with 401 invalid_credentials), w'')" if "lg_email g = rg_email d" for g req'
  proof -
    have email: "bu_email ?b = lg_email g" by (simp add: key(2) that)
    obtain c x where "login_business P (Inr g) req' w' =
        (Inr (if verifyPassword (ap_scrypt P) (lg_password g) (bu_passwordHash ?b)
            then \<lparr>rp_status = 200, rp_setCookie = Some c, rp_location = None, rp_body = Account (toPublic ?b)\<rparr>
            else reply_with 401 invalid_credentials), x)"
      using login_run [OF S P r(2) at email, of req'] by blast
    then show ?thesis
      unfolding key(4) verify_hashed [OF scrypt(2,1)] by (intro exI [of _ c] exI [of _ x]) simp
  qed
  have unknown: "handle P (Login (Inr g)) req' w' = (Some (reply_with 401 invalid_credentials), w')"
    if "\<forall>c \<in> ran (biz (wb_businesses w')). bu_email c \<noteq> lg_email g" for g req'
    using login_unknown [OF S P r(2) that] by simp
  show ?thesis
    using r(1,3) key again login unknown
    by (intro exI [of _ w'] exI [of _ ?b] exI [of _ cookie]) simp
qed

lemma register_then_login_witness:
  "\<exists>w' b cookie. handle demo_api (Register (Inr \<lparr>rg_email = ''new@x'', rg_password = ''password'', rg_businessName = ''n'',
        rg_businessType = B2C, rg_description = [], rg_accentColor = ''#9fd3ff''\<rparr>) ''salt'') anonymous (demo_web demo_accounts) =
      (Some \<lparr>rp_status = 201, rp_setCookie = Some cookie, rp_location = None, rp_body = Account (toPublic b)\<rparr>, w')
    \<and> fst (handle demo_api (Login (Inr \<lparr>lg_email = ''new@x'', lg_password = ''other''\<rparr>)) anonymous w') =
        Some (reply_with 401 invalid_credentials)"
proof -
  let ?d = "\<lparr>rg_email = ''new@x'', rg_password = ''password'', rg_businessName = ''n'',
        rg_businessType = B2C, rg_description = [], rg_accentColor = ''#9fd3ff''\<rparr>"
  let ?w = "demo_web demo_accounts"
  have P: "ap_businesses demo_api = InMemoryBusinessStore" by simp
  have ok: "imb_ok (wb_businesses ?w)" by (simp add: demo_accounts_ok)
  have new: "\<forall>b \<in> ran (jget (bm_byId (wb_businesses ?w))). bu_email b \<noteq> rg_email ?d"
    by (auto simp: ran_def demo_accounts_def demo_account_b1_def split: if_splits)
  have i: "''id-'' = env_uuid (api_env demo_api) (co_uuids (wb_world ?w))" "''id-'' \<noteq> []"
    "jget (bm_byId (wb_businesses ?w)) ''id-'' = None"
    by (simp_all add: demo_world_parts demo_env_def demo_accounts_def)
  have scrypt: "\<forall>p s. ap_scrypt demo_api p s \<noteq> []" "''salt'' \<noteq> []" by simp_all
  obtain w' b cookie where r: "handle demo_api (Register (Inr ?d) ''salt'') anonymous ?w =
      (Some \<lparr>rp_status = 201, rp_setCookie = Some cookie, rp_location = None, rp_body = Account (toPublic b)\<rparr>, w')"
    "\<forall>req' g. lg_email g = rg_email ?d \<longrightarrow>
         (\<exists>cookie' w''. handle demo_api (Login (Inr g)) req' w' =
           (Some (if ap_scrypt demo_api (lg_password g) (hex_encode ''salt'') = ap_scrypt demo_api (rg_password ?d) (hex_encode ''salt'')
                  then \<lparr>rp_status = 200, rp_setCookie = Some cookie', rp_location = None, rp_body = Account (toPublic b)\<rparr>
                  else reply_with 401 invalid_credentials), w''))"
    using register_then_login [OF imb.business_store_axioms P ok new i scrypt, of anonymous] by blast
  have "fst (handle demo_api (Login (Inr \<lparr>lg_email = ''new@x'', lg_password = ''other''\<rparr>)) anonymous w') =
      Some (reply_with 401 invalid_credentials)"
    using r(2) [rule_format, of "\<lparr>lg_email = ''new@x'', lg_password = ''other''\<rparr>" anonymous] by auto
  with r(1) show ?thesis by blast
qed

section \<open>Sessions end to end\<close>

lemma get_me_known:
  assumes "business_store S biz ok valid_id" "ap_businesses P = S" "ok (wb_businesses w)"
    "asking P req w = Some i" "biz (wb_businesses w) i = Some b"
  shows "handle P Me req w = (Some (reply_with 200 (Account (toPublic b))), asked P req w)"
proof -
  have v: "valid_id i" using business_store.id_law [OF assms(1,3,5)] by simp
  have same: "asked P req w\<lparr>wb_businesses := wb_businesses w\<rparr> = asked P req w" by (simp add: asked_def)
  show ?thesis
    using business_store.getById_law [OF assms(1,3) v] assms(2,4,5) same
    by (simp add: get_me_def bind_apply request_business_run in_businesses_apply asyncHandler_def)
qed

lemma get_me_unknown:
  assumes "business_store S biz ok valid_id" "ap_businesses P = S" "ok (wb_businesses w)"
    "asking P req w = None \<or> (\<exists>i. asking P req w = Some i \<and> valid_id i \<and> biz (wb_businesses w) i = None)"
  shows "handle P Me req w = (Some (reply_with 401 unauthenticated), asked P req w)"
  using assms(4)
proof
  assume "asking P req w = None"
  then show ?thesis by (simp add: get_me_def bind_apply request_business_run asyncHandler_def)
next
  assume "\<exists>i. asking P req w = Some i \<and> valid_id i \<and> biz (wb_businesses w) i = None"
  then obtain i where i: "asking P req w = Some i" "valid_id i" "biz (wb_businesses w) i = None" by blast
  have same: "asked P req w\<lparr>wb_businesses := wb_businesses w\<rparr> = asked P req w" by (simp add: asked_def)
  show ?thesis
    using business_store.getById_law [OF assms(1,3) i(2)] assms(2) i same
    by (simp add: get_me_def bind_apply request_business_run in_businesses_apply asyncHandler_def)
qed

text \<open>C23: A session from login to logout. The cookie a successful login sets, sent back by the browser, makes
  every request - GET /auth/me among them - one of the account logged into, until thirty days after the
  login and not later; the cookie logout sets makes the request anonymous.\<close>

theorem session_end_to_end:
  assumes "business_store S biz ok valid_id" and "ap_businesses P = S" and "ok (wb_businesses w)"
    and "biz (wb_businesses w) i = Some b" and "bu_email b = lg_email g"
    and "verifyPassword (ap_scrypt P) (lg_password g) (bu_passwordHash b)"
    and "i \<noteq> []" and "CHR ''.'' \<notin> set i" and "\<forall>c \<in> set i. (of_char c :: nat) < 128"
    and "au_randomBytes (ap_auth P) \<noteq> []" and "\<forall>k p. au_hmac (ap_auth P) k p \<noteq> []"
  shows "(\<exists>cookie w'. handle P (Login (Inr g)) req w =
        (Some \<lparr>rp_status = 200, rp_setCookie = Some cookie, rp_location = None, rp_body = Account (toPublic b)\<rparr>, w')
      \<and> (\<forall>req' later. rq_cookie req' = Some (kept_cookie cookie) \<and> wb_dev later = wb_dev w' \<longrightarrow>
           asking P req' later =
             (if env_now (api_env P) (co_ticks (wb_world later))
                 \<le> env_now (api_env P) (co_ticks (wb_world w)) + SESSION_TTL_MS
              then Some i else None)
           \<and> (wb_businesses later = wb_businesses w \<longrightarrow>
                fst (handle P Me req' later) =
                  Some (if env_now (api_env P) (co_ticks (wb_world later))
                           \<le> env_now (api_env P) (co_ticks (wb_world w)) + SESSION_TTL_MS
                        then reply_with 200 (Account (toPublic b))
                        else reply_with 401 unauthenticated))))
    \<and> (\<forall>req' req'' later. rq_cookie req'' = map_option kept_cookie (rp_setCookie (logout_business req')) \<longrightarrow>
         asking P req'' later = None)"
proof
  let ?t = "env_now (api_env P) (co_ticks (wb_world w))"
  let ?token = "createSessionToken (ap_auth P) i ?t (wb_dev w)"
  let ?w' = "w\<lparr>wb_world := (wb_world w)\<lparr>co_ticks := Suc (co_ticks (wb_world w))\<rparr>, wb_dev := snd ?token\<rparr>"
  let ?cookie = "serializeSessionCookie (fst ?token) (rq_secure req)"
  have bi: "bu_id b = i" using business_store.id_law [OF assms(1,3,4)] by simp
  have same: "w\<lparr>wb_businesses := wb_businesses w\<rparr> = w" by simp
  have login: "handle P (Login (Inr g)) req w =
      (Some \<lparr>rp_status = 200, rp_setCookie = Some ?cookie, rp_location = None, rp_body = Account (toPublic b)\<rparr>, ?w')"
    using business_store.getByEmail_known [OF assms(1,3,4,5)] assms(2,6) same
    by (simp add: login_business_def bind_apply in_businesses_apply session_cookie_run bi asyncHandler_def Let_def)
  have session: "asking P req' later =
        (if env_now (api_env P) (co_ticks (wb_world later)) \<le> ?t + SESSION_TTL_MS then Some i else None)"
    if "rq_cookie req' = Some (kept_cookie ?cookie)" "wb_dev later = wb_dev ?w'" for req' later
    using that(1) that(2)
    by (intro asking_with_token [OF _ _ assms(7-11)]) (simp_all add: kept_cookie_def first_attribute)
  have me: "fst (handle P Me req' later) =
        Some (if env_now (api_env P) (co_ticks (wb_world later)) \<le> ?t + SESSION_TTL_MS
              then reply_with 200 (Account (toPublic b)) else reply_with 401 unauthenticated)"
    if "rq_cookie req' = Some (kept_cookie ?cookie)" "wb_dev later = wb_dev ?w'" "wb_businesses later = wb_businesses w"
    for req' later
  proof (cases "env_now (api_env P) (co_ticks (wb_world later)) \<le> ?t + SESSION_TTL_MS")
    case True
    then have "asking P req' later = Some i" using session [OF that(1,2)] by simp
    from get_me_known [OF assms(1,2) _ this] show ?thesis using True that(3) assms(3,4) by simp
  next
    case False
    then have "asking P req' later = None" using session [OF that(1,2)] by simp
    from get_me_unknown [OF assms(1,2) _ disjI1 [OF this]] show ?thesis using False that(3) assms(3) by simp
  qed
  show "\<exists>cookie w'. handle P (Login (Inr g)) req w =
        (Some \<lparr>rp_status = 200, rp_setCookie = Some cookie, rp_location = None, rp_body = Account (toPublic b)\<rparr>, w')
      \<and> (\<forall>req' later. rq_cookie req' = Some (kept_cookie cookie) \<and> wb_dev later = wb_dev w' \<longrightarrow>
           asking P req' later = (if env_now (api_env P) (co_ticks (wb_world later)) \<le> ?t + SESSION_TTL_MS
              then Some i else None)
           \<and> (wb_businesses later = wb_businesses w \<longrightarrow>
                fst (handle P Me req' later) =
                  Some (if env_now (api_env P) (co_ticks (wb_world later)) \<le> ?t + SESSION_TTL_MS
                        then reply_with 200 (Account (toPublic b))
                        else reply_with 401 unauthenticated)))"
    using login session me by blast
next
  have "jget (parseCookies (Some (cookie_pair SESSION_COOKIE_NAME []))) SESSION_COOKIE_NAME = Some []"
    by (rule parse_session_pair) simp
  then show "\<forall>req' req'' later. rq_cookie req'' = map_option kept_cookie (rp_setCookie (logout_business req')) \<longrightarrow>
       asking P req'' later = None"
    by (simp add: logout_business_def kept_cookie_def first_attribute asking_def currentBusinessId_def
        verifySessionToken_def truthy_def)
qed

lemma session_end_to_end_witness:
  "\<exists>cookie w'. handle demo_api (Login (Inr \<lparr>lg_email = ''e@x'', lg_password = ''pw''\<rparr>)) anonymous (demo_web demo_accounts) =
      (Some \<lparr>rp_status = 200, rp_setCookie = Some cookie, rp_location = None, rp_body = Account (toPublic demo_account_b1)\<rparr>, w')
    \<and> asking demo_api \<lparr>rq_cookie = Some (kept_cookie cookie), rq_secure = True\<rparr> w' = Some ''b1''"
proof -
  let ?g = "\<lparr>lg_email = ''e@x'', lg_password = ''pw''\<rparr>"
  let ?w = "demo_web demo_accounts"
  have P: "ap_businesses demo_api = InMemoryBusinessStore" by simp
  have ok: "imb_ok (wb_businesses ?w)" by (simp add: demo_accounts_ok)
  have b: "jget (bm_byId (wb_businesses ?w)) ''b1'' = Some demo_account_b1" "bu_email demo_account_b1 = lg_email ?g"
    by (simp_all add: demo_accounts_def demo_account_b1_def)
  have pw: "verifyPassword (ap_scrypt demo_api) (lg_password ?g) (bu_passwordHash demo_account_b1)"
    using verify_hashed [of "''salt''" "\<lambda>p s. CHR ''k'' # p" "''pw''" "''pw''"] by (simp add: demo_account_b1_def)
  have i: "''b1'' \<noteq> []" "CHR ''.'' \<notin> set ''b1''" "\<forall>c \<in> set ''b1''. (of_char c :: nat) < 128" by simp_all
  have auth: "au_randomBytes (ap_auth demo_api) \<noteq> []" "\<forall>k p. au_hmac (ap_auth demo_api) k p \<noteq> []"
    using demo_auth_ok by simp_all
  obtain cookie w' where r: "handle demo_api (Login (Inr ?g)) anonymous ?w =
      (Some \<lparr>rp_status = 200, rp_setCookie = Some cookie, rp_location = None, rp_body = Account (toPublic demo_account_b1)\<rparr>, w')"
    "\<forall>req' later. rq_cookie req' = Some (kept_cookie cookie) \<and> wb_dev later = wb_dev w' \<longrightarrow>
       asking demo_api req' later = (if env_now (api_env demo_api) (co_ticks (wb_world later))
          \<le> env_now (api_env demo_api) (co_ticks (wb_world ?w)) + SESSION_TTL_MS then Some ''b1'' else None)"
    using session_end_to_end [OF imb.business_store_axioms P ok b pw i auth, of anonymous] by blast
  have ticks: "co_ticks (wb_world w') = 1"
    using r(1) b pw
    by (auto simp: login_business_def asyncHandler_def bind_apply in_businesses_apply InMemoryBusinessStore_def
        imb_getByEmail_def demo_accounts_def session_cookie_run demo_world_parts Let_def split: if_splits)
  show ?thesis
    using r ticks by (intro exI [of _ cookie] exI [of _ w']) (simp add: demo_env_def SESSION_TTL_MS_def demo_world_parts)
qed

text \<open>Profile updates. Without a session 401; with one, a rejected payload 400; an accepted one is stored
  and answered 200 with the patched account, and changes neither its email nor its password. A session
  whose account no longer exists - the token outlives a restart of the in-memory store when SESSION_SECRET is set - is 401 for GET
  /auth/me but a 500 for PATCH /business/profile.\<close>

theorem profile_update:
  assumes "business_store S biz ok valid_id" and "ap_businesses P = S" and "ok (wb_businesses w)"
  shows "(asking P req w = None \<longrightarrow>
      handle P (PatchProfile parsed) req w = (Some (reply_with 401 unauthenticated), asked P req w))
    \<and> (\<forall>i. asking P req w = Some i \<longrightarrow>
        handle P (PatchProfile (Inl e)) req w = (Some (reply_with 400 (InvalidPayload e)), asked P req w))
    \<and> (\<forall>i b p. asking P req w = Some i \<and> biz (wb_businesses w) i = Some b \<longrightarrow>
        (\<exists>w' now. handle P (PatchProfile (Inr p)) req w = (Some (reply_with 200 (Account (toPublic (apply_patch p now b)))), w')
          \<and> biz (wb_businesses w') = (biz (wb_businesses w))(i \<mapsto> apply_patch p now b)
          \<and> bu_email (apply_patch p now b) = bu_email b
          \<and> bu_passwordHash (apply_patch p now b) = bu_passwordHash b))
    \<and> (\<forall>i p. asking P req w = Some i \<and> valid_id i \<and> biz (wb_businesses w) i = None \<longrightarrow>
        fst (handle P (PatchProfile (Inr p)) req w) = Some (reply_with 500 (InternalError (UnknownBusiness i)))
        \<and> fst (handle P Me req w) = Some (reply_with 401 unauthenticated))"
proof (intro conjI allI impI)
  fix i b p
  assume a: "asking P req w = Some i \<and> biz (wb_businesses w) i = Some b"
  have v: "valid_id i" using business_store.id_law [OF assms(1,3)] a by blast
  let ?now = "env_now (api_env P) (Suc (co_ticks (wb_world w)))"
  obtain st' where st': "bz_update S i p ?now (wb_businesses w) = (Inr (apply_patch p ?now b), st')"
      "biz st' = (biz (wb_businesses w))(i \<mapsto> apply_patch p ?now b)"
    using business_store.update_law [OF assms(1,3) v] a by blast
  then show "\<exists>w' now. handle P (PatchProfile (Inr p)) req w = (Some (reply_with 200 (Account (toPublic (apply_patch p now b)))), w')
      \<and> biz (wb_businesses w') = (biz (wb_businesses w))(i \<mapsto> apply_patch p now b)
      \<and> bu_email (apply_patch p now b) = bu_email b \<and> bu_passwordHash (apply_patch p now b) = bu_passwordHash b"
    using a assms(2)
    by (intro exI [of _ "asked P req w\<lparr>wb_world := (wb_world (asked P req w))\<lparr>co_ticks := Suc (Suc (co_ticks (wb_world w)))\<rparr>,
          wb_businesses := st'\<rparr>"] exI [of _ ?now])
       (simp add: patch_profile_def bind_apply request_business_run in_businesses_apply in_world_apply date_now_def asyncHandler_def)
next
  fix i p
  assume a: "asking P req w = Some i \<and> valid_id i \<and> biz (wb_businesses w) i = None"
  have "bz_update S i p now (wb_businesses w) = (Inl (UnknownBusiness i), wb_businesses w)" for now
    using business_store.update_unknown [OF assms(1,3)] a by blast
  then show "fst (handle P (PatchProfile (Inr p)) req w) = Some (reply_with 500 (InternalError (UnknownBusiness i)))"
    using a assms(2)
    by (simp add: patch_profile_def bind_apply request_business_run in_businesses_apply in_world_apply date_now_def
        asyncHandler_def last_resort_def)
  show "fst (handle P Me req w) = Some (reply_with 401 unauthenticated)"
    using get_me_unknown [OF assms(1-3)] a by simp
qed (simp_all add: patch_profile_def bind_apply request_business_run asyncHandler_def)

lemma profile_update_witness:
  "fst (handle demo_api (PatchProfile (Inr \<lparr>pp_businessName = Some ''m'', pp_businessType = None, pp_description = None,
       pp_accentColor = None\<rparr>)) demo_request (demo_web new_business_maps)) =
     Some (reply_with 500 (InternalError (UnknownBusiness ''b1'')))
   \<and> fst (handle demo_api Me demo_request (demo_web new_business_maps)) = Some (reply_with 401 unauthenticated)"
proof -
  have P: "ap_businesses demo_api = InMemoryBusinessStore" by simp
  have ok: "imb_ok (wb_businesses (demo_web new_business_maps))" by simp
  have none: "jget (bm_byId (wb_businesses (demo_web new_business_maps))) ''b1'' = None" by (simp add: new_business_maps_def)
  show ?thesis
    using profile_update [OF imb.business_store_axioms P ok, of demo_request "Inl JNull" JNull] demo_asking [of new_business_maps] none
    by (auto simp del: handle.simps)
qed

end
