(* ===== verification/Warehouse.thy ===== *)
theory Warehouse
  imports Event_Bus
begin

text \<open>
  \<open>src/warehouse/warehouseSync.ts\<close>: warehouse nodes as consumers of the stock events on the
  in-memory bus. A handler is named by its node's id; the nodes are the owners' state.
\<close>

section \<open>WarehouseNode\<close>

definition STOCK_EVENTS_TOPIC :: string where
  "STOCK_EVENTS_TOPIC = ''stock-events''"

record warehouse_node =
  wn_localStock :: "(string, jsnum) jmap"
  wn_connected :: bool
  wn_appliedCount :: nat

type_synonym nodes = "(string, warehouse_node) jmap"
type_synonym warehouse_state = "(string, nodes) bus_state"

definition fresh_node :: warehouse_node where
  "fresh_node = \<lparr>wn_localStock = [], wn_connected = True, wn_appliedCount = 0\<rparr>"

definition payload_sku :: "json \<Rightarrow> string" where
  "payload_sku j = (case json_field j ''sku'' of Some (JStr s) \<Rightarrow> s | _ \<Rightarrow> ''undefined'')"

definition payload_delta :: "json \<Rightarrow> jsnum" where
  "payload_delta j = (case json_field j ''delta'' of Some (JNum n) \<Rightarrow> n | _ \<Rightarrow> NaN)"

definition node_get :: "string \<Rightarrow> warehouse_node \<Rightarrow> jsnum" where
  "node_get sku n = (case jget (wn_localStock n) sku of None \<Rightarrow> Num 0 | Some q \<Rightarrow> q)"

definition appliedEventCount :: "warehouse_node \<Rightarrow> nat" where
  "appliedEventCount n = wn_appliedCount n"

definition apply_event :: "domain_event \<Rightarrow> warehouse_node \<Rightarrow> warehouse_node" where
  "apply_event ev n =
     (let sku = payload_sku (de_payload ev); delta = payload_delta (de_payload ev); current = node_get sku n in
      n\<lparr>wn_localStock := jset sku (js_add current delta) (wn_localStock n),
        wn_appliedCount := wn_appliedCount n + 1\<rparr>)"

text \<open>The subscription callback: a disconnected node leaves the event unread.\<close>

definition on_stock_event :: "string \<Rightarrow> domain_event \<Rightarrow> nodes \<Rightarrow> nodes" where
  "on_stock_event nodeId ev ns =
     (case jget ns nodeId of
        None \<Rightarrow> ns
      | Some n \<Rightarrow> if \<not> wn_connected n then ns else jset nodeId (apply_event ev n) ns)"

definition node_handler :: "(string, nodes) handling" where
  "node_handler nodeId ev s = (Inr (), (fst s, on_stock_event nodeId ev (snd s)))"

definition node_group :: "string \<Rightarrow> string" where
  "node_group nodeId = ''warehouse-node:'' @ nodeId"

definition new_node :: "string \<Rightarrow> warehouse_state \<Rightarrow> warehouse_state" where
  "new_node nodeId s =
     (subscribe STOCK_EVENTS_TOPIC (node_group nodeId) nodeId (fst s), jset nodeId fresh_node (snd s))"

definition disconnect_node :: "warehouse_node \<Rightarrow> warehouse_node" where
  "disconnect_node n = n\<lparr>wn_connected := False\<rparr>"

definition reconnect_node :: "string bus \<Rightarrow> warehouse_node \<Rightarrow> warehouse_node" where
  "reconnect_node b n =
     (let missed = drop (wn_appliedCount n) (history STOCK_EVENTS_TOPIC b) in
      fold apply_event missed (n\<lparr>wn_connected := True\<rparr>))"

definition stock_event :: "string \<Rightarrow> int \<Rightarrow> string \<Rightarrow> int \<Rightarrow> domain_event" where
  "stock_event sku delta reason now =
     \<lparr>de_type = ''stock.changed'',
      de_payload = JObj [(''sku'', JStr sku), (''delta'', JNum (Num delta)), (''reason'', JStr reason)],
      de_at = now, de_key = None\<rparr>"

definition emitStockChange ::
  "string \<Rightarrow> int \<Rightarrow> string \<Rightarrow> int \<Rightarrow> warehouse_state \<Rightarrow> ((js_error + unit) \<times> warehouse_state) option" where
  "emitStockChange sku delta reason now s =
     publish node_handler STOCK_EVENTS_TOPIC (stock_event sku delta reason now) s"

section \<open>Runs of a warehouse network\<close>

datatype warehouse_op =
    Emit string int string int
  | Disconnect string
  | Reconnect string

definition on_node :: "string \<Rightarrow> (warehouse_node \<Rightarrow> warehouse_node) \<Rightarrow> nodes \<Rightarrow> nodes" where
  "on_node nodeId f ns = (case jget ns nodeId of None \<Rightarrow> ns | Some n \<Rightarrow> jset nodeId (f n) ns)"

fun warehouse_step :: "warehouse_op \<Rightarrow> warehouse_state \<Rightarrow> warehouse_state option" where
  "warehouse_step (Emit sku delta reason now) s = map_option snd (emitStockChange sku delta reason now s)"
| "warehouse_step (Disconnect i) s = Some (fst s, on_node i disconnect_node (snd s))"
| "warehouse_step (Reconnect i) s = Some (fst s, on_node i (reconnect_node (fst s)) (snd s))"

fun warehouse_run :: "warehouse_op list \<Rightarrow> warehouse_state \<Rightarrow> warehouse_state option" where
  "warehouse_run [] s = Some s"
| "warehouse_run (x # xs) s = (case warehouse_step x s of None \<Rightarrow> None | Some s' \<Rightarrow> warehouse_run xs s')"

definition build_nodes :: "string list \<Rightarrow> warehouse_state" where
  "build_nodes ids = fold new_node ids (new_bus, [])"

fun emitted :: "warehouse_op list \<Rightarrow> domain_event list" where
  "emitted [] = []"
| "emitted (Emit sku delta reason now # xs) = stock_event sku delta reason now # emitted xs"
| "emitted (_ # xs) = emitted xs"

section \<open>What a node holds\<close>

text \<open>The level a log of events gives a sku.\<close>

definition add_event :: "string \<Rightarrow> domain_event \<Rightarrow> jsnum \<Rightarrow> jsnum" where
  "add_event sku ev x = (if payload_sku (de_payload ev) = sku then js_add x (payload_delta (de_payload ev)) else x)"

definition level :: "string \<Rightarrow> domain_event list \<Rightarrow> jsnum" where
  "level sku evs = fold (add_event sku) evs (Num 0)"

lemma node_get_apply: "node_get sku (apply_event ev n) = add_event sku ev (node_get sku n)"
  by (simp add: node_get_def apply_event_def add_event_def Let_def)

lemma apply_event_fields [simp]:
  "wn_connected (apply_event ev n) = wn_connected n"
  "wn_appliedCount (apply_event ev n) = Suc (wn_appliedCount n)"
  by (simp_all add: apply_event_def Let_def)

lemma apply_events_fields:
  "wn_connected (fold apply_event evs n) = wn_connected n"
  "wn_appliedCount (fold apply_event evs n) = wn_appliedCount n + length evs"
  "node_get sku (fold apply_event evs n) = fold (add_event sku) evs (node_get sku n)"
  by (induction evs arbitrary: n) (simp_all add: node_get_apply)

lemma node_get_fresh [simp]: "node_get sku fresh_node = Num 0"
  by (simp add: node_get_def fresh_node_def)

lemma node_get_connected [simp]: "node_get sku (n\<lparr>wn_connected := c\<rparr>) = node_get sku n"
  by (simp add: node_get_def)

text \<open>
  A node agrees with a log when it has applied a prefix of it, each event once and in order;
  a connected node has applied it all.
\<close>

definition node_agrees :: "domain_event list \<Rightarrow> warehouse_node \<Rightarrow> bool" where
  "node_agrees log n \<longleftrightarrow>
     wn_appliedCount n \<le> length log \<and>
     (wn_connected n \<longrightarrow> wn_appliedCount n = length log) \<and>
     (\<forall>sku. node_get sku n = level sku (take (wn_appliedCount n) log))"

lemma node_agrees_fresh [simp]: "node_agrees [] fresh_node"
  by (simp add: node_agrees_def level_def) (simp add: fresh_node_def)

lemma node_agrees_apply: "node_agrees log n \<Longrightarrow> wn_connected n \<Longrightarrow> node_agrees (log @ [ev]) (apply_event ev n)"
  by (simp add: node_agrees_def node_get_apply level_def)

lemma node_agrees_miss: "node_agrees log n \<Longrightarrow> \<not> wn_connected n \<Longrightarrow> node_agrees (log @ [ev]) n"
  by (simp add: node_agrees_def)

lemma node_agrees_disconnect: "node_agrees log n \<Longrightarrow> node_agrees log (disconnect_node n)"
  by (simp add: node_agrees_def disconnect_node_def)

lemma node_agrees_reconnect:
  assumes "node_agrees (topic_log b STOCK_EVENTS_TOPIC) n"
  shows "node_agrees (topic_log b STOCK_EVENTS_TOPIC) (reconnect_node b n)"
proof -
  let ?log = "topic_log b STOCK_EVENTS_TOPIC" and ?k = "wn_appliedCount n"
  from assms have k: "?k \<le> length ?log" by (simp add: node_agrees_def)
  have "node_get sku (reconnect_node b n) = level sku ?log" for sku
  proof -
    have "node_get sku (reconnect_node b n) = fold (add_event sku) (drop ?k ?log) (level sku (take ?k ?log))"
      using assms by (simp add: reconnect_node_def history_def apply_events_fields node_agrees_def)
    also have "\<dots> = fold (add_event sku) (take ?k ?log @ drop ?k ?log) (Num 0)"
      by (simp only: level_def fold_append comp_apply)
    finally show ?thesis by (simp add: level_def)
  qed
  then show ?thesis
    using k by (simp add: node_agrees_def reconnect_node_def history_def apply_events_fields Let_def)
qed

section \<open>A network of nodes stays in agreement with the log\<close>

interpretation wh: passive_handlers node_handler on_stock_event
  by unfold_locales (simp add: node_handler_def)

definition node_key :: "string \<Rightarrow> string" where
  "node_key i = group_key STOCK_EVENTS_TOPIC (node_group i)"

definition stock_log :: "warehouse_state \<Rightarrow> domain_event list" where
  "stock_log s = history STOCK_EVENTS_TOPIC (fst s)"

definition network_ok :: "string list \<Rightarrow> warehouse_state \<Rightarrow> bool" where
  "network_ok ids s \<longleftrightarrow>
     \<not> bs_draining (fst s) \<and> jmap_ok (bs_cursors (fst s)) \<and>
     (\<forall>k c. (k, c) \<in> set (bs_cursors (fst s)) \<longrightarrow> c = length (stock_log s) \<and> k \<in> node_key ` set ids) \<and>
     (\<forall>i \<in> set ids. handlers_of (fst s) (node_key i) = [i] \<and> jhas (bs_cursors (fst s)) (node_key i)) \<and>
     (\<forall>i. jhas (snd s) i \<longleftrightarrow> i \<in> set ids) \<and>
     (\<forall>i n. jget (snd s) i = Some n \<longrightarrow> node_agrees (stock_log s) n)"

lemma node_key_inject [simp]: "node_key i = node_key j \<longleftrightarrow> i = j"
  by (simp add: node_key_def group_key_def node_group_def)

lemma node_key_on_topic [simp]: "on_topic STOCK_EVENTS_TOPIC (node_key i)"
  by (simp add: on_topic_def node_key_def splitKey_group_key STOCK_EVENTS_TOPIC_def)

lemma stock_log_simps [simp]:
  "stock_log (b\<lparr>bs_cursors := cs\<rparr>, ns) = topic_log b STOCK_EVENTS_TOPIC"
  by (simp add: stock_log_def history_def topic_log_def)

text \<open>Construction: nodes with distinct ids on an empty log.\<close>

lemma subscribe_fresh_group:
  assumes "handlers_of b k = []" "\<not> jhas (bs_cursors b) k" and k: "k = group_key topic g"
  shows "bs_cursors (subscribe topic g h b) = bs_cursors b @ [(k, 0)]"
    and "handlers_of (subscribe topic g h b) k' = (if k' = k then [h] else handlers_of b k')"
    and "bs_draining (subscribe topic g h b) = bs_draining b"
    and "topic_log (subscribe topic g h b) t = topic_log b t"
  using assms
  by (auto simp: subscribe_def Let_def handlers_of_def set_cursor_def topic_log_def jset_fresh jhas_def)

lemma network_ok_new_node:
  assumes "network_ok ids s" "stock_log s = []" "i \<notin> set ids" "handlers_of (fst s) (node_key i) = []"
  shows "network_ok (ids @ [i]) (new_node i s)" and "stock_log (new_node i s) = []"
proof -
  have nk: "\<not> jhas (bs_cursors (fst s)) (node_key i)"
    using assms(1,3) jget_in_set by (fastforce simp: network_ok_def jhas_def)
  note sub = subscribe_fresh_group [OF assms(4) nk node_key_def, where h = i]
  show log: "stock_log (new_node i s) = []"
    using assms(2) by (simp add: stock_log_def history_def new_node_def sub)
  have "jmap_ok (bs_cursors (fst s) @ [(node_key i, 0)])"
    using assms(1) nk by (auto simp: network_ok_def jmap_ok_def jhas_def map_of_eq_None_iff)
  with assms nk show "network_ok (ids @ [i]) (new_node i s)"
    unfolding network_ok_def log
    by (auto simp: new_node_def sub jhas_def map_add_Some_iff)
qed

lemma handlers_new_node: "k \<noteq> node_key i \<Longrightarrow> handlers_of (fst (new_node i s)) k = handlers_of (fst s) k"
  by (simp add: new_node_def subscribe_def Let_def handlers_of_def set_cursor_def node_key_def)

lemma network_ok_fold:
  assumes "distinct (ids @ js)" "network_ok ids s" "stock_log s = []"
    and "\<forall>i \<in> set js. handlers_of (fst s) (node_key i) = []"
  shows "network_ok (ids @ js) (fold new_node js s) \<and> stock_log (fold new_node js s) = []"
  using assms
proof (induction js arbitrary: ids s)
  case Nil
  then show ?case by simp
next
  case (Cons i js)
  have n: "network_ok (ids @ [i]) (new_node i s)" "stock_log (new_node i s) = []"
    using network_ok_new_node [of ids s i] Cons.prems by auto
  have "\<forall>j \<in> set js. handlers_of (fst (new_node i s)) (node_key j) = []"
    using Cons.prems by (intro ballI, subst handlers_new_node) auto
  with Cons.IH [of "ids @ [i]" "new_node i s"] n Cons.prems(1) show ?case by simp
qed

lemma network_ok_build:
  assumes "distinct ids"
  shows "network_ok ids (build_nodes ids) \<and> stock_log (build_nodes ids) = []"
proof -
  let ?s = "(new_bus, []) :: warehouse_state"
  have "network_ok [] ?s"
    by (simp add: network_ok_def new_bus_def jhas_def)
  moreover have "stock_log ?s = []"
    by (simp add: stock_log_def history_def topic_log_def new_bus_def)
  moreover have "\<forall>i \<in> set ids. handlers_of (fst ?s) (node_key i) = []"
    by (simp add: handlers_of_def new_bus_def)
  ultimately show ?thesis
    using network_ok_fold [of "[]" ids ?s] assms by (simp add: build_nodes_def)
qed

lemma on_stock_event_get:
  "jget (on_stock_event j ev ns) i =
     (if i = j then map_option (\<lambda>n. if wn_connected n then apply_event ev n else n) (jget ns i) else jget ns i)"
  by (auto simp: on_stock_event_def split: option.splits)

text \<open>A delivery reaches the node of its group only.\<close>

lemma deliveries_reach_nodes:
  assumes "\<forall>d \<in> set D. fst d \<in> node_key ` set ids"
    and "\<forall>i \<in> set ids. handlers_of b (node_key i) = [i]"
  shows "jget (fold (deliver on_stock_event b) D ns) i =
    map_option (fold (\<lambda>ev n. if wn_connected n then apply_event ev n else n) (deliveries_to (node_key i) D)) (jget ns i)"
  using assms(1)
proof (induction D arbitrary: ns)
  case Nil
  then show ?case by (simp add: option.map_ident)
next
  case (Cons d D)
  then obtain j where j: "fst d = node_key j" "j \<in> set ids" by auto
  then have "deliver on_stock_event b d ns = on_stock_event j (snd d) ns"
    using assms(2) by (simp add: deliver_def)
  with Cons j show ?case
    by (cases "jget ns i") (auto simp: on_stock_event_get)
qed

lemma network_ok_emit:
  assumes "network_ok ids s"
  shows "\<exists>s'. emitStockChange sku delta reason now s = Some (Inr (), s') \<and> network_ok ids s' \<and>
    stock_log s' = stock_log s @ [stock_event sku delta reason now] \<and>
    (\<forall>i. map_option wn_connected (jget (snd s') i) = map_option wn_connected (jget (snd s) i))"
proof -
  obtain b ns where s: "s = (b, ns)" by (cases s)
  let ?ev = "stock_event sku delta reason now" and ?T = STOCK_EVENTS_TOPIC
  let ?b1 = "push_event ?T ?ev b" and ?log = "topic_log b STOCK_EVENTS_TOPIC"
  have log: "stock_log s = ?log" by (simp add: stock_log_def history_def s)
  have ok: "jmap_ok (bs_cursors b)" "\<not> bs_draining b"
    and cs: "\<And>k c. (k, c) \<in> set (bs_cursors b) \<Longrightarrow> c = length ?log \<and> k \<in> node_key ` set ids"
    and hs: "\<And>i. i \<in> set ids \<Longrightarrow> handlers_of b (node_key i) = [i] \<and> jhas (bs_cursors b) (node_key i)"
    and ns: "\<And>i. jhas ns i \<longleftrightarrow> i \<in> set ids"
    and ag: "\<And>i n. jget ns i = Some n \<Longrightarrow> node_agrees ?log n"
    using assms unfolding network_ok_def log by (auto simp: s)
  from wh.publish_passive [OF ok, of ?T ?ev ns] obtain D where
    run: "publish node_handler ?T ?ev (b, ns) =
      Some (Inr (), (?b1\<lparr>bs_cursors := caught_up ?T ?b1\<rparr>, fold (deliver on_stock_event b) D ns))"
    and D: "delivers ?T ?b1 D" by blast
  let ?s' = "(?b1\<lparr>bs_cursors := caught_up ?T ?b1\<rparr>, fold (deliver on_stock_event b) D ns)"
  have keys: "\<forall>d \<in> set D. fst d \<in> node_key ` set ids"
    using D cs by (fastforce simp: delivers_def)
  have one: "deliveries_to (node_key i) D = [?ev]" if i: "i \<in> set ids" for i
  proof -
    from hs [OF i] obtain c where "(node_key i, c) \<in> set (bs_cursors b)"
      by (auto simp: jhas_def dest: jget_in_set)
    with D cs show ?thesis by (fastforce simp: delivers_def)
  qed
  have log': "stock_log ?s' = ?log @ [?ev]" by simp
  have node: "jget (snd ?s') i = map_option (\<lambda>n. if wn_connected n then apply_event ?ev n else n) (jget ns i)" for i
  proof (cases "i \<in> set ids")
    case True
    then show ?thesis using deliveries_reach_nodes [OF keys, of b ns i] hs one by simp
  next
    case False
    then have "jget ns i = None" using ns [of i] by (simp add: jhas_def)
    then show ?thesis using deliveries_reach_nodes [OF keys, of b ns i] hs by simp
  qed
  have cursors: "caught_up ?T ?b1 = map (\<lambda>(k, c). (k, Suc (length ?log))) (bs_cursors b)"
  proof -
    have "on_topic ?T k \<and> c = length ?log" if "(k, c) \<in> set (bs_cursors b)" for k c
      using cs [OF that] by auto
    then show ?thesis unfolding caught_up_def bus_fields topic_log_push by (intro map_cong) auto
  qed
  have keys_same: "map fst (caught_up ?T ?b1) = map fst (bs_cursors b)"
    by (simp add: cursors comp_def case_prod_beta)
  have has: "jhas (caught_up ?T ?b1) k \<longleftrightarrow> jhas (bs_cursors b) k" for k
    using keys_same by (metis jhas_def map_of_eq_None_iff list.set_map)
  have "network_ok ids ?s'"
    unfolding network_ok_def log'
  proof (intro conjI allI impI ballI)
    show "\<not> bs_draining (fst ?s')" using ok by simp
    show "jmap_ok (bs_cursors (fst ?s'))" using ok keys_same by (simp add: jmap_ok_def)
    fix k c assume "(k, c) \<in> set (bs_cursors (fst ?s'))"
    then show "c = length (?log @ [?ev])" and "k \<in> node_key ` set ids"
      using cs by (auto simp: cursors)
  next
    fix i assume "i \<in> set ids"
    then show "handlers_of (fst ?s') (node_key i) = [i]" and "jhas (bs_cursors (fst ?s')) (node_key i)"
      using hs has by (simp_all add: handlers_of_def push_event_def)
  next
    fix i show "jhas (snd ?s') i = (i \<in> set ids)" using node [of i] ns [of i] by (auto simp: jhas_def)
  next
    fix i n assume "jget (snd ?s') i = Some n"
    then show "node_agrees (?log @ [?ev]) n"
      using node [of i] ag [of i] by (cases "jget ns i") (auto simp: node_agrees_apply node_agrees_miss split: if_splits)
  qed
  moreover have "map_option wn_connected (jget (snd ?s') i) = map_option wn_connected (jget ns i)" for i
    unfolding node by (cases "jget ns i") simp_all
  ultimately show ?thesis
    using run log' log unfolding emitStockChange_def s by (intro exI [of _ ?s']) simp
qed

lemma on_node_get: "jget (on_node j f ns) i = (if i = j then map_option f (jget ns i) else jget ns i)"
  by (auto simp: on_node_def split: option.splits)

lemma network_ok_on_node:
  assumes "network_ok ids s" and "\<And>n. node_agrees (stock_log s) n \<Longrightarrow> node_agrees (stock_log s) (f n)"
  shows "network_ok ids (fst s, on_node i f (snd s))"
proof -
  have "jhas (on_node i f (snd s)) j = jhas (snd s) j" for j
    by (simp add: jhas_def on_node_get)
  moreover have "stock_log (fst s, on_node i f (snd s)) = stock_log s" by (simp add: stock_log_def)
  ultimately show ?thesis
    using assms by (auto simp: network_ok_def on_node_get split: if_splits)
qed

lemma network_ok_step:
  assumes "network_ok ids s"
  shows "\<exists>s'. warehouse_step x s = Some s' \<and> network_ok ids s' \<and> stock_log s' = stock_log s @ emitted [x]"
proof (cases x)
  case (Emit sku delta reason now)
  then show ?thesis using network_ok_emit [OF assms, of sku delta reason now] by auto
next
  case (Disconnect i)
  then show ?thesis
    using network_ok_on_node [OF assms, of disconnect_node i] node_agrees_disconnect
    by (simp add: stock_log_def)
next
  case (Reconnect i)
  then show ?thesis
    using network_ok_on_node [OF assms, of "reconnect_node (fst s)" i] node_agrees_reconnect
    by (simp add: stock_log_def history_def)
qed

lemma emitted_Cons: "emitted (x # xs) = emitted [x] @ emitted xs"
  by (cases x) simp_all

lemma network_ok_run:
  "network_ok ids s \<Longrightarrow>
     \<exists>s'. warehouse_run xs s = Some s' \<and> network_ok ids s' \<and> stock_log s' = stock_log s @ emitted xs"
proof (induction xs arbitrary: s)
  case Nil
  then show ?case by simp
next
  case (Cons x xs)
  from network_ok_step [OF Cons.prems, of x] obtain s1 where
    s1: "warehouse_step x s = Some s1" "network_ok ids s1" "stock_log s1 = stock_log s @ emitted [x]" by blast
  from Cons.IH [OF s1(2)] s1 show ?case by (auto simp: emitted_Cons [of x xs])
qed

text \<open>Emissions leave the connections as they are.\<close>

definition connects :: "string \<Rightarrow> warehouse_op \<Rightarrow> bool \<Rightarrow> bool" where
  "connects i x c = (case x of Emit _ _ _ _ \<Rightarrow> c | Disconnect j \<Rightarrow> c \<and> j \<noteq> i | Reconnect j \<Rightarrow> c \<or> j = i)"

lemma connected_step:
  assumes "network_ok ids s" "warehouse_step x s = Some s'"
  shows "map_option wn_connected (jget (snd s') i) = map_option (\<lambda>n. connects i x (wn_connected n)) (jget (snd s) i)"
proof (cases x)
  case (Emit sku delta reason now)
  with network_ok_emit [OF assms(1), of sku delta reason now] assms(2) show ?thesis by (auto simp: connects_def)
next
  case (Disconnect j)
  with assms(2) show ?thesis
    by (cases "jget (snd s) i") (auto simp: on_node_get disconnect_node_def connects_def)
next
  case (Reconnect j)
  with assms(2) show ?thesis
    by (cases "jget (snd s) i") (auto simp: on_node_get reconnect_node_def apply_events_fields connects_def)
qed

lemma connected_run:
  assumes "network_ok ids s" "warehouse_run xs s = Some s'"
  shows "map_option wn_connected (jget (snd s') i) = map_option (\<lambda>n. fold (connects i) xs (wn_connected n)) (jget (snd s) i)"
  using assms
proof (induction xs arbitrary: s)
  case Nil
  then show ?case by simp
next
  case (Cons x xs)
  from network_ok_step [OF Cons.prems(1), of x] obtain s1 where
    s1: "warehouse_step x s = Some s1" "network_ok ids s1" by blast
  have "map_option wn_connected (jget (snd s') i) =
      map_option (fold (connects i) xs) (map_option wn_connected (jget (snd s1) i))"
    using Cons.IH [OF s1(2)] Cons.prems(2) s1(1) by (simp add: option.map_comp comp_def)
  then show ?case
    unfolding connected_step [OF Cons.prems(1) s1(1)] by (simp add: option.map_comp comp_def)
qed



text \<open>The level of a sku after a log of emitted events is the sum of its movements.\<close>

lemma level_stock_events:
  "level sku (emitted xs) =
     Num (sum_list (concat (map (\<lambda>x. case x of Emit k d r t \<Rightarrow> if k = sku then [d] else [] | _ \<Rightarrow> []) xs)))"
proof -
  have "fold (add_event sku) (emitted xs) (Num a) =
    Num (a + sum_list (concat (map (\<lambda>x. case x of Emit k d r t \<Rightarrow> if k = sku then [d] else [] | _ \<Rightarrow> []) xs)))" for a
    by (induction xs arbitrary: a rule: emitted.induct)
       (auto simp: add_event_def stock_event_def payload_sku_def payload_delta_def)
  from this [of 0] show ?thesis by (simp add: level_def)
qed

text \<open>After reconnecting, a node holds for every sku the sum of all the movements emitted for it
  so far, whatever it missed: the partition heals completely.
\<close>

theorem reconnect_heals:
  assumes "distinct ids" and "i \<in> set ids"
  shows "\<exists>b ns n. warehouse_run (xs @ [Reconnect i]) (build_nodes ids) = Some (b, ns) \<and> jget ns i = Some n \<and>
    (\<forall>sku. node_get sku n =
       Num (sum_list (concat (map (\<lambda>x. case x of Emit k d r t \<Rightarrow> if k = sku then [d] else [] | _ \<Rightarrow> []) xs))))"
proof -
  from network_ok_build [OF assms(1)] have b: "network_ok ids (build_nodes ids)" "stock_log (build_nodes ids) = []"
    by blast+
  from network_ok_run [OF b(1), of xs] b(2) obtain s where
    s: "warehouse_run xs (build_nodes ids) = Some s" "network_ok ids s" "stock_log s = emitted xs" by auto
  from s(2,3) assms(2) obtain n where n: "jget (snd s) i = Some n" "node_agrees (emitted xs) n"
    unfolding network_ok_def jhas_def by fastforce
  have run: "warehouse_run (ys @ [z]) t = Option.bind (warehouse_run ys t) (warehouse_step z)" for ys z t
    by (induction ys arbitrary: t) (auto split: option.splits)
  let ?n = "reconnect_node (fst s) n"
  have "node_agrees (emitted xs) ?n" and "wn_connected ?n"
    using node_agrees_reconnect [of "fst s" n] n(2) s(3)
    by (simp_all add: stock_log_def history_def reconnect_node_def apply_events_fields)
  then have "node_get sku ?n = level sku (emitted xs)" for sku by (simp add: node_agrees_def)
  then show ?thesis
    using s(1) n(1) by (simp add: run on_node_get level_stock_events)
qed

theorem reconnect_heals_witness:
  "\<exists>b ns n. warehouse_run ([Disconnect ''b'', Emit ''sku'' 100 ''initial'' 1, Emit ''sku'' (-10) ''sale'' 2] @ [Reconnect ''b''])
      (build_nodes [''a'', ''b'']) = Some (b, ns) \<and> jget ns ''b'' = Some n \<and> node_get ''sku'' n = Num 90"
  using reconnect_heals [of "[''a'', ''b'']" "''b''"
      "[Disconnect ''b'', Emit ''sku'' 100 ''initial'' 1, Emit ''sku'' (-10) ''sale'' 2]"] by fastforce

end
