(* ===== verification/Inventory_Correct.thy ===== *)
theory Inventory_Correct
  imports Inventory
begin

text \<open>
  What the stock operations of \<open>InventoryService\<close> and the two kinds of client promise: the
  in-process client and a Redis server running the Lua scripts answer every sequence of calls
  alike, and reserving, releasing, committing and reading behave as specified on every branch.
\<close>

section \<open>Two clients that show the same\<close>

lemma spec_reserve_cong:
  assumes "kv_eq now m m'"
  shows "fst (spec_reserve now sk rk q ttl m) = fst (spec_reserve now sk rk q ttl m')"
    and "kv_eq now (snd (spec_reserve now sk rk q ttl m)) (snd (spec_reserve now sk rk q ttl m'))"
  using assms by (simp_all add: kv_eq_def spec_reserve_reply spec_reserve_lookup split: option.splits)

lemma spec_resolve_cong:
  assumes "kv_eq now m m'" "sk \<noteq> rk"
  shows "fst (spec_resolve now sk rk mode m) = fst (spec_resolve now sk rk mode m')"
    and "kv_eq now (snd (spec_resolve now sk rk mode m)) (snd (spec_resolve now sk rk mode m'))"
  using assms by (simp_all add: kv_eq_def spec_resolve_reply spec_resolve_lookup split: option.splits)

text \<open>The calls \<open>InventoryService\<close> makes on its client, with the time each is served at.\<close>

datatype stock_call =
    Set_Stock string string int
  | Get_Stock string string
  | Reserve string string int string int
  | Resolve string string string string

type_synonym stock_answer = "js_error + (string option + reply)"

definition stock_call_run ::
  "'r redis_like \<Rightarrow> stock_call \<Rightarrow> int \<Rightarrow> 'r \<Rightarrow> stock_answer \<times> 'r" where
  "stock_call_run R c now r =
     (case c of
        Set_Stock w s n \<Rightarrow> map_prod (map_sum id (\<lambda>_. Inl None)) id (rl_set R (stockKey w s) (int_string n) r)
      | Get_Stock w s \<Rightarrow> map_prod (map_sum id Inl) id (rl_get R (stockKey w s) now r)
      | Reserve w s q rid ttl \<Rightarrow> map_prod (map_sum id Inr) id
          (rl_eval R RESERVE_SCRIPT 2 [AStr (stockKey w s), AStr (reservationKey rid), ANum (Num q),
             AStr rid, ANum (Num ttl)] now r)
      | Resolve w s rid mode \<Rightarrow> map_prod (map_sum id Inr) id
          (rl_eval R RELEASE_SCRIPT 2 [AStr (stockKey w s), AStr (reservationKey rid), AStr mode] now r))"

fun stock_calls_run :: "'r redis_like \<Rightarrow> (stock_call \<times> int) list \<Rightarrow> 'r \<Rightarrow> stock_answer list \<times> 'r" where
  "stock_calls_run R [] r = ([], r)"
| "stock_calls_run R ((c, now) # cs) r =
     (case stock_call_run R c now r of (a, r1) \<Rightarrow>
        (case stock_calls_run R cs r1 of (as, r2) \<Rightarrow> (a # as, r2)))"

fun valid_call :: "stock_call \<Rightarrow> bool" where
  "valid_call (Reserve w s q rid ttl) \<longleftrightarrow> 0 < q \<and> 0 < ttl"
| "valid_call _ \<longleftrightarrow> True"

definition spec_call :: "stock_call \<Rightarrow> int \<Rightarrow> kv \<Rightarrow> stock_answer \<times> kv" where
  "spec_call c now m =
     (case c of
        Set_Stock w s n \<Rightarrow> (Inr (Inl None), m(stockKey w s \<mapsto> (n, None)))
      | Get_Stock w s \<Rightarrow> (Inr (Inl (map_option int_string (lookup now m (stockKey w s)))), m)
      | Reserve w s q rid ttl \<Rightarrow>
          map_prod (\<lambda>a. Inr (Inr a)) id (spec_reserve now (stockKey w s) (reservationKey rid) q ttl m)
      | Resolve w s rid mode \<Rightarrow>
          map_prod (map_sum id Inr) id (spec_resolve now (stockKey w s) (reservationKey rid) mode m))"

lemma spec_call_cong:
  assumes "kv_eq now m m'"
  shows "fst (spec_call c now m) = fst (spec_call c now m') \<and>
    kv_eq now (snd (spec_call c now m)) (snd (spec_call c now m'))"
  using assms spec_reserve_cong [OF assms] spec_resolve_cong [OF assms] kv_eq_lookup [OF assms order_refl]
  by (cases c) (simp_all add: spec_call_def kv_eq_update)

context stock_redis
begin

lemma stock_call_refines:
  assumes "invar r" "valid_call c" "stock_call_run R c now r = (a, r')"
  shows "a = fst (spec_call c now (kv_of r)) \<and> invar r' \<and> kv_eq now (kv_of r') (snd (spec_call c now (kv_of r)))"
proof (cases c)
  case (Set_Stock w s n)
  obtain x r1 where "rl_set R (stockKey w s) (int_string n) r = (x, r1)" by fastforce
  with set_law [OF assms(1) this] assms(3) Set_Stock show ?thesis by (auto simp: stock_call_run_def spec_call_def)
next
  case (Get_Stock w s)
  obtain x r1 where "rl_get R (stockKey w s) now r = (x, r1)" by fastforce
  with get_law [OF assms(1) this] assms(3) Get_Stock show ?thesis by (auto simp: stock_call_run_def spec_call_def)
next
  case (Reserve w s q rid ttl)
  let ?args = "[AStr (stockKey w s), AStr (reservationKey rid), ANum (Num q), AStr rid, ANum (Num ttl)]"
  obtain x r1 where "rl_eval R RESERVE_SCRIPT 2 ?args now r = (x, r1)" by fastforce
  with reserve_law [OF assms(1) _ _ this] assms(2,3) Reserve show ?thesis
    by (auto simp: stock_call_run_def spec_call_def)
next
  case (Resolve w s rid mode)
  let ?args = "[AStr (stockKey w s), AStr (reservationKey rid), AStr mode]"
  obtain x r1 where "rl_eval R RELEASE_SCRIPT 2 ?args now r = (x, r1)" by fastforce
  with resolve_law [OF assms(1) this] assms(3) Resolve show ?thesis
    by (auto simp: stock_call_run_def spec_call_def)
qed

end

lemma clients_agree:
  assumes "stock_redis R1 kv1 inv1" "stock_redis R2 kv2 inv2"
    and "inv1 r1" "inv2 r2" "kv_eq t (kv1 r1) (kv2 r2)"
    and "\<forall>(c, now) \<in> set cs. valid_call c" "sorted (t # map snd cs)"
  shows "fst (stock_calls_run R1 cs r1) = fst (stock_calls_run R2 cs r2)"
  using assms(3-)
proof (induction cs arbitrary: r1 r2 t)
  case Nil
  then show ?case by simp
next
  case (Cons cn cs)
  obtain c now where cn: "cn = (c, now)" by (cases cn)
  obtain a1 s1 where 1: "stock_call_run R1 c now r1 = (a1, s1)" by fastforce
  obtain a2 s2 where 2: "stock_call_run R2 c now r2 = (a2, s2)" by fastforce
  have v: "valid_call c" and t: "t \<le> now" "sorted (now # map snd cs)" using Cons.prems(4,5) cn by auto
  note e1 = stock_redis.stock_call_refines [OF assms(1) Cons.prems(1) v 1]
  note e2 = stock_redis.stock_call_refines [OF assms(2) Cons.prems(2) v 2]
  have eq: "kv_eq now (kv1 r1) (kv2 r2)" using Cons.prems(3) t(1) by (rule kv_eq_later)
  have "kv_eq now (kv1 s1) (kv2 s2)"
    using e1 e2 spec_call_cong [OF eq, of c] by (blast intro: kv_eq_trans kv_eq_sym)
  from Cons.IH [OF _ _ this _ t(2)] e1 e2 Cons.prems(4)
  have "fst (stock_calls_run R1 cs s1) = fst (stock_calls_run R2 cs s2)" by simp
  moreover have "a1 = a2" using e1 e2 spec_call_cong [OF eq, of c] by simp
  ultimately show ?case by (simp add: cn 1 2 case_prod_unfold)
qed

lemma reserve_result_cases:
  "reserve_result i (fst (spec_reserve now sk rk q ttl m)) =
     (case lookup now m sk of
        None \<Rightarrow> rejected_result UNKNOWN_SKU (Some (Num 0))
      | Some a \<Rightarrow> if a < q then rejected_result INSUFFICIENT_STOCK (Some (Num a)) else accepted_result i (Num (a - q)))"
  by (simp add: spec_reserve_reply reserve_result_def split: option.splits)

section \<open>Properties\<close>

text \<open>C14: the in-process client stands in for a Redis server. Started on the same contents, the
  native scripts of \<open>InMemoryRedisClient\<close> and the Lua scripts on any server that keeps the
  documented behaviour of its commands give the same answer to every call of every sequence of
  calls of \<open>InventoryService\<close>, expiries included.\<close>

theorem in_memory_client_equals_server:
  assumes "redis_server C kv_of invar" and "mem_ok r" and "invar d" and "kv_eq t (mem_kv r) (kv_of d)"
    and "\<forall>(c, now) \<in> set calls. valid_call c" and "sorted (t # map snd calls)"
  shows "fst (stock_calls_run InMemoryRedis calls r) = fst (stock_calls_run (server_client C) calls d)"
  by (rule clients_agree [OF mem.stock_redis_axioms redis_server.server_is_stock_redis [OF assms(1)] assms(2-6)])

theorem in_memory_client_equals_server_witness:
  "fst (stock_calls_run InMemoryRedis [(Set_Stock ''w'' ''s'' 5, 1), (Reserve ''w'' ''s'' 2 ''r'' 900, 2), (Get_Stock ''w'' ''s'', 3)] new_redis_mem)
   = fst (stock_calls_run (server_client mem_commands)
       [(Set_Stock ''w'' ''s'' 5, 1), (Reserve ''w'' ''s'' 2 ''r'' 900, 2), (Get_Stock ''w'' ''s'', 3)] new_redis_mem)"
  by (rule in_memory_client_equals_server [OF memsrv.redis_server_axioms, of _ _ 0]) auto

text \<open>The outcome of a reservation on every branch. Nothing is sent to the store for a
  quantity that is not positive; otherwise the result names the reason of a rejection, with the
  stock it found, or the new identifier and what remains; the store changes as specified and
  nothing else of it, and the latency and the outcome are counted.\<close>

theorem reserve_every_branch:
  assumes "mem_ok (co_redis p)" and "0 < ttl"
  shows "(q \<le> 0 \<longrightarrow> reserve InMemoryRedis E w s (Num q) (Num ttl) p = (Inr (rejected_result INVALID_QTY None), p)) \<and>
    (0 < q \<longrightarrow> (\<exists>r' res. reserve InMemoryRedis E w s (Num q) (Num ttl) p =
       (Inr res, p\<lparr>co_redis := r', co_known := jset (stockKey w s) (w, s) (co_known p),
          co_metrics := reserve_metrics w s (rr_ok res) (env_perf E (co_ticks p + 2) - env_perf E (co_ticks p)) (co_metrics p),
          co_ticks := co_ticks p + 3, co_uuids := Suc (co_uuids p)\<rparr>) \<and>
       res = (case lookup (env_now E (co_ticks p + 1)) (mem_kv (co_redis p)) (stockKey w s) of
            None \<Rightarrow> rejected_result UNKNOWN_SKU (Some (Num 0))
          | Some a \<Rightarrow> if a < q then rejected_result INSUFFICIENT_STOCK (Some (Num a))
              else accepted_result (env_uuid E (co_uuids p)) (Num (a - q))) \<and>
       mem_ok r' \<and>
       kv_eq (env_now E (co_ticks p + 1)) (mem_kv r') (snd (spec_reserve (env_now E (co_ticks p + 1))
          (stockKey w s) (reservationKey (env_uuid E (co_uuids p))) q ttl (mem_kv (co_redis p))))))"
proof (intro conjI impI)
  assume "0 < q"
  from mem.reserve_run [OF assms(1) this assms(2), of E w s]
  show "\<exists>r' res. reserve InMemoryRedis E w s (Num q) (Num ttl) p =
       (Inr res, p\<lparr>co_redis := r', co_known := jset (stockKey w s) (w, s) (co_known p),
          co_metrics := reserve_metrics w s (rr_ok res) (env_perf E (co_ticks p + 2) - env_perf E (co_ticks p)) (co_metrics p),
          co_ticks := co_ticks p + 3, co_uuids := Suc (co_uuids p)\<rparr>) \<and>
       res = (case lookup (env_now E (co_ticks p + 1)) (mem_kv (co_redis p)) (stockKey w s) of
            None \<Rightarrow> rejected_result UNKNOWN_SKU (Some (Num 0))
          | Some a \<Rightarrow> if a < q then rejected_result INSUFFICIENT_STOCK (Some (Num a))
              else accepted_result (env_uuid E (co_uuids p)) (Num (a - q))) \<and>
       mem_ok r' \<and>
       kv_eq (env_now E (co_ticks p + 1)) (mem_kv r') (snd (spec_reserve (env_now E (co_ticks p + 1))
          (stockKey w s) (reservationKey (env_uuid E (co_uuids p))) q ttl (mem_kv (co_redis p))))"
    unfolding reserve_result_cases by blast
qed (rule reserve_invalid)

definition plain_env :: env where
  "plain_env = \<lparr>env_now = int, env_perf = (\<lambda>_. 0), env_uuid = (\<lambda>n. ''id-'' @ replicate n (CHR ''i''))\<rparr>"

definition plain_process :: "redis_mem process" where
  "plain_process = \<lparr>co_redis = \<lparr>rm_store = [(stockKey ''w'' ''s'', int_string 5)], rm_expiresAt = []\<rparr>,
     co_known = [], co_metrics = init_metrics, co_ticks = 0, co_uuids = 0\<rparr>"

lemma plain_process_ok: "mem_ok (co_redis plain_process)"
  by (auto simp: plain_process_def mem_ok_def)

lemma plain_process_stock: "lookup t (mem_kv (co_redis plain_process)) (stockKey ''w'' ''s'') = Some 5"
  by (simp add: plain_process_def mem_kv_def lookup_def)

theorem reserve_every_branch_witness:
  "\<exists>p'. reserve InMemoryRedis plain_env ''w'' ''s'' (Num 3) (Num 900) plain_process =
     (Inr (accepted_result ''id-'' (Num 2)), p')"
  using reserve_every_branch [OF plain_process_ok, of 900 3 plain_env "''w''" "''s''"] plain_process_stock
  by (auto simp: plain_env_def plain_process_def)


definition reserved_process :: "redis_mem process" where
  "reserved_process = plain_process\<lparr>co_redis :=
     \<lparr>rm_store = [(stockKey ''w'' ''s'', int_string 3), (reservationKey ''r1'', int_string 2)],
      rm_expiresAt = [(reservationKey ''r1'', Num 900000)]\<rparr>\<rparr>"

lemma reserved_process_ok: "mem_ok (co_redis reserved_process)"
  by (auto simp: reserved_process_def mem_ok_def jhas_def)


text \<open>C39: an expired reservation is lost. Once the fifteen minutes of a reservation have passed,
  neither the store nor a release gives its units back: the release answers
  \<open>ALREADY_RESOLVED\<close> and the stock stays at what the reservation left.\<close>

theorem expired_reservation_is_lost:
  assumes "mem_ok (co_redis p)" and "0 < q" and "0 < ttl" and "q \<le> a"
    and "\<forall>t \<ge> env_now E (co_ticks p + 1). lookup t (mem_kv (co_redis p)) (stockKey w s) = Some a"
    and "env_now E (co_ticks p + 1) + ttl * 1000 \<le> env_now E (co_ticks p + 3)"
  shows "\<exists>p1 p2. reserve InMemoryRedis E w s (Num q) (Num ttl) p =
       (Inr (accepted_result (env_uuid E (co_uuids p)) (Num (a - q))), p1) \<and>
     release InMemoryRedis E w s (env_uuid E (co_uuids p)) p1 = (Inr ''ALREADY_RESOLVED'', p2) \<and>
     (\<forall>t \<ge> env_now E (co_ticks p + 3). lookup t (mem_kv (co_redis p2)) (stockKey w s) = Some (a - q))"
proof -
  let ?m = "mem_kv (co_redis p)" and ?n1 = "env_now E (co_ticks p + 1)" and ?n2 = "env_now E (co_ticks p + 3)"
  let ?sk = "stockKey w s" and ?i = "env_uuid E (co_uuids p)"
  let ?sp = "spec_reserve ?n1 ?sk (reservationKey ?i) q ttl ?m"
  have le: "?n1 \<le> ?n2" using assms(3,6) by simp
  have lev: "lookup t ?m ?sk = Some a" if "?n1 \<le> t" for t using assms(5) that by blast
  from mem.reserve_run [OF assms(1-3), of E w s] obtain r1 p1 where
    p1: "reserve InMemoryRedis E w s (Num q) (Num ttl) p = (Inr (reserve_result ?i (fst ?sp)), p1)"
      "co_redis p1 = r1" "co_ticks p1 = co_ticks p + 3" "mem_ok r1" "kv_eq ?n1 (mem_kv r1) (snd ?sp)" by auto
  have k1: "lookup t (mem_kv r1) k = lookup t (snd ?sp) k" if "?n2 \<le> t" for t k
    using p1(5) that le by (simp add: kv_eq_def)
  have "lookup ?n2 (mem_kv r1) (reservationKey ?i) = None"
    using k1 [OF order_refl] le lev [OF order_refl] assms(4,6) by (simp add: spec_reserve_lookup)
  then have sp2: "spec_resolve ?n2 ?sk (reservationKey ?i) ''RELEASE'' (mem_kv r1) = (Inr (''ALREADY_RESOLVED'', Num 0), mem_kv r1)"
    by (simp add: spec_resolve_def)
  from mem.resolve_run [of p1 E w s ?i "''RELEASE''"] p1(2-4) obtain r2 where
    r2: "resolve InMemoryRedis E w s ?i ''RELEASE'' p1 = (Inr ''ALREADY_RESOLVED'', p1\<lparr>co_redis := r2, co_ticks := Suc (co_ticks p1)\<rparr>)"
      "kv_eq ?n2 (mem_kv r2) (mem_kv r1)" by (auto simp: sp2)
  have "lookup t (mem_kv r2) ?sk = Some (a - q)" if "?n2 \<le> t" for t
  proof -
    have "lookup t (mem_kv r2) ?sk = lookup t (snd ?sp) ?sk"
      using r2(2) k1 [OF that] that by (simp add: kv_eq_def)
    moreover have "?n1 \<le> t" using le that by simp
    ultimately show ?thesis using lev [of t] lev [OF order_refl] assms(4) by (simp add: spec_reserve_lookup)
  qed
  moreover have "reserve_result ?i (fst ?sp) = accepted_result ?i (Num (a - q))"
    using lev [OF order_refl] assms(4) by (simp add: spec_reserve_reply reserve_result_def)
  ultimately show ?thesis
    using p1(1) r2(1)
    by (intro exI [of _ p1] exI [of _ "p1\<lparr>co_redis := r2, co_ticks := Suc (co_ticks p1)\<rparr>"]) (simp add: release_def)
qed

definition slow_env :: env where
  "slow_env = plain_env\<lparr>env_now := (\<lambda>n. int n * 1000000)\<rparr>"

theorem expired_reservation_is_lost_witness:
  "\<exists>p1 p2. reserve InMemoryRedis slow_env ''w'' ''s'' (Num 2) (Num 900) plain_process =
       (Inr (accepted_result ''id-'' (Num 3)), p1) \<and>
     release InMemoryRedis slow_env ''w'' ''s'' ''id-'' p1 = (Inr ''ALREADY_RESOLVED'', p2) \<and>
     lookup 9000000 (mem_kv (co_redis p2)) (stockKey ''w'' ''s'') = Some 3"
  using expired_reservation_is_lost [OF plain_process_ok, of 2 900 5 slow_env "''w''" "''s''"] plain_process_stock
  by (auto simp: slow_env_def plain_env_def plain_process_def)

text \<open>Setting and reading a stock level. What \<open>setStock\<close> writes \<open>getAvailable\<close> reads, at any
  later time and whatever was stored there before; other keys are not affected, and an item
  that was never set reads 0.\<close>

theorem setStock_getAvailable:
  assumes "mem_ok (co_redis p)"
  shows "\<exists>p1 p2. setStock InMemoryRedis w s (Num n) p = (Inr (), p1) \<and>
     getAvailable InMemoryRedis E w' s' p1 = (Inr (Num
       (if stockKey w' s' = stockKey w s then n
        else case lookup (env_now E (co_ticks p)) (mem_kv (co_redis p)) (stockKey w' s') of None \<Rightarrow> 0 | Some a \<Rightarrow> a)), p2) \<and>
     jget (co_known p2) (stockKey w s) = Some (w, s) \<and> mem_ok (co_redis p2)"
proof -
  from mem.setStock_run [OF assms, of w s n] obtain r1 where
    r1: "setStock InMemoryRedis w s (Num n) p = (Inr (), p\<lparr>co_redis := r1, co_known := jset (stockKey w s) (w, s) (co_known p)\<rparr>)"
      "mem_ok r1" "mem_kv r1 = (mem_kv (co_redis p))(stockKey w s \<mapsto> (n, None))" by blast
  let ?p1 = "p\<lparr>co_redis := r1, co_known := jset (stockKey w s) (w, s) (co_known p)\<rparr>"
  from mem.getAvailable_run [of ?p1 E w' s'] r1(2) obtain r2 where
    "getAvailable InMemoryRedis E w' s' ?p1 =
      (Inr (Num (case lookup (env_now E (co_ticks p)) (mem_kv r1) (stockKey w' s') of None \<Rightarrow> 0 | Some n \<Rightarrow> n)),
       ?p1\<lparr>co_redis := r2, co_ticks := Suc (co_ticks ?p1)\<rparr>)" "mem_ok r2" by auto
  with r1(1) show ?thesis
    by (intro exI [of _ ?p1] exI [of _ "?p1\<lparr>co_redis := r2, co_ticks := Suc (co_ticks ?p1)\<rparr>"]) (auto simp: r1(3))
qed

theorem setStock_getAvailable_witness:
  "\<exists>p1 p2. setStock InMemoryRedis ''w'' ''s'' (Num 9) plain_process = (Inr (), p1) \<and>
     getAvailable InMemoryRedis plain_env ''w'' ''s'' p1 = (Inr (Num 9), p2)"
  using setStock_getAvailable [OF plain_process_ok, of "''w''" "''s''" 9 plain_env "''w''" "''s''"] by auto

end
