(* ===== verification/Stock_Safety.thy ===== *)
theory Stock_Safety
  imports Saga_Stock
begin

text \<open>
  Many instances of the service on one stock store: every reservation, release and commit of
  \<open>InventoryService\<close> is one script call, so an interleaving of instances is a sequence of
  calls. The steps carry what the outside world remembers: the reservations ever accepted and
  those accepted and not given back. No interleaving takes more from a key than it held.
\<close>

section \<open>The fleet and its steps\<close>

record grant =
  gr_warehouse :: string
  gr_sku :: string
  gr_id :: string
  gr_qty :: int

record 'r fleet =
  fl_redis :: 'r
  fl_now :: int
  fl_issued :: "grant list"
  fl_out :: "grant list"

definition grant_key :: "grant \<Rightarrow> string" where
  "grant_key g = stockKey (gr_warehouse g) (gr_sku g)"

definition reserve_call :: "'r redis_like \<Rightarrow> grant \<Rightarrow> int \<Rightarrow> int \<Rightarrow> ('r, reply) act" where
  "reserve_call R g ttl = rl_eval R RESERVE_SCRIPT 2
     [AStr (grant_key g), AStr (reservationKey (gr_id g)), ANum (Num (gr_qty g)), AStr (gr_id g), ANum (Num ttl)]"

definition resolve_call :: "'r redis_like \<Rightarrow> grant \<Rightarrow> string \<Rightarrow> int \<Rightarrow> ('r, reply) act" where
  "resolve_call R g mode = rl_eval R RELEASE_SCRIPT 2
     [AStr (grant_key g), AStr (reservationKey (gr_id g)), AStr mode]"

text \<open>
  A reservation uses an identifier no reservation had before; a release or a commit names a
  reservation that was accepted once, at any later time and any number of times.
\<close>

inductive fleet_step :: "'r redis_like \<Rightarrow> 'r fleet \<Rightarrow> 'r fleet \<Rightarrow> bool" for R :: "'r redis_like" where
  reserve_accepted: "fl_now f \<le> now \<Longrightarrow> gr_id g \<notin> gr_id ` set (fl_issued f) \<Longrightarrow> 0 < gr_qty g \<Longrightarrow> 0 < ttl \<Longrightarrow>
    reserve_call R g ttl now (fl_redis f) = (Inr (''OK'', v), r) \<Longrightarrow>
    fleet_step R f \<lparr>fl_redis = r, fl_now = now, fl_issued = g # fl_issued f, fl_out = g # fl_out f\<rparr>"
| reserve_rejected: "fl_now f \<le> now \<Longrightarrow> gr_id g \<notin> gr_id ` set (fl_issued f) \<Longrightarrow> 0 < gr_qty g \<Longrightarrow> 0 < ttl \<Longrightarrow>
    reserve_call R g ttl now (fl_redis f) = (Inr (st, v), r) \<Longrightarrow> st \<noteq> ''OK'' \<Longrightarrow>
    fleet_step R f (f\<lparr>fl_redis := r, fl_now := now\<rparr>)"
| release_done: "fl_now f \<le> now \<Longrightarrow> g \<in> set (fl_issued f) \<Longrightarrow>
    resolve_call R g ''RELEASE'' now (fl_redis f) = (Inr (''RELEASED'', v), r) \<Longrightarrow>
    fleet_step R f (f\<lparr>fl_redis := r, fl_now := now, fl_out := remove1 g (fl_out f)\<rparr>)"
| release_late: "fl_now f \<le> now \<Longrightarrow> g \<in> set (fl_issued f) \<Longrightarrow>
    resolve_call R g ''RELEASE'' now (fl_redis f) = (Inr (st, v), r) \<Longrightarrow> st \<noteq> ''RELEASED'' \<Longrightarrow>
    fleet_step R f (f\<lparr>fl_redis := r, fl_now := now\<rparr>)"
| commit_any: "fl_now f \<le> now \<Longrightarrow> g \<in> set (fl_issued f) \<Longrightarrow>
    resolve_call R g ''COMMIT'' now (fl_redis f) = (res, r) \<Longrightarrow>
    fleet_step R f (f\<lparr>fl_redis := r, fl_now := now\<rparr>)"

inductive_cases fleet_stepE: "fleet_step R f f'"

section \<open>The invariant\<close>

definition units :: "grant list \<Rightarrow> string \<Rightarrow> int" where
  "units gs k = sum_list (map (\<lambda>g. if grant_key g = k then gr_qty g else 0) gs)"

definition left :: "(string \<Rightarrow> int option) \<Rightarrow> grant list \<Rightarrow> string \<Rightarrow> int option" where
  "left L gs k = map_option (\<lambda>n. n - units gs k) (L k)"

lemma units_simps [simp]:
  "units [] k = 0"
  "units (g # gs) k = (if grant_key g = k then gr_qty g else 0) + units gs k"
  by (simp_all add: units_def)

lemma units_remove1: "g \<in> set gs \<Longrightarrow> units gs k = units (remove1 g gs) k + (if grant_key g = k then gr_qty g else 0)"
  by (induction gs) auto

lemma left_Nil [simp]: "left L [] = L"
  by (simp add: left_def fun_eq_iff option.map_ident)

text \<open>Every open reservation of the store is one of those outstanding.\<close>

definition backed :: "kv \<Rightarrow> grant list \<Rightarrow> bool" where
  "backed \<rho> out \<longleftrightarrow> (\<forall>i q e. \<rho> i = Some (q, e) \<longrightarrow> (\<exists>g \<in> set out. gr_id g = i \<and> gr_qty g = q))"

definition well_issued :: "'r fleet \<Rightarrow> bool" where
  "well_issued f \<longleftrightarrow> set (fl_out f) \<subseteq> set (fl_issued f) \<and> distinct (map gr_id (fl_issued f)) \<and>
     distinct (fl_out f) \<and> (\<forall>g \<in> set (fl_issued f). 0 < gr_qty g)"

definition covered :: "(string \<Rightarrow> int option) \<Rightarrow> grant list \<Rightarrow> bool" where
  "covered L out \<longleftrightarrow> (\<forall>g \<in> set out. L (grant_key g) \<noteq> None) \<and> (\<forall>k n. L k = Some n \<longrightarrow> units out k \<le> n)"

lemma same_id: "distinct (map gr_id gs) \<Longrightarrow> g \<in> set gs \<Longrightarrow> h \<in> set gs \<Longrightarrow> gr_id g = gr_id h \<Longrightarrow> g = h"
  by (simp add: distinct_map inj_on_def)

lemma covered_remove1:
  assumes "covered L out" "g \<in> set out" "0 < gr_qty g"
  shows "covered L (remove1 g out)"
proof -
  have "units (remove1 g out) k \<le> n" if "L k = Some n" for k n
  proof -
    have "units out k \<le> n" using assms(1) that by (simp add: covered_def)
    then show ?thesis using assms(3) units_remove1 [OF assms(2), of k] by (simp split: if_splits)
  qed
  then show ?thesis using assms(1) by (auto simp: covered_def dest: notin_set_remove1 set_remove1_subset [THEN subsetD])
qed

lemma backed_drop: "backed \<rho> out \<Longrightarrow> backed (\<rho>(i := None)) out"
  by (auto simp: backed_def)

lemma backed_remove1:
  assumes "backed \<rho> out" "distinct out"
  shows "backed (\<rho>(gr_id g := None)) (remove1 g out)"
  using assms by (fastforce simp: backed_def)

context stock_redis
begin

definition fleet_ok :: "(string \<Rightarrow> int option) \<Rightarrow> 'r fleet \<Rightarrow> bool" where
  "fleet_ok L f \<longleftrightarrow> invar (fl_redis f) \<and> well_issued f \<and> covered L (fl_out f) \<and>
     (\<exists>\<rho>. repr (fl_now f) (left L (fl_out f)) \<rho> (kv_of (fl_redis f)) \<and> backed \<rho> (fl_out f))"

lemma reserve_call_law:
  assumes "invar r" "0 < gr_qty g" "0 < ttl" "reserve_call R g ttl now r = (res, r')"
  shows "res = Inr (fst (spec_reserve now (grant_key g) (reservationKey (gr_id g)) (gr_qty g) ttl (kv_of r)))"
    and "invar r'"
    and "kv_eq now (kv_of r') (snd (spec_reserve now (grant_key g) (reservationKey (gr_id g)) (gr_qty g) ttl (kv_of r)))"
  using reserve_law [OF assms(1-3) assms(4) [unfolded reserve_call_def]] by simp_all

lemma resolve_call_law:
  assumes "invar r" "resolve_call R g mode now r = (res, r')"
  shows "res = fst (spec_resolve now (grant_key g) (reservationKey (gr_id g)) mode (kv_of r))"
    and "invar r'"
    and "kv_eq now (kv_of r') (snd (spec_resolve now (grant_key g) (reservationKey (gr_id g)) mode (kv_of r)))"
  using resolve_law [OF assms(1) assms(2) [unfolded resolve_call_def]] by simp_all

lemma fleet_okE:
  assumes "fleet_ok L f" "fl_now f \<le> now"
  obtains \<rho> where "invar (fl_redis f)" "well_issued f" "covered L (fl_out f)"
    "repr now (left L (fl_out f)) \<rho> (kv_of (fl_redis f))" "backed \<rho> (fl_out f)"
  using assms repr_later unfolding fleet_ok_def by blast

lemma fleet_ok_reserve_accepted:
  assumes ok: "fleet_ok L f" and t: "fl_now f \<le> now" and new: "gr_id g \<notin> gr_id ` set (fl_issued f)"
    and pos: "0 < gr_qty g" "0 < ttl" and call: "reserve_call R g ttl now (fl_redis f) = (Inr (''OK'', v), r)"
  shows "fleet_ok L \<lparr>fl_redis = r, fl_now = now, fl_issued = g # fl_issued f, fl_out = g # fl_out f\<rparr>"
proof -
  let ?k = "grant_key g" and ?m = "kv_of (fl_redis f)"
  from fleet_okE [OF ok t] obtain \<rho> where inv: "invar (fl_redis f)" and w: "well_issued f"
    and c: "covered L (fl_out f)" and r: "repr now (left L (fl_out f)) \<rho> ?m" and b: "backed \<rho> (fl_out f)" .
  note law = reserve_call_law [OF inv pos call]
  have lev: "lookup now ?m ?k = left L (fl_out f) ?k" using repr_level [OF r] by (simp add: grant_key_def)
  obtain a where a: "left L (fl_out f) ?k = Some a" "gr_qty g \<le> a"
    using law(1) lev by (simp add: spec_reserve_reply split: option.splits if_splits)
  then obtain n where n: "L ?k = Some n" "a = n - units (fl_out f) ?k" by (auto simp: left_def)
  have "repr now ((left L (fl_out f))(?k \<mapsto> a - gr_qty g)) (\<rho>(gr_id g \<mapsto> (gr_qty g, Some (now + ttl * 1000)))) (kv_of r)"
    using repr_eq [OF repr_reserve [OF r a(1) [unfolded grant_key_def] a(2)]] law(3) by (simp add: grant_key_def)
  moreover have "(left L (fl_out f))(?k \<mapsto> a - gr_qty g) = left L (g # fl_out f)"
    using n by (auto simp: left_def fun_eq_iff)
  moreover have "backed (\<rho>(gr_id g \<mapsto> (gr_qty g, Some (now + ttl * 1000)))) (g # fl_out f)"
    using b by (auto simp: backed_def)
  moreover have "covered L (g # fl_out f)" using c n a(2) by (auto simp: covered_def)
  moreover have "well_issued \<lparr>fl_redis = r, fl_now = now, fl_issued = g # fl_issued f, fl_out = g # fl_out f\<rparr>"
    using w new pos(1) by (auto simp: well_issued_def)
  ultimately show ?thesis using law(2) by (auto simp: fleet_ok_def)
qed

text \<open>A call that leaves the store showing the same.\<close>

lemma fleet_ok_same:
  assumes ok: "fleet_ok L f" and t: "fl_now f \<le> now" and r': "invar r" "kv_eq now (kv_of r) (kv_of (fl_redis f))"
  shows "fleet_ok L (f\<lparr>fl_redis := r, fl_now := now\<rparr>)"
  by (rule fleet_okE [OF ok t]) (use r' in \<open>auto simp: fleet_ok_def well_issued_def dest: repr_eq\<close>)

lemma fleet_ok_reserve_rejected:
  assumes ok: "fleet_ok L f" and t: "fl_now f \<le> now" and pos: "0 < gr_qty g" "0 < ttl"
    and call: "reserve_call R g ttl now (fl_redis f) = (Inr (st, v), r)" "st \<noteq> ''OK''"
  shows "fleet_ok L (f\<lparr>fl_redis := r, fl_now := now\<rparr>)"
proof -
  from fleet_okE [OF ok t] obtain \<rho> where inv: "invar (fl_redis f)" by blast
  note law = reserve_call_law [OF inv pos call(1)]
  let ?sp = "spec_reserve now (grant_key g) (reservationKey (gr_id g)) (gr_qty g) ttl (kv_of (fl_redis f))"
  have "fst (fst ?sp) \<noteq> ''OK''" using law(1) call(2) by (metis Inr_inject fst_conv)
  then have "snd ?sp = kv_of (fl_redis f)" by (auto simp: spec_reserve_def split: option.splits if_splits)
  then show ?thesis using fleet_ok_same [OF ok t law(2)] law(3) by simp
qed

text \<open>A resolution of a reservation that is open, and of one that is not.\<close>

lemma open_reservation:
  assumes "well_issued f" "backed \<rho> (fl_out f)" "g \<in> set (fl_issued f)" "lookup now \<rho> (gr_id g) = Some q"
  shows "g \<in> set (fl_out f)" and "gr_qty g = q" and "0 < gr_qty g"
proof -
  obtain e where "\<rho> (gr_id g) = Some (q, e)"
    using assms(4) by (auto simp: lookup_def split: option.splits if_splits prod.splits)
  with assms(2) obtain h where h: "h \<in> set (fl_out f)" "gr_id h = gr_id g" "gr_qty h = q" by (auto simp: backed_def)
  with assms(1,3) have "h = g" by (auto simp: well_issued_def dest: same_id)
  with h assms(1,3) show "g \<in> set (fl_out f)" "gr_qty g = q" "0 < gr_qty g" by (auto simp: well_issued_def)
qed

lemma fleet_ok_resolve:
  assumes ok: "fleet_ok L f" and t: "fl_now f \<le> now" and g: "g \<in> set (fl_issued f)"
    and mode: "mode = ''RELEASE'' \<or> mode = ''COMMIT''" and call: "resolve_call R g mode now (fl_redis f) = (res, r)"
  shows "fleet_ok L (f\<lparr>fl_redis := r, fl_now := now,
      fl_out := (if map_sum id fst res = Inr ''RELEASED'' then remove1 g (fl_out f) else fl_out f)\<rparr>)"
proof -
  let ?k = "grant_key g" and ?m = "kv_of (fl_redis f)"
  from fleet_okE [OF ok t] obtain \<rho> where inv: "invar (fl_redis f)" and w: "well_issued f"
    and c: "covered L (fl_out f)" and r: "repr now (left L (fl_out f)) \<rho> ?m" and b: "backed \<rho> (fl_out f)" .
  note law = resolve_call_law [OF inv call]
  have pl: "lookup now ?m (reservationKey (gr_id g)) = lookup now \<rho> (gr_id g)" by (rule repr_pledge [OF r])
  show ?thesis
  proof (cases "lookup now \<rho> (gr_id g)")
    case None
    then have "res = Inr (''ALREADY_RESOLVED'', Num 0)" "kv_eq now (kv_of r) ?m"
      using law(1,3) pl by (simp_all add: spec_resolve_def)
    with fleet_ok_same [OF ok t law(2)] show ?thesis by simp
  next
    case (Some q)
    note out = open_reservation [OF w b g Some]
    show ?thesis
    proof (cases "mode = ''RELEASE''")
      case True
      have rel: "map_sum id fst res = Inr ''RELEASED''" using law(1) pl Some True by (simp add: spec_resolve_reply)
      obtain n where n: "L ?k = Some n" using c out(1) by (auto simp: covered_def)
      let ?a = "n - units (fl_out f) ?k"
      have a: "left L (fl_out f) ?k = Some ?a" using n by (simp add: left_def)
      have "repr now ((left L (fl_out f))(?k \<mapsto> ?a + q)) (\<rho>(gr_id g := None)) (kv_of r)"
        using repr_eq [OF repr_release [OF r a [unfolded grant_key_def] Some]] law(3) True by (simp add: grant_key_def)
      moreover have "(left L (fl_out f))(?k \<mapsto> ?a + q) = left L (remove1 g (fl_out f))"
        using n units_remove1 [OF out(1)] out(2) by (auto simp: left_def fun_eq_iff)
      ultimately have "repr now (left L (remove1 g (fl_out f))) (\<rho>(gr_id g := None)) (kv_of r)" by simp
      moreover have "backed (\<rho>(gr_id g := None)) (remove1 g (fl_out f))"
        using backed_remove1 b w by (simp add: well_issued_def)
      moreover have "set (remove1 g (fl_out f)) \<subseteq> set (fl_issued f)"
        using w set_remove1_subset [of g "fl_out f"] by (auto simp: well_issued_def)
      ultimately show ?thesis
        using rel law(2) w covered_remove1 [OF c out(1,3)] by (auto simp: fleet_ok_def well_issued_def)
    next
      case False
      with mode have m: "mode = ''COMMIT''" by simp
      have "map_sum id fst res = Inr ''COMMITTED''" using law(1) pl Some m by (simp add: spec_resolve_reply)
      moreover have "repr now (left L (fl_out f)) (\<rho>(gr_id g := None)) (kv_of r)"
        using repr_eq [OF repr_commit [OF r Some]] law(3) m by (simp add: grant_key_def)
      ultimately show ?thesis
        using law(2) w c backed_drop [OF b] by (auto simp: fleet_ok_def well_issued_def)
    qed
  qed
qed

lemma fleet_ok_step: "fleet_step R f f' \<Longrightarrow> fleet_ok L f \<Longrightarrow> fleet_ok L f'"
proof (induction rule: fleet_step.induct)
  case (reserve_accepted f now g ttl v r)
  then show ?case by (intro fleet_ok_reserve_accepted)
next
  case (reserve_rejected f now g ttl st v r)
  then show ?case by (intro fleet_ok_reserve_rejected)
next
  case (release_done f now g v r)
  from fleet_ok_resolve [OF this(4,1,2) _ this(3)] show ?case by simp
next
  case (release_late f now g st v r)
  from fleet_ok_resolve [OF this(5,1,2) _ this(3)] this(4) show ?case by (cases f) simp
next
  case (commit_any f now g res r)
  from commit_any have "invar (fl_redis f)" by (simp add: fleet_ok_def)
  from resolve_call_law(1) [OF this commit_any(3)] have "map_sum id fst res \<noteq> Inr ''RELEASED''"
    by (simp add: spec_resolve_reply split: option.splits)
  with fleet_ok_resolve [OF commit_any(4,1,2) _ commit_any(3)] show ?case by (cases f) simp
qed

lemma fleet_ok_reachable: "(fleet_step R)\<^sup>*\<^sup>* f f' \<Longrightarrow> fleet_ok L f \<Longrightarrow> fleet_ok L f'"
  by (induction rule: rtranclp_induct) (auto intro: fleet_ok_step)

text \<open>A fleet that starts on a store without reservations.\<close>

lemma fleet_ok_init:
  assumes "invar r" "repr now L Map.empty (kv_of r)" "\<forall>k n. L k = Some n \<longrightarrow> 0 \<le> n"
  shows "fleet_ok L \<lparr>fl_redis = r, fl_now = now, fl_issued = [], fl_out = []\<rparr>"
  using assms by (auto simp: fleet_ok_def well_issued_def covered_def backed_def)

lemma fleet_ok_level:
  assumes "fleet_ok L f" "L (stockKey w s) = Some n" "fl_now f \<le> t"
  shows "lookup t (kv_of (fl_redis f)) (stockKey w s) = Some (n - units (fl_out f) (stockKey w s)) \<and>
     units (fl_out f) (stockKey w s) \<le> n"
  by (rule fleet_okE [OF assms(1,3)]) (use assms(2) in \<open>auto simp: repr_level left_def covered_def\<close>)

end

end
