(* ===== verification/Oversell.thy ===== *)
theory Oversell
  imports Stock_Safety Server_Saga
begin

text \<open>
  No oversell: the safety of concurrent reservations on any Redis server that runs the two
  scripts, and the exact number of reservations a stock level admits.
\<close>

section \<open>No interleaving oversells\<close>

definition fresh_fleet :: "'r \<Rightarrow> int \<Rightarrow> 'r fleet" where
  "fresh_fleet r now = \<lparr>fl_redis = r, fl_now = now, fl_issued = [], fl_out = []\<rparr>"

text \<open>C2: no oversell. Let any number of instances reserve, release and commit through the Lua
  scripts on one Redis server, interleaved in any way, with late and repeated releases and
  commits. The units of an item that are out (accepted and not released) never exceed its
  initial stock, and the counter shows exactly the difference, so it is never negative.\<close>

theorem never_oversell:
  assumes "redis_server C kv_of invar" and "invar r" and "repr now L Map.empty (kv_of r)"
    and "\<forall>k n. L k = Some n \<longrightarrow> 0 \<le> n" and "(fleet_step (server_client C))\<^sup>*\<^sup>* (fresh_fleet r now) f"
    and "L (stockKey w s) = Some n"
  shows "0 \<le> n - units (fl_out f) (stockKey w s) \<and>
     lookup (fl_now f) (kv_of (fl_redis f)) (stockKey w s) = Some (n - units (fl_out f) (stockKey w s))"
proof -
  note sr = redis_server.server_is_stock_redis [OF assms(1)]
  have "stock_redis.fleet_ok kv_of invar L (fresh_fleet r now)"
    unfolding fresh_fleet_def by (rule stock_redis.fleet_ok_init [OF sr assms(2-4)])
  from stock_redis.fleet_ok_reachable [OF sr assms(5) this]
  have "stock_redis.fleet_ok kv_of invar L f" .
  from stock_redis.fleet_ok_level [OF sr this assms(6) order_refl] show ?thesis by simp
qed

text \<open>The server of the witness: the commands of the in-memory client, with three units in stock.\<close>

definition demo_redis :: redis_mem where
  "demo_redis = \<lparr>rm_store = [(stockKey ''w1'' ''s1'', int_string 3)], rm_expiresAt = []\<rparr>"

definition demo_grant :: "string \<Rightarrow> int \<Rightarrow> grant" where
  "demo_grant i q = \<lparr>gr_warehouse = ''w1'', gr_sku = ''s1'', gr_id = i, gr_qty = q\<rparr>"

lemma demo_redis_repr: "mem_ok demo_redis" "repr now [stockKey ''w1'' ''s1'' \<mapsto> 3] Map.empty (mem_kv demo_redis)"
  by (auto simp: mem_ok_def demo_redis_def repr_def lookup_def mem_kv_def jhas_def)

lemma demo_reserve_step:
  "\<exists>f. fleet_step (server_client mem_commands) (fresh_fleet demo_redis 0) f \<and> fl_out f = [demo_grant ''r1'' 2]"
proof -
  let ?g = "demo_grant ''r1'' 2" and ?R = "server_client mem_commands"
  obtain res r where call: "reserve_call ?R ?g 900 0 demo_redis = (res, r)"
    by (cases "reserve_call ?R ?g 900 0 demo_redis")
  from memsrv.srv.reserve_call_law(1) [OF demo_redis_repr(1) _ _ call]
  have "res = Inr (fst (spec_reserve 0 (grant_key ?g) (reservationKey ''r1'') 2 900 (mem_kv demo_redis)))"
    by (simp add: demo_grant_def)
  moreover have "lookup 0 (mem_kv demo_redis) (grant_key ?g) = Some 3"
    using repr_level [OF demo_redis_repr(2), of 0 "''w1''" "''s1''"] by (simp add: grant_key_def demo_grant_def)
  ultimately have "res = Inr (''OK'', Num 1)" by (simp add: spec_reserve_reply)
  then have "fleet_step ?R (fresh_fleet demo_redis 0)
      \<lparr>fl_redis = r, fl_now = 0, fl_issued = ?g # fl_issued (fresh_fleet demo_redis 0),
       fl_out = ?g # fl_out (fresh_fleet demo_redis 0)\<rparr>"
    using call by (intro fleet_step.reserve_accepted) (auto simp: fresh_fleet_def demo_grant_def)
  then show ?thesis by (auto simp: fresh_fleet_def)
qed

theorem never_oversell_witness:
  "\<exists>f. (fleet_step (server_client mem_commands))\<^sup>*\<^sup>* (fresh_fleet demo_redis 0) f \<and>
     lookup (fl_now f) (mem_kv (fl_redis f)) (stockKey ''w1'' ''s1'') = Some 1"
proof -
  from demo_reserve_step obtain f where
    f: "fleet_step (server_client mem_commands) (fresh_fleet demo_redis 0) f" "fl_out f = [demo_grant ''r1'' 2]" by blast
  have "lookup (fl_now f) (mem_kv (fl_redis f)) (stockKey ''w1'' ''s1'') =
      Some (3 - units (fl_out f) (stockKey ''w1'' ''s1''))"
    using never_oversell [OF memsrv.redis_server_axioms demo_redis_repr(1) demo_redis_repr(2) _
      r_into_rtranclp [of "fleet_step (server_client mem_commands)", OF f(1)], of "''w1''" "''s1''" 3]
    by auto
  moreover have "units (fl_out f) (stockKey ''w1'' ''s1'') = 2"
    by (simp add: f(2) grant_key_def demo_grant_def)
  ultimately show ?thesis using f(1) by auto
qed

section \<open>How many reservations a level admits\<close>

definition unit_line :: "string \<Rightarrow> string \<Rightarrow> order_line" where
  "unit_line w s = \<lparr>ol_sku = s, ol_qty = 1, ol_warehouseId = w\<rparr>"

text \<open>\<open>n\<close> requests for one unit each, served one after the other.\<close>

definition reserve_units ::
  "env \<Rightarrow> string \<Rightarrow> string \<Rightarrow> nat \<Rightarrow> (server_world, reservation_result list) act" where
  "reserve_units E w s n =
     map_act (\<lambda>_. reserve InMemoryRedis E w s (Num 1) DEFAULT_RESERVATION_TTL_SECONDS) (replicate n ())"

lemma unit_line_fields [simp]:
  "ol_sku (unit_line w s) = s" "ol_qty (unit_line w s) = 1" "ol_warehouseId (unit_line w s) = w"
  by (simp_all add: unit_line_def)

lemma demand_units: "demand (replicate m (unit_line w s)) (stockKey w s) = int m"
  by (induction m) (simp_all add: line_key_def)

lemma fulfillable_units:
  "L (stockKey w s) = Some (int k) \<Longrightarrow> fulfillable L (replicate m (unit_line w s)) \<longleftrightarrow> m \<le> k"
  using demand_units [of m w s] by (auto simp: fulfillable_iff line_key_def)

lemma reserve_units_run:
  assumes "mem.holding E p L \<rho> tk tk" "separate \<rho> tk" "lines_of tk = replicate m (unit_line w s)" "m \<le> k"
    and "fresh_ids E (co_uuids p) (dom \<rho> \<union> set (ids tk))" and clock: "clock_ok E" and L: "L (stockKey w s) = Some (int k)"
  shows "\<exists>rs p' tk'. reserve_units E w s n p = (Inr rs, p') \<and> length rs = n \<and>
     (\<forall>i < n. rr_ok (rs ! i) \<longleftrightarrow> m + i < k) \<and> mem.holding E p' L \<rho> tk' tk' \<and>
     lines_of tk' = replicate (min k (m + n)) (unit_line w s)"
  using assms(1-5)
proof (induction n arbitrary: m tk p)
  case 0
  then show ?case by (auto simp: reserve_units_def)
next
  case (Suc n)
  let ?l = "unit_line w s"
  have full: "fulfillable L (lines_of tk)" using fulfillable_units [of L w s k, OF L] Suc.prems(3,4) by simp
  have snoc: "lines_of tk @ [?l] = replicate (Suc m) ?l" using Suc.prems(3) by (simp add: replicate_append_same)
  from mem.reserve_line_run [OF Suc.prems(1,2) full Suc.prems(5) clock, of ?l]
  obtain res p1 where
    p1: "reserve InMemoryRedis E w s (Num 1) DEFAULT_RESERVATION_TTL_SECONDS p = (Inr res, p1)"
    and c: "if Suc m \<le> k then
        \<exists>i d. rr_ok res \<and> rr_reservationId res = Some i \<and>
          mem.holding E p1 L \<rho> (tk @ [(?l, i, d)]) (tk @ [(?l, i, d)]) \<and>
          separate \<rho> (tk @ [(?l, i, d)]) \<and> env_now E (co_ticks p) + 900000 \<le> d \<and>
          fresh_ids E (co_uuids p1) (dom \<rho> \<union> set (ids (tk @ [(?l, i, d)])))
      else \<not> rr_ok res \<and> mem.holding E p1 L \<rho> tk tk \<and> fresh_ids E (co_uuids p1) (dom \<rho> \<union> set (ids tk))"
    unfolding snoc fulfillable_units [of L w s k, OF L] unit_line_fields by blast
  have step: "reserve_units E w s (Suc n) p = (Inr (res # rs), p2)" if "reserve_units E w s n p1 = (Inr rs, p2)" for rs p2
    using that p1 by (simp add: reserve_units_def bind_apply)
  show ?case
  proof (cases "Suc m \<le> k")
    case True
    with c obtain i d where i: "rr_ok res" "mem.holding E p1 L \<rho> (tk @ [(?l, i, d)]) (tk @ [(?l, i, d)])"
      "separate \<rho> (tk @ [(?l, i, d)])" "fresh_ids E (co_uuids p1) (dom \<rho> \<union> set (ids (tk @ [(?l, i, d)])))" by auto
    have "lines_of (tk @ [(?l, i, d)]) = replicate (Suc m) ?l" using snoc by simp
    from Suc.IH [OF i(2,3) this True i(4)] obtain rs p2 tk' where
      "reserve_units E w s n p1 = (Inr rs, p2)" "length rs = n" "\<forall>i < n. rr_ok (rs ! i) \<longleftrightarrow> Suc m + i < k"
      "mem.holding E p2 L \<rho> tk' tk'" "lines_of tk' = replicate (min k (Suc m + n)) ?l" by blast
    with step i(1) True show ?thesis
      by (intro exI [of _ "res # rs"] exI [of _ p2] exI [of _ tk']) (auto simp: nth_Cons split: nat.splits)
  next
    case False
    with c have i: "\<not> rr_ok res" "mem.holding E p1 L \<rho> tk tk" "fresh_ids E (co_uuids p1) (dom \<rho> \<union> set (ids tk))" by auto
    from Suc.IH [OF i(2) Suc.prems(2-4) i(3)] obtain rs p2 tk' where
      "reserve_units E w s n p1 = (Inr rs, p2)" "length rs = n" "\<forall>i < n. rr_ok (rs ! i) \<longleftrightarrow> m + i < k"
      "mem.holding E p2 L \<rho> tk' tk'" "lines_of tk' = replicate (min k (m + n)) ?l" by blast
    with step i(1) False Suc.prems(4) show ?thesis
      by (intro exI [of _ "res # rs"] exI [of _ p2] exI [of _ tk']) (auto simp: nth_Cons min_def split: nat.splits)
  qed
qed

text \<open>Exactly the stock is sold. Of \<open>n\<close> one-unit reservations against a stock of \<open>k\<close>, the first
  \<open>k\<close> are accepted and the rest rejected, and \<open>k - n\<close> units (none, when \<open>n\<close> is larger) are left.\<close>

theorem unit_reservations_exact:
  assumes "shows_stock E L \<rho> p" and "L (stockKey w s) = Some (int k)"
    and "fresh_ids E (co_uuids p) (dom \<rho>)" and "clock_ok E"
  shows "\<exists>rs p'. reserve_units E w s n p = (Inr rs, p') \<and> length rs = n \<and>
     (\<forall>i < n. rr_ok (rs ! i) \<longleftrightarrow> i < k) \<and>
     lookup (env_now E (co_ticks p')) (mem_kv (co_redis p')) (stockKey w s) = Some (int (k - n))"
proof -
  from reserve_units_run [of E p L \<rho> "[]" 0 w s k n] assms obtain rs p' tk' where
    r: "reserve_units E w s n p = (Inr rs, p')" "length rs = n" "\<forall>i < n. rr_ok (rs ! i) \<longleftrightarrow> i < k"
      "mem.holding E p' L \<rho> tk' tk'" "lines_of tk' = replicate (min k n) (unit_line w s)"
    by (auto simp: shows_stock_holding separate_def)
  from r(4) have "lookup (env_now E (co_ticks p')) (mem_kv (co_redis p')) (stockKey w s) =
      debit L (lines_of tk') (stockKey w s)"
    unfolding mem.holding_def by (blast intro: repr_level)
  with r assms(2) show ?thesis by (auto simp: debit_def demand_units min_def)
qed

theorem unit_reservations_exact_witness:
  "\<exists>rs p'. reserve_units demo_env ''w1'' ''s1'' 7 demo_world = (Inr rs, p') \<and> rr_ok (rs ! 4) \<and> \<not> rr_ok (rs ! 5)"
  using unit_reservations_exact [of demo_env demo_levels Map.empty demo_world "''w1''" "''s1''" 5 7]
    demo_shows_stock demo_env_ok by (auto simp: demo_levels_def)

end
