(* ===== verification/Pg_Order_Store.thy ===== *)
theory Pg_Order_Store
  imports Order_Store
begin

text \<open>
  \<open>PgOrderStore\<close> of \<open>src/orders/pgOrderStore.ts\<close> on the tables of \<open>docs/schema.sql\<close>: the rows, the
  statements with the constraints they can violate, transactions, and the methods. What the
  database does with a text it casts to a UUID (\<open>uuid_in\<close>, none on a syntax error) and with a JSON
  document it stores (\<open>jsonb\<close>, its normal form) are parameters. Rows are read in the order they
  were written unless the statement sorts them.
\<close>

section \<open>Tables\<close>

record order_row =
  ow_id :: string
  ow_customer_id :: string
  ow_business_id :: "string option"
  ow_amount_cents :: int
  ow_status :: order_status
  ow_created_at :: int
  ow_updated_at :: int

record order_line_row =
  lw_order_id :: string
  lw_sku :: string
  lw_warehouse_id :: string
  lw_qty :: int

record order_event_row =
  ew_id :: nat
  ew_order_id :: string
  ew_type :: string
  ew_detail :: "json option"
  ew_at :: int

record pg_db =
  db_orders :: "order_row list"
  db_lines :: "order_line_row list"
  db_events :: "order_event_row list"
  db_next_event :: nat

definition new_pg_db :: pg_db where
  "new_pg_db = \<lparr>db_orders = [], db_lines = [], db_events = [], db_next_event = 1\<rparr>"

section \<open>Statements\<close>

text \<open>\<open>BEGIN\<close> ... \<open>COMMIT\<close>, or \<open>ROLLBACK\<close> when the body throws: the tables go back, a serial does
  not.\<close>

definition transaction :: "(pg_db, unit) act \<Rightarrow> (pg_db, unit) act" where
  "transaction body db =
     (case body db of
        (Inr _, db') \<Rightarrow> (Inr (), db')
      | (Inl e, db') \<Rightarrow> (Inl e, db\<lparr>db_next_event := db_next_event db'\<rparr>))"

definition cast_uuid :: "(string \<Rightarrow> string option) \<Rightarrow> string \<Rightarrow> (pg_db, string) act" where
  "cast_uuid uuid_in s =
     (case uuid_in s of None \<Rightarrow> throw (PgError ''invalid input syntax for type uuid'') | Some u \<Rightarrow> ret u)"

definition cast_uuid_null :: "(string \<Rightarrow> string option) \<Rightarrow> string option \<Rightarrow> (pg_db, string option) act" where
  "cast_uuid_null uuid_in x =
     (case x of None \<Rightarrow> ret None | Some s \<Rightarrow> bind (cast_uuid uuid_in s) (\<lambda>u. ret (Some u)))"

definition fits_integer :: "int \<Rightarrow> bool" where
  "fits_integer n \<longleftrightarrow> - (2 ^ 31) \<le> n \<and> n < 2 ^ 31"

definition insert_order :: "order_row \<Rightarrow> (pg_db, unit) act" where
  "insert_order row db =
     (if \<not> fits_integer (ow_amount_cents row) then (Inl (PgError ''integer out of range''), db)
      else if ow_amount_cents row \<le> 0 then (Inl (PgError ''orders_amount_cents_check''), db)
      else if ow_id row \<in> ow_id ` set (db_orders db) then (Inl (PgError ''orders_pkey''), db)
      else (Inr (), db\<lparr>db_orders := db_orders db @ [row]\<rparr>))"

definition line_pkey :: "order_line_row \<Rightarrow> string \<times> string \<times> string" where
  "line_pkey row = (lw_order_id row, lw_sku row, lw_warehouse_id row)"

definition insert_line :: "order_line_row \<Rightarrow> (pg_db, unit) act" where
  "insert_line row db =
     (if \<not> fits_integer (lw_qty row) then (Inl (PgError ''integer out of range''), db)
      else if lw_qty row \<le> 0 then (Inl (PgError ''order_lines_qty_check''), db)
      else if lw_order_id row \<notin> ow_id ` set (db_orders db) then (Inl (PgError ''order_lines_order_id_fkey''), db)
      else if line_pkey row \<in> line_pkey ` set (db_lines db) then (Inl (PgError ''order_lines_pkey''), db)
      else (Inr (), db\<lparr>db_lines := db_lines db @ [row]\<rparr>))"

definition insert_event :: "string \<Rightarrow> string \<Rightarrow> json option \<Rightarrow> int \<Rightarrow> (pg_db, unit) act" where
  "insert_event oid type detail ts db =
     (let n = db_next_event db; db1 = db\<lparr>db_next_event := Suc n\<rparr> in
      if oid \<notin> ow_id ` set (db_orders db) then (Inl (PgError ''order_events_order_id_fkey''), db1)
      else (Inr (), db1\<lparr>db_events := db_events db @
              [\<lparr>ew_id = n, ew_order_id = oid, ew_type = type, ew_detail = detail, ew_at = ts\<rparr>]\<rparr>))"

text \<open>\<open>UPDATE orders SET status, updated_at WHERE id\<close>: the number of rows changed.\<close>

definition restatus :: "string \<Rightarrow> order_status \<Rightarrow> int \<Rightarrow> order_row \<Rightarrow> order_row" where
  "restatus oid status ts r = (if ow_id r = oid then r\<lparr>ow_status := status, ow_updated_at := ts\<rparr> else r)"

definition update_order :: "string \<Rightarrow> order_status \<Rightarrow> int \<Rightarrow> (pg_db, nat) act" where
  "update_order oid status ts db =
     (Inr (length (filter (\<lambda>r. ow_id r = oid) (db_orders db))),
      db\<lparr>db_orders := map (restatus oid status ts) (db_orders db)\<rparr>)"

lemma restatus_id [simp]: "ow_id (restatus oid status ts r) = ow_id r"
  by (simp add: restatus_def)

section \<open>PgOrderStore\<close>

text \<open>\<open>linesFor\<close> and \<open>eventsFor\<close>: one query for many orders, grouped by the id of the row.\<close>

fun group_rows :: "('r \<Rightarrow> string) \<Rightarrow> ('r \<Rightarrow> 'x) \<Rightarrow> 'r list \<Rightarrow> (string, 'x list) jmap \<Rightarrow> (string, 'x list) jmap" where
  "group_rows key f [] byOrder = byOrder"
| "group_rows key f (r # rs) byOrder =
     group_rows key f rs
       (jset (key r) ((case jget byOrder (key r) of None \<Rightarrow> [] | Some l \<Rightarrow> l) @ [f r]) byOrder)"

definition line_of_row :: "order_line_row \<Rightarrow> order_line" where
  "line_of_row r = \<lparr>ol_sku = lw_sku r, ol_qty = lw_qty r, ol_warehouseId = lw_warehouse_id r\<rparr>"

definition event_of_row :: "order_event_row \<Rightarrow> order_event" where
  "event_of_row r = \<lparr>ev_type = ew_type r, ev_at = ew_at r, ev_detail = ew_detail r\<rparr>"

definition linesFor ::
  "(string \<Rightarrow> string option) \<Rightarrow> string list \<Rightarrow> (pg_db, (string, order_line list) jmap) act" where
  "linesFor uuid_in orderIds =
     bind (map_act (cast_uuid uuid_in) orderIds) (\<lambda>us.
     bind (read_state (\<lambda>db. filter (\<lambda>r. lw_order_id r \<in> set us) (db_lines db))) (\<lambda>rows.
     ret (group_rows lw_order_id line_of_row rows [])))"

definition eventsFor ::
  "(string \<Rightarrow> string option) \<Rightarrow> string list \<Rightarrow> (pg_db, (string, order_event list) jmap) act" where
  "eventsFor uuid_in orderIds =
     bind (map_act (cast_uuid uuid_in) orderIds) (\<lambda>us.
     bind (read_state (\<lambda>db. sort_key ew_at (filter (\<lambda>r. ew_order_id r \<in> set us) (db_events db)))) (\<lambda>rows.
     ret (group_rows ew_order_id event_of_row rows [])))"

definition toOrder :: "order_row \<Rightarrow> order_line list \<Rightarrow> order_event list \<Rightarrow> order" where
  "toOrder row lns evs =
     \<lparr>or_id = ow_id row, or_customerId = ow_customer_id row, or_lines = lns, or_amountCents = ow_amount_cents row,
      or_status = ow_status row, or_history = evs, or_createdAt = ow_created_at row,
      or_updatedAt = ow_updated_at row, or_businessId = ow_business_id row\<rparr>"

definition or_empty :: "(string, 'x list) jmap \<Rightarrow> string \<Rightarrow> 'x list" where
  "or_empty m k = (case jget m k of None \<Rightarrow> [] | Some l \<Rightarrow> l)"

definition pg_create :: "(string \<Rightarrow> string option) \<Rightarrow> order \<Rightarrow> (pg_db, unit) act" where
  "pg_create uuid_in od =
     transaction
       (bind (cast_uuid uuid_in (or_id od)) (\<lambda>oid.
        bind (cast_uuid_null uuid_in (or_businessId od)) (\<lambda>biz.
        bind (insert_order \<lparr>ow_id = oid, ow_customer_id = or_customerId od, ow_business_id = biz,
               ow_amount_cents = or_amountCents od, ow_status = or_status od, ow_created_at = or_createdAt od,
               ow_updated_at = or_updatedAt od\<rparr>) (\<lambda>_.
        for_each (\<lambda>l. insert_line \<lparr>lw_order_id = oid, lw_sku = ol_sku l, lw_warehouse_id = ol_warehouseId l,
               lw_qty = ol_qty l\<rparr>) (or_lines od)))))"

text \<open>\<open>business_id IS NOT DISTINCT FROM $n\<close>, or no condition.\<close>

definition scope_condition ::
  "(string \<Rightarrow> string option) \<Rightarrow> scope \<Rightarrow> (pg_db, order_row \<Rightarrow> bool) act" where
  "scope_condition uuid_in sc =
     (case sc of
        Unscoped \<Rightarrow> ret (\<lambda>_. True)
      | Scoped b \<Rightarrow> bind (cast_uuid_null uuid_in b) (\<lambda>biz. ret (\<lambda>r. ow_business_id r = biz)))"

definition pg_get :: "(string \<Rightarrow> string option) \<Rightarrow> string \<Rightarrow> scope \<Rightarrow> (pg_db, order option) act" where
  "pg_get uuid_in oid businessId =
     bind (cast_uuid uuid_in oid) (\<lambda>u.
     bind (scope_condition uuid_in businessId) (\<lambda>cond.
     bind (read_state (\<lambda>db. find (\<lambda>r. ow_id r = u \<and> cond r) (db_orders db))) (\<lambda>orderRow.
     case orderRow of
       None \<Rightarrow> ret None
     | Some row \<Rightarrow>
         bind (linesFor uuid_in [oid]) (\<lambda>lns.
         bind (eventsFor uuid_in [oid]) (\<lambda>evs.
         ret (Some (toOrder row (or_empty lns oid) (or_empty evs oid))))))))"

definition pg_updateStatus ::
  "(string \<Rightarrow> string option) \<Rightarrow> (json \<Rightarrow> json) \<Rightarrow> string \<Rightarrow> order_status \<Rightarrow> order_event \<Rightarrow> int \<Rightarrow> (pg_db, unit) act" where
  "pg_updateStatus uuid_in jsonb oid status event now =
     transaction
       (bind (cast_uuid uuid_in oid) (\<lambda>u.
        bind (update_order u status (ev_at event)) (\<lambda>rowCount.
        if rowCount = 0 then throw (UnknownOrder oid)
        else insert_event u (ev_type event) (map_option jsonb (ev_detail event)) (ev_at event))))"

definition hydrateAll :: "(string \<Rightarrow> string option) \<Rightarrow> order_row list \<Rightarrow> (pg_db, order list) act" where
  "hydrateAll uuid_in rows =
     (if rows = [] then ret []
      else
        bind (linesFor uuid_in (map ow_id rows)) (\<lambda>lns.
        bind (eventsFor uuid_in (map ow_id rows)) (\<lambda>evs.
        ret (map (\<lambda>row. toOrder row (or_empty lns (ow_id row)) (or_empty evs (ow_id row))) rows))))"

definition pg_all :: "(string \<Rightarrow> string option) \<Rightarrow> scope \<Rightarrow> (pg_db, order list) act" where
  "pg_all uuid_in businessId =
     bind (scope_condition uuid_in businessId) (\<lambda>cond.
     bind (read_state (\<lambda>db. sort_key ow_created_at (filter cond (db_orders db)))) (hydrateAll uuid_in))"

definition pg_nonTerminal :: "(string \<Rightarrow> string option) \<Rightarrow> (pg_db, order list) act" where
  "pg_nonTerminal uuid_in =
     bind (read_state (\<lambda>db. sort_key ow_created_at
       (filter (\<lambda>r. ow_status r \<notin> TERMINAL_ORDER_STATUSES) (db_orders db)))) (hydrateAll uuid_in)"

definition PgOrderStore :: "(string \<Rightarrow> string option) \<Rightarrow> (json \<Rightarrow> json) \<Rightarrow> pg_db order_store" where
  "PgOrderStore uuid_in jsonb =
     \<lparr>os_create = pg_create uuid_in, os_get = pg_get uuid_in, os_updateStatus = pg_updateStatus uuid_in jsonb,
      os_all = pg_all uuid_in, os_nonTerminal = pg_nonTerminal uuid_in, os_deref = (\<lambda>od _. od)\<rparr>"

section \<open>The orders the tables hold\<close>

definition pg_lines :: "pg_db \<Rightarrow> string \<Rightarrow> order_line list" where
  "pg_lines db oid = map line_of_row (filter (\<lambda>r. lw_order_id r = oid) (db_lines db))"

definition pg_events :: "pg_db \<Rightarrow> string \<Rightarrow> order_event list" where
  "pg_events db oid = map event_of_row (sort_key ew_at (filter (\<lambda>r. ew_order_id r = oid) (db_events db)))"

definition order_of_row :: "pg_db \<Rightarrow> order_row \<Rightarrow> order" where
  "order_of_row db r = toOrder r (pg_lines db (ow_id r)) (pg_events db (ow_id r))"

definition pg_orders :: "pg_db \<Rightarrow> string \<rightharpoonup> order" where
  "pg_orders db oid = map_option (order_of_row db) (find (\<lambda>r. ow_id r = oid) (db_orders db))"

definition canonical :: "(string \<Rightarrow> string option) \<Rightarrow> string \<Rightarrow> bool" where
  "canonical uuid_in s \<longleftrightarrow> uuid_in s = Some s"

definition canonical_scope :: "(string \<Rightarrow> string option) \<Rightarrow> scope \<Rightarrow> bool" where
  "canonical_scope uuid_in sc \<longleftrightarrow> (case sc of Scoped (Some b) \<Rightarrow> canonical uuid_in b | _ \<Rightarrow> True)"

text \<open>What the constraints of the schema and the casts of the statements keep true.\<close>

definition pg_ok :: "(string \<Rightarrow> string option) \<Rightarrow> pg_db \<Rightarrow> bool" where
  "pg_ok uuid_in db \<longleftrightarrow>
     distinct (map ow_id (db_orders db)) \<and> (\<forall>r \<in> set (db_orders db). canonical uuid_in (ow_id r)) \<and>
     lw_order_id ` set (db_lines db) \<subseteq> ow_id ` set (db_orders db) \<and>
     ew_order_id ` set (db_events db) \<subseteq> ow_id ` set (db_orders db)"

section \<open>The queries\<close>

lemma or_empty_group_rows:
  "or_empty (group_rows key f rs m) k = or_empty m k @ map f (filter (\<lambda>r. key r = k) rs)"
  by (induction rs arbitrary: m) (auto simp: or_empty_def)

lemma cast_canonical: "canonical uuid_in s \<Longrightarrow> cast_uuid uuid_in s = ret s"
  by (simp add: cast_uuid_def canonical_def)

lemma cast_all_canonical: "\<forall>s \<in> set xs. canonical uuid_in s \<Longrightarrow> map_act (cast_uuid uuid_in) xs = ret xs"
  by (induction xs) (simp_all add: cast_canonical ret_def)

lemma cast_null_canonical:
  "(case b of None \<Rightarrow> True | Some s \<Rightarrow> canonical uuid_in s) \<Longrightarrow> cast_uuid_null uuid_in b = ret b"
  by (cases b) (simp_all add: cast_uuid_null_def cast_canonical ret_def)

lemma linesFor_run:
  assumes "\<forall>s \<in> set xs. canonical uuid_in s"
  shows "\<exists>m. linesFor uuid_in xs db = (Inr m, db) \<and> (\<forall>k \<in> set xs. or_empty m k = pg_lines db k)"
proof -
  have same: "filter (\<lambda>r. lw_order_id r \<in> set xs \<and> lw_order_id r = k) rs = filter (\<lambda>r. lw_order_id r = k) rs"
    if "k \<in> set xs" for k rs using that by (intro filter_cong) auto
  then show ?thesis
    by (auto simp: linesFor_def cast_all_canonical [OF assms] or_empty_group_rows pg_lines_def or_empty_def [of "[]"] same)
qed

lemma eventsFor_run:
  assumes "\<forall>s \<in> set xs. canonical uuid_in s"
  shows "\<exists>m. eventsFor uuid_in xs db = (Inr m, db) \<and> (\<forall>k \<in> set xs. or_empty m k = pg_events db k)"
proof -
  have same: "filter (\<lambda>r. ew_order_id r \<in> set xs \<and> ew_order_id r = k) rs = filter (\<lambda>r. ew_order_id r = k) rs"
    if "k \<in> set xs" for k rs using that by (intro filter_cong) auto
  then show ?thesis
    by (auto simp: eventsFor_def cast_all_canonical [OF assms] or_empty_group_rows pg_events_def filter_sort
        or_empty_def [of "[]"] same)
qed

lemma hydrateAll_run:
  assumes "\<forall>r \<in> set rows. canonical uuid_in (ow_id r)"
  shows "hydrateAll uuid_in rows db = (Inr (map (order_of_row db) rows), db)"
proof -
  have "\<forall>s \<in> set (map ow_id rows). canonical uuid_in s" using assms by simp
  from linesFor_run [OF this, of db] eventsFor_run [OF this, of db] show ?thesis
    by (auto simp: hydrateAll_def bind_apply order_of_row_def)
qed

lemma scope_condition_run:
  assumes "canonical_scope uuid_in sc"
  shows "\<exists>c. scope_condition uuid_in sc = ret c \<and> (\<forall>db r. c r \<longleftrightarrow> in_scope sc (order_of_row db r))"
  using assms
  by (cases sc) (auto simp: scope_condition_def canonical_scope_def cast_null_canonical order_of_row_def toOrder_def ret_def
      fun_eq_iff split: option.splits)

lemma find_id: "distinct (map ow_id rs) \<Longrightarrow> r \<in> set rs \<Longrightarrow> find (\<lambda>x. ow_id x = ow_id r) rs = Some r"
  by (induction rs) auto

lemma find_no_id: "k \<notin> ow_id ` set rs \<Longrightarrow> find (\<lambda>r. ow_id r = k) rs = None"
  by (force simp: find_None_iff)

lemma find_and: "distinct (map ow_id rs) \<Longrightarrow>
  find (\<lambda>r. ow_id r = k \<and> P r) rs = (case find (\<lambda>r. ow_id r = k) rs of None \<Rightarrow> None | Some r \<Rightarrow> if P r then Some r else None)"
proof (induction rs)
  case (Cons r rs)
  then show ?case using find_no_id [of k rs] by (cases "ow_id r = k") auto
qed simp

lemma order_of_row_id [simp]: "or_id (order_of_row db r) = ow_id r"
  by (simp add: order_of_row_def toOrder_def)

lemma pg_get_run:
  assumes "pg_ok uuid_in db" "canonical uuid_in oid" "canonical_scope uuid_in sc"
  shows "pg_get uuid_in oid sc db =
    (Inr (case pg_orders db oid of None \<Rightarrow> None | Some od \<Rightarrow> if in_scope sc od then Some od else None), db)"
proof -
  from scope_condition_run [OF assms(3)] obtain c where
    c: "scope_condition uuid_in sc = ret c" "\<And>db r. c r \<longleftrightarrow> in_scope sc (order_of_row db r)" by blast
  have ids: "\<forall>s \<in> set [oid]. canonical uuid_in s" using assms(2) by simp
  from linesFor_run [OF ids, of db] obtain lm where lm: "linesFor uuid_in [oid] db = (Inr lm, db)" "or_empty lm oid = pg_lines db oid" by auto
  from eventsFor_run [OF ids, of db] obtain em where em: "eventsFor uuid_in [oid] db = (Inr em, db)" "or_empty em oid = pg_events db oid" by auto
  have d: "distinct (map ow_id (db_orders db))" using assms(1) by (simp add: pg_ok_def)
  show ?thesis
  proof (cases "find (\<lambda>r. ow_id r = oid) (db_orders db)")
    case None
    then show ?thesis
      by (simp add: pg_get_def cast_canonical [OF assms(2)] c(1) find_and [OF d] pg_orders_def)
  next
    case (Some r)
    then have r: "ow_id r = oid" by (auto simp: find_Some_iff)
    have o: "toOrder r (pg_lines db oid) (pg_events db oid) = order_of_row db r" by (simp add: order_of_row_def r)
    show ?thesis
      using c(2) [of r db]
      by (simp add: pg_get_def cast_canonical [OF assms(2)] c(1) find_and [OF d] pg_orders_def Some bind_apply lm em o)
  qed
qed

section \<open>The writes\<close>

definition line_row :: "string \<Rightarrow> order_line \<Rightarrow> order_line_row" where
  "line_row oid l = \<lparr>lw_order_id = oid, lw_sku = ol_sku l, lw_warehouse_id = ol_warehouseId l, lw_qty = ol_qty l\<rparr>"

lemma line_of_line_row [simp]: "line_of_row (line_row oid l) = l" "lw_order_id (line_row oid l) = oid"
  "line_pkey (line_row oid l) = (oid, ol_sku l, ol_warehouseId l)" "lw_qty (line_row oid l) = ol_qty l"
  by (simp_all add: line_of_row_def line_row_def line_pkey_def)

lemma insert_lines_run:
  assumes "oid \<in> ow_id ` set (db_orders db)"
    and "\<forall>l \<in> set ls. 0 < ol_qty l \<and> ol_qty l < 2 ^ 31"
    and "distinct (map (\<lambda>l. (ol_sku l, ol_warehouseId l)) ls)"
    and "\<forall>l \<in> set ls. line_pkey (line_row oid l) \<notin> line_pkey ` set (db_lines db)"
  shows "for_each (\<lambda>l. insert_line (line_row oid l)) ls db =
    (Inr (), db\<lparr>db_lines := db_lines db @ map (line_row oid) ls\<rparr>)"
  using assms
proof (induction ls arbitrary: db)
  case Nil
  then show ?case by simp
next
  case (Cons l ls)
  let ?db = "db\<lparr>db_lines := db_lines db @ [line_row oid l]\<rparr>"
  have "insert_line (line_row oid l) db = (Inr (), ?db)"
    using Cons.prems by (simp add: insert_line_def fits_integer_def)
  moreover have "for_each (\<lambda>l. insert_line (line_row oid l)) ls ?db =
      (Inr (), ?db\<lparr>db_lines := db_lines ?db @ map (line_row oid) ls\<rparr>)"
  proof (rule Cons.IH)
    show "\<forall>l' \<in> set ls. line_pkey (line_row oid l') \<notin> line_pkey ` set (db_lines ?db)"
    proof
      fix l' assume l': "l' \<in> set ls"
      then have "(ol_sku l', ol_warehouseId l') \<in> (\<lambda>l. (ol_sku l, ol_warehouseId l)) ` set ls" by (rule rev_image_eqI) simp
      with Cons.prems(3) have "(ol_sku l', ol_warehouseId l') \<noteq> (ol_sku l, ol_warehouseId l)" by auto
      moreover have "line_pkey (line_row oid l') \<notin> line_pkey ` set (db_lines db)" using Cons.prems(4) l' by simp
      ultimately show "line_pkey (line_row oid l') \<notin> line_pkey ` set (db_lines ?db)" by auto
    qed
  qed (use Cons.prems in simp_all)
  ultimately show ?case by (simp add: bind_apply)
qed

lemma pg_lines_none: "oid \<notin> lw_order_id ` set (db_lines db) \<Longrightarrow> pg_lines db oid = []"
  by (auto simp: pg_lines_def filter_empty_conv)

lemma pg_events_none:
  assumes "oid \<notin> ew_order_id ` set (db_events db)"
  shows "pg_events db oid = []"
proof -
  have none: "filter (\<lambda>r. ew_order_id r = oid) (db_events db) = []" using assms by (auto simp: filter_empty_conv)
  show ?thesis unfolding pg_events_def none by simp
qed

lemma pg_orders_None: "pg_orders db oid = None \<longleftrightarrow> oid \<notin> ow_id ` set (db_orders db)"
  by (auto simp: pg_orders_def find_None_iff)

lemma pg_create_run:
  assumes ok: "pg_ok uuid_in db" and st: "storable od" and id: "canonical uuid_in (or_id od)"
    and sc: "canonical_scope uuid_in (Scoped (or_businessId od))" and new: "pg_orders db (or_id od) = None"
  shows "\<exists>db'. pg_create uuid_in od db = (Inr (), db') \<and> pg_ok uuid_in db' \<and> pg_orders db' = (pg_orders db)(or_id od \<mapsto> od)"
proof -
  let ?oid = "or_id od"
  let ?row = "\<lparr>ow_id = ?oid, ow_customer_id = or_customerId od, ow_business_id = or_businessId od,
               ow_amount_cents = or_amountCents od, ow_status = or_status od, ow_created_at = or_createdAt od,
               ow_updated_at = or_updatedAt od\<rparr>"
  let ?db1 = "db\<lparr>db_orders := db_orders db @ [?row]\<rparr>"
  let ?db2 = "?db1\<lparr>db_lines := db_lines db @ map (line_row ?oid) (or_lines od)\<rparr>"
  have fresh: "?oid \<notin> ow_id ` set (db_orders db)" using new by (simp add: pg_orders_None)
  then have nl: "?oid \<notin> lw_order_id ` set (db_lines db)" and ne: "?oid \<notin> ew_order_id ` set (db_events db)"
    using ok by (auto simp: pg_ok_def)
  have "cast_uuid_null uuid_in (or_businessId od) = ret (or_businessId od)"
    by (rule cast_null_canonical) (use sc in \<open>simp add: canonical_scope_def split: option.splits\<close>)
  moreover have "insert_order ?row db = (Inr (), ?db1)"
    using st fresh by (simp add: insert_order_def fits_integer_def storable_def)
  moreover have "for_each (\<lambda>l. insert_line (line_row ?oid l)) (or_lines od) ?db1 = (Inr (), ?db2)"
    using insert_lines_run [of ?oid ?db1 "or_lines od"] st nl by (auto simp: storable_def line_pkey_def)
  ultimately have "pg_create uuid_in od db = (Inr (), ?db2)"
    by (simp add: pg_create_def transaction_def cast_canonical [OF id] bind_apply line_row_def [symmetric])
  moreover have "pg_ok uuid_in ?db2"
    using ok id fresh by (auto simp: pg_ok_def)
  moreover have "pg_orders ?db2 = (pg_orders db)(?oid \<mapsto> od)"
  proof
    fix k
    have lines: "pg_lines ?db2 k = (if k = ?oid then or_lines od else pg_lines db k)"
      using pg_lines_none [OF nl] by (auto simp: pg_lines_def filter_map o_def)
    have events: "pg_events ?db2 k = pg_events db k" by (simp add: pg_events_def)
    have "find (\<lambda>r. ow_id r = k) (db_orders db @ [?row]) =
        (if k = ?oid then Some ?row else find (\<lambda>r. ow_id r = k) (db_orders db))"
    proof -
      have "find P (xs @ [y]) = (case find P xs of None \<Rightarrow> if P y then Some y else None | Some z \<Rightarrow> Some z)" for P xs and y :: order_row
        by (induction xs) auto
      moreover have "find (\<lambda>r. ow_id r = ?oid) (db_orders db) = None" using fresh by (force simp: find_None_iff)
      ultimately show ?thesis by (auto split: option.splits)
    qed
    then show "pg_orders ?db2 k = ((pg_orders db)(?oid \<mapsto> od)) k"
      using st pg_events_none [OF ne] lines events
      by (auto simp: pg_orders_def order_of_row_def toOrder_def storable_def find_Some_iff intro!: map_option_cong)
  qed
  ultimately show ?thesis by blast
qed

lemma insort_key_before_last: "f x \<le> f y \<Longrightarrow> insort_key f x (zs @ [y]) = insort_key f x zs @ [y]"
  by (induction zs) auto

lemma sort_key_append_last: "\<forall>x \<in> set xs. f x \<le> f y \<Longrightarrow> sort_key f (xs @ [y]) = sort_key f xs @ [y]"
  by (induction xs) (simp_all add: insort_key_before_last)

lemma pg_update_run:
  assumes ok: "pg_ok uuid_in db" and id: "canonical uuid_in oid" and od: "pg_orders db oid = Some od"
    and late: "\<forall>h \<in> set (or_history od). ev_at h \<le> ev_at ev"
  shows "\<exists>db'. pg_updateStatus uuid_in jsonb oid status ev now db = (Inr (), db') \<and> pg_ok uuid_in db' \<and>
    pg_orders db' = (pg_orders db)(oid \<mapsto> with_event status (kept_event jsonb ev) (ev_at ev) od)"
proof -
  let ?f = "restatus oid status (ev_at ev)"
  let ?row = "\<lparr>ew_id = db_next_event db, ew_order_id = oid, ew_type = ev_type ev,
      ew_detail = map_option jsonb (ev_detail ev), ew_at = ev_at ev\<rparr>"
  let ?db = "db\<lparr>db_orders := map ?f (db_orders db), db_events := db_events db @ [?row],
      db_next_event := Suc (db_next_event db)\<rparr>"
  obtain r where r: "find (\<lambda>r. ow_id r = oid) (db_orders db) = Some r" "od = order_of_row db r"
    using od by (auto simp: pg_orders_def)
  have rin: "r \<in> set (db_orders db)" "ow_id r = oid"
    using r(1) by (auto simp: find_Some_iff)
  have "filter (\<lambda>r. ow_id r = oid) (db_orders db) \<noteq> []" using rin by (auto simp: filter_empty_conv)
  then have "pg_updateStatus uuid_in jsonb oid status ev now db = (Inr (), ?db)"
    using rin by (auto simp: image_image pg_updateStatus_def transaction_def cast_canonical [OF id] update_order_def
        insert_event_def Let_def bind_apply)
  moreover have "pg_ok uuid_in ?db"
  proof -
    have "map ow_id (map ?f (db_orders db)) = map ow_id (db_orders db)" by simp
    with ok rin show ?thesis unfolding pg_ok_def by (auto simp: image_image o_def)
  qed
  moreover have "pg_orders ?db = (pg_orders db)(oid \<mapsto> with_event status (kept_event jsonb ev) (ev_at ev) od)"
  proof
    fix k
    have find: "find (\<lambda>r. ow_id r = k) (map ?f xs) = map_option ?f (find (\<lambda>r. ow_id r = k) xs)" for xs
      by (induction xs) auto
    have lines: "pg_lines ?db k = pg_lines db k" by (simp add: pg_lines_def)
    have other: "pg_events ?db k = pg_events db k" if "k \<noteq> oid" using that by (simp add: pg_events_def)
    have own: "pg_events ?db oid = pg_events db oid @ [kept_event jsonb ev]"
    proof -
      have "\<forall>x \<in> set (filter (\<lambda>r. ew_order_id r = oid) (db_events db)). ew_at x \<le> ew_at ?row"
      proof
        fix x assume "x \<in> set (filter (\<lambda>r. ew_order_id r = oid) (db_events db))"
        then have "event_of_row x \<in> set (or_history od)"
          using rin(2) by (auto simp: r(2) order_of_row_def toOrder_def pg_events_def)
        with late show "ew_at x \<le> ew_at ?row" by (auto simp: event_of_row_def)
      qed
      from sort_key_append_last [OF this] show ?thesis
        by (simp add: pg_events_def event_of_row_def kept_event_def)
    qed
    show "pg_orders ?db k = ((pg_orders db)(oid \<mapsto> with_event status (kept_event jsonb ev) (ev_at ev) od)) k"
    proof (cases "k = oid")
      case True
      then show ?thesis
        using r rin own lines find [unfolded True] by (simp add: pg_orders_def order_of_row_def toOrder_def with_event_def restatus_def)
    next
      case False
      show ?thesis
      proof (cases "find (\<lambda>r. ow_id r = k) (db_orders db)")
        case None
        with False show ?thesis by (simp add: pg_orders_def find)
      next
        case (Some x)
        then have "ow_id x = k" by (auto simp: find_Some_iff)
        moreover from this False have "?f x = x" by (simp add: restatus_def)
        ultimately show ?thesis using False Some other lines by (simp add: pg_orders_def find order_of_row_def)
      qed
    qed
  qed
  ultimately show ?thesis by blast
qed

lemma pg_update_unknown:
  assumes "pg_ok uuid_in db" "canonical uuid_in oid" "pg_orders db oid = None"
  shows "pg_updateStatus uuid_in jsonb oid status ev now db = (Inl (UnknownOrder oid), db)"
proof -
  have "filter (\<lambda>r. ow_id r = oid) (db_orders db) = []"
    using assms(3) by (auto simp: pg_orders_None filter_empty_conv)
  moreover from this have "map (restatus oid status (ev_at ev)) (db_orders db) = db_orders db"
    by (auto simp: filter_empty_conv restatus_def intro!: map_idI)
  ultimately show ?thesis
    by (simp add: pg_updateStatus_def transaction_def cast_canonical [OF assms(2)] update_order_def bind_apply)
qed

text \<open>The list queries: the orders that satisfy a condition on their row, each once.\<close>

lemma pg_select:
  assumes ok: "pg_ok uuid_in db" and c: "\<forall>r \<in> set (db_orders db). c r \<longleftrightarrow> P (order_of_row db r)"
  shows "\<exists>ods. hydrateAll uuid_in (sort_key ow_created_at (filter c (db_orders db))) db = (Inr ods, db) \<and>
    distinct (map or_id ods) \<and> (\<forall>od. od \<in> set ods \<longleftrightarrow> pg_orders db (or_id od) = Some od \<and> P od)"
proof -
  let ?rows = "sort_key ow_created_at (filter c (db_orders db))"
  let ?ods = "map (order_of_row db) ?rows"
  have d: "distinct (map ow_id (db_orders db))" using ok by (simp add: pg_ok_def)
  have "hydrateAll uuid_in ?rows db = (Inr ?ods, db)"
    by (rule hydrateAll_run) (use ok in \<open>auto simp: pg_ok_def\<close>)
  moreover have "distinct (map or_id ?ods)"
    using d by (auto simp: distinct_map inj_on_def o_def)
  moreover have "od \<in> set ?ods \<longleftrightarrow> pg_orders db (or_id od) = Some od \<and> P od" for od
  proof
    assume "od \<in> set ?ods"
    then show "pg_orders db (or_id od) = Some od \<and> P od"
      using find_id [OF d] c by (auto simp: pg_orders_def)
  next
    assume a: "pg_orders db (or_id od) = Some od \<and> P od"
    then obtain r where "find (\<lambda>r. ow_id r = or_id od) (db_orders db) = Some r" "od = order_of_row db r"
      by (auto simp: pg_orders_def)
    with a c show "od \<in> set ?ods" by (auto simp: find_Some_iff)
  qed
  ultimately show ?thesis by blast
qed

section \<open>It implements the contract\<close>

interpretation pg: order_store "PgOrderStore uuid_in jsonb" pg_orders "pg_ok uuid_in" "canonical uuid_in"
    "canonical_scope uuid_in" jsonb for uuid_in jsonb
proof (unfold_locales, goal_cases)
  case (1 st od)
  then show ?case using pg_create_run [of uuid_in st od] by (simp add: PgOrderStore_def)
next
  case (2 st oid sc)
  then show ?case using pg_get_run [of uuid_in st oid sc] by (simp add: PgOrderStore_def)
next
  case (3 st oid status ev now od)
  then show ?case using pg_update_run [of uuid_in st oid od ev jsonb status now] by (auto simp: PgOrderStore_def)
next
  case (4 st oid status ev now)
  then show ?case using pg_update_unknown [of uuid_in st oid] by (simp add: PgOrderStore_def)
next
  case (5 st sc)
  from scope_condition_run [OF 5(2)] obtain c where
    c: "scope_condition uuid_in sc = ret c" "\<forall>db r. c r \<longleftrightarrow> in_scope sc (order_of_row db r)" by blast
  with pg_select [OF 5(1), of c "in_scope sc"] show ?case
    by (simp add: PgOrderStore_def pg_all_def)
next
  case (6 st)
  from pg_select [OF this, of "\<lambda>r. ow_status r \<notin> TERMINAL_ORDER_STATUSES" "\<lambda>od. \<not> isTerminalStatus (or_status od)"]
  show ?case
    by (simp add: PgOrderStore_def pg_nonTerminal_def isTerminalStatus_def order_of_row_def toOrder_def)
next
  case (7 st od od')
  then show ?case by (simp add: PgOrderStore_def)
next
  case (8 st oid od)
  then show ?case by (auto simp: pg_orders_def find_Some_iff pg_ok_def)
next
  case 9
  then show ?case by (simp add: canonical_scope_def)
qed

end
