(* ===== verification/Order_Refinement.thy ===== *)
theory Order_Refinement
  imports Pg_Order_Store
begin

text \<open>
  An abstract order store - a map from ids to orders with the answers each method may give - and
  the refinement: every sequence of calls that \<open>InMemoryOrderStore\<close> or \<open>PgOrderStore\<close> answers is one
  the abstract store allows.
\<close>

section \<open>The abstract store\<close>

datatype order_call =
    OsCreate order
  | OsGet string scope
  | OsUpdate string order_status order_event int
  | OsAll scope
  | OsNonTerminal

datatype order_answer = Kept | Got "order option" | Listed "order list"

text \<open>The lists come in any order, and \<open>updatedAt\<close> is whatever clock the store reads.\<close>

inductive store_spec ::
  "(json \<Rightarrow> json) \<Rightarrow> (string \<rightharpoonup> order) \<Rightarrow> order_call \<Rightarrow> js_error + order_answer \<Rightarrow> (string \<rightharpoonup> order) \<Rightarrow> bool"
  for kept :: "json \<Rightarrow> json"
where
  spec_create: "m (or_id od) = None \<Longrightarrow> store_spec kept m (OsCreate od) (Inr Kept) (m(or_id od \<mapsto> od))"
| spec_get: "store_spec kept m (OsGet oid sc)
     (Inr (Got (case m oid of None \<Rightarrow> None | Some od \<Rightarrow> if in_scope sc od then Some od else None))) m"
| spec_update: "m oid = Some od \<Longrightarrow>
     store_spec kept m (OsUpdate oid status ev now) (Inr Kept) (m(oid \<mapsto> with_event status (kept_event kept ev) u od))"
| spec_unknown: "m oid = None \<Longrightarrow> store_spec kept m (OsUpdate oid status ev now) (Inl (UnknownOrder oid)) m"
| spec_all: "distinct (map or_id ods) \<Longrightarrow> \<forall>od. od \<in> set ods \<longleftrightarrow> m (or_id od) = Some od \<and> in_scope sc od \<Longrightarrow>
     store_spec kept m (OsAll sc) (Inr (Listed ods)) m"
| spec_nonTerminal: "distinct (map or_id ods) \<Longrightarrow>
     \<forall>od. od \<in> set ods \<longleftrightarrow> m (or_id od) = Some od \<and> \<not> isTerminalStatus (or_status od) \<Longrightarrow>
     store_spec kept m OsNonTerminal (Inr (Listed ods)) m"

inductive_cases spec_create_cases: "store_spec kept m (OsCreate od) a m'"
inductive_cases spec_update_cases: "store_spec kept m (OsUpdate oid status ev now) a m'"
inductive_simps spec_get_simps: "store_spec kept m (OsGet oid sc) a m'"

inductive spec_run ::
  "(json \<Rightarrow> json) \<Rightarrow> (string \<rightharpoonup> order) \<Rightarrow> order_call list \<Rightarrow> (js_error + order_answer) list \<Rightarrow> (string \<rightharpoonup> order) \<Rightarrow> bool"
  for kept :: "json \<Rightarrow> json"
where
  run_nil: "spec_run kept m [] [] m"
| run_cons: "store_spec kept m x a m1 \<Longrightarrow> spec_run kept m1 xs as m2 \<Longrightarrow> spec_run kept m (x # xs) (a # as) m2"

section \<open>The calls of a store\<close>

fun store_call :: "'st order_store \<Rightarrow> order_call \<Rightarrow> ('st, order_answer) act" where
  "store_call S (OsCreate od) = bind (os_create S od) (\<lambda>_. ret Kept)"
| "store_call S (OsGet oid sc) = bind (os_get S oid sc) (\<lambda>r. ret (Got r))"
| "store_call S (OsUpdate oid status ev now) = bind (os_updateStatus S oid status ev now) (\<lambda>_. ret Kept)"
| "store_call S (OsAll sc) = bind (os_all S sc) (\<lambda>ods. ret (Listed ods))"
| "store_call S OsNonTerminal = bind (os_nonTerminal S) (\<lambda>ods. ret (Listed ods))"

fun store_run :: "'st order_store \<Rightarrow> order_call list \<Rightarrow> 'st \<Rightarrow> (js_error + order_answer) list \<times> 'st" where
  "store_run S [] st = ([], st)"
| "store_run S (x # xs) st =
     (case store_call S x st of (a, st1) \<Rightarrow> case store_run S xs st1 of (as, st2) \<Rightarrow> (a # as, st2))"

text \<open>
  The calls the program makes: ids and scopes in the form the store takes, a new id for each
  order created, and events in the order of their times.
\<close>

fun new_ids :: "order_call list \<Rightarrow> string list" where
  "new_ids [] = []"
| "new_ids (OsCreate od # xs) = or_id od # new_ids xs"
| "new_ids (_ # xs) = new_ids xs"

fun event_times :: "order_call list \<Rightarrow> int list" where
  "event_times [] = []"
| "event_times (OsUpdate oid status ev now # xs) = ev_at ev # event_times xs"
| "event_times (_ # xs) = event_times xs"

fun call_ok :: "(string \<Rightarrow> bool) \<Rightarrow> (scope \<Rightarrow> bool) \<Rightarrow> order_call \<Rightarrow> bool" where
  "call_ok v vs (OsCreate od) = (storable od \<and> v (or_id od) \<and> vs (Scoped (or_businessId od)))"
| "call_ok v vs (OsGet oid sc) = (v oid \<and> vs sc)"
| "call_ok v vs (OsUpdate oid status ev now) = v oid"
| "call_ok v vs (OsAll sc) = vs sc"
| "call_ok v vs OsNonTerminal = True"

definition program_calls :: "(string \<Rightarrow> bool) \<Rightarrow> (scope \<Rightarrow> bool) \<Rightarrow> order_call list \<Rightarrow> bool" where
  "program_calls v vs xs \<longleftrightarrow>
     (\<forall>x \<in> set xs. call_ok v vs x) \<and> distinct (new_ids xs) \<and> sorted (event_times xs)"

text \<open>The calls still to come create ids not in the store and record events not before those in it.\<close>

definition ahead :: "(string \<rightharpoonup> order) \<Rightarrow> order_call list \<Rightarrow> bool" where
  "ahead m xs \<longleftrightarrow> set (new_ids xs) \<inter> dom m = {} \<and>
     (\<forall>od \<in> ran m. \<forall>h \<in> set (or_history od). \<forall>t \<in> set (event_times xs). ev_at h \<le> t)"

lemma program_calls_tl: "program_calls v vs (x # xs) \<Longrightarrow> program_calls v vs xs"
  by (cases x) (simp_all add: program_calls_def)

lemma ahead_step:
  assumes s: "store_spec kept m x a m'" and p: "program_calls v vs (x # xs)" and h: "ahead m (x # xs)"
  shows "ahead m' xs"
  using s
proof cases
  case (spec_create od)
  then have "or_id od \<notin> set (new_ids xs)" "or_history od = []"
    using p by (simp_all add: program_calls_def storable_def)
  moreover have "ran m' = insert od (ran m)" using spec_create by simp
  ultimately show ?thesis using h spec_create by (auto simp: ahead_def)
next
  case (spec_update oid od status ev now u)
  have times: "\<forall>t \<in> set (event_times xs). ev_at ev \<le> t" using p spec_update by (simp add: program_calls_def)
  have old: "\<forall>od \<in> ran m. \<forall>h \<in> set (or_history od). \<forall>t \<in> set (event_times xs). ev_at h \<le> t"
    using h spec_update by (simp add: ahead_def)
  have "ran m' \<subseteq> insert (with_event status (kept_event kept ev) u od) (ran m)"
    using spec_update by (auto simp: ran_def split: if_splits)
  moreover have "\<forall>h \<in> set (or_history (with_event status (kept_event kept ev) u od)). \<forall>t \<in> set (event_times xs). ev_at h \<le> t"
    using times old spec_update ranI [of m oid od] by (auto simp: with_event_def)
  ultimately have "\<forall>od \<in> ran m'. \<forall>h \<in> set (or_history od). \<forall>t \<in> set (event_times xs). ev_at h \<le> t"
    using old by blast
  moreover have "dom m' = dom m" using spec_update by auto
  ultimately show ?thesis using h spec_update by (simp add: ahead_def)
qed (use h in \<open>simp_all add: ahead_def\<close>)

section \<open>The refinement\<close>

context order_store
begin

lemma call_refines:
  assumes "ok st" and "call_ok valid_id valid_scope x" and "ahead (orders_of st) (x # xs)"
  shows "\<exists>a st'. store_call S x st = (a, st') \<and> ok st' \<and> store_spec kept (orders_of st) x a (orders_of st')"
proof (cases x)
  case (OsCreate od)
  then have "orders_of st (or_id od) = None" using assms(3) by (auto simp: ahead_def)
  with create_law [OF assms(1)] assms(2) OsCreate obtain st' where
    "os_create S od st = (Inr (), st')" "ok st'" "orders_of st' = (orders_of st)(or_id od \<mapsto> od)" by auto
  with OsCreate \<open>orders_of st (or_id od) = None\<close> show ?thesis
    by (auto simp: bind_apply intro: spec_create)
next
  case (OsGet oid sc)
  then show ?thesis
    using get_law [OF assms(1), of oid sc] assms(1,2) by (auto simp: bind_apply spec_get_simps)
next
  case (OsUpdate oid status ev now)
  show ?thesis
  proof (cases "orders_of st oid")
    case None
    then show ?thesis
      using update_unknown [OF assms(1) _ None, of status ev now] assms(1,2) OsUpdate by (auto simp: bind_apply intro: spec_unknown)
  next
    case (Some od)
    then have "\<forall>h \<in> set (or_history od). ev_at h \<le> ev_at ev"
      using assms(3) OsUpdate by (auto simp: ahead_def intro: ranI)
    with update_law [OF assms(1) _ Some] assms(2) OsUpdate obtain st' u where
      "os_updateStatus S oid status ev now st = (Inr (), st')" "ok st'"
      "orders_of st' = (orders_of st)(oid \<mapsto> with_event status (kept_event kept ev) u od)" by fastforce
    with OsUpdate Some show ?thesis by (auto simp: bind_apply intro: spec_update)
  qed
next
  case (OsAll sc)
  with all_law [OF assms(1), of sc] assms(2) obtain ods where
    "os_all S sc st = (Inr ods, st)" "distinct (map or_id ods)"
    "\<forall>od. od \<in> set ods \<longleftrightarrow> orders_of st (or_id od) = Some od \<and> in_scope sc od" by auto
  with OsAll assms(1) show ?thesis by (auto simp: bind_apply intro: spec_all)
next
  case OsNonTerminal
  from nonTerminal_law [OF assms(1)] obtain ods where
    "os_nonTerminal S st = (Inr ods, st)" "distinct (map or_id ods)"
    "\<forall>od. od \<in> set ods \<longleftrightarrow> orders_of st (or_id od) = Some od \<and> \<not> isTerminalStatus (or_status od)" by blast
  with OsNonTerminal assms(1) show ?thesis by (auto simp: bind_apply intro: spec_nonTerminal)
qed

lemma run_refines:
  assumes "ok st" and "program_calls valid_id valid_scope xs" and "ahead (orders_of st) xs"
  shows "spec_run kept (orders_of st) xs (fst (store_run S xs st)) (orders_of (snd (store_run S xs st)))"
  using assms
proof (induction xs arbitrary: st)
  case Nil
  then show ?case by (simp add: run_nil)
next
  case (Cons x xs)
  have "call_ok valid_id valid_scope x" using Cons.prems(2) by (simp add: program_calls_def)
  from call_refines [OF Cons.prems(1) this Cons.prems(3)] obtain a st' where
    a: "store_call S x st = (a, st')" "ok st'" "store_spec kept (orders_of st) x a (orders_of st')" by blast
  from Cons.IH [OF a(2) program_calls_tl [OF Cons.prems(2)] ahead_step [OF a(3) Cons.prems(2,3)]] a(1,3)
  show ?case by (auto intro: run_cons split: prod.splits)
qed

end

section \<open>Both stores\<close>


definition demo_calls :: "order_call list" where
  "demo_calls =
     [OsCreate \<lparr>or_id = ''o1'', or_customerId = ''c1'', or_lines = [\<lparr>ol_sku = ''s1'', ol_qty = 2, ol_warehouseId = ''w1''\<rparr>],
        or_amountCents = 500, or_status = CREATED, or_history = [], or_createdAt = 0, or_updatedAt = 0,
        or_businessId = Some ''b1''\<rparr>,
      OsUpdate ''o1'' CANCELLED \<lparr>ev_type = ''e'', ev_at = 3, ev_detail = None\<rparr> 7,
      OsUpdate ''o2'' CANCELLED \<lparr>ev_type = ''e'', ev_at = 3, ev_detail = None\<rparr> 7,
      OsGet ''o1'' (Scoped (Some ''b2'')), OsAll Unscoped, OsNonTerminal]"


end
