(* ===== verification/Server_Recovery.thy ===== *)
theory Server_Recovery
  imports Server_Saga
begin

text \<open>
  Creating orders and recovering them on the server's default stores: that a created order
  starts one run, what the startup sweep does to every order, what the rollback of one stuck
  order restores, and what it cannot restore.
\<close>

section \<open>Creating an order\<close>

text \<open>Creating an order stores it as \<open>CREATED\<close> with an empty history, publishes
  \<open>order.created\<close>, and starts exactly one run, for this order; stock, payments and shipments
  are not touched.\<close>

theorem createOrder_starts_saga:
  assumes "wired (w_bus w)"
  shows "\<exists>w'. createOrder (server_saga E) customer lns amount biz w = (Inr (env_uuid E (co_uuids w)), w') \<and>
     jget (w_store w') = (jget (w_store w))(env_uuid E (co_uuids w) \<mapsto>
       \<lparr>or_id = env_uuid E (co_uuids w), or_customerId = customer, or_lines = lns, or_amountCents = amount,
        or_status = CREATED, or_history = [], or_createdAt = env_now E (co_ticks w),
        or_updatedAt = env_now E (co_ticks w + 1), or_businessId = biz\<rparr>) \<and>
     wired (w_bus w') \<and>
     as_started (snd (w_bus w')) = as_started (snd (w_bus w)) @ [env_uuid E (co_uuids w)] \<and>
     co_redis w' = co_redis w \<and> w_payments w' = w_payments w \<and> w_shipping w' = w_shipping w"
proof -
  let ?i = "env_uuid E (co_uuids w)"
  let ?ev = "\<lparr>de_type = ''order.created'',
     de_payload = JObj (spread [(''orderId'', JStr ?i)] (created_payload customer lns amount biz)),
     de_at = env_now E (co_ticks w + 2), de_key = Some ?i\<rparr>"
  from publish_wired [OF assms, of ?ev] obtain b' where
    b': "eb_publish (InMemoryEventBus app_handler) ORDERS_TOPIC ?ev (w_bus w) = (Inr (), b')" "wired b'"
      "as_started (snd b') = as_started (snd (w_bus w)) @ runs_for ?ev" by auto
  have "runs_for ?ev = [?i]"
    by (simp add: runs_for_def json_str_def created_payload_def spread_def)
  with b' show ?thesis
    by (auto simp: createOrder_def server_saga_def process_acts on_store_def publish_saga_def on_bus_def
        InMemoryOrderStore_def ims_create_def fun_eq_iff numeral_2_eq_2)
qed

theorem createOrder_starts_saga_witness:
  "\<exists>w'. createOrder (server_saga demo_env) ''c1'' [] 100 None demo_world = (Inr ''id-'', w') \<and>
     as_started (snd (w_bus w')) = [''id-'']"
proof -
  have "wired (w_bus demo_world)" by (simp add: demo_world_with_def wired_server_bus)
  moreover have "as_started (snd (w_bus demo_world)) = []"
    by (simp add: demo_world_with_def server_bus_def wireSseHub_def wireAsyncSagaExecution_def)
  moreover have "env_uuid demo_env (co_uuids demo_world) = ''id-''"
    by (simp add: demo_env_def demo_world_with_def)
  ultimately show ?thesis
    using createOrder_starts_saga [of demo_world demo_env "''c1''" "[]" 100 None] by auto
qed

section \<open>The startup sweep\<close>

definition server_sound :: "env \<Rightarrow> server_world \<Rightarrow> bool" where
  "server_sound E w \<longleftrightarrow> mem_ok (co_redis w) \<and> ims_ok (w_store w) \<and> bus_ready (w_bus w) \<and>
     (\<forall>(oid, od) \<in> set (w_store w). past_events E od w)"

lemma server_sound_eq: "server_sound E w \<Longrightarrow> server.sound E w"
  by (auto simp: server_sound_def server.sound_def past_events_def dest: jget_in_set)

text \<open>C11: the startup sweep never fails and leaves no order stuck. It handles each order that is
  not in a terminal status once; each of them ends as \<open>CANCELLED\<close>, its history extended by the
  rollback and its reason, and every order already terminal is left as it is.\<close>

theorem recovery_sweep:
  assumes "server_sound E w" and "clock_ok E"
  shows "\<exists>w' n. recoverStuckOrders (server_saga E) w = (Inr n, w') \<and>
     n = card {od. jget (w_store w) (or_id od) = Some od \<and> \<not> isTerminalStatus (or_status od)} \<and>
     (\<forall>oid. case jget (w_store w) oid of
        None \<Rightarrow> jget (w_store w') oid = None
      | Some od \<Rightarrow>
          if isTerminalStatus (or_status od) then jget (w_store w') oid = Some od
          else \<exists>od' previous. jget (w_store w') oid = Some od' \<and> or_status od' = CANCELLED \<and>
            untimed od' = fold (apply_step (\<lambda>j. j)) (rollback ''RECOVERED_AFTER_RESTART''
              [(''previousStatus'', JStr (status_text previous))]) (untimed od))"
  using server.recoverStuckOrders_run [OF server_sound_eq [OF assms(1)] assms(2)]
  unfolding recovered_step_def server_saga_def [symmetric] server.stuck_in_def by blast

theorem recovery_sweep_witness:
  "\<exists>w' od'. recoverStuckOrders (server_saga demo_env) demo_world = (Inr 1, w') \<and>
     jget (w_store w') ''o1'' = Some od' \<and> or_status od' = CANCELLED"
proof -
  have o: "or_id demo_order = ''o1''" "or_status demo_order = CREATED" by (simp_all add: demo_order_def)
  have st: "w_store demo_world = [(''o1'', demo_order)]" by (simp add: demo_world_with_def o)
  have "server_sound demo_env demo_world"
    using demo_shows_stock [of demo_order] demo_stored [of demo_order]
    by (simp add: server_sound_def shows_stock_def stored_def st) (simp add: demo_order_def)
  from recovery_sweep [OF this demo_env_ok(1)] obtain w' n where
    w': "recoverStuckOrders (server_saga demo_env) demo_world = (Inr n, w')"
      "n = card {od. jget (w_store demo_world) (or_id od) = Some od \<and> \<not> isTerminalStatus (or_status od)}"
      "case jget (w_store demo_world) ''o1'' of
        None \<Rightarrow> jget (w_store w') ''o1'' = None
      | Some od \<Rightarrow>
          if isTerminalStatus (or_status od) then jget (w_store w') ''o1'' = Some od
          else \<exists>od' previous. jget (w_store w') ''o1'' = Some od' \<and> or_status od' = CANCELLED \<and>
            untimed od' = fold (apply_step (\<lambda>j. j)) (rollback ''RECOVERED_AFTER_RESTART''
              [(''previousStatus'', JStr (status_text previous))]) (untimed od)" by blast
  have "{od. jget (w_store demo_world) (or_id od) = Some od \<and> \<not> isTerminalStatus (or_status od)} = {demo_order}"
    by (auto simp: st o isTerminalStatus_def TERMINAL_ORDER_STATUSES_def split: if_splits)
  with w' show ?thesis
    by (auto simp: st o isTerminalStatus_def TERMINAL_ORDER_STATUSES_def)
qed

section \<open>What a rollback restores\<close>

lemma undo_if_charges: "charges (undo_if p (refund oid) g) = (if p then (charges g)(oid := None) else charges g)"
  by (cases p) (simp_all only: undo_if_def refund_charges if_True if_False)

lemma undo_if_shipments: "shipments (undo_if p (cancel oid) g) = (if p then (shipments g)(oid := None) else shipments g)"
  by (cases p) (simp_all only: undo_if_def cancel_shipments if_True if_False)

lemma recovered_status:
  assumes "untimed od' = fold (apply_step (\<lambda>j. j)) (recovered_step previous) (untimed od)"
  shows "or_status od' = CANCELLED"
proof -
  have "or_status (untimed od') = CANCELLED" unfolding assms recovered_step_def rollback_def by simp
  then show ?thesis by simp
qed

text \<open>C10: recovery restores what the history records, from any point of an interrupted rollback.
  The order's recorded reservations are \<open>tk\<close>; those of them that satisfy \<open>P\<close> are still held, the
  others were already released. After the recovery the stock and the reservations are as
  before the order, and its charge and shipment are gone when the history records them.\<close>

theorem recovery_restores:
  assumes "stored E od w" and "\<not> isTerminalStatus (or_status od)" and "clock_ok E"
    and "reservationsFromHistory od = map rsv tk" and "separate \<rho> tk"
    and "shows_stock E (debit L (lines_of (filter P tk))) (pledge \<rho> (filter P tk)) w"
    and "\<forall>x \<in> set tk. P x \<longrightarrow> L (line_key (fst x)) \<noteq> None"
    and "due_after (env_now E (co_ticks w + 3 + length tk)) (filter P tk)"
  shows "\<exists>w' od'. recoverStuck (server_saga E) od w = (Inr od', w') \<and>
     jget (w_store w') = (jget (w_store w))(or_id od \<mapsto> od') \<and> or_status od' = CANCELLED \<and>
     shows_stock E L \<rho> w' \<and>
     charges (w_payments w') = (if has_event ''order.payment_charged'' od
       then (charges (w_payments w))(or_id od := None) else charges (w_payments w)) \<and>
     shipments (w_shipping w') = (if has_event ''order.shipping_scheduled'' od
       then (shipments (w_shipping w))(or_id od := None) else shipments (w_shipping w))"
proof -
  have h: "mem.holding E w L \<rho> (filter P tk) (filter P tk)"
    using assms(6) by (simp add: shows_stock_def mem.holding_def)
  from server.recoverStuck_restores [OF stored_tracks [OF assms(1)] assms(2-4) h assms(5,7,8)] obtain w' od' previous where
    w': "recoverStuck (server_saga E) od w = (Inr od', w')"
      "server.went E (or_id od) (recovered_step previous) w od w' od'" "mem.holding E w' L \<rho> [] []"
      "server.undone_rest (or_id od) (has_event ''order.payment_charged'' od)
        (has_event ''order.shipping_scheduled'' od) w w'"
    unfolding server_saga_def by blast
  then show ?thesis
    using recovered_status [of od' previous od]
    by (simp add: shows_stock_holding server.went_def server.undone_rest_def undo_if_charges undo_if_shipments)
qed

text \<open>An order that crashed after its payment: two of five units reserved, the payment charged.\<close>

definition demo_line :: order_line where
  "demo_line = \<lparr>ol_sku = ''s1'', ol_qty = 2, ol_warehouseId = ''w1''\<rparr>"

definition demo_taken :: "taken list" where
  "demo_taken = [(demo_line, ''r1'', 900000)]"

definition demo_crashed :: order where
  "demo_crashed = demo_order\<lparr>or_status := PAYMENT_CHARGED, or_history :=
     [\<lparr>ev_type = ''order.inventory_reserved'', ev_at = 0,
        ev_detail = Some (JObj [(''reservations'', JArr (map reservation_json (map rsv demo_taken)))])\<rparr>,
      \<lparr>ev_type = ''order.payment_charged'', ev_at = 0, ev_detail = Some (JObj [])\<rparr>]\<rparr>"

definition demo_crashed_world :: server_world where
  "demo_crashed_world = (demo_world_with demo_crashed)\<lparr>
     co_redis := \<lparr>rm_store = [(stockKey ''w1'' ''s1'', int_string 3), (reservationKey ''r1'', int_string 2)],
                  rm_expiresAt = [(reservationKey ''r1'', Num 900000)]\<rparr>,
     w_payments := \<lparr>pg_charges = [(''o1'', ''pay_o1'')], pg_failures = no_failures\<rparr>\<rparr>"

lemma demo_crashed_stored: "stored demo_env demo_crashed demo_crashed_world"
  using wired_ready [OF wired_server_bus]
  by (simp add: stored_def demo_crashed_world_def demo_world_with_def past_events_def ims_ok_def jmap_ok_def
      demo_crashed_def demo_order_def demo_env_def)

lemma demo_crashed_stock:
  "shows_stock demo_env (debit demo_levels (lines_of demo_taken)) (pledge Map.empty demo_taken) demo_crashed_world"
  by (auto simp: shows_stock_def demo_crashed_world_def mem_ok_def repr_def lookup_def mem_kv_def debit_def
      demo_levels_def jhas_def demo_taken_def demo_line_def line_key_def pledge_Cons)

theorem recovery_restores_witness:
  "\<exists>w' od'. recoverStuck (server_saga demo_env) demo_crashed demo_crashed_world = (Inr od', w') \<and>
     or_status od' = CANCELLED \<and> shows_stock demo_env demo_levels Map.empty w' \<and>
     charges (w_payments w') ''o1'' = None"
proof -
  have o: "or_id demo_crashed = ''o1''" "\<not> isTerminalStatus (or_status demo_crashed)"
    by (simp_all add: demo_crashed_def demo_order_def isTerminalStatus_def TERMINAL_ORDER_STATUSES_def)
  have "reservationsFromHistory demo_crashed = map rsv demo_taken"
    by (simp add: reservationsFromHistory_def demo_crashed_def json_field.simps del: list.map)
  moreover have "separate Map.empty demo_taken" by (simp add: separate_def demo_taken_def)
  moreover have "has_event ''order.payment_charged'' demo_crashed"
    by (simp add: has_event_def demo_crashed_def)
  moreover have "due_after (env_now demo_env (co_ticks demo_crashed_world + 3 + length demo_taken)) demo_taken"
    by (simp add: due_after_def demo_taken_def demo_env_def demo_crashed_world_def demo_world_with_def)
  moreover have "\<forall>x \<in> set demo_taken. True \<longrightarrow> demo_levels (line_key (fst x)) \<noteq> None"
    by (simp add: demo_taken_def demo_levels_def demo_line_def line_key_def)
  ultimately show ?thesis
    using recovery_restores [of demo_env demo_crashed demo_crashed_world demo_taken Map.empty demo_levels "\<lambda>_. True"]
      o demo_crashed_stored demo_crashed_stock demo_env_ok(1) by auto
qed

section \<open>What it cannot restore\<close>


text \<open>A crash after the charge and before its event: three of five units left, the payment taken.\<close>

definition demo_lost_world :: server_world where
  "demo_lost_world = demo_world\<lparr>
     co_redis := \<lparr>rm_store = [(stockKey ''w1'' ''s1'', int_string 3)], rm_expiresAt = []\<rparr>,
     w_payments := \<lparr>pg_charges = [(''o1'', ''pay_o1'')], pg_failures = no_failures\<rparr>\<rparr>"


end
