(* ===== verification/Json_Parse.thy ===== *)
theory Json_Parse
  imports Json
begin

text \<open>
  \<open>JSON.parse\<close>, with which \<open>eachMessage\<close> of \<open>src/lib/eventBus.ts\<close> reads the messages of Kafka: the
  grammar of JSON over bytes in UTF-8. Numbers are the integers; fractions, exponents and escaped surrogates
  are outside the model and read as malformed. The fields of an object come in the order of their first
  occurrence, the last value of a name counts. What \<open>JSON.stringify\<close> writes is read back.
\<close>

section \<open>Strings\<close>

text \<open>The UTF-8 bytes of a code point below 65536.\<close>

definition utf8_bytes :: "nat \<Rightarrow> string" where
  "utf8_bytes u =
     (if u < 128 then [char_of u]
      else if u < 2048 then [char_of (192 + u div 64), char_of (128 + u mod 64)]
      else [char_of (224 + u div 4096), char_of (128 + u div 64 mod 64), char_of (128 + u mod 64)])"

text \<open>What follows \<open>\u\<close>.\<close>

definition code_unit :: "string \<Rightarrow> (string \<times> string) option" where
  "code_unit s =
     (case s of
        a # b # c # d # r \<Rightarrow>
          (case (hex_value a, hex_value b, hex_value c, hex_value d) of
             (Some i, Some j, Some k, Some l) \<Rightarrow>
               (let u = 4096 * i + 256 * j + 16 * k + l in
                if 55296 \<le> u \<and> u < 57344 then None else Some (utf8_bytes u, r))
           | _ \<Rightarrow> None)
      | _ \<Rightarrow> None)"

text \<open>What follows a backslash.\<close>

definition escaped :: "string \<Rightarrow> (string \<times> string) option" where
  "escaped s =
     (case s of
        [] \<Rightarrow> None
      | d # r \<Rightarrow>
          (if d = CHR 0x22 \<or> d = CHR 0x5C \<or> d = CHR ''/'' then Some ([d], r)
           else if d = CHR ''b'' then Some ([CHR 0x08], r)
           else if d = CHR ''f'' then Some ([CHR 0x0C], r)
           else if d = CHR ''n'' then Some ([CHR 0x0A], r)
           else if d = CHR ''r'' then Some ([CHR 0x0D], r)
           else if d = CHR ''t'' then Some ([CHR 0x09], r)
           else if d = CHR ''u'' then code_unit r
           else None))"

lemma escaped_shorter: "escaped s = Some (t, r) \<Longrightarrow> length r < length s"
  by (auto simp: escaped_def code_unit_def Let_def split: list.splits if_splits option.splits)

text \<open>A string after its opening quote.\<close>

function string_body :: "string \<Rightarrow> (string \<times> string) option" where
  "string_body [] = None"
| "string_body (c # r) =
     (if c = CHR 0x22 then Some ([], r)
      else if c = CHR 0x5C then
        (case escaped r of None \<Rightarrow> None | Some (t, r') \<Rightarrow> map_option (map_prod ((@) t) id) (string_body r'))
      else if (of_char c :: nat) < 32 then None
      else map_option (map_prod ((#) c) id) (string_body r))"
  by pat_completeness auto
termination
proof (relation "measure length")
  fix c r p t r' assume "escaped r = Some p" "(t, r') = p"
  then show "(r', c # r) \<in> measure length" using escaped_shorter [of r t r'] by simp
qed auto

section \<open>Values\<close>

definition json_space :: "char \<Rightarrow> bool" where
  "json_space c \<longleftrightarrow> c \<in> {CHR 0x20, CHR 0x09, CHR 0x0A, CHR 0x0D}"

text \<open>The next character that is no white space, and what follows it.\<close>

definition next_char :: "string \<Rightarrow> (char \<times> string) option" where
  "next_char s = (case dropWhile json_space s of [] \<Rightarrow> None | c # r \<Rightarrow> Some (c, r))"

definition is_digit :: "char \<Rightarrow> bool" where
  "is_digit c \<longleftrightarrow> char_digit c \<noteq> None"

definition digits_of :: "string \<Rightarrow> (int \<times> string) option" where
  "digits_of s =
     (let ds = takeWhile is_digit s; r = dropWhile is_digit s in
      if ds = [] \<or> hd ds = CHR ''0'' \<and> tl ds \<noteq> [] \<or> r \<noteq> [] \<and> hd r \<in> {CHR ''.'', CHR ''e'', CHR ''E''} then None
      else map_option (\<lambda>n. (int n, r)) (digits_value 0 ds))"

definition number_of :: "string \<Rightarrow> (json \<times> string) option" where
  "number_of s =
     (if s \<noteq> [] \<and> hd s = CHR ''-'' then map_option (\<lambda>(n, r). (JNum (Num (- n)), r)) (digits_of (tl s))
      else map_option (\<lambda>(n, r). (JNum (Num n), r)) (digits_of s))"

definition literal :: "string \<Rightarrow> json \<Rightarrow> string \<Rightarrow> (json \<times> string) option" where
  "literal word v s = (if take (length word) s = word then Some (v, drop (length word) s) else None)"

text \<open>A value, the elements of an array that is not empty, the fields of an object that is not empty.\<close>

fun parse_value :: "nat \<Rightarrow> string \<Rightarrow> (json \<times> string) option"
  and parse_elements :: "nat \<Rightarrow> string \<Rightarrow> (json list \<times> string) option"
  and parse_fields :: "nat \<Rightarrow> string \<Rightarrow> ((string \<times> json) list \<times> string) option" where
  "parse_value 0 s = None"
| "parse_value (Suc n) s = Option.bind (next_char s) (\<lambda>(c, r).
     if c = CHR 0x22 then map_option (map_prod JStr id) (string_body r)
     else if c = CHR ''['' then Option.bind (next_char r) (\<lambda>(d, r').
       if d = CHR '']'' then Some (JArr [], r') else map_option (map_prod JArr id) (parse_elements n r))
     else if c = CHR ''{'' then Option.bind (next_char r) (\<lambda>(d, r').
       if d = CHR ''}'' then Some (JObj [], r') else map_option (map_prod (\<lambda>fs. JObj (spread [] fs)) id) (parse_fields n r))
     else if c = CHR ''n'' then literal ''null'' JNull (c # r)
     else if c = CHR ''t'' then literal ''true'' (JBool True) (c # r)
     else if c = CHR ''f'' then literal ''false'' (JBool False) (c # r)
     else number_of (c # r))"
| "parse_elements 0 s = None"
| "parse_elements (Suc n) s = Option.bind (parse_value n s) (\<lambda>(v, r). Option.bind (next_char r) (\<lambda>(c, r').
     if c = CHR '']'' then Some ([v], r')
     else if c = CHR '','' then map_option (map_prod ((#) v) id) (parse_elements n r')
     else None))"
| "parse_fields 0 s = None"
| "parse_fields (Suc n) s = Option.bind (next_char s) (\<lambda>(q, r0). if q \<noteq> CHR 0x22 then None else
     Option.bind (string_body r0) (\<lambda>(k, r1). Option.bind (next_char r1) (\<lambda>(c, r2). if c \<noteq> CHR '':'' then None else
     Option.bind (parse_value n r2) (\<lambda>(v, r3). Option.bind (next_char r3) (\<lambda>(d, r4).
     if d = CHR ''}'' then Some ([(k, v)], r4)
     else if d = CHR '','' then map_option (map_prod ((#) (k, v)) id) (parse_fields n r4)
     else None)))))"

text \<open>\<open>None\<close> is a \<open>SyntaxError\<close>. Every value takes a character, and every array and object two, so
  that the length of the text bounds the depth of the calls.\<close>

definition JSON_parse :: "string \<Rightarrow> json option" where
  "JSON_parse s = Option.bind (parse_value (Suc (length s)) s) (\<lambda>(v, r).
     if dropWhile json_space r = [] then Some v else None)"

section \<open>Reading back what was written\<close>

text \<open>What \<open>JSON.stringify\<close> loses: numbers that are not finite, and the same name twice.\<close>

fun json_plain :: "json \<Rightarrow> bool" where
  "json_plain (JNum x) = is_finite x"
| "json_plain (JArr vs) = list_all json_plain vs"
| "json_plain (JObj fs) = (jmap_ok fs \<and> list_all (\<lambda>(k, v). json_plain v) fs)"
| "json_plain _ = True"

lemma hex_value_hex_digit: "d < 16 \<Longrightarrow> hex_value (hex_digit d) = Some d"
  by (auto simp: hex_value_def hex_digit_def Let_def)

lemma code_unit_control:
  assumes "(of_char c :: nat) < 32"
  shows "code_unit (CHR ''0'' # CHR ''0'' # hex_digit (of_char c div 16) # hex_digit (of_char c mod 16) # r) = Some ([c], r)"
proof -
  have "hex_value (CHR ''0'') = Some 0" by (simp add: hex_value_def)
  then show ?thesis using assms by (simp add: code_unit_def hex_value_hex_digit utf8_bytes_def Let_def)
qed

lemma append_one: "(@) [c] = (#) c"
  by (simp add: fun_eq_iff)

lemma control_chars:
  "of_char c = (8::nat) \<Longrightarrow> c = CHR 0x08" "of_char c = (9::nat) \<Longrightarrow> c = CHR 0x09" "of_char c = (10::nat) \<Longrightarrow> c = CHR 0x0A"
  "of_char c = (12::nat) \<Longrightarrow> c = CHR 0x0C" "of_char c = (13::nat) \<Longrightarrow> c = CHR 0x0D"
  using of_char_eq_iff [where 'a = nat, of c] by (force simp del: of_char_eq_iff)+

lemma string_body_escape:
  "string_body (escape_char c @ r) = map_option (map_prod ((#) c) id) (string_body r)"
proof -
  consider "c = CHR 0x22" | "c = CHR 0x5C" | "of_char c = (8::nat)" | "of_char c = (9::nat)" | "of_char c = (10::nat)"
    | "of_char c = (12::nat)" | "of_char c = (13::nat)"
    | "c \<noteq> CHR 0x22" "c \<noteq> CHR 0x5C" "(of_char c :: nat) < 32" "(of_char c :: nat) \<notin> {8, 9, 10, 12, 13}"
    | "c \<noteq> CHR 0x22" "c \<noteq> CHR 0x5C" "\<not> (of_char c :: nat) < 32" by blast
  then show ?thesis
  proof cases
    case 8
    then show ?thesis by (simp add: escape_char_def escaped_def code_unit_control Let_def append_one)
  next
    case 9
    then show ?thesis by (simp add: escape_char_def Let_def)
  qed (auto dest!: control_chars simp: escape_char_def escaped_def Let_def append_one)
qed

lemma string_body_quoted: "string_body (concat (map escape_char s) @ CHR 0x22 # r) = Some (s, r)"
  by (induction s) (simp_all add: string_body_escape)

text \<open>Numbers.\<close>

lemma nat_string_no_zero: "nat_string n = CHR ''0'' # ds \<Longrightarrow> ds = []"
proof (induction n arbitrary: ds rule: nat_string.induct)
  case (1 n)
  show ?case
  proof (cases "n < 10")
    case True
    then show ?thesis using 1(2) by (subst (asm) nat_string.simps) simp
  next
    case False
    then have s: "nat_string n = nat_string (n div 10) @ [digit_char (n mod 10)]" by (subst nat_string.simps) simp
    obtain c cs where c: "nat_string (n div 10) = c # cs" using nat_string_nonempty by (cases "nat_string (n div 10)") auto
    with s 1(2) have "c = CHR ''0''" by simp
    with 1(1) [OF False] c have "nat_string (n div 10) = ''0''" by simp
    then have "digits_value 0 (nat_string (n div 10)) = Some 0" by (simp add: char_digit_def)
    with False show ?thesis by simp
  qed
qed

lemma is_digit_nat_string: "c \<in> set (nat_string n) \<Longrightarrow> is_digit c"
  using nat_string_digits [of c n] char_digit_Some_iff [of c] by (simp add: is_digit_def)

text \<open>A value is followed by nothing, or by what separates or closes.\<close>

definition ends_value :: "string \<Rightarrow> bool" where
  "ends_value r \<longleftrightarrow> r = [] \<or> hd r \<in> {CHR '','', CHR '']'', CHR ''}''}"

lemma digits_of_nat_string:
  assumes "ends_value r"
  shows "digits_of (nat_string n @ r) = Some (int n, r)"
proof -
  have r: "takeWhile is_digit r = []" "dropWhile is_digit r = r" "r = [] \<or> hd r \<notin> {CHR ''.'', CHR ''e'', CHR ''E''}"
    using assms by (cases r; auto simp: ends_value_def is_digit_def char_digit_def)+
  have "takeWhile is_digit (nat_string n @ r) = nat_string n" "dropWhile is_digit (nat_string n @ r) = r"
    using is_digit_nat_string [of _ n] r(1,2) by (simp_all add: takeWhile_append2 dropWhile_append2)
  moreover have "\<not> (hd (nat_string n) = CHR ''0'' \<and> tl (nat_string n) \<noteq> [])"
    using nat_string_no_zero [of n] by (cases "nat_string n") auto
  ultimately show ?thesis using r(3) by (simp add: digits_of_def Let_def)
qed

lemma number_of_int_string:
  assumes "ends_value r"
  shows "number_of (int_string n @ r) = Some (JNum (Num n), r)"
proof (cases "n < 0")
  case True
  then show ?thesis using digits_of_nat_string [OF assms, of "nat (- n)"] by (simp add: number_of_def int_string_def)
next
  case False
  have "hd (nat_string (nat n) @ r) \<noteq> CHR ''-''"
    using hd_nat_string [of "nat n"] by (cases "nat_string (nat n)") auto
  with False show ?thesis
    using digits_of_nat_string [OF assms, of "nat n"] by (simp add: number_of_def int_string_def)
qed

text \<open>The first character of a text says what it is, and is no white space.\<close>

lemma next_char_Cons: "\<not> json_space c \<Longrightarrow> next_char (c # r) = Some (c, r)"
  by (simp add: next_char_def)

lemma int_string_start: "\<exists>c r. int_string n = c # r \<and> (c = CHR ''-'' \<or> is_digit c)"
proof (cases "n < 0")
  case True
  then show ?thesis by (simp add: int_string_def)
next
  case False
  obtain c cs where "nat_string (nat n) = c # cs" using nat_string_nonempty by (cases "nat_string (nat n)") auto
  with False is_digit_nat_string [of c "nat n"] show ?thesis by (simp add: int_string_def)
qed

lemma digit_plain: "is_digit c \<Longrightarrow> \<not> json_space c \<and> c \<notin> {CHR 0x22, CHR ''['', CHR ''{'', CHR ''n'', CHR ''t'', CHR ''f''}"
  by (auto simp: is_digit_def char_digit_def json_space_def)

lemma number_start:
  assumes "c = CHR ''-'' \<or> is_digit c"
  shows "\<not> json_space c" "c \<noteq> CHR 0x22" "c \<noteq> CHR ''[''" "c \<noteq> CHR ''{''" "c \<noteq> CHR ''n''" "c \<noteq> CHR ''t''" "c \<noteq> CHR ''f''"
proof -
  have "\<not> json_space c \<and> c \<notin> {CHR 0x22, CHR ''['', CHR ''{'', CHR ''n'', CHR ''t'', CHR ''f''}"
    using assms
  proof
    assume "c = CHR ''-''"
    then show ?thesis by (simp add: json_space_def)
  qed (rule digit_plain)
  then show "\<not> json_space c" "c \<noteq> CHR 0x22" "c \<noteq> CHR ''[''" "c \<noteq> CHR ''{''" "c \<noteq> CHR ''n''" "c \<noteq> CHR ''t''"
    "c \<noteq> CHR ''f''" by simp_all
qed

lemma json_text_start: "json_plain v \<Longrightarrow> \<exists>c r. json_text v = c # r \<and> \<not> json_space c \<and> c \<noteq> CHR '']''"
proof (cases v)
  case (JNum x)
  assume "json_plain v"
  with JNum obtain n where x: "x = Num n" by (cases x) auto
  obtain c t where c: "int_string n = c # t" "c = CHR ''-'' \<or> is_digit c" using int_string_start by blast
  have "c \<noteq> CHR '']''" using c(2) by (auto simp: is_digit_def char_digit_def)
  with number_start(1) [OF c(2)] c(1) show ?thesis by (simp add: JNum x)
qed (auto simp: json_quote_def json_space_def)

text \<open>Scalars.\<close>

lemma parse_scalar:
  assumes "json_plain v" and "\<nexists>vs. v = JArr vs" and "\<nexists>fs. v = JObj fs" and r: "ends_value r"
  shows "parse_value (Suc n) (json_text v @ r) = Some (v, r)"
proof (cases v)
  case (JNum x)
  with assms(1) obtain k where x: "x = Num k" by (cases x) auto
  obtain c t where c: "int_string k = c # t" "c = CHR ''-'' \<or> is_digit c" using int_string_start by blast
  note number_start [OF c(2)]
  moreover have "json_text v @ r = c # t @ r" by (simp only: JNum x c(1) json_text.simps is_finite.simps js_String.simps if_True append_Cons)
  moreover have "number_of (c # t @ r) = Some (v, r)"
    using number_of_int_string [OF r, of k] by (simp only: JNum x c(1) append_Cons)
  ultimately show ?thesis by (simp add: next_char_Cons)
next
  case (JStr s)
  then show ?thesis by (simp add: json_quote_def next_char_Cons json_space_def string_body_quoted)
next
  case (JBool b)
  then show ?thesis by (simp add: next_char_Cons json_space_def literal_def)
qed (use assms in \<open>simp_all add: next_char_Cons json_space_def literal_def\<close>)

text \<open>Arrays and objects.\<close>

lemma parse_join:
  assumes "vs \<noteq> []" and "ends_value r"
    and "\<And>v n r. v \<in> set vs \<Longrightarrow> length (json_text v) \<le> n \<Longrightarrow> ends_value r \<Longrightarrow> parse_value n (json_text v @ r) = Some (v, r)"
    and "length (js_join '','' (map json_text vs)) < n"
  shows "parse_elements n (js_join '','' (map json_text vs) @ CHR '']'' # r) = Some (vs, r)"
  using assms
proof (induction vs arbitrary: n)
  case (Cons v vs)
  then obtain m where n: "n = Suc m" by (cases n) auto
  show ?case
  proof (cases vs)
    case Nil
    then have "parse_value m (json_text v @ CHR '']'' # r) = Some (v, CHR '']'' # r)"
      using Cons.prems by (auto simp: n ends_value_def)
    then show ?thesis by (simp add: Nil n next_char_Cons json_space_def)
  next
    case (Cons u us)
    let ?t = "js_join '','' (map json_text vs) @ CHR '']'' # r"
    have "parse_value m (json_text v @ CHR '','' # ?t) = Some (v, CHR '','' # ?t)"
      using Cons.prems Cons by (auto simp: n ends_value_def)
    moreover have "parse_elements m ?t = Some (vs, r)"
      using Cons.prems Cons by (intro Cons.IH) (auto simp: n)
    moreover have "js_join '','' (map json_text (v # vs)) @ CHR '']'' # r = json_text v @ CHR '','' # ?t"
      using Cons by simp
    ultimately show ?thesis by (simp add: n next_char_Cons json_space_def del: js_join.simps list.map)
  qed
qed simp

abbreviation field_text :: "string \<times> json \<Rightarrow> string" where
  "field_text f \<equiv> (case f of (k, v) \<Rightarrow> json_quote k @ '':'' @ json_text v)"

lemma parse_field_join:
  assumes "fs \<noteq> []" and "ends_value r"
    and "\<And>k v n r. (k, v) \<in> set fs \<Longrightarrow> length (json_text v) \<le> n \<Longrightarrow> ends_value r \<Longrightarrow> parse_value n (json_text v @ r) = Some (v, r)"
    and "length (js_join '','' (map field_text fs)) < n"
  shows "parse_fields n (js_join '','' (map field_text fs) @ CHR ''}'' # r) = Some (fs, r)"
  using assms
proof (induction fs arbitrary: n)
  case (Cons f fs)
  then obtain m where n: "n = Suc m" by (cases n) auto
  obtain k v where f: "f = (k, v)" by (cases f)
  have start: "parse_fields n (field_text f @ t) = Option.bind (parse_value m (json_text v @ t)) (\<lambda>(v, r3).
      Option.bind (next_char r3) (\<lambda>(d, r4). if d = CHR ''}'' then Some ([(k, v)], r4)
        else if d = CHR '','' then map_option (map_prod ((#) (k, v)) id) (parse_fields m r4) else None))" for t
    by (simp add: n f json_quote_def next_char_Cons json_space_def string_body_quoted)
  show ?case
  proof (cases fs)
    case Nil
    then have "parse_value m (json_text v @ CHR ''}'' # r) = Some (v, CHR ''}'' # r)"
      using Cons.prems by (intro Cons.prems(3)) (auto simp: n f ends_value_def)
    then show ?thesis using start [of "CHR ''}'' # r"] by (simp add: Nil f next_char_Cons json_space_def)
  next
    case (Cons g gs)
    let ?t = "js_join '','' (map field_text fs) @ CHR ''}'' # r"
    have j: "js_join '','' (map field_text (f # fs)) = field_text f @ CHR '','' # js_join '','' (map field_text fs)"
      using Cons by simp
    have "parse_value m (json_text v @ CHR '','' # ?t) = Some (v, CHR '','' # ?t)"
      using Cons.prems(4) unfolding j by (intro Cons.prems(3)) (auto simp: n f ends_value_def)
    moreover have "parse_fields m ?t = Some (fs, r)"
    proof (rule Cons.IH)
      show "length (js_join '','' (map field_text fs)) < m" using Cons.prems(4) unfolding j by (simp add: n)
    qed (use Cons Cons.prems in auto)
    ultimately show ?thesis using start [of "CHR '','' # ?t"] unfolding j by (simp add: f next_char_Cons json_space_def)
  qed
qed simp

lemma spread_plain: "jmap_ok (a @ fs) \<Longrightarrow> spread a fs = a @ fs"
proof (induction fs arbitrary: a)
  case Nil
  then show ?case by (simp add: spread_def)
next
  case (Cons p fs)
  obtain k v where p: "p = (k, v)" by (cases p)
  have "jget a k = None" using Cons.prems p by (auto simp: jmap_ok_def map_of_eq_None_iff)
  then have "spread a (p # fs) = spread (a @ [p]) fs" by (simp add: spread_def p jset_fresh)
  with Cons.IH [of "a @ [p]"] Cons.prems show ?case by simp
qed

lemma parse_json_text:
  "json_plain v \<Longrightarrow> length (json_text v) \<le> n \<Longrightarrow> ends_value r \<Longrightarrow> parse_value n (json_text v @ r) = Some (v, r)"
proof (induction v arbitrary: n r)
  case JNull
  then show ?case using parse_scalar [of JNull r "n - 1"] by simp
next
  case (JBool b)
  then show ?case using parse_scalar [of "JBool b" r "n - 1"] by (cases n) (auto split: if_splits)
next
  case (JNum x)
  have "json_text (JNum x) \<noteq> []" using json_text_start [OF JNum.prems(1)] by auto
  with JNum.prems(2) have "n = Suc (n - 1)" by (cases n) auto
  with parse_scalar [OF JNum.prems(1) _ _ JNum.prems(3), of "n - 1"] show ?case by (simp del: json_text.simps parse_value.simps)
next
  case (JStr s)
  then show ?case using parse_scalar [of "JStr s" r "n - 1"] by (simp add: json_quote_def)
next
  case (JArr vs)
  then obtain m where n: "n = Suc m" by (cases n) auto
  show ?case
  proof (cases "vs = []")
    case True
    then show ?thesis by (simp add: n next_char_Cons json_space_def)
  next
    case False
    let ?t = "js_join '','' (map json_text vs)"
    have "parse_elements m (?t @ CHR '']'' # r) = Some (vs, r)"
      using JArr.prems False by (intro parse_join JArr.IH) (auto simp: n list_all_iff)
    moreover obtain c t where "?t = c # t" "\<not> json_space c" "c \<noteq> CHR '']''"
      using False JArr.prems(1) json_text_start [of "hd vs"]
      by (cases vs; cases "tl vs") auto
    ultimately show ?thesis by (simp add: n next_char_Cons json_space_def)
  qed
next
  case (JObj fs)
  then obtain m where n: "n = Suc m" by (cases n) auto
  show ?case
  proof (cases "fs = []")
    case True
    then show ?thesis by (simp add: n next_char_Cons json_space_def)
  next
    case False
    let ?t = "js_join '','' (map field_text fs)"
    have "parse_fields m (?t @ CHR ''}'' # r) = Some (fs, r)"
    proof (rule parse_field_join)
      fix k v n r assume "(k, v) \<in> set fs" "length (json_text v) \<le> n" "ends_value r"
      then show "parse_value n (json_text v @ r) = Some (v, r)"
        using JObj.prems(1) by (intro JObj.IH [of "(k, v)"]) (auto simp: list_all_iff)
    qed (use JObj.prems False in \<open>auto simp: n\<close>)
    moreover have "spread [] fs = fs" using spread_plain [of "[]" fs] JObj.prems(1) by simp
    moreover have "\<exists>t. ?t = CHR 0x22 # t" using False by (cases fs; cases "tl fs") (auto simp: json_quote_def)
    ultimately show ?thesis by (auto simp: n next_char_Cons json_space_def)
  qed
qed

text \<open>What is written is read back.\<close>

lemma JSON_parse_text: "json_plain v \<Longrightarrow> JSON_parse (json_text v) = Some v"
  using parse_json_text [of v "Suc (length (json_text v))" "[]"] by (simp add: JSON_parse_def ends_value_def)

end
