(* ===== verification/Kafka_Bus.thy ===== *)
theory Kafka_Bus
  imports Event_Bus Json_Parse
begin

text \<open>
  The bus of \<open>createKafkaEventBus\<close> in \<open>src/lib/eventBus.ts\<close>, over a driver that is an argument: the
  calls of kafkajs the adapter makes, on the state of the cluster. A consumer is started by an
  asynchronous function that nobody awaits: it has a stage, which moves when the driver answers.
  What kafkajs decides - when it answers, which message it hands to a consumer and how often - is a
  sequence of steps.
\<close>

section \<open>The driver\<close>

record kafka_message =
  km_topic :: string
  km_key :: "string option"
  km_value :: string

record 'k kafka_driver =
  kd_connect :: "('k, unit) act"
  kd_send :: "kafka_message \<Rightarrow> ('k, unit) act"
  kd_disconnect :: "('k, unit) act"
  kd_stop :: "string \<Rightarrow> ('k, unit) act"

section \<open>The adapter\<close>

text \<open>
  A consumer is its group, with the topic and the handler it runs, and the call of the driver it waits
  for: \<open>connect\<close>, \<open>subscribe\<close>, \<open>run\<close>, or none. \<open>kf_crashed\<close>: a rejection that nobody
  handles has ended the process.
\<close>

datatype consumer_stage = Connecting_consumer | Subscribing_consumer | Joining_group | Running_consumer

record 'h kafka_consumer =
  kc_topic :: string
  kc_groupId :: string
  kc_handler :: 'h
  kc_stage :: consumer_stage

record ('h, 'k) kafka =
  kf_cluster :: 'k
  kf_consumers :: "'h kafka_consumer list"
  kf_localHistory :: "(string, domain_event list) jmap"
  kf_crashed :: bool

text \<open>The state of the bus beside the state of the owners of its handlers.\<close>

type_synonym ('h, 'k, 'e) kafka_state = "('h, 'k) kafka \<times> 'e"

definition on_cluster :: "('k, 'a) act \<Rightarrow> (('h, 'k) kafka, 'a) act" where
  "on_cluster m = zoom kf_cluster (\<lambda>k s. s\<lparr>kf_cluster := k\<rparr>) m"

definition kafka_history :: "string \<Rightarrow> ('h, 'k) kafka \<Rightarrow> domain_event list" where
  "kafka_history topic s = (case jget (kf_localHistory s) topic of None \<Rightarrow> [] | Some l \<Rightarrow> l)"

definition message_of :: "string \<Rightarrow> domain_event \<Rightarrow> kafka_message" where
  "message_of topic event = \<lparr>km_topic = topic, km_key = de_key event, km_value = json_text (event_json event)\<rparr>"

definition kafka_publish :: "'k kafka_driver \<Rightarrow> string \<Rightarrow> domain_event \<Rightarrow> (('h, 'k) kafka, unit) act" where
  "kafka_publish K topic event =
     bind (update_state (\<lambda>s. s\<lparr>kf_localHistory := jset topic (kafka_history topic s @ [event]) (kf_localHistory s)\<rparr>)) (\<lambda>_.
     on_cluster (kd_send K (message_of topic event)))"

definition kafka_subscribe :: "string \<Rightarrow> string \<Rightarrow> 'h \<Rightarrow> ('h, 'k) kafka \<Rightarrow> ('h, 'k) kafka" where
  "kafka_subscribe topic groupId h s =
     s\<lparr>kf_consumers := kf_consumers s @ [\<lparr>kc_topic = topic, kc_groupId = groupId, kc_handler = h, kc_stage = Connecting_consumer\<rparr>]\<rparr>"

text \<open>The driver answers the call that the i-th consumer waits for. An error is a rejection of the function
  that started it.\<close>

fun next_stage :: "consumer_stage \<Rightarrow> consumer_stage" where
  "next_stage Connecting_consumer = Subscribing_consumer"
| "next_stage Subscribing_consumer = Joining_group"
| "next_stage Joining_group = Running_consumer"
| "next_stage Running_consumer = Running_consumer"

definition consumer_answer :: "nat \<Rightarrow> js_error option \<Rightarrow> ('h, 'k) kafka \<Rightarrow> ('h, 'k) kafka" where
  "consumer_answer i err s =
     (if i < length (kf_consumers s) \<and> kc_stage (kf_consumers s ! i) \<noteq> Running_consumer then
        (case err of
           Some e \<Rightarrow> s\<lparr>kf_crashed := True\<rparr>
         | None \<Rightarrow> s\<lparr>kf_consumers := (kf_consumers s)[i := (kf_consumers s ! i)
             \<lparr>kc_stage := next_stage (kc_stage (kf_consumers s ! i))\<rparr>]\<rparr>)
      else s)"

text \<open>The cast to \<open>DomainEvent\<close>. A value of another shape, which no publisher of this program writes, is
  out of the model.\<close>

definition as_event :: "json \<Rightarrow> domain_event option" where
  "as_event j =
     (case (json_field j ''type'', json_field j ''payload'', json_field j ''at'') of
        (Some (JStr t), Some payload, Some (JNum (Num at))) \<Rightarrow>
          Some \<lparr>de_type = t, de_payload = payload, de_at = at,
                de_key = (case json_field j ''key'' of Some (JStr k) \<Rightarrow> Some k | _ \<Rightarrow> None)\<rparr>
      | _ \<Rightarrow> None)"

text \<open>\<open>eachMessage\<close>: a message without a value is skipped, a text that is no JSON throws.\<close>

definition eachMessage ::
  "('h \<Rightarrow> domain_event \<Rightarrow> ('s, unit) act) \<Rightarrow> 'h \<Rightarrow> string option \<Rightarrow> ('s, unit) act" where
  "eachMessage H h val =
     (case val of
        None \<Rightarrow> ret ()
      | Some text \<Rightarrow>
          (case Option.bind (JSON_parse text) as_event of
             None \<Rightarrow> throw (DriverError ''SyntaxError'')
           | Some event \<Rightarrow> H h event))"

text \<open>kafkajs hands a value to the i-th consumer once \<open>run\<close> has been called.\<close>

definition consume ::
  "('h \<Rightarrow> domain_event \<Rightarrow> (('h, 'k, 'e) kafka_state, unit) act) \<Rightarrow> nat \<Rightarrow> string option \<Rightarrow>
     (('h, 'k, 'e) kafka_state, unit) act" where
  "consume H i val s =
     (let cs = kf_consumers (fst s) in
      if i < length cs \<and> kc_stage (cs ! i) \<in> {Joining_group, Running_consumer} \<and> \<not> kf_crashed (fst s)
      then eachMessage H (kc_handler (cs ! i)) val s
      else (Inr (), s))"

text \<open>\<open>Promise.all\<close> over calls that have all been made: every consumer is stopped, the first error is thrown.\<close>

fun stop_all :: "'k kafka_driver \<Rightarrow> 'h kafka_consumer list \<Rightarrow> (('h, 'k) kafka, unit) act" where
  "stop_all K [] s = (Inr (), s)"
| "stop_all K (c # cs) s =
     (let (r, s1) = on_cluster (kd_stop K (kc_groupId c)) s; (r', s2) = stop_all K cs s1 in
      (case r of Inl e \<Rightarrow> (Inl e, s2) | Inr _ \<Rightarrow> (r', s2)))"

definition kafka_close :: "'k kafka_driver \<Rightarrow> (('h, 'k) kafka, unit) act" where
  "kafka_close K =
     bind (on_cluster (kd_disconnect K)) (\<lambda>_.
     bind (read_state kf_consumers) (\<lambda>consumers.
     stop_all K consumers))"

definition createKafkaEventBus :: "'k kafka_driver \<Rightarrow> ('k, ('h, 'k) kafka) act" where
  "createKafkaEventBus K k =
     (case kd_connect K k of
        (Inl e, k') \<Rightarrow> (Inl e, k')
      | (Inr _, k') \<Rightarrow> (Inr \<lparr>kf_cluster = k', kf_consumers = [], kf_localHistory = [], kf_crashed = False\<rparr>, k'))"

definition on_bus_of :: "(('h, 'k) kafka, 'a) act \<Rightarrow> (('h, 'k, 'e) kafka_state, 'a) act" where
  "on_bus_of m = zoom fst (\<lambda>b s. (b, snd s)) m"

definition KafkaEventBus :: "'k kafka_driver \<Rightarrow> ('h, 'k, 'e) kafka_state event_bus" where
  "KafkaEventBus K = \<lparr>eb_publish = (\<lambda>topic ev. on_bus_of (kafka_publish K topic ev)),
     eb_history = (\<lambda>topic s. kafka_history topic (fst s))\<rparr>"

section \<open>Publishing\<close>

lemma kafka_publish_run:
  assumes "kd_send K (message_of topic ev) (kf_cluster s) = (r, k')"
  shows "kafka_publish K topic ev s =
      (r, s\<lparr>kf_localHistory := jset topic (kafka_history topic s @ [ev]) (kf_localHistory s), kf_cluster := k'\<rparr>)"
  using assms by (simp add: kafka_publish_def on_cluster_def zoom_apply)

lemma kafka_history_push:
  "kafka_history t (s\<lparr>kf_localHistory := jset topic (kafka_history topic s @ [ev]) (kf_localHistory s), kf_cluster := k'\<rparr>) =
     (if t = topic then kafka_history t s @ [ev] else kafka_history t s)"
  by (simp add: kafka_history_def)

text \<open>When a send fails, the publication throws, and the local history shows an event that was never sent.\<close>

lemma kafka_send_fails:
  assumes "kd_send K (message_of topic ev) (kf_cluster s) = (Inl e, k')"
  shows "\<exists>s'. kafka_publish K topic ev s = (Inl e, s') \<and> kafka_history topic s' = kafka_history topic s @ [ev]"
  using kafka_publish_run [OF assms] kafka_history_push [where t = topic and s = s and topic = topic and ev = ev and k' = k'] by auto

text \<open>What other processes publish is not in the history of this one.\<close>

lemma kafka_history_is_local: "kafka_history topic (s\<lparr>kf_cluster := k\<rparr>) = kafka_history topic s"
  by (simp add: kafka_history_def)

section \<open>A cluster\<close>

text \<open>What the adapter relies on while the cluster accepts messages: a message that has been sent is the
  last of its topic.\<close>

locale kafka_cluster =
  fixes K :: "'k kafka_driver" and alive :: "'k \<Rightarrow> bool" and msgs :: "'k \<Rightarrow> string \<Rightarrow> kafka_message list"
  assumes send_law: "\<And>k m. alive k \<Longrightarrow> \<exists>k'. kd_send K m k = (Inr (), k') \<and> alive k' \<and>
      (\<forall>t. msgs k' t = (if t = km_topic m then msgs k t @ [m] else msgs k t))"
begin

lemma kafka_publish_sent:
  fixes s :: "('h, 'k) kafka"
  assumes "alive (kf_cluster s)"
  shows "\<exists>k'. kafka_publish K topic ev s =
      (Inr (), s\<lparr>kf_localHistory := jset topic (kafka_history topic s @ [ev]) (kf_localHistory s), kf_cluster := k'\<rparr>) \<and>
    alive k' \<and> (\<forall>t. msgs k' t = (if t = topic then msgs (kf_cluster s) t @ [message_of topic ev] else msgs (kf_cluster s) t))"
proof -
  from send_law [OF assms, of "message_of topic ev"] obtain k' where
    k': "kd_send K (message_of topic ev) (kf_cluster s) = (Inr (), k')" "alive k'"
      "\<forall>t. msgs k' t = (if t = km_topic (message_of topic ev) then msgs (kf_cluster s) t @ [message_of topic ev]
         else msgs (kf_cluster s) t)" by blast
  from kafka_publish_run [OF k'(1)] k'(2,3) show ?thesis by (intro exI [of _ k']) (simp add: message_of_def)
qed

lemma kafka_keeps_bus_laws: "event_bus_laws (KafkaEventBus K) (\<lambda>s :: ('h, 'k, 'e) kafka_state. alive (kf_cluster (fst s)))"
proof
  fix s :: "('h, 'k, 'e) kafka_state" and topic :: string and ev :: domain_event
  assume "alive (kf_cluster (fst s))"
  from kafka_publish_sent [OF this, of topic ev] obtain k' where
    k': "kafka_publish K topic ev (fst s) = (Inr (), (fst s)\<lparr>kf_localHistory :=
        jset topic (kafka_history topic (fst s) @ [ev]) (kf_localHistory (fst s)), kf_cluster := k'\<rparr>)" "alive k'" by blast
  show "\<exists>s'. eb_publish (KafkaEventBus K) topic ev s = (Inr (), s') \<and> alive (kf_cluster (fst s')) \<and>
      (\<forall>t. eb_history (KafkaEventBus K) t s' =
         (if t = topic then eb_history (KafkaEventBus K) t s @ [ev] else eb_history (KafkaEventBus K) t s))"
    using k' kafka_history_push [where s = "fst s" and topic = topic and ev = ev and k' = k']
    by (simp add: KafkaEventBus_def on_bus_of_def zoom_apply)
qed

end

text \<open>A cluster of one list of messages, and one that has no consumers to answer for.\<close>

definition list_cluster :: "kafka_message list kafka_driver" where
  "list_cluster =
     \<lparr>kd_connect = ret (), kd_send = (\<lambda>m. update_state (\<lambda>k. k @ [m])), kd_disconnect = ret (), kd_stop = (\<lambda>_. ret ())\<rparr>"

interpretation listed: kafka_cluster list_cluster "\<lambda>_. True" "\<lambda>k t. filter (\<lambda>m. km_topic m = t) k"
  by unfold_locales (simp add: list_cluster_def)

section \<open>Reading what was published\<close>

lemma eachMessage_published:
  assumes "json_plain (de_payload ev)"
  shows "eachMessage H h (Some (km_value (message_of topic ev))) = H h ev"
proof -
  have "json_plain (event_json ev)"
    using assms by (simp add: event_json_def jmap_ok_def split: option.splits)
  moreover have "as_event (event_json ev) = Some ev"
    by (cases ev) (simp add: as_event_def event_json_def split: option.splits)
  ultimately show ?thesis by (simp add: eachMessage_def message_of_def JSON_parse_text del: json_text.simps)
qed

text \<open>C30: What is published on Kafka is what a handler gets. When the cluster takes the message of an event, the
  last message of the topic, read by \<open>eachMessage\<close>, calls the handler with that event: its type, payload,
  time and key, whatever text its payload holds.\<close>

theorem message_is_read_back:
  assumes "kafka_cluster K alive msgs" and "alive (kf_cluster (fst s))" and "json_plain (de_payload ev)"
  shows "\<exists>s'. eb_publish (KafkaEventBus K) topic ev s = (Inr (), s') \<and>
     eachMessage H h (Some (km_value (last (msgs (kf_cluster (fst s')) topic)))) = H h ev"
proof -
  from kafka_cluster.kafka_publish_sent [OF assms(1,2), of topic ev] obtain k' where
    k': "kafka_publish K topic ev (fst s) = (Inr (), (fst s)\<lparr>kf_localHistory :=
        jset topic (kafka_history topic (fst s) @ [ev]) (kf_localHistory (fst s)), kf_cluster := k'\<rparr>)"
      "msgs k' topic = msgs (kf_cluster (fst s)) topic @ [message_of topic ev]" by auto
  then show ?thesis
    using eachMessage_published [OF assms(3), of H h topic]
    by (simp add: KafkaEventBus_def on_bus_of_def zoom_apply)
qed

theorem message_is_read_back_witness:
  "\<exists>s'. eb_publish (KafkaEventBus list_cluster) ''orders''
       \<lparr>de_type = ''t'', de_payload = JObj [(''a'', JStr [CHR 0x22, CHR 0x0A]), (''n'', JNum (Num (-7)))], de_at = 5, de_key = Some ''k''\<rparr>
       (\<lparr>kf_cluster = [], kf_consumers = [], kf_localHistory = [], kf_crashed = False\<rparr>, ()) = (Inr (), s') \<and>
     eachMessage (\<lambda>h ev. update_state (\<lambda>log. log @ [de_type ev])) ()
       (Some (km_value (last (filter (\<lambda>m. km_topic m = ''orders'') (kf_cluster (fst s')))))) =
     update_state (\<lambda>log. log @ [''t''])"
  using message_is_read_back [OF listed.kafka_cluster_axioms, where topic = "''orders''" and h = "()"
      and H = "\<lambda>h ev. update_state (\<lambda>log. log @ [de_type ev])"
      and s = "(\<lparr>kf_cluster = [], kf_consumers = [], kf_localHistory = [], kf_crashed = False\<rparr>, ())"
      and ev = "\<lparr>de_type = ''t'', de_payload = JObj [(''a'', JStr [CHR 0x22, CHR 0x0A]), (''n'', JNum (Num (-7)))], de_at = 5, de_key = Some ''k''\<rparr>"]
  by (auto simp: jmap_ok_def)

end
