(* ===== verification/Production_Saga.thy ===== *)
theory Production_Saga
  imports Server_Saga Pg_Order_Store Kafka_Bus
begin

text \<open>
  The saga as it is deployed: the Lua scripts on a Redis server, orders in Postgres
  (\<open>ORDER_STORE=pg\<close>). The Redis server is any that keeps the documented behaviour of its commands.
  Beside it, what \<open>PgOrderStore\<close> gives back and where it differs from the in-memory store.
\<close>

section \<open>The orchestrator over Redis and Postgres\<close>

type_synonym 'd production_world = "('d, pg_db, app_bus) world"

definition production_saga ::
  "'d redis_commands \<Rightarrow> (string \<Rightarrow> string option) \<Rightarrow> (json \<Rightarrow> json) \<Rightarrow> env \<Rightarrow> ('d, pg_db, app_bus) deps" where
  "production_saga C uuid_in jsonb E =
     SagaOrchestrator (server_client C) (PgOrderStore uuid_in jsonb) (InMemoryEventBus app_handler) E"

lemma deployment_is_saga:
  "redis_server C kv_of invar \<Longrightarrow> event_bus_laws B bus_ok \<Longrightarrow>
     saga (server_client C) kv_of invar (PgOrderStore uuid_in jsonb) pg_orders (pg_ok uuid_in) (canonical uuid_in)
       (canonical_scope uuid_in) jsonb B bus_ok"
  using pg.order_store_axioms by (intro saga.intro redis_server.server_is_stock_redis)

lemmas production_is_saga = deployment_is_saga [OF _ app.inmem.event_bus_laws_axioms]

text \<open>C3: all or nothing in production. Over any Redis server with the two scripts, over
  Postgres, and on any bus that keeps the contract of publishers (the in-memory one, or Kafka while the
  cluster accepts messages: \<open>kafka_keeps_bus_laws\<close>), a run ends with the order confirmed and every effect in place, or cancelled and every
  effect undone; no other order of the database changes.\<close>

theorem production_all_or_nothing:
  fixes C :: "'d redis_commands" and w :: "('d, pg_db, 'b) world"
  assumes "redis_server C kv_of invar" and "event_bus_laws B bus_ok" and "invar (co_redis w)"
    and "repr (env_now E (co_ticks w)) L \<rho> (kv_of (co_redis w))"
    and "pg_ok uuid_in (w_store w)" and "bus_ok (w_bus w)" and "pg_orders (w_store w) oid = Some od"
    and "\<forall>h \<in> set (or_history od). ev_at h \<le> env_now E (co_ticks w)"
    and "clock_ok E" and "fresh_ids E (co_uuids w) (dom \<rho>)"
    and "env_now E (co_ticks w + 4 * length (or_lines od) + 9) < env_now E (co_ticks w) + 900000"
    and "charges (w_payments w) oid = None"
  shows "\<exists>w' od'. run (SagaOrchestrator (server_client C) (PgOrderStore uuid_in jsonb) B E) oid w = (Inr od', w') \<and>
     pg_orders (w_store w') = (pg_orders (w_store w))(oid \<mapsto> od') \<and>
     (or_status od' = CONFIRMED \<and> repr (env_now E (co_ticks w')) (debit L (or_lines od)) \<rho> (kv_of (co_redis w')) \<and>
        charges (w_payments w') = (charges (w_payments w))(oid \<mapsto> payment_ticket oid) \<and>
        shipments (w_shipping w') = (shipments (w_shipping w))(oid \<mapsto> shipment_ticket oid) \<or>
      or_status od' = CANCELLED \<and> repr (env_now E (co_ticks w')) L \<rho> (kv_of (co_redis w')) \<and>
        charges (w_payments w') = charges (w_payments w) \<and> shipments (w_shipping w') = shipments (w_shipping w))"
proof -
  note sg = deployment_is_saga [OF assms(1,2), of uuid_in jsonb]
  note sr = redis_server.server_is_stock_redis [OF assms(1)]
  have t: "saga.tracks pg_orders (pg_ok uuid_in) bus_ok E w oid od"
    unfolding saga.tracks_def [OF sg] using assms(5-8) by blast
  have h: "stock_redis.holding kv_of invar E w L \<rho> [] []"
    unfolding stock_redis.holding_def [OF sr] using assms(3,4) by simp
  from saga.run_outcome [OF sg t h assms(10,9,11)] obtain w' od' v rs where
    r: "run (SagaOrchestrator (server_client C) (PgOrderStore uuid_in jsonb) B E) oid w = (Inr od', w')"
      "saga.went pg_orders (pg_ok uuid_in) jsonb B bus_ok E oid (verdict_steps oid rs v) w od w' od'"
      "stock_redis.holding kv_of invar E w' (if v = Done then debit L (or_lines od) else L) \<rho> [] []"
      "charges (w_payments w') = charges_after oid v (charges (w_payments w))"
      "shipments (w_shipping w') = shipments_after oid v (shipments (w_shipping w))"
    by blast
  have u: "untimed od' = fold (apply_step jsonb) (verdict_steps oid rs v) (untimed od)"
    "pg_orders (w_store w') = (pg_orders (w_store w))(oid \<mapsto> od')"
    using r(2) unfolding saga.went_def [OF sg] by blast+
  have "or_status od' = (if v = Done then CONFIRMED else CANCELLED)"
    using arg_cong [OF u(1), of or_status] by (simp add: verdict_status)
  with r u assms(12) show ?thesis
    unfolding stock_redis.holding_def [OF sr]
    by (cases "v = Done") (auto simp: charges_after_def shipments_after_def fun_upd_idem)
qed

definition demo_pg :: pg_db where
  "demo_pg = \<lparr>db_orders = [\<lparr>ow_id = ''o1'', ow_customer_id = ''c1'', ow_business_id = None, ow_amount_cents = 500,
       ow_status = CREATED, ow_created_at = 0, ow_updated_at = 0\<rparr>],
     db_lines = [\<lparr>lw_order_id = ''o1'', lw_sku = ''s1'', lw_warehouse_id = ''w1'', lw_qty = 2\<rparr>],
     db_events = [], db_next_event = 1\<rparr>"

definition demo_production :: "redis_mem production_world" where
  "demo_production =
     \<lparr>co_redis = co_redis demo_world, co_known = [], co_metrics = init_metrics, co_ticks = 0, co_uuids = 0,
      w_payments = new_payment_gateway no_failures, w_shipping = new_shipping_provider no_failures,
      w_bus = server_bus, w_store = demo_pg\<rparr>"

lemma demo_pg_ok: "pg_ok Some demo_pg"
  by (simp add: pg_ok_def demo_pg_def canonical_def)

lemma demo_pg_order: "pg_orders demo_pg ''o1'' = Some demo_order"
  by (simp add: pg_orders_def demo_pg_def order_of_row_def toOrder_def pg_lines_def pg_events_def line_of_row_def
      demo_order_def)

theorem production_all_or_nothing_witness:
  "\<exists>w' od'. run (production_saga mem_commands Some (\<lambda>j. j) demo_env) ''o1'' demo_production = (Inr od', w') \<and>
     or_status od' \<in> {CONFIRMED, CANCELLED}"
proof -
  have "mem_ok (co_redis demo_production)" "repr (env_now demo_env (co_ticks demo_production)) demo_levels Map.empty
      (mem_kv (co_redis demo_production))"
    using demo_shows_stock [of demo_order]
    by (simp_all add: shows_stock_def demo_production_def) (simp add: demo_world_with_def)
  moreover have "env_now demo_env (co_ticks demo_production + 4 * length (or_lines demo_order) + 9)
      < env_now demo_env (co_ticks demo_production) + 900000"
    by (simp add: demo_env_def demo_production_def demo_order_def)
  moreover have "bus_ready (w_bus demo_production)" "w_store demo_production = demo_pg"
    "or_history demo_order = []" "charges (w_payments demo_production) ''o1'' = None"
    using wired_ready [OF wired_server_bus]
    by (simp_all add: demo_production_def demo_order_def new_payment_gateway_def)
  ultimately show ?thesis
    using production_all_or_nothing [OF memsrv.redis_server_axioms app.inmem.event_bus_laws_axioms,
        of demo_production demo_env demo_levels Map.empty Some "''o1''" demo_order "\<lambda>j. j"] demo_pg_ok demo_pg_order demo_env_ok
    unfolding production_saga_def by auto
qed

section \<open>What the Postgres store gives back\<close>

text \<open>What is created is read back. Postgres stores every order the schema admits and
  \<open>get\<close> returns it unchanged, with its lines in order, to its own tenant and to nobody else; a
  status update appends its event and keeps the rest.\<close>

theorem pg_create_update_get:
  assumes "pg_ok uuid_in db" and "storable od" and "canonical uuid_in (or_id od)"
    and "canonical_scope uuid_in (Scoped (or_businessId od))" and "pg_orders db (or_id od) = None"
    and "canonical_scope uuid_in (Scoped biz)"
  shows "\<exists>db1 db2. pg_create uuid_in od db = (Inr (), db1) \<and>
     pg_get uuid_in (or_id od) (Scoped biz) db1 = (Inr (if biz = or_businessId od then Some od else None), db1) \<and>
     pg_updateStatus uuid_in jsonb (or_id od) status ev now db1 = (Inr (), db2) \<and>
     pg_get uuid_in (or_id od) Unscoped db2 =
       (Inr (Some (with_event status (kept_event jsonb ev) (ev_at ev) od)), db2)"
proof -
  from pg_create_run [OF assms(1-5)] obtain db1 where
    db1: "pg_create uuid_in od db = (Inr (), db1)" "pg_ok uuid_in db1" "pg_orders db1 = (pg_orders db)(or_id od \<mapsto> od)"
    by blast
  then have od1: "pg_orders db1 (or_id od) = Some od" by simp
  have "\<forall>h \<in> set (or_history od). ev_at h \<le> ev_at ev" using assms(2) by (simp add: storable_def)
  from pg_update_run [OF db1(2) assms(3) od1 this, of jsonb status now] obtain db2 where
    db2: "pg_updateStatus uuid_in jsonb (or_id od) status ev now db1 = (Inr (), db2)" "pg_ok uuid_in db2"
      "pg_orders db2 = (pg_orders db1)(or_id od \<mapsto> with_event status (kept_event jsonb ev) (ev_at ev) od)" by blast
  show ?thesis
    using db1(1) db2(1) pg_get_run [OF db1(2) assms(3,6)] od1
      pg_get_run [OF db2(2) assms(3), of Unscoped] db2(3)
    by (intro exI [of _ db1] exI [of _ db2]) (auto simp: canonical_scope_def)
qed

theorem pg_create_update_get_witness:
  "\<exists>db1 db2. pg_create Some demo_order new_pg_db = (Inr (), db1) \<and>
     pg_get Some ''o1'' (Scoped (Some ''b'')) db1 = (Inr None, db1) \<and>
     pg_updateStatus Some (\<lambda>j. j) ''o1'' CANCELLED \<lparr>ev_type = ''e'', ev_at = 3, ev_detail = None\<rparr> 7 db1 = (Inr (), db2)"
  using pg_create_update_get [of Some new_pg_db demo_order "Some ''b''" "\<lambda>j. j" CANCELLED
      "\<lparr>ev_type = ''e'', ev_at = 3, ev_detail = None\<rparr>" 7]
  by (auto simp: pg_ok_def new_pg_db_def storable_def demo_order_def canonical_def canonical_scope_def pg_orders_def)

section \<open>Where the two stores differ\<close>

text \<open>C40: an order that names the same item and warehouse in two lines is accepted by the in-memory
  store and rejected by Postgres, whose primary key admits one line of each; the rejection leaves
  no row of the order behind.\<close>

theorem duplicate_lines_rejected_by_pg:
  assumes "pg_ok uuid_in db" and "canonical uuid_in (or_id od)"
    and "canonical_scope uuid_in (Scoped (or_businessId od))" and "or_id od \<notin> ow_id ` set (db_orders db)"
    and "\<forall>l \<in> set (or_lines od). 0 < ol_qty l \<and> ol_qty l < 2 ^ 31" and "0 < or_amountCents od" and "or_amountCents od < 2 ^ 31"
    and "\<not> distinct (map (\<lambda>l. (ol_sku l, ol_warehouseId l)) (or_lines od))"
  shows "\<exists>db'. pg_create uuid_in od db = (Inl (PgError ''order_lines_pkey''), db') \<and>
     db_orders db' = db_orders db \<and> db_lines db' = db_lines db \<and> db_events db' = db_events db \<and>
     ims_create od orders = (Inr (), jset (or_id od) od orders)"
proof -
  let ?oid = "or_id od"
  let ?row = "\<lparr>ow_id = ?oid, ow_customer_id = or_customerId od, ow_business_id = or_businessId od,
               ow_amount_cents = or_amountCents od, ow_status = or_status od, ow_created_at = or_createdAt od,
               ow_updated_at = or_updatedAt od\<rparr>"
  have lines: "fst (for_each (\<lambda>l. insert_line (line_row ?oid l)) ls d) = Inl (PgError ''order_lines_pkey'')"
    if "?oid \<in> ow_id ` set (db_orders d)" "\<forall>l \<in> set ls. 0 < ol_qty l \<and> ol_qty l < 2 ^ 31"
      "\<not> distinct (map (\<lambda>l. (ol_sku l, ol_warehouseId l)) ls) \<or>
       (\<exists>l \<in> set ls. line_pkey (line_row ?oid l) \<in> line_pkey ` set (db_lines d))" for ls d
    using that
  proof (induction ls arbitrary: d)
    case Nil
    then show ?case by simp
  next
    case (Cons l ls)
    show ?case
    proof (cases "line_pkey (line_row ?oid l) \<in> line_pkey ` set (db_lines d)")
      case True
      with Cons.prems show ?thesis by (simp add: bind_apply insert_line_def fits_integer_def)
    next
      case False
      let ?d = "d\<lparr>db_lines := db_lines d @ [line_row ?oid l]\<rparr>"
      have "insert_line (line_row ?oid l) d = (Inr (), ?d)"
        using Cons.prems False by (simp add: insert_line_def fits_integer_def)
      moreover have "fst (for_each (\<lambda>l. insert_line (line_row ?oid l)) ls ?d) = Inl (PgError ''order_lines_pkey'')"
        by (rule Cons.IH) (use Cons.prems False in \<open>auto simp: image_iff\<close>)
      ultimately show ?thesis by (simp add: bind_apply)
    qed
  qed
  have "cast_uuid_null uuid_in (or_businessId od) = ret (or_businessId od)"
    by (rule cast_null_canonical) (use assms(3) in \<open>simp add: canonical_scope_def split: option.splits\<close>)
  moreover have "insert_order ?row db = (Inr (), db\<lparr>db_orders := db_orders db @ [?row]\<rparr>)"
    using assms(4,6,7) by (simp add: insert_order_def fits_integer_def)
  moreover obtain d where "for_each (\<lambda>l. insert_line (line_row ?oid l)) (or_lines od) (db\<lparr>db_orders := db_orders db @ [?row]\<rparr>)
      = (Inl (PgError ''order_lines_pkey''), d)"
    using lines [of "db\<lparr>db_orders := db_orders db @ [?row]\<rparr>" "or_lines od"] assms(5,8) by (auto simp: prod_eq_iff)
  ultimately show ?thesis
    by (simp add: pg_create_def transaction_def cast_canonical [OF assms(2)] bind_apply line_row_def [symmetric] ims_create_def)
qed

theorem duplicate_lines_rejected_by_pg_witness:
  "\<exists>db'. pg_create Some (demo_order\<lparr>or_lines := or_lines demo_order @ or_lines demo_order\<rparr>) new_pg_db =
     (Inl (PgError ''order_lines_pkey''), db')"
  using duplicate_lines_rejected_by_pg [of Some new_pg_db "demo_order\<lparr>or_lines := or_lines demo_order @ or_lines demo_order\<rparr>" "[]"]
  by (auto simp: pg_ok_def new_pg_db_def demo_order_def canonical_def canonical_scope_def)

text \<open>reading an order by another spelling of its id. Postgres finds the row, but the lines and
  the events are looked up under the text of the request, so the order comes back with no lines
  and no history.\<close>

theorem pg_get_other_spelling:
  assumes "pg_ok uuid_in db" and "uuid_in oid = Some u" and "u \<noteq> oid" and "pg_orders db u = Some od"
  shows "pg_get uuid_in oid Unscoped db = (Inr (Some (od\<lparr>or_lines := [], or_history := []\<rparr>)), db)"
proof -
  obtain r where r: "find (\<lambda>r. ow_id r = u) (db_orders db) = Some r" "od = order_of_row db r"
    using assms(4) by (auto simp: pg_orders_def)
  have cast: "map_act (cast_uuid uuid_in) [oid] = ret [u]" "cast_uuid uuid_in oid = ret u"
    using assms(2) by (simp_all add: cast_uuid_def ret_def)
  have l: "or_empty (group_rows lw_order_id line_of_row (filter (\<lambda>r. lw_order_id r = u) rs) []) oid = []" for rs
    using assms(3) by (simp add: or_empty_group_rows or_empty_def [of "[]"] filter_empty_conv)
  have e: "or_empty (group_rows ew_order_id event_of_row (sort_key ew_at (filter (\<lambda>r. ew_order_id r = u) rs)) []) oid = []" for rs
    using assms(3) by (simp add: or_empty_group_rows or_empty_def [of "[]"] filter_empty_conv)
  show ?thesis
    using l e r by (simp add: pg_get_def cast scope_condition_def linesFor_def eventsFor_def bind_apply order_of_row_def toOrder_def)
qed

definition lower_o :: "string \<Rightarrow> string option" where
  "lower_o s = Some (if s = ''O1'' then ''o1'' else s)"

theorem pg_get_other_spelling_witness:
  "pg_get lower_o ''O1'' Unscoped demo_pg = (Inr (Some (demo_order\<lparr>or_lines := [], or_history := []\<rparr>)), demo_pg)"
proof (rule pg_get_other_spelling [of _ _ _ "''o1''"])
  show "pg_ok lower_o demo_pg" by (simp add: lower_o_def pg_ok_def demo_pg_def canonical_def)
qed (simp_all add: lower_o_def demo_pg_order)

end
