(* ===== verification/Recovery_Race.thy ===== *)
theory Recovery_Race
  imports Server_Recovery Production_Saga
begin

text \<open>
  The startup sweep of one replica while another replica runs the saga of the same order: the
  order is rolled back and then confirmed.
\<close>

context stock_redis
begin

text \<open>Committing reservations that are gone changes nothing and reports no error.\<close>

lemma commit_spent_run:
  assumes h: "holding E w L \<rho> [] []" and free: "i \<notin> dom \<rho>"
    and clock: "clock_ok E" and D: "dp_redis D = R" "dp_env D = E"
  shows "\<exists>w'. commit_reservation D (rsv (l, i, d)) w = (Inr (), w') \<and> holding E w' L \<rho> [] [] \<and>
     same_rest w w' \<and> co_ticks w' = Suc (co_ticks w)"
proof -
  let ?now = "env_now E (co_ticks w)" and ?w = "ol_warehouseId l" and ?s = "ol_sku l"
  let ?m = "kv_of (co_redis w)"
  let ?sp = "spec_resolve ?now (stockKey ?w ?s) (reservationKey i) ''COMMIT'' ?m"
  from resolve_run [of w E ?w ?s i "''COMMIT''"] h obtain r' where
    run: "resolve R E ?w ?s i ''COMMIT'' w = (map_sum id fst (fst ?sp), w\<lparr>co_redis := r', co_ticks := Suc (co_ticks w)\<rparr>)"
    and r': "invar r'" "kv_eq ?now (kv_of r') (snd ?sp)"
    unfolding holding_def by blast
  have r: "repr ?now (debit L (lines_of [])) (pledge \<rho> []) ?m" using h by (simp add: holding_def)
  have "pledge \<rho> [] i = None" using free unfolding pledge_def domIff not_not by (simp only: map_add_def) simp
  then have "lookup ?now ?m (reservationKey i) = None" using repr_pledge [OF r] by (simp add: lookup_def)
  then have sp: "?sp = (Inr (''ALREADY_RESOLVED'', Num 0), ?m)" by (simp add: spec_resolve_def)
  from r r'(2) have "repr ?now (debit L (lines_of [])) (pledge \<rho> []) (kv_of r')" unfolding sp by (auto intro: repr_eq)
  then have "holding E (w\<lparr>co_redis := r', co_ticks := Suc (co_ticks w)\<rparr>) L \<rho> [] []"
    using r'(1) clock_le [OF clock, of "co_ticks w" "Suc (co_ticks w)"] by (auto simp: holding_def elim: repr_later)
  then show ?thesis
    using run sp D by (auto simp: commit_reservation_def commit_def rsv_def bind_apply same_rest_def)
qed

lemma commit_gone_run:
  assumes "holding E w L \<rho> [] []" and "separate \<rho> tk"
    and clock: "clock_ok E" and D: "dp_redis D = R" "dp_env D = E"
  shows "\<exists>w'. for_each (commit_reservation D) (map rsv tk) w = (Inr (), w') \<and> holding E w' L \<rho> [] [] \<and>
     same_rest w w' \<and> co_ticks w' = co_ticks w + length tk"
  using assms(1,2)
proof (induction tk arbitrary: w)
  case (Cons x tk)
  obtain l i d where x: "x = (l, i, d)" by (cases x)
  have "i \<notin> dom \<rho>" using Cons.prems(2) x by (auto simp: separate_def)
  from commit_spent_run [OF Cons.prems(1) this clock D] obtain w1 where
    w1: "commit_reservation D (rsv x) w = (Inr (), w1)" "holding E w1 L \<rho> [] []" "same_rest w w1"
      "co_ticks w1 = Suc (co_ticks w)" unfolding x by blast
  from Cons.IH [OF w1(2) separate_tl [OF Cons.prems(2)]] obtain w2 where
    "for_each (commit_reservation D) (map rsv tk) w1 = (Inr (), w2)" "holding E w2 L \<rho> [] []"
    "same_rest w1 w2" "co_ticks w2 = co_ticks w1 + length tk" by blast
  with w1 show ?case by (auto simp: bind_apply intro: same_rest_trans)
qed simp

end

context saga
begin

text \<open>The last stage of a run when the reservations have been released behind its back.\<close>

lemma ship_stage_after_release:
  assumes t: "tracks E w oid od1" and od: "or_id od = oid" and h: "holding E w L \<rho> [] []" and sep: "separate \<rho> tk"
    and courier: "\<not> injected (failShippingForOrderIds (sp_failures (w_shipping w))) oid" and clock: "clock_ok E"
  shows "\<exists>w' od'. ship_stage (SagaOrchestrator R S B E) oid od (map rsv tk) w = (Inr od', w') \<and>
     went E oid [scheduled_step oid, confirmed_step] w od1 w' od' \<and> holding E w' L \<rho> [] [] \<and>
     w_payments w' = w_payments w \<and>
     shipments (w_shipping w') = (shipments (w_shipping w))(oid \<mapsto> shipment_ticket oid)"
proof -
  let ?D = "SagaOrchestrator R S B E"
  obtain p' where s: "schedule oid (primaryWarehouse od) (w_shipping w) =
      (\<lparr>sr_ok = True, sr_shipmentId = Some (shipment_ticket oid), sr_reason = None\<rparr>, p')"
    and p': "shipments p' = (shipments (w_shipping w))(oid \<mapsto> shipment_ticket oid)"
    using courier schedule_cases [of "w_shipping w" oid "primaryWarehouse od"] by metis
  let ?w1 = "w\<lparr>w_shipping := p'\<rparr>"
  have "tracks E ?w1 oid od1" using t by (simp add: tracks_def)
  from transition_run [OF this clock, of SHIPPING_SCHEDULED "''order.shipping_scheduled''"
      "[(''shipmentId'', JStr (shipment_ticket oid))]"] obtain w2 od2 where
    w2: "transition ?D oid SHIPPING_SCHEDULED ''order.shipping_scheduled''
           [(''shipmentId'', JStr (shipment_ticket oid))] ?w1 = (Inr (), w2)"
      "went E oid [scheduled_step oid] ?w1 od1 w2 od2" "keeps ?w1 w2" "co_ticks w2 = co_ticks ?w1 + 3"
    unfolding scheduled_step_def by blast
  have "holding E w2 L \<rho> [] []"
    using holding_tick [OF h clock, of w2] w2(3,4) by (simp add: keeps_def)
  from commit_gone_run [OF this sep clock, of ?D] obtain w3 where
    w3: "for_each (commit_reservation ?D) (map rsv tk) w2 = (Inr (), w3)" "holding E w3 L \<rho> [] []"
      "same_rest w2 w3" "co_ticks w3 = co_ticks w2 + length tk" by auto
  have g3: "went E oid [scheduled_step oid] ?w1 od1 w3 od2"
    using went_same [OF w2(2) clock, of w3] w3(3,4) by (simp add: same_rest_def)
  then have "tracks E w3 oid od2" by (simp add: went_def)
  from transition_run [OF this clock, of CONFIRMED "''order.confirmed''" "[]"] obtain w4 od4 where
    w4: "transition ?D oid CONFIRMED ''order.confirmed'' [] w3 = (Inr (), w4)"
      "went E oid [confirmed_step] w3 od2 w4 od4" "keeps w3 w4" "co_ticks w4 = co_ticks w3 + 3"
    unfolding confirmed_step_def by blast
  have t4: "tracks E w4 oid od4" using w4(2) by (simp add: went_def)
  have "ship_stage ?D oid od (map rsv tk) w = (Inr od4, w4)"
    using s od w2(1) w3(1) w4(1) mustGet_run [OF t4]
    by (simp add: ship_stage_def bind_apply on_shipping_def nullable_def)
  moreover have "went E oid [scheduled_step oid, confirmed_step] ?w1 od1 w4 od4"
    using went_trans [OF g3 w4(2)] by simp
  moreover have "holding E w4 L \<rho> [] []"
    using holding_tick [OF w3(2) clock, of w4] w4(3,4) by (simp add: keeps_def)
  ultimately show ?thesis
    using p' w2(3) w3(3) w4(3)
    by (intro exI [of _ w4] exI [of _ od4]) (auto simp: keeps_def same_rest_def went_def announcements_def)
qed

end

text \<open>C26: the sweep of a starting replica can roll back an order that another replica is executing.
  Replicas share Postgres and Redis. When replica \<open>B\<close> recovers an order whose run on replica \<open>A\<close>
  has charged the payment and is about to schedule the shipment, \<open>B\<close> cancels it and gives its units
  back to the stock; \<open>A\<close> then finishes its run on the same database, ships and confirms the order,
  with its charge in place and no units taken from the stock.\<close>

theorem recovery_races_live_run:
  fixes C :: "'d redis_commands" and wB :: "'d production_world"
  assumes "redis_server C kv_of invar" and "invar (co_redis wB)"
    and "repr (env_now E (co_ticks wB)) (debit L (lines_of tk)) (pledge \<rho> tk) (kv_of (co_redis wB))"
    and "pg_ok uuid_in (w_store wB)" and "bus_ready (w_bus wB)" and "pg_orders (w_store wB) oid = Some od"
    and "\<forall>h \<in> set (or_history od). ev_at h \<le> env_now E (co_ticks wB)"
    and "or_status od = PAYMENT_CHARGED" and "reservationsFromHistory od = map rsv tk"
    and "separate \<rho> tk" and "\<forall>x \<in> set tk. L (line_key (fst x)) \<noteq> None"
    and "due_after (env_now E (co_ticks wB + 3 + length tk)) tk" and "clock_ok E"
  shows "\<exists>wB' od'. recoverStuck (production_saga C uuid_in jsonb E) od wB = (Inr od', wB') \<and>
     or_status od' = CANCELLED \<and> repr (env_now E (co_ticks wB')) L \<rho> (kv_of (co_redis wB')) \<and>
     (\<forall>wA :: 'd production_world.
        co_redis wA = co_redis wB' \<and> w_store wA = w_store wB' \<and> co_ticks wA = co_ticks wB' \<and> bus_ready (w_bus wA) \<and>
        \<not> injected (failShippingForOrderIds (sp_failures (w_shipping wA))) oid \<longrightarrow>
        (\<exists>wA' od''. ship_stage (production_saga C uuid_in jsonb E) oid od (map rsv tk) wA = (Inr od'', wA') \<and>
           or_status od'' = CONFIRMED \<and> pg_orders (w_store wA') oid = Some od'' \<and>
           repr (env_now E (co_ticks wA')) L \<rho> (kv_of (co_redis wA')) \<and> w_payments wA' = w_payments wA \<and>
           shipments (w_shipping wA') oid = Some (shipment_ticket oid)))"
proof -
  note sg = production_is_saga [OF assms(1), of uuid_in jsonb]
  note sr = redis_server.server_is_stock_redis [OF assms(1)]
  note tr = saga.tracks_def [OF sg] and wt = saga.went_def [OF sg] and hd = stock_redis.holding_def [OF sr]
  have t: "saga.tracks pg_orders (pg_ok uuid_in) bus_ready E wB oid od" unfolding tr using assms(4-7) by blast
  have id: "or_id od = oid" using assms(4,6) by (auto dest: pg.id_law)
  have unfin: "\<not> isTerminalStatus (or_status od)"
    using assms(8) by (simp add: isTerminalStatus_def TERMINAL_ORDER_STATUSES_def)
  have h: "stock_redis.holding kv_of invar E wB L \<rho> (filter (\<lambda>_. True) tk) (filter (\<lambda>_. True) tk)"
    unfolding hd using assms(2,3) by simp
  from saga.recoverStuck_restores [OF sg t unfin assms(13,9) h assms(10)] assms(11,12) obtain wB' od' previous where
    B: "recoverStuck (production_saga C uuid_in jsonb E) od wB = (Inr od', wB')"
      "saga.went pg_orders (pg_ok uuid_in) jsonb (InMemoryEventBus app_handler) bus_ready E oid (recovered_step previous) wB od wB' od'"
      "stock_redis.holding kv_of invar E wB' L \<rho> [] []"
    unfolding production_saga_def by auto
  have u: "untimed od' = fold (apply_step jsonb) (recovered_step previous) (untimed od)" using B(2) unfolding wt by blast
  have "or_status od' = CANCELLED"
    using arg_cong [OF u, of or_status] by (simp add: recovered_step_def rollback_def)
  moreover have "\<exists>wA' od''. ship_stage (production_saga C uuid_in jsonb E) oid od (map rsv tk) wA = (Inr od'', wA') \<and>
      or_status od'' = CONFIRMED \<and> pg_orders (w_store wA') oid = Some od'' \<and>
      repr (env_now E (co_ticks wA')) L \<rho> (kv_of (co_redis wA')) \<and> w_payments wA' = w_payments wA \<and>
      shipments (w_shipping wA') oid = Some (shipment_ticket oid)"
    if A: "co_redis wA = co_redis wB'" "w_store wA = w_store wB'" "co_ticks wA = co_ticks wB'" "bus_ready (w_bus wA)"
      "\<not> injected (failShippingForOrderIds (sp_failures (w_shipping wA))) oid" for wA :: "'d production_world"
  proof -
    have "saga.tracks pg_orders (pg_ok uuid_in) bus_ready E wA oid od'" using B(2) A unfolding wt tr by simp
    moreover have "stock_redis.holding kv_of invar E wA L \<rho> [] []" using B(3) A unfolding hd by simp
    ultimately obtain wA' od'' where
      r: "ship_stage (production_saga C uuid_in jsonb E) oid od (map rsv tk) wA = (Inr od'', wA')"
        "saga.went pg_orders (pg_ok uuid_in) jsonb (InMemoryEventBus app_handler) bus_ready E oid
           [scheduled_step oid, confirmed_step] wA od' wA' od''"
        "stock_redis.holding kv_of invar E wA' L \<rho> [] []" "w_payments wA' = w_payments wA"
        "shipments (w_shipping wA') = (shipments (w_shipping wA))(oid \<mapsto> shipment_ticket oid)"
      using saga.ship_stage_after_release [OF sg _ id _ assms(10) A(5) assms(13)] unfolding production_saga_def by blast
    have A': "untimed od'' = fold (apply_step jsonb) [scheduled_step oid, confirmed_step] (untimed od')"
      "pg_orders (w_store wA') = (pg_orders (w_store wA))(oid \<mapsto> od'')" using r(2) unfolding wt by blast+
    have "or_status od'' = CONFIRMED"
      using arg_cong [OF A'(1), of or_status] by (simp add: confirmed_step_def)
    moreover have "pg_orders (w_store wA') oid = Some od''" using A'(2) by simp
    ultimately show ?thesis using r(1,3,4,5) unfolding hd by auto
  qed
  ultimately show ?thesis using B(1,3) unfolding hd by (intro exI [of _ wB'] exI [of _ od']) auto
qed

text \<open>The crashed order of the demonstration, as rows of Postgres.\<close>

definition demo_charged_pg :: pg_db where
  "demo_charged_pg = demo_pg\<lparr>
     db_orders := map (\<lambda>r. r\<lparr>ow_status := PAYMENT_CHARGED\<rparr>) (db_orders demo_pg),
     db_events := map (\<lambda>(n, h). \<lparr>ew_id = n, ew_order_id = ''o1'', ew_type = ev_type h, ew_detail = ev_detail h, ew_at = ev_at h\<rparr>)
       (zip [1, 2] (or_history demo_crashed)),
     db_next_event := 3\<rparr>"

definition demo_replica :: "redis_mem production_world" where
  "demo_replica = demo_production\<lparr>co_redis := co_redis demo_crashed_world, w_store := demo_charged_pg\<rparr>"

lemma demo_charged_pg_ok: "pg_ok Some demo_charged_pg"
  by (simp add: pg_ok_def demo_charged_pg_def demo_pg_def canonical_def demo_crashed_def)

lemma demo_charged_pg_order: "pg_orders demo_charged_pg ''o1'' = Some demo_crashed"
  by (simp add: pg_orders_def demo_charged_pg_def demo_pg_def order_of_row_def toOrder_def pg_lines_def pg_events_def
      line_of_row_def event_of_row_def demo_order_def demo_crashed_def)

theorem recovery_races_live_run_witness:
  "\<exists>wB' od' wA wA' od''.
     recoverStuck (production_saga mem_commands Some (\<lambda>j. j) demo_env) demo_crashed demo_replica = (Inr od', wB') \<and>
     or_status od' = CANCELLED \<and> w_store wA = w_store wB' \<and> co_redis wA = co_redis wB' \<and>
     ship_stage (production_saga mem_commands Some (\<lambda>j. j) demo_env) ''o1'' demo_crashed (map rsv demo_taken) wA =
       (Inr od'', wA') \<and>
     or_status od'' = CONFIRMED \<and> repr (env_now demo_env (co_ticks wA')) demo_levels Map.empty (mem_kv (co_redis wA'))"
proof -
  have r: "mem_ok (co_redis demo_replica)"
    "repr (env_now demo_env (co_ticks demo_replica)) (debit demo_levels (lines_of demo_taken)) (pledge Map.empty demo_taken)
       (mem_kv (co_redis demo_replica))"
    using demo_crashed_stock
    by (simp_all add: shows_stock_def demo_replica_def demo_production_def)
       (simp add: demo_crashed_world_def demo_world_with_def)
  have b: "bus_ready (w_bus demo_replica)" "w_store demo_replica = demo_charged_pg" "co_ticks demo_replica = 0"
    "w_shipping demo_replica = new_shipping_provider no_failures"
    using wired_ready [OF wired_server_bus] by (simp_all add: demo_replica_def demo_production_def)
  have rec: "reservationsFromHistory demo_crashed = map rsv demo_taken"
    by (simp add: reservationsFromHistory_def demo_crashed_def json_field.simps del: list.map)
  have rest: "or_status demo_crashed = PAYMENT_CHARGED" "\<forall>h \<in> set (or_history demo_crashed). ev_at h \<le> env_now demo_env (co_ticks demo_replica)"
    "separate Map.empty demo_taken" "\<forall>x \<in> set demo_taken. demo_levels (line_key (fst x)) \<noteq> None"
    "due_after (env_now demo_env (co_ticks demo_replica + 3 + length demo_taken)) demo_taken"
    by (simp_all add: demo_crashed_def separate_def demo_taken_def demo_levels_def demo_line_def line_key_def
        due_after_def b(3) demo_env_def)
  have s: "pg_ok Some (w_store demo_replica)" "pg_orders (w_store demo_replica) ''o1'' = Some demo_crashed"
    using demo_charged_pg_ok demo_charged_pg_order b(2) by simp_all
  from recovery_races_live_run [OF memsrv.redis_server_axioms r s(1) b(1) s(2) rest(2,1) rec rest(3-5) demo_env_ok(1),
      where jsonb = "\<lambda>j. j"]
  obtain wB' od' where
    B: "recoverStuck (production_saga mem_commands Some (\<lambda>j. j) demo_env) demo_crashed demo_replica = (Inr od', wB')"
      "or_status od' = CANCELLED"
    and A: "\<And>wA. co_redis wA = co_redis wB' \<Longrightarrow> w_store wA = w_store wB' \<Longrightarrow> co_ticks wA = co_ticks wB' \<Longrightarrow>
       bus_ready (w_bus wA) \<Longrightarrow> \<not> injected (failShippingForOrderIds (sp_failures (w_shipping wA))) ''o1'' \<Longrightarrow>
       \<exists>wA' od''. ship_stage (production_saga mem_commands Some (\<lambda>j. j) demo_env) ''o1'' demo_crashed (map rsv demo_taken) wA =
         (Inr od'', wA') \<and> or_status od'' = CONFIRMED \<and>
         repr (env_now demo_env (co_ticks wA')) demo_levels Map.empty (mem_kv (co_redis wA'))"
    by blast
  let ?wA = "demo_replica\<lparr>co_redis := co_redis wB', w_store := w_store wB', co_ticks := co_ticks wB'\<rparr>"
  have "\<not> injected (failShippingForOrderIds (sp_failures (w_shipping ?wA))) ''o1''"
    by (simp add: b(4) new_shipping_provider_def injected_def no_failures_def)
  with A [of ?wA] b(1) obtain wA' od'' where
    "ship_stage (production_saga mem_commands Some (\<lambda>j. j) demo_env) ''o1'' demo_crashed (map rsv demo_taken) ?wA = (Inr od'', wA')"
    "or_status od'' = CONFIRMED" "repr (env_now demo_env (co_ticks wA')) demo_levels Map.empty (mem_kv (co_redis wA'))"
    by auto
  then show ?thesis
    by (intro exI [of _ wB'] exI [of _ od'] exI [of _ ?wA] exI [of _ wA'] exI [of _ od''] conjI B) simp_all
qed

end
