(* ===== verification/Crash_Recovery.thy ===== *)
theory Crash_Recovery
  imports Server_Recovery Production_Saga
begin

text \<open>
  The fault injection script \<open>scripts/chaos/crash-mid-saga.ts\<close>: a process that stores an order,
  reserves its stock, records the reservation and is killed; and the startup sweep of the
  process that comes after it, on the same Postgres and Redis.
\<close>

section \<open>The script\<close>

text \<open>How the process ends: with exit code 3, or killed after it has printed the id of the order.\<close>

datatype crash_exit = ReserveFailed | Killed string

definition crash_mid_saga ::
  "('r, 'st, 'b) deps \<Rightarrow> string \<Rightarrow> string \<Rightarrow> int \<Rightarrow> ('r, 'st, 'b, crash_exit) saga_act" where
  "crash_mid_saga D sku warehouseId qty =
     bind (date_now (dp_env D)) (\<lambda>now.
     bind (random_uuid (dp_env D)) (\<lambda>oid.
     bind (on_store (os_create (dp_store D)
             \<lparr>or_id = oid, or_customerId = ''cust-chaos'',
              or_lines = [\<lparr>ol_sku = sku, ol_qty = qty, ol_warehouseId = warehouseId\<rparr>],
              or_amountCents = 4999, or_status = CREATED, or_history = [], or_createdAt = now, or_updatedAt = now,
              or_businessId = None\<rparr>)) (\<lambda>_.
     bind (reserve (dp_redis D) (dp_env D) warehouseId sku (Num qty) DEFAULT_RESERVATION_TTL_SECONDS) (\<lambda>reservation.
     if \<not> rr_ok reservation then ret ReserveFailed
     else
       bind (date_now (dp_env D)) (\<lambda>stamp.
       bind (date_now (dp_env D)) (\<lambda>clock.
       bind (on_store (os_updateStatus (dp_store D) oid INVENTORY_RESERVED
               \<lparr>ev_type = ''order.inventory_reserved'', ev_at = stamp,
                ev_detail = Some (JObj [(''reservations'', JArr [reservation_json
                  \<lparr>rv_warehouseId = warehouseId, rv_sku = sku,
                   rv_reservationId = the (rr_reservationId reservation)\<rparr>])])\<rparr> clock)) (\<lambda>_.
       ret (Killed oid))))))))"

text \<open>JSONB keeps text, arrays and the fields of an object whose keys are distinct.\<close>

definition jsonb_like :: "(json \<Rightarrow> json) \<Rightarrow> bool" where
  "jsonb_like jsonb \<longleftrightarrow>
     (\<forall>s. jsonb (JStr s) = JStr s) \<and> (\<forall>xs. jsonb (JArr xs) = JArr (map jsonb xs)) \<and>
     (\<forall>fs k. distinct (map fst fs) \<longrightarrow> json_field (jsonb (JObj fs)) k = map_option jsonb (json_field (JObj fs) k))"

lemma jsonb_reservation:
  assumes "jsonb_like jsonb"
  shows "reservation_of_json (jsonb (reservation_json r)) = r"
proof -
  have "json_field (jsonb (reservation_json r)) k = map_option jsonb (json_field (reservation_json r) k)" for k
    using assms by (simp add: jsonb_like_def reservation_json_def)
  moreover have "jsonb (JStr s) = JStr s" for s using assms by (simp add: jsonb_like_def)
  ultimately show ?thesis by (simp add: reservation_of_json_def json_str_def reservation_json_def)
qed

lemma jsonb_reservations:
  assumes "jsonb_like jsonb" and "or_history od = [\<lparr>ev_type = ''order.inventory_reserved'', ev_at = t,
     ev_detail = Some (jsonb (JObj [(''reservations'', JArr (map reservation_json rs))]))\<rparr>]"
  shows "reservationsFromHistory od = rs"
proof -
  have "json_field (jsonb (JObj [(''reservations'', JArr xs)])) ''reservations'' = Some (jsonb (JArr xs))" for xs
    using assms(1) by (simp add: jsonb_like_def)
  moreover have "jsonb (JArr xs) = JArr (map jsonb xs)" for xs using assms(1) by (simp add: jsonb_like_def)
  moreover have "map reservation_of_json (map jsonb (map reservation_json rs)) = rs"
    using jsonb_reservation [OF assms(1)] by (simp add: comp_def)
  ultimately show ?thesis using assms(2) by (simp add: reservationsFromHistory_def)
qed

section \<open>The two processes, on any stores\<close>

context saga
begin

lemma crash_run:
  fixes w :: "('r, 'st, 'b) world"
  assumes oid: "oid = env_uuid E (co_uuids w)" and h: "holding E w L \<rho> [] []" and st: "ok (w_store w)" and new: "orders_of (w_store w) oid = None"
    and valid: "valid_id oid" "valid_scope (Scoped None)" and qty: "0 < ol_qty l" "ol_qty l < 2 ^ 31"
    and fresh: "fresh_ids E (co_uuids w) (dom \<rho>)" and clock: "clock_ok E" and t: "t < env_now E (co_ticks w) + 900000"
  shows "\<exists>w' od tk. crash_mid_saga (SagaOrchestrator R S B E) (ol_sku l) (ol_warehouseId l) (ol_qty l) w =
       (Inr (if fulfillable L [l] then Killed oid else ReserveFailed), w') \<and>
     holding E w' L \<rho> tk tk \<and> separate \<rho> tk \<and> due_after t tk \<and>
     ok (w_store w') \<and> orders_of (w_store w') = (orders_of (w_store w))(oid \<mapsto> od) \<and>
     co_ticks w \<le> co_ticks w' \<and> co_ticks w' \<le> co_ticks w + 6 \<and>
     (if fulfillable L [l] then lines_of tk = [l] \<and> or_status od = INVENTORY_RESERVED \<and>
        (\<exists>stamp. stamp \<le> env_now E (co_ticks w') \<and> or_history od = [\<lparr>ev_type = ''order.inventory_reserved'', ev_at = stamp,
           ev_detail = Some (kept (JObj [(''reservations'', JArr (map reservation_json (map rsv tk)))]))\<rparr>])
      else tk = [] \<and> or_status od = CREATED \<and> or_history od = [])"
proof -
  let ?D = "SagaOrchestrator R S B E" and ?now = "env_now E (co_ticks w)"
  let ?od = "\<lparr>or_id = oid, or_customerId = ''cust-chaos'',
      or_lines = [\<lparr>ol_sku = ol_sku l, ol_qty = ol_qty l, ol_warehouseId = ol_warehouseId l\<rparr>],
      or_amountCents = 4999, or_status = CREATED, or_history = [], or_createdAt = ?now, or_updatedAt = ?now,
      or_businessId = None\<rparr>"
  have "storable ?od" using qty by (simp add: storable_def)
  with create_law [OF st, of ?od] valid new obtain st1 where
    st1: "os_create S ?od (w_store w) = (Inr (), st1)" "ok st1" "orders_of st1 = (orders_of (w_store w))(oid \<mapsto> ?od)"
    by auto
  let ?w1 = "w\<lparr>co_ticks := Suc (co_ticks w), co_uuids := Suc (co_uuids w), w_store := st1\<rparr>"
  have h1: "holding E ?w1 L \<rho> [] []" using holding_tick [OF h clock, of ?w1] by simp
  have fresh1: "fresh_ids E (co_uuids ?w1) (dom \<rho> \<union> set (ids []))" using fresh by (auto simp: fresh_ids_def)
  have sep: "separate \<rho> []" by (simp add: separate_def)
  from reserve_line_run [OF h1 sep _ fresh1 clock, of l] obtain res w2 where
    w2: "reserve R E (ol_warehouseId l) (ol_sku l) (Num (ol_qty l)) DEFAULT_RESERVATION_TTL_SECONDS ?w1 = (Inr res, w2)"
      "same_rest ?w1 w2" "co_ticks ?w1 \<le> co_ticks w2" "co_ticks w2 \<le> co_ticks ?w1 + 3"
    and c: "if fulfillable L [l] then
        \<exists>i d. rr_ok res \<and> rr_reservationId res = Some i \<and> holding E w2 L \<rho> [(l, i, d)] [(l, i, d)] \<and>
          separate \<rho> [(l, i, d)] \<and> env_now E (co_ticks ?w1) + 900000 \<le> d \<and>
          fresh_ids E (co_uuids w2) (dom \<rho> \<union> set (ids [(l, i, d)]))
      else \<not> rr_ok res \<and> holding E w2 L \<rho> [] [] \<and> fresh_ids E (co_uuids w2) (dom \<rho> \<union> set (ids []))"
    unfolding list.map(1) append_Nil using fulfillable_Nil [of L] by blast
  have store2: "w_store w2 = st1" using w2(2) by (simp add: same_rest_def)
  have start: "crash_mid_saga ?D (ol_sku l) (ol_warehouseId l) (ol_qty l) w =
      (if \<not> rr_ok res then ret ReserveFailed
       else
         bind (date_now E) (\<lambda>stamp.
         bind (date_now E) (\<lambda>clock.
         bind (on_store (os_updateStatus S oid INVENTORY_RESERVED
                 \<lparr>ev_type = ''order.inventory_reserved'', ev_at = stamp,
                  ev_detail = Some (JObj [(''reservations'', JArr [reservation_json
                    \<lparr>rv_warehouseId = ol_warehouseId l, rv_sku = ol_sku l,
                     rv_reservationId = the (rr_reservationId res)\<rparr>])])\<rparr> clock)) (\<lambda>_.
         ret (Killed oid))))) w2"
    using st1(1) w2(1)
    by (simp add: crash_mid_saga_def bind_apply date_now_def random_uuid_def on_store_def zoom_apply oid)
  show ?thesis
  proof (cases "fulfillable L [l]")
    case False
    then have "crash_mid_saga ?D (ol_sku l) (ol_warehouseId l) (ol_qty l) w = (Inr ReserveFailed, w2)"
      using c start by simp
    moreover have "orders_of (w_store w2) = (orders_of (w_store w))(oid \<mapsto> ?od)" "ok (w_store w2)"
      using store2 st1 by simp_all
    ultimately show ?thesis
      using False c w2(3,4) sep by (intro exI [of _ w2] exI [of _ ?od] exI [of _ "[]"]) (auto simp: due_after_def)
  next
    case True
    with c obtain i d where i: "rr_ok res" "rr_reservationId res = Some i" "holding E w2 L \<rho> [(l, i, d)] [(l, i, d)]"
      "separate \<rho> [(l, i, d)]" "env_now E (co_ticks ?w1) + 900000 \<le> d" by auto
    let ?stamp = "env_now E (co_ticks w2)"
    let ?ev = "\<lparr>ev_type = ''order.inventory_reserved'', ev_at = ?stamp,
        ev_detail = Some (JObj [(''reservations'', JArr (map reservation_json (map rsv [(l, i, d)])))])\<rparr>"
    have "orders_of (w_store w2) oid = Some ?od" using store2 st1(3) by simp
    with update_law [of "w_store w2" oid ?od ?ev INVENTORY_RESERVED "env_now E (Suc (co_ticks w2))"] store2 st1(2) valid(1)
    obtain st3 u where st3: "os_updateStatus S oid INVENTORY_RESERVED ?ev (env_now E (Suc (co_ticks w2))) (w_store w2) = (Inr (), st3)"
      "ok st3" "orders_of st3 = (orders_of (w_store w2))(oid \<mapsto> with_event INVENTORY_RESERVED (kept_event kept ?ev) u ?od)"
      by auto
    let ?w3 = "w2\<lparr>co_ticks := Suc (Suc (co_ticks w2)), w_store := st3\<rparr>"
    let ?od3 = "with_event INVENTORY_RESERVED (kept_event kept ?ev) u ?od"
    have "crash_mid_saga ?D (ol_sku l) (ol_warehouseId l) (ol_qty l) w = (Inr (Killed oid), ?w3)"
      using i(1,2) st3(1) by (simp add: start bind_apply date_now_def on_store_def zoom_apply rsv_def)
    moreover have "holding E ?w3 L \<rho> [(l, i, d)] [(l, i, d)]" using holding_tick [OF i(3) clock, of ?w3] by simp
    moreover have "due_after t [(l, i, d)]"
      using t i(5) clock_le [OF clock, of "co_ticks w" "co_ticks ?w1"] by (simp add: due_after_def)
    moreover have "?stamp \<le> env_now E (co_ticks ?w3)" by (simp add: clock_le [OF clock])
    moreover have "ok (w_store ?w3)" "orders_of (w_store ?w3) = (orders_of (w_store w))(oid \<mapsto> ?od3)"
      using st3(2,3) store2 st1(3) by simp_all
    moreover have "co_ticks w \<le> co_ticks ?w3" "co_ticks ?w3 \<le> co_ticks w + 6" using w2(3,4) by simp_all
    moreover have "or_status ?od3 = INVENTORY_RESERVED" "or_history ?od3 = [\<lparr>ev_type = ''order.inventory_reserved'', ev_at = ?stamp,
        ev_detail = Some (kept (JObj [(''reservations'', JArr (map reservation_json (map rsv [(l, i, d)])))]))\<rparr>]"
      by (simp_all add: with_event_def kept_event_def)
    ultimately show ?thesis
      unfolding if_P [OF True] using i(4)
      by (intro exI [of _ ?w3] exI [of _ ?od3] exI [of _ "[(l, i, d)]"] conjI exI [of _ ?stamp]) simp_all
  qed
qed

text \<open>The sweep when one order is unfinished.\<close>

lemma sweep_one:
  assumes t: "tracks E w oid od" and unfin: "\<not> isTerminalStatus (or_status od)" and clock: "clock_ok E"
    and only: "\<forall>i od'. orders_of (w_store w) i = Some od' \<and> \<not> isTerminalStatus (or_status od') \<longrightarrow> i = oid"
    and rec: "reservationsFromHistory od = map rsv tk" and h: "holding E w L \<rho> tk tk" and sep: "separate \<rho> tk"
    and cover: "\<forall>x \<in> set tk. L (line_key (fst x)) \<noteq> None"
    and due: "due_after (env_now E (co_ticks w + 3 + length tk)) tk"
  shows "\<exists>w' od' previous. recoverStuckOrders (SagaOrchestrator R S B E) w = (Inr 1, w') \<and>
     went E oid (recovered_step previous) w od w' od' \<and> holding E w' L \<rho> [] [] \<and>
     undone_rest oid (has_event ''order.payment_charged'' od) (has_event ''order.shipping_scheduled'' od) w w'"
proof -
  let ?D = "SagaOrchestrator R S B E"
  have ok: "ok (w_store w)" and od: "orders_of (w_store w) oid = Some od" using t by (simp_all add: tracks_def)
  have id: "or_id od = oid" using id_law [OF ok od] by blast
  from nonTerminal_law [OF ok] obtain ods where
    ods: "os_nonTerminal S (w_store w) = (Inr ods, w_store w)" "distinct (map or_id ods)"
      "\<forall>od. od \<in> set ods \<longleftrightarrow> orders_of (w_store w) (or_id od) = Some od \<and> \<not> isTerminalStatus (or_status od)" by blast
  have "x \<in> set ods \<longleftrightarrow> x = od" for x
  proof
    assume "x \<in> set ods"
    then have x: "orders_of (w_store w) (or_id x) = Some x" "\<not> isTerminalStatus (or_status x)" using ods(3) by blast+
    then have "or_id x = oid" using only by blast
    with x(1) od show "x = od" by simp
  next
    assume "x = od"
    then show "x \<in> set ods" using ods(3) od id unfin by simp
  qed
  then have eq: "set ods = {od}" by blast
  have "length ods = card (set ods)" using ods(2) distinct_card [of ods] by (simp add: distinct_map)
  then have "length ods = 1" using eq by simp
  then have "ods = [od]" using eq by (cases ods) simp_all
  have "\<exists>w' od' previous. recoverStuck ?D od w = (Inr od', w') \<and> previous \<in> {or_status od, COMPENSATING} \<and>
     went E oid (recovered_step previous) w od w' od' \<and> holding E w' L \<rho> [] [] \<and>
     undone_rest oid (has_event ''order.payment_charged'' od) (has_event ''order.shipping_scheduled'' od) w w'"
    using recoverStuck_restores [OF t unfin clock rec, of L \<rho> "\<lambda>_. True"] h sep cover due by auto
  then obtain w' od' previous where w': "recoverStuck ?D od w = (Inr od', w')"
    "went E oid (recovered_step previous) w od w' od'" "holding E w' L \<rho> [] []"
    "undone_rest oid (has_event ''order.payment_charged'' od) (has_event ''order.shipping_scheduled'' od) w w'" by blast
  have "recoverStuckOrders ?D w = (Inr 1, w')"
    unfolding recoverStuckOrders_def bind_on_store
    using ods(1) \<open>ods = [od]\<close> w'(1) by (simp add: bind_apply recover_one_def)
  with w'(2-4) show ?thesis by blast
qed

end

section \<open>Crash and recovery in production\<close>

text \<open>C12: A crash in the middle of a saga leaks nothing. Whatever the script did before it was killed - it
  reserved the units and recorded the reservation, or found the stock too low - the startup
  sweep of the next process, run within the TTL on the same Postgres and Redis, recovers exactly
  this order: it is cancelled, the stock levels and the open reservations are those of before the
  script, and no other order changes.\<close>

theorem crash_is_recovered:
  fixes C :: "'d redis_commands" and w :: "'d production_world"
  assumes "redis_server C kv_of invar" and "invar (co_redis w)"
    and "repr (env_now E (co_ticks w)) L \<rho> (kv_of (co_redis w))"
    and "pg_ok uuid_in (w_store w)" and "jsonb_like jsonb" and "oid = env_uuid E (co_uuids w)"
    and "canonical uuid_in oid" and "pg_orders (w_store w) oid = None"
    and "\<forall>i od. pg_orders (w_store w) i = Some od \<longrightarrow> isTerminalStatus (or_status od)"
    and "0 < qty" and "qty < 2 ^ 31" and "fresh_ids E (co_uuids w) (dom \<rho>)" and "clock_ok E"
    and "L (stockKey warehouseId sku) = Some n"
  shows "\<exists>w1. crash_mid_saga (production_saga C uuid_in jsonb E) sku warehouseId qty w =
       (Inr (if qty \<le> n then Killed oid else ReserveFailed), w1) \<and> co_ticks w1 \<le> co_ticks w + 6 \<and>
     (\<forall>w2 :: 'd production_world.
        co_redis w2 = co_redis w1 \<and> w_store w2 = w_store w1 \<and> co_ticks w1 \<le> co_ticks w2 \<and> bus_ready (w_bus w2) \<and>
        env_now E (co_ticks w2 + 4) < env_now E (co_ticks w) + 900000 \<longrightarrow>
        (\<exists>w3 od. recoverStuckOrders (production_saga C uuid_in jsonb E) w2 = (Inr 1, w3) \<and>
           or_status od = CANCELLED \<and> pg_orders (w_store w3) = (pg_orders (w_store w))(oid \<mapsto> od) \<and>
           repr (env_now E (co_ticks w3)) L \<rho> (kv_of (co_redis w3))))"
proof -
  note sg = production_is_saga [OF assms(1), of uuid_in jsonb]
  note sr = redis_server.server_is_stock_redis [OF assms(1)]
  note tr = saga.tracks_def [OF sg] and wt = saga.went_def [OF sg] and hd = stock_redis.holding_def [OF sr]
  let ?l = "\<lparr>ol_sku = sku, ol_qty = qty, ol_warehouseId = warehouseId\<rparr>"
  let ?D = "production_saga C uuid_in jsonb E" and ?t = "env_now E (co_ticks w) + 899999"
  have h: "stock_redis.holding kv_of invar E w L \<rho> [] []" unfolding hd using assms(2,3) by simp
  have full: "fulfillable L [?l] \<longleftrightarrow> qty \<le> n"
    using assms(10,14) fulfillable_snoc [of L "[]" ?l] by (simp add: line_key_def)
  from saga.crash_run [OF sg assms(6) h assms(4,8,7), of ?l ?t] assms(10-13) obtain w1 od tk where
    r: "crash_mid_saga ?D sku warehouseId qty w = (Inr (if qty \<le> n then Killed oid else ReserveFailed), w1)"
      "stock_redis.holding kv_of invar E w1 L \<rho> tk tk" "separate \<rho> tk" "due_after ?t tk"
      "pg_ok uuid_in (w_store w1)" "pg_orders (w_store w1) = (pg_orders (w_store w))(oid \<mapsto> od)"
      "co_ticks w1 \<le> co_ticks w + 6"
    and c: "if qty \<le> n then lines_of tk = [?l] \<and> or_status od = INVENTORY_RESERVED \<and>
        (\<exists>stamp. stamp \<le> env_now E (co_ticks w1) \<and> or_history od = [\<lparr>ev_type = ''order.inventory_reserved'', ev_at = stamp,
           ev_detail = Some (jsonb (JObj [(''reservations'', JArr (map reservation_json (map rsv tk)))]))\<rparr>])
      else tk = [] \<and> or_status od = CREATED \<and> or_history od = []"
    unfolding full production_saga_def by (auto simp: canonical_scope_def)
  have rec: "reservationsFromHistory od = map rsv tk"
  proof (cases "qty \<le> n")
    case True
    with c show ?thesis using jsonb_reservations [OF assms(5)] by (metis (no_types, lifting))
  next
    case False
    with c show ?thesis by (simp add: reservationsFromHistory_def)
  qed
  have unfin: "\<not> isTerminalStatus (or_status od)"
    using c by (auto simp: isTerminalStatus_def TERMINAL_ORDER_STATUSES_def split: if_splits)
  have past: "\<forall>h \<in> set (or_history od). ev_at h \<le> env_now E (co_ticks w1)" using c by (auto split: if_splits)
  have small: "length tk \<le> 1" "\<forall>x \<in> set tk. L (line_key (fst x)) \<noteq> None"
    using c assms(14) by (auto simp: line_key_def Cons_eq_map_conv map_eq_Cons_conv split: if_splits)
  have "\<exists>w3 od'. recoverStuckOrders ?D w2 = (Inr 1, w3) \<and> or_status od' = CANCELLED \<and>
      pg_orders (w_store w3) = (pg_orders (w_store w))(oid \<mapsto> od') \<and>
      repr (env_now E (co_ticks w3)) L \<rho> (kv_of (co_redis w3))"
    if w2: "co_redis w2 = co_redis w1" "w_store w2 = w_store w1" "co_ticks w1 \<le> co_ticks w2" "bus_ready (w_bus w2)"
      "env_now E (co_ticks w2 + 4) < env_now E (co_ticks w) + 900000" for w2 :: "'d production_world"
  proof -
    have le: "env_now E (co_ticks w1) \<le> env_now E (co_ticks w2)" using clock_le [OF assms(13) w2(3)] .
    have t2: "saga.tracks pg_orders (pg_ok uuid_in) bus_ready E w2 oid od"
      unfolding tr using w2(2,4) r(5,6) past le by auto
    have h2: "stock_redis.holding kv_of invar E w2 L \<rho> tk tk"
      using stock_redis.holding_tick [OF sr r(2) assms(13) w2(1,3)] .
    have only: "\<forall>i od'. pg_orders (w_store w2) i = Some od' \<and> \<not> isTerminalStatus (or_status od') \<longrightarrow> i = oid"
      using assms(9) r(6) w2(2) by auto
    have "env_now E (co_ticks w2 + 3 + length tk) \<le> env_now E (co_ticks w2 + 4)"
      using small(1) by (intro clock_le [OF assms(13)]) simp
    then have due: "due_after (env_now E (co_ticks w2 + 3 + length tk)) tk"
      using due_after_earlier [OF r(4)] w2(5) by simp
    from saga.sweep_one [OF sg t2 unfin assms(13) only rec h2 r(3) small(2) due] obtain w3 od' previous where
      w3: "recoverStuckOrders ?D w2 = (Inr 1, w3)"
        "saga.went pg_orders (pg_ok uuid_in) jsonb (InMemoryEventBus app_handler) bus_ready E oid (recovered_step previous) w2 od w3 od'"
        "stock_redis.holding kv_of invar E w3 L \<rho> [] []"
      unfolding production_saga_def by blast
    have u: "untimed od' = fold (apply_step jsonb) (recovered_step previous) (untimed od)"
      "pg_orders (w_store w3) = (pg_orders (w_store w2))(oid \<mapsto> od')" using w3(2) unfolding wt by blast+
    have "or_status od' = CANCELLED"
      using arg_cong [OF u(1), of or_status] by (simp add: recovered_step_def rollback_def)
    moreover have "pg_orders (w_store w3) = (pg_orders (w_store w))(oid \<mapsto> od')" using u(2) r(6) w2(2) by simp
    moreover have "repr (env_now E (co_ticks w3)) L \<rho> (kv_of (co_redis w3))" using w3(3) unfolding hd by simp
    ultimately show ?thesis using w3(1) by blast
  qed
  then show ?thesis using r(1,7) by (intro exI [of _ w1]) blast
qed

definition demo_chaos :: "redis_mem production_world" where
  "demo_chaos = demo_production\<lparr>w_store := new_pg_db\<rparr>"

theorem crash_is_recovered_witness:
  "\<exists>w1 w2 w3 od. crash_mid_saga (production_saga mem_commands Some (\<lambda>j. j) demo_env) ''s1'' ''w1'' 2 demo_chaos =
       (Inr (Killed ''id-''), w1) \<and> co_redis w2 = co_redis w1 \<and> w_store w2 = w_store w1 \<and>
     recoverStuckOrders (production_saga mem_commands Some (\<lambda>j. j) demo_env) w2 = (Inr 1, w3) \<and>
     pg_orders (w_store w3) ''id-'' = Some od \<and> or_status od = CANCELLED \<and>
     repr (env_now demo_env (co_ticks w3)) demo_levels Map.empty (mem_kv (co_redis w3))"
proof -
  let ?D = "production_saga mem_commands Some (\<lambda>j. j) demo_env"
  have r: "mem_ok (co_redis demo_chaos)"
    "repr (env_now demo_env (co_ticks demo_chaos)) demo_levels Map.empty (mem_kv (co_redis demo_chaos))"
    using demo_shows_stock [of demo_order]
    by (simp_all add: shows_stock_def demo_chaos_def demo_production_def) (simp add: demo_world_with_def)
  have b: "bus_ready (w_bus demo_chaos)" "w_store demo_chaos = new_pg_db" "co_ticks demo_chaos = 0" "co_uuids demo_chaos = 0"
    using wired_ready [OF wired_server_bus] by (simp_all add: demo_chaos_def demo_production_def)
  have pg: "pg_ok Some (w_store demo_chaos)" "pg_orders (w_store demo_chaos) ''id-'' = None"
    "\<forall>i od. pg_orders (w_store demo_chaos) i = Some od \<longrightarrow> isTerminalStatus (or_status od)"
    by (simp_all add: b(2) pg_ok_def pg_orders_def new_pg_db_def)
  have j: "jsonb_like (\<lambda>j. j)" by (simp add: jsonb_like_def option.map_ident)
  have i: "''id-'' = env_uuid demo_env (co_uuids demo_chaos)" "canonical Some ''id-''"
    "fresh_ids demo_env (co_uuids demo_chaos) (dom Map.empty)" "demo_levels (stockKey ''w1'' ''s1'') = Some 5"
    using demo_env_ok(2) [of 0] by (simp_all add: b(4) demo_env_def canonical_def demo_levels_def)
  from crash_is_recovered [OF memsrv.redis_server_axioms r pg(1) j i(1,2) pg(2,3) _ _ i(3) demo_env_ok(1) i(4), of 2]
  obtain w1 where w1: "crash_mid_saga ?D ''s1'' ''w1'' 2 demo_chaos = (Inr (Killed ''id-''), w1)"
      "co_ticks w1 \<le> co_ticks demo_chaos + 6"
    and rec: "\<And>w2. co_redis w2 = co_redis w1 \<Longrightarrow> w_store w2 = w_store w1 \<Longrightarrow> co_ticks w1 \<le> co_ticks w2 \<Longrightarrow>
      bus_ready (w_bus w2) \<Longrightarrow> env_now demo_env (co_ticks w2 + 4) < env_now demo_env (co_ticks demo_chaos) + 900000 \<Longrightarrow>
      \<exists>w3 od. recoverStuckOrders ?D w2 = (Inr 1, w3) \<and> or_status od = CANCELLED \<and>
        pg_orders (w_store w3) = (pg_orders (w_store demo_chaos))(''id-'' \<mapsto> od) \<and>
        repr (env_now demo_env (co_ticks w3)) demo_levels Map.empty (mem_kv (co_redis w3))" by auto
  let ?w2 = "demo_chaos\<lparr>co_redis := co_redis w1, w_store := w_store w1, co_ticks := co_ticks w1\<rparr>"
  have "env_now demo_env (co_ticks ?w2 + 4) < env_now demo_env (co_ticks demo_chaos) + 900000"
    using w1(2) by (simp add: demo_env_def b(3))
  with rec [of ?w2] b(1) obtain w3 od where w3: "recoverStuckOrders ?D ?w2 = (Inr 1, w3)" "or_status od = CANCELLED"
    "pg_orders (w_store w3) = (pg_orders (w_store demo_chaos))(''id-'' \<mapsto> od)"
    "repr (env_now demo_env (co_ticks w3)) demo_levels Map.empty (mem_kv (co_redis w3))" by auto
  show ?thesis
    by (intro exI [of _ w1] exI [of _ ?w2] exI [of _ w3] exI [of _ od] conjI w1(1) w3(1,2,4)) (simp_all add: w3(3))
qed

end
