(* ===== verification/Startup.thy ===== *)
theory Startup
  imports Production_Saga
begin

text \<open>
  How a process starts: \<open>src/inventory/connectRedis.ts\<close>, \<open>src/lib/pgClient.ts\<close> and \<open>main\<close> of
  \<open>src/api/server.ts\<close> with the functions that choose its parts from the environment, and the
  script \<open>scripts/seed.ts\<close>. A connection is a description of what the drivers are given.
\<close>

type_synonym env_vars = "string \<Rightarrow> string option"

section \<open>connectRedis\<close>

datatype redis_driver = IoRedis string | InProcess | RawResp string jsnum

text \<open>What a driver throws: the code it may carry, and its message.\<close>

record connect_error =
  ce_code :: "string option"
  ce_message :: string

definition isConnectionRefused :: "connect_error \<Rightarrow> bool" where
  "isConnectionRefused err \<longleftrightarrow> ce_code err = Some ''ECONNREFUSED''"

definition unreachable_message :: "string \<Rightarrow> jsnum \<Rightarrow> string" where
  "unreachable_message host port =
     ''Redis isn't reachable at '' @ host @ '':'' @ js_String port @ '' (ECONNREFUSED). Either start a real one '' @
     ''(`docker compose up redis`, or `redis-server &` '' @ [CHR 0xE2, CHR 0x80, CHR 0x94] @ '' see README '' @
     [CHR 0x22] @ ''Option B'' @ [CHR 0x22] @ '') and rerun, '' @
     ''or set REDIS_DRIVER=memory for an in-process fallback with no external Redis at all '' @
     ''(fine for `npm run seed` / `npm run dev`; see src/inventory/inMemoryRedis.ts for what '' @
     ''it does and doesn't cover before relying on it for anything else).''"

text \<open>
  \<open>probe host port\<close> is the outcome of the first \<open>get\<close> of a client: the error it throws, if any.
  The second component says whether the client was closed again.
\<close>

definition connectRedis ::
  "env_vars \<Rightarrow> (string \<Rightarrow> jsnum \<Rightarrow> connect_error option) \<Rightarrow> (connect_error + redis_driver) \<times> bool" where
  "connectRedis env probe =
     (let driver = env ''REDIS_DRIVER'' in
      if driver = Some ''ioredis'' then
        (Inr (IoRedis (case env ''REDIS_URL'' of None \<Rightarrow> ''redis://127.0.0.1:6379'' | Some url \<Rightarrow> url)), False)
      else if driver = Some ''memory'' then (Inr InProcess, False)
      else
        let host = (case env ''REDIS_HOST'' of None \<Rightarrow> ''127.0.0.1'' | Some h \<Rightarrow> h);
            port = (case env ''REDIS_PORT'' of None \<Rightarrow> Num 6379 | Some p \<Rightarrow> js_Number p) in
        (case probe host port of
           None \<Rightarrow> (Inr (RawResp host port), False)
         | Some err \<Rightarrow>
             if isConnectionRefused err
             then (Inl \<lparr>ce_code = None, ce_message = unreachable_message host port\<rparr>, True)
             else (Inl err, True)))"

section \<open>getPgPool\<close>

text \<open>A pool is its number and its configuration; \<open>pm_pool\<close> is the variable of the module.\<close>

record pg_pool =
  pp_id :: nat
  pp_config :: fields

record pool_module =
  pm_pool :: "pg_pool option"
  pm_made :: nat
  pm_open :: "nat list"

definition new_pool_module :: pool_module where
  "new_pool_module = \<lparr>pm_pool = None, pm_made = 0, pm_open = []\<rparr>"

definition new_pool :: "fields \<Rightarrow> (pool_module, pg_pool) act" where
  "new_pool config s =
     (Inr \<lparr>pp_id = pm_made s, pp_config = config\<rparr>,
      s\<lparr>pm_made := Suc (pm_made s), pm_open := pm_made s # pm_open s\<rparr>)"

definition getPgPool :: "env_vars \<Rightarrow> fields \<Rightarrow> (pool_module, pg_pool) act" where
  "getPgPool env config =
     bind (read_state pm_pool) (\<lambda>pool.
     case pool of
       Some p \<Rightarrow> ret p
     | None \<Rightarrow>
         (let connectionString = (case env ''DATABASE_URL'' of None \<Rightarrow> [] | Some url \<Rightarrow> url) in
          if connectionString = []
          then throw (DriverError (''DATABASE_URL is not set. Required when ORDER_STORE=pg '' @ [CHR 0xE2, CHR 0x80, CHR 0x94] @
              '' see .env.example.''))
          else
            bind (new_pool (spread
              [(''connectionString'', JStr connectionString),
               (''max'', JNum (case env ''PG_POOL_MAX'' of None \<Rightarrow> Num 10 | Some n \<Rightarrow> js_Number n)),
               (''idleTimeoutMillis'', JNum (Num 30000)), (''connectionTimeoutMillis'', JNum (Num 5000))] config)) (\<lambda>p.
            bind (update_state (\<lambda>s. s\<lparr>pm_pool := Some p\<rparr>)) (\<lambda>_. ret p))))"

text \<open>\<open>ended\<close> is the error of \<open>pool.end\<close>, if it fails.\<close>

definition closePgPool :: "js_error option \<Rightarrow> (pool_module, unit) act" where
  "closePgPool ended =
     bind (read_state pm_pool) (\<lambda>pool.
     case pool of
       None \<Rightarrow> ret ()
     | Some p \<Rightarrow>
         (case ended of
            Some e \<Rightarrow> throw e
          | None \<Rightarrow> update_state (\<lambda>s. s\<lparr>pm_pool := None, pm_open := removeAll (pp_id p) (pm_open s)\<rparr>)))"

section \<open>The parts of the server\<close>

datatype bus_choice = KafkaBus "string list" string | InMemoryBus
datatype store_choice = PgStore pg_pool | InMemoryStore

definition buildEventBus :: "env_vars \<Rightarrow> bus_choice" where
  "buildEventBus env =
     (case env ''KAFKA_BROKERS'' of
        None \<Rightarrow> InMemoryBus
      | Some brokers \<Rightarrow> if brokers = [] then InMemoryBus else KafkaBus (js_split (CHR '','') brokers) ''supply-chain-saga'')"

definition buildOrderStore :: "env_vars \<Rightarrow> (pool_module, store_choice) act" where
  "buildOrderStore env =
     (if env ''ORDER_STORE'' = Some ''pg'' then bind (getPgPool env []) (\<lambda>pool. ret (PgStore pool))
      else ret InMemoryStore)"

definition buildBusinessStore :: "env_vars \<Rightarrow> (pool_module, store_choice) act" where
  "buildBusinessStore env =
     (if env ''ORDER_STORE'' = Some ''pg'' then bind (getPgPool env []) (\<lambda>pool. ret (PgStore pool))
      else ret InMemoryStore)"

text \<open>
  \<open>main\<close> from the orchestrator on, up to the routes: the saga runner is wired, the sweep runs, the
  hub subscribes.
\<close>

definition startup :: "('r, 'st, app_bus) deps \<Rightarrow> ('r, 'st, app_bus, nat) saga_act" where
  "startup D =
     bind (update_state (\<lambda>w. w\<lparr>w_bus := wireAsyncSagaExecution (w_bus w)\<rparr>)) (\<lambda>_.
     bind (recoverStuckOrders D) (\<lambda>recovered.
     bind (update_state (\<lambda>w. w\<lparr>w_bus := wireSseHub (w_bus w)\<rparr>)) (\<lambda>_.
     ret recovered)))"

text \<open>
  \<open>main\<close> as a whole. \<open>joined brokers\<close> is what the producer throws when it connects, \<open>swept parts\<close>
  what the startup of the parts throws (the action \<open>startup\<close> over them), if anything. A rejection of
  \<open>main\<close> is caught, and the process exits with code 1.
\<close>

record server_parts =
  pt_redis :: redis_driver
  pt_eventBus :: bus_choice
  pt_store :: store_choice
  pt_businessStore :: store_choice

definition buildRedisClient :: "env_vars \<Rightarrow> (string \<Rightarrow> jsnum \<Rightarrow> connect_error option) \<Rightarrow> js_error + redis_driver" where
  "buildRedisClient env probe =
     (case fst (connectRedis env probe) of Inl e \<Rightarrow> Inl (DriverError (ce_message e)) | Inr d \<Rightarrow> Inr d)"

definition main_parts ::
  "env_vars \<Rightarrow> (string \<Rightarrow> jsnum \<Rightarrow> connect_error option) \<Rightarrow> (string list \<Rightarrow> js_error option) \<Rightarrow>
     (pool_module, server_parts) act" where
  "main_parts env probe joined =
     bind (\<lambda>s. (buildRedisClient env probe, s)) (\<lambda>redis.
     let eventBus = buildEventBus env in
     bind (case eventBus of
             InMemoryBus \<Rightarrow> ret ()
           | KafkaBus brokers clientId \<Rightarrow> (case joined brokers of None \<Rightarrow> ret () | Some e \<Rightarrow> throw e)) (\<lambda>_.
     bind (buildOrderStore env) (\<lambda>store.
     bind (buildBusinessStore env) (\<lambda>businessStore.
     ret \<lparr>pt_redis = redis, pt_eventBus = eventBus, pt_store = store, pt_businessStore = businessStore\<rparr>))))"

datatype server_process = Listening server_parts jsnum | Exited int

definition server_main ::
  "env_vars \<Rightarrow> (string \<Rightarrow> jsnum \<Rightarrow> connect_error option) \<Rightarrow> (string list \<Rightarrow> js_error option) \<Rightarrow>
     (server_parts \<Rightarrow> js_error option) \<Rightarrow> server_process" where
  "server_main env probe joined swept =
     (case fst (main_parts env probe joined new_pool_module) of
        Inl e \<Rightarrow> Exited 1
      | Inr parts \<Rightarrow>
          (case swept parts of
             Some e \<Rightarrow> Exited 1
           | None \<Rightarrow> Listening parts (case env ''PORT'' of None \<Rightarrow> Num 3000 | Some p \<Rightarrow> js_Number p)))"

section \<open>seed\<close>

definition seedData :: "(string \<times> string \<times> int) list" where
  "seedData =
     [(''wh-blr-1'', ''SKU-LAPTOP-14'', 40), (''wh-blr-1'', ''SKU-MOUSE-WL'', 500),
      (''wh-del-2'', ''SKU-LAPTOP-14'', 15), (''wh-del-2'', ''SKU-KEYBOARD-MECH'', 120)]"

definition seed_main :: "'r redis_like \<Rightarrow> (('r, 'z) process_scheme, unit) act" where
  "seed_main R = for_each (\<lambda>(warehouseId, sku, qty). setStock R warehouseId sku (Num qty)) seedData"

section \<open>Choosing the drivers\<close>

text \<open>Only the default driver can fail, and then its client is closed; a refused connection is the one
  error whose text changes, and that text names the way out.\<close>

lemma connectRedis_opt_in:
  "env ''REDIS_DRIVER'' = Some ''memory'' \<Longrightarrow> connectRedis env probe = (Inr InProcess, False)"
  "env ''REDIS_DRIVER'' = Some ''ioredis'' \<Longrightarrow> \<exists>url. connectRedis env probe = (Inr (IoRedis url), False)"
  by (simp_all add: connectRedis_def Let_def)

lemma connectRedis_fails:
  assumes "connectRedis env probe = (Inl e, gone)"
  shows "gone \<and> env ''REDIS_DRIVER'' \<notin> {Some ''memory'', Some ''ioredis''} \<and>
    (\<exists>host port err. probe host port = Some err \<and>
       (if isConnectionRefused err then ce_code e = None \<and> ce_message e = unreachable_message host port else e = err))"
  using assms by (auto simp: connectRedis_def Let_def split: if_splits option.splits) metis+

text \<open>The module never holds two open pools: whatever is called, in any environment, the open pools are
  the one of the variable.\<close>

datatype pool_op = Get env_vars fields | Close "js_error option"

fun pool_step :: "pool_op \<Rightarrow> pool_module \<Rightarrow> pool_module" where
  "pool_step (Get env config) s = snd (getPgPool env config s)"
| "pool_step (Close ended) s = snd (closePgPool ended s)"

definition one_pool :: "pool_module \<Rightarrow> bool" where
  "one_pool s \<longleftrightarrow> pm_open s = (case pm_pool s of None \<Rightarrow> [] | Some p \<Rightarrow> [pp_id p])"

lemma one_pool_call: "one_pool s \<Longrightarrow> one_pool (pool_step c s)"
  by (cases c) (auto simp: one_pool_def getPgPool_def closePgPool_def new_pool_def Let_def bind_apply split: option.splits)

lemma one_pool_always: "one_pool (fold pool_step cs new_pool_module)"
proof -
  have "one_pool s \<Longrightarrow> one_pool (fold pool_step cs s)" for s
    by (induction cs arbitrary: s) (auto intro: one_pool_call)
  then show ?thesis by (simp add: one_pool_def new_pool_module_def)
qed

text \<open>The two stores of the server share one pool.\<close>

lemma stores_share_pool:
  assumes "buildOrderStore env s = (Inr (PgStore p), s')"
  shows "buildBusinessStore env s' = (Inr (PgStore p), s')"
  using assms
  by (auto simp: buildOrderStore_def buildBusinessStore_def getPgPool_def new_pool_def Let_def bind_apply
      split: if_splits option.splits)

text \<open>The server listens exactly when Redis answers or is not needed, the brokers named in the environment
  are reached, a Postgres that is asked for has a URL, and the startup does not throw. Orders and
  businesses are then in the same database, or both in memory.\<close>

lemma main_parts_run:
  "fst (main_parts env probe joined new_pool_module) = Inr parts \<longleftrightarrow>
     buildRedisClient env probe = Inr (pt_redis parts) \<and> pt_eventBus parts = buildEventBus env \<and>
     (\<forall>brokers name. buildEventBus env = KafkaBus brokers name \<longrightarrow> joined brokers = None) \<and>
     (\<exists>s. buildOrderStore env new_pool_module = (Inr (pt_store parts), s)) \<and> pt_businessStore parts = pt_store parts"
  (is "?lhs \<longleftrightarrow> ?rhs")
proof -
  have store: "buildBusinessStore env s' = (Inr st, s')"
    if "buildOrderStore env new_pool_module = (Inr st, s')" for st s'
  proof (cases st)
    case (PgStore p)
    then show ?thesis using stores_share_pool that by blast
  next
    case InMemoryStore
    then show ?thesis using that
      by (auto simp: buildOrderStore_def buildBusinessStore_def bind_apply split: if_splits prod.splits sum.splits)
  qed
  show ?thesis
  proof (cases "buildRedisClient env probe")
    case (Inl e)
    then show ?thesis by (simp add: main_parts_def bind_apply)
  next
    case (Inr redis)
    obtain r s' where o: "buildOrderStore env new_pool_module = (r, s')" by fastforce
    show ?thesis
      using Inr o store by (cases r; cases parts)
        (auto simp: main_parts_def bind_apply Let_def split: bus_choice.splits option.splits)
  qed
qed

lemma server_listens:
  "(\<exists>parts port. server_main env probe joined swept = Listening parts port) \<longleftrightarrow>
     (\<exists>parts. fst (main_parts env probe joined new_pool_module) = Inr parts \<and> swept parts = None)"
  by (auto simp: server_main_def split: sum.splits option.splits)

lemma pg_needs_url:
  assumes "env ''ORDER_STORE'' = Some ''pg''" and "env ''DATABASE_URL'' \<in> {None, Some []}"
  shows "server_main env probe joined swept = Exited 1"
proof -
  have "\<nexists>st s. buildOrderStore env new_pool_module = (Inr st, s)"
    using assms by (auto simp: buildOrderStore_def getPgPool_def bind_apply Let_def new_pool_module_def)
  then have "\<nexists>parts. fst (main_parts env probe joined new_pool_module) = Inr parts" unfolding main_parts_run by blast
  then show ?thesis by (auto simp: server_main_def split: sum.splits)
qed

section \<open>What the seed leaves\<close>

context stock_redis
begin

lemma set_loop_run:
  fixes p :: "('r, 'z) process_scheme"
  assumes "invar (co_redis p)"
  shows "\<exists>r' known. for_each (\<lambda>(warehouseId, sku, qty). setStock R warehouseId sku (Num qty)) xs p =
      (Inr (), p\<lparr>co_redis := r', co_known := known\<rparr>) \<and> invar r' \<and>
      kv_of r' = fold (\<lambda>(w, s, q) m. m(stockKey w s \<mapsto> (q, None))) xs (kv_of (co_redis p))"
  using assms
proof (induction xs arbitrary: p)
  case Nil
  then show ?case by (intro exI [of _ "co_redis p"] exI [of _ "co_known p"]) simp
next
  case (Cons x xs)
  obtain w s q where x: "x = (w, s, q)" by (cases x)
  from setStock_run [OF Cons.prems, of w s q] obtain r1 where
    r1: "setStock R w s (Num q) p = (Inr (), p\<lparr>co_redis := r1, co_known := jset (stockKey w s) (w, s) (co_known p)\<rparr>)"
      "invar r1" "kv_of r1 = (kv_of (co_redis p))(stockKey w s \<mapsto> (q, None))" by blast
  let ?p = "p\<lparr>co_redis := r1, co_known := jset (stockKey w s) (w, s) (co_known p)\<rparr>"
  have "invar (co_redis ?p)" using r1(2) by simp
  from Cons.IH [OF this] obtain r' known where
    "for_each (\<lambda>(warehouseId, sku, qty). setStock R warehouseId sku (Num qty)) xs ?p =
       (Inr (), ?p\<lparr>co_redis := r', co_known := known\<rparr>)" "invar r'"
    "kv_of r' = fold (\<lambda>(w, s, q) m. m(stockKey w s \<mapsto> (q, None))) xs (kv_of (co_redis ?p))" by blast
  with r1 x show ?case by (intro exI [of _ r'] exI [of _ known]) (simp add: bind_apply fun_upd_def)
qed

text \<open>Every process on the same Redis reads the seeded levels; but its list of the inventory, which is of
  what it has touched itself, does not show them.\<close>

lemma seed_is_read:
  fixes p :: "('r, 'z) process_scheme"
  assumes "invar (co_redis p)"
  shows "\<exists>p'. seed_main R p = (Inr (), p') \<and>
     (\<forall>(w, s, q) \<in> set seedData. \<forall>p2 :: ('r, 'y) process_scheme. co_redis p2 = co_redis p' \<longrightarrow>
        (\<exists>p3. getAvailable R E w s p2 = (Inr (Num q), p3)))"
proof -
  from set_loop_run [OF assms, of seedData] obtain r' known where
    r': "seed_main R p = (Inr (), p\<lparr>co_redis := r', co_known := known\<rparr>)" "invar r'"
      "kv_of r' = fold (\<lambda>(w, s, q) m. m(stockKey w s \<mapsto> (q, None))) seedData (kv_of (co_redis p))"
    unfolding seed_main_def by blast
  have level: "lookup now (kv_of r') (stockKey w s) = Some q" if "(w, s, q) \<in> set seedData" for w s q now
    using that unfolding r'(3) by (auto simp: seedData_def lookup_def stockKey_def)
  have "\<exists>p3. getAvailable R E w s p2 = (Inr (Num q), p3)"
    if "(w, s, q) \<in> set seedData" "co_redis p2 = r'" for w s q and p2 :: "('r, 'y) process_scheme"
    using getAvailable_run [of p2 E w s] that r'(2) level [OF that(1)] by auto
  with r'(1) show ?thesis by auto
qed

end

lemma seed_is_not_listed: "co_known p = [] \<Longrightarrow> listAll R E le p = (Inr [], p)"
  by (simp add: listAll_def jvalues_def)

section \<open>The bus while the server starts\<close>

text \<open>Only the runner listens, and it has started one run for every order created on the bus.\<close>

definition runner_wired :: "app_bus \<Rightarrow> bool" where
  "runner_wired s \<longleftrightarrow>
     bs_cursors (fst s) = [(runner_key, length (topic_log (fst s) ORDERS_TOPIC))] \<and>
     bs_handlers (fst s) = [(runner_key, [SagaRunner])] \<and> \<not> bs_draining (fst s) \<and>
     as_started (snd s) = concat (map runs_for (topic_log (fst s) ORDERS_TOPIC)) \<and> as_clients (snd s) = []"

definition fresh_bus :: app_bus where
  "fresh_bus = (new_bus, \<lparr>as_started = [], as_clients = []\<rparr>)"

lemma runner_wired_fresh: "runner_wired (wireAsyncSagaExecution fresh_bus)"
  by (simp add: runner_wired_def fresh_bus_def wireAsyncSagaExecution_def subscribe_def Let_def new_bus_def
      handlers_of_def set_cursor_def topic_log_def jhas_def)

lemma runner_deliveries:
  assumes "handlers_of b runner_key = [SagaRunner]" and "\<forall>d \<in> set D. fst d = runner_key"
  shows "fold (deliver app_effect b) D a = a\<lparr>as_started := as_started a @ concat (map runs_for (map snd D))\<rparr>"
  using assms(2)
proof (induction D arbitrary: a)
  case Nil
  then show ?case by simp
next
  case (Cons d D)
  have "deliver app_effect b d a = start_run (snd d) a"
    using Cons.prems assms(1) by (simp add: deliver_def)
  with Cons show ?case by (simp add: start_run_def)
qed

lemma publish_runner_wired:
  assumes "runner_wired s"
  shows "\<exists>s'. eb_publish (InMemoryEventBus app_handler) topic ev s = (Inr (), s') \<and> runner_wired s' \<and>
    (\<forall>t. topic_log (fst s') t = (if t = topic then topic_log (fst s) t @ [ev] else topic_log (fst s) t))"
proof -
  obtain b a where s: "s = (b, a)" by (cases s)
  let ?b1 = "push_event topic ev b" and ?n = "length (topic_log b ORDERS_TOPIC)"
  let ?b2 = "?b1\<lparr>bs_cursors := caught_up topic ?b1\<rparr>"
  have w: "bs_cursors b = [(runner_key, ?n)]" "bs_handlers b = [(runner_key, [SagaRunner])]" "\<not> bs_draining b"
    "as_started a = concat (map runs_for (topic_log b ORDERS_TOPIC))" "as_clients a = []"
    using assms by (simp_all add: runner_wired_def s)
  from app.publish_passive [of b topic ev a] w(1,3) obtain D where
    D: "publish app_handler topic ev (b, a) = Some (Inr (), (?b2, fold (deliver app_effect b) D a))" "delivers topic ?b1 D"
    by (auto simp: jmap_ok_def)
  have only: "\<forall>d \<in> set D. fst d = runner_key" using D(2) w(1) by (auto simp: delivers_def)
  then have all: "deliveries_to runner_key D = map snd D" by (simp add: deliveries_to_def filter_id_conv)
  have on: "on_topic topic runner_key \<longleftrightarrow> topic = ORDERS_TOPIC"
    using on_topic_group [of CONSUMER_GROUP] by (auto simp: on_topic_def)
  have evs: "map snd D = (if topic = ORDERS_TOPIC then [ev] else [])"
  proof (cases "topic = ORDERS_TOPIC")
    case True
    then show ?thesis using D(2) w(1) on all by (auto simp: delivers_def)
  next
    case False
    then have "D = []" using D(2) only on by (cases D) (auto simp: delivers_def)
    with False show ?thesis by simp
  qed
  have log: "topic_log ?b2 t = (if t = topic then topic_log b t @ [ev] else topic_log b t)" for t
    by (simp add: topic_log_def push_event_def)
  have hs: "handlers_of b runner_key = [SagaRunner]" using w(2) by (simp add: handlers_of_def)
  have "topic_log ?b1 t = (if t = topic then topic_log b t @ [ev] else topic_log b t)" for t
    by (simp add: topic_log_def push_event_def)
  then have "caught_up topic ?b1 = [(runner_key, length (topic_log ?b2 ORDERS_TOPIC))]"
    unfolding log using w(1) on by (simp add: caught_up_def)
  then have "runner_wired (?b2, fold (deliver app_effect b) D a)"
    unfolding runner_wired_def runner_deliveries [OF hs only] evs
    using w log [of ORDERS_TOPIC] by (simp add: push_event_def)
  then show ?thesis using D(1) log by (auto simp: InMemoryEventBus_def s)
qed

interpretation runner_bus: event_bus_laws "InMemoryEventBus app_handler" runner_wired
proof
  fix s :: app_bus and topic ev
  assume "runner_wired s"
  from publish_runner_wired [OF this, of topic ev] obtain s' where
    "eb_publish (InMemoryEventBus app_handler) topic ev s = (Inr (), s')" "runner_wired s'"
    "\<forall>t. topic_log (fst s') t = (if t = topic then topic_log (fst s) t @ [ev] else topic_log (fst s) t)" by blast
  then show "\<exists>s'. eb_publish (InMemoryEventBus app_handler) topic ev s = (Inr (), s') \<and> runner_wired s' \<and>
      (\<forall>t. eb_history (InMemoryEventBus app_handler) t s' =
         (if t = topic then eb_history (InMemoryEventBus app_handler) t s @ [ev] else eb_history (InMemoryEventBus app_handler) t s))"
    unfolding InMemoryEventBus_history history_def by blast
qed

lemmas starting_is_saga = deployment_is_saga [OF _ runner_bus.event_bus_laws_axioms]

text \<open>The hub joins the log at its beginning, with the runner as it was.\<close>

lemma hub_joins:
  assumes "runner_wired s"
  shows "bus_ready (wireSseHub s)" and "handlers_of (fst (wireSseHub s)) runner_key = [SagaRunner]"
    and "handlers_of (fst (wireSseHub s)) sse_key = [SseBroadcast]" and "snd (wireSseHub s) = snd s"
    and "topic_log (fst (wireSseHub s)) t = topic_log (fst s) t"
  using assms
  by (simp_all add: runner_wired_def wireSseHub_def subscribe_def Let_def handlers_of_def set_cursor_def jhas_def
      bus_ready_def jmap_ok_def topic_log_def)

lemma no_runs: "\<forall>e \<in> set evs. de_type e \<noteq> ''order.created'' \<Longrightarrow> concat (map runs_for evs) = []"
  by (simp add: runs_for_def)

section \<open>Properties\<close>



end
