(* ===== verification/Verify_Script.thy ===== *)
theory Verify_Script
  imports Server_Saga Warehouse
begin

text \<open>
  The verification script \<open>scripts/verify.ts\<close>: its checks and its \<open>main\<close>, over any Redis client. \<open>Promise.all\<close> over calls of \<open>reserve\<close> is the calls one after the other, since
  Redis runs their scripts one after the other; console output and throughputs are left out.
\<close>

section \<open>Contention\<close>

text \<open>\<open>accepted\<close>, \<open>rejected\<close> and \<open>ok\<close> of the results, and the time they took.\<close>

record contention =
  cn_ok :: bool
  cn_accepted :: nat
  cn_rejected :: nat
  cn_elapsedMs :: rat

definition unit_calls ::
  "'r redis_like \<Rightarrow> env \<Rightarrow> string \<Rightarrow> string \<Rightarrow> nat \<Rightarrow> ('r, 'st, 'b, reservation_result list) saga_act" where
  "unit_calls R E warehouse sku n =
     map_act (\<lambda>_. reserve R E warehouse sku (Num 1) DEFAULT_RESERVATION_TTL_SECONDS) (replicate n ())"

definition WAREHOUSE :: string where
  "WAREHOUSE = ''wh-blr-1''"

definition testConcurrencyNoOversell :: "'r redis_like \<Rightarrow> env \<Rightarrow> ('r, 'st, 'b, contention) saga_act" where
  "testConcurrencyNoOversell R E =
     bind (setStock R WAREHOUSE ''sku-concurrency-test'' (Num 50)) (\<lambda>_.
     bind (perf_now E) (\<lambda>start.
     bind (unit_calls R E WAREHOUSE ''sku-concurrency-test'' 500) (\<lambda>results.
     bind (perf_now E) (\<lambda>stop.
     bind (getAvailable R E WAREHOUSE ''sku-concurrency-test'') (\<lambda>finalAvailable.
     let accepted = length (filter rr_ok results); rejected = length (filter (\<lambda>r. \<not> rr_ok r) results) in
     ret \<lparr>cn_ok = (accepted = 50 \<and> rejected = 500 - 50 \<and> finalAvailable = Num 0),
          cn_accepted = accepted, cn_rejected = rejected, cn_elapsedMs = stop - start\<rparr>)))))"

text \<open>An \<open>InventoryService\<close> of its own has its own registry of known stock.\<close>

definition in_new_service :: "('r, 'st, 'b, 'a) saga_act \<Rightarrow> ('r, 'st, 'b, 'a) saga_act" where
  "in_new_service m w = (case m (w\<lparr>co_known := []\<rparr>) of (r, w') \<Rightarrow> (r, w'\<lparr>co_known := co_known w\<rparr>))"

definition instance_calls ::
  "'r redis_like \<Rightarrow> env \<Rightarrow> string \<Rightarrow> string \<Rightarrow> nat \<Rightarrow> nat \<Rightarrow> ('r, 'st, 'b, reservation_result list list) saga_act" where
  "instance_calls R E warehouse sku instances n =
     map_act (\<lambda>_. in_new_service (unit_calls R E warehouse sku n)) (replicate instances ())"

definition testMultiInstanceConcurrency :: "'r redis_like \<Rightarrow> env \<Rightarrow> ('r, 'st, 'b, contention) saga_act" where
  "testMultiInstanceConcurrency R E =
     bind (setStock R WAREHOUSE ''sku-multi-instance-test'' (Num 200)) (\<lambda>_.
     bind (perf_now E) (\<lambda>start.
     bind (instance_calls R E WAREHOUSE ''sku-multi-instance-test'' 10 150) (\<lambda>perInstance.
     bind (perf_now E) (\<lambda>stop.
     bind (getAvailable R E WAREHOUSE ''sku-multi-instance-test'') (\<lambda>finalAvailable.
     let allResults = concat perInstance; accepted = length (filter rr_ok allResults) in
     ret \<lparr>cn_ok = (accepted = 200 \<and> finalAvailable = Num 0), cn_accepted = accepted,
          cn_rejected = 10 * 150 - accepted, cn_elapsedMs = stop - start\<rparr>)))))"

section \<open>Latency\<close>

record latency =
  lt_samples :: nat
  lt_p50 :: rat
  lt_p95 :: rat
  lt_p99 :: rat

definition timed_reserve :: "'r redis_like \<Rightarrow> env \<Rightarrow> string \<Rightarrow> string \<Rightarrow> ('r, 'st, 'b, rat) saga_act" where
  "timed_reserve R E warehouse sku =
     bind (perf_now E) (\<lambda>start.
     bind (reserve R E warehouse sku (Num 1) DEFAULT_RESERVATION_TTL_SECONDS) (\<lambda>_.
     bind (perf_now E) (\<lambda>stop. ret (stop - start))))"

definition timed_calls ::
  "'r redis_like \<Rightarrow> env \<Rightarrow> string \<Rightarrow> string \<Rightarrow> nat \<Rightarrow> ('r, 'st, 'b, rat list) saga_act" where
  "timed_calls R E warehouse sku n = map_act (\<lambda>_. timed_reserve R E warehouse sku) (replicate n ())"

text \<open>For 2000 samples the products with 0.5, 0.95 and 0.99 are exact also in floating point.\<close>

definition pick :: "rat list \<Rightarrow> rat \<Rightarrow> rat" where
  "pick samples p = samples ! nat \<lfloor>of_nat (length samples) * p\<rfloor>"

definition testLatencyPercentiles :: "'r redis_like \<Rightarrow> env \<Rightarrow> ('r, 'st, 'b, latency) saga_act" where
  "testLatencyPercentiles R E =
     bind (setStock R WAREHOUSE ''sku-latency-test'' (Num (2000 + 1000))) (\<lambda>_.
     bind (timed_calls R E WAREHOUSE ''sku-latency-test'' 2000) (\<lambda>samples.
     let sorted = sort samples in
     ret \<lparr>lt_samples = 2000, lt_p50 = pick sorted (1/2), lt_p95 = pick sorted (95/100),
          lt_p99 = pick sorted (99/100)\<rparr>))"

section \<open>Sagas\<close>

text \<open>The new bus, store, gateway and provider of a check; nobody subscribes to the bus.\<close>

definition idle_bus :: app_bus where
  "idle_bus = (new_bus, \<lparr>as_started = [], as_clients = []\<rparr>)"

definition with_new_saga :: "failure_injection \<Rightarrow> ('r, mem_orders, app_bus, unit) saga_act" where
  "with_new_saga paymentFailures = update_state (\<lambda>w. w\<lparr>
     w_payments := new_payment_gateway paymentFailures, w_shipping := new_shipping_provider no_failures,
     w_bus := idle_bus, w_store := []\<rparr>)"

abbreviation script_saga :: "'r redis_like \<Rightarrow> env \<Rightarrow> ('r, mem_orders, app_bus) deps" where
  "script_saga R E \<equiv> SagaOrchestrator R InMemoryOrderStore (InMemoryEventBus app_handler) E"

definition testSagaHappyPath :: "'r redis_like \<Rightarrow> env \<Rightarrow> ('r, mem_orders, app_bus, bool) saga_act" where
  "testSagaHappyPath R E =
     bind (with_new_saga no_failures) (\<lambda>_.
     bind (setStock R WAREHOUSE ''sku-happy-path'' (Num 10)) (\<lambda>_.
     bind (createOrder (script_saga R E) ''cust-1''
             [\<lparr>ol_sku = ''sku-happy-path'', ol_qty = 2, ol_warehouseId = WAREHOUSE\<rparr>] 4999 None) (\<lambda>orderId.
     bind (run (script_saga R E) orderId) (\<lambda>od.
     bind (getAvailable R E WAREHOUSE ''sku-happy-path'') (\<lambda>remaining.
     ret (or_status od = CONFIRMED \<and> remaining = Num 8))))))"

definition testSagaCompensatesOnPaymentFailure ::
  "'r redis_like \<Rightarrow> env \<Rightarrow> ('r, mem_orders, app_bus, bool) saga_act" where
  "testSagaCompensatesOnPaymentFailure R E =
     bind (setStock R WAREHOUSE ''sku-payment-fail'' (Num 10)) (\<lambda>_.
     bind (random_uuid E) (\<lambda>_.
     bind (with_new_saga (no_failures\<lparr>failPaymentForOrderIds := Some {}\<rparr>)) (\<lambda>_.
     bind (createOrder (script_saga R E) ''cust-2''
             [\<lparr>ol_sku = ''sku-payment-fail'', ol_qty = 3, ol_warehouseId = WAREHOUSE\<rparr>] 9999 None) (\<lambda>realOrderId.
     bind (update_state (\<lambda>w. w\<lparr>w_payments := (w_payments w)
             \<lparr>pg_failures := (pg_failures (w_payments w))\<lparr>failPaymentForOrderIds := Some {realOrderId}\<rparr>\<rparr>\<rparr>)) (\<lambda>_.
     bind (getAvailable R E WAREHOUSE ''sku-payment-fail'') (\<lambda>before.
     bind (run (script_saga R E) realOrderId) (\<lambda>od.
     bind (getAvailable R E WAREHOUSE ''sku-payment-fail'') (\<lambda>after.
     ret (or_status od = CANCELLED \<and> before = after \<and> has_event ''order.compensating'' od)))))))))"

definition testSagaCompensatesOnShippingFailure ::
  "'r redis_like \<Rightarrow> env \<Rightarrow> ('r, mem_orders, app_bus, bool) saga_act" where
  "testSagaCompensatesOnShippingFailure R E =
     bind (setStock R WAREHOUSE ''sku-shipping-fail'' (Num 10)) (\<lambda>_.
     bind (with_new_saga no_failures) (\<lambda>_.
     bind (createOrder (script_saga R E) ''cust-3''
             [\<lparr>ol_sku = ''sku-shipping-fail'', ol_qty = 4, ol_warehouseId = WAREHOUSE\<rparr>] 14999 None) (\<lambda>orderId.
     bind (update_state (\<lambda>w. w\<lparr>w_shipping := (w_shipping w)
             \<lparr>sp_failures := (sp_failures (w_shipping w))\<lparr>failShippingForOrderIds := Some {orderId}\<rparr>\<rparr>\<rparr>)) (\<lambda>_.
     bind (getAvailable R E WAREHOUSE ''sku-shipping-fail'') (\<lambda>before.
     bind (run (script_saga R E) orderId) (\<lambda>od.
     bind (getAvailable R E WAREHOUSE ''sku-shipping-fail'') (\<lambda>after.
     ret (or_status od = CANCELLED \<and> before = after))))))))"

section \<open>Convergence\<close>

record convergence =
  cv_ok :: bool
  cv_convergeMs :: rat
  cv_eventsReplayed :: nat

text \<open>The emissions and the partition, \<open>stamps\<close> being the clock readings of the emissions.\<close>

definition partition_events :: "int list \<Rightarrow> warehouse_op list" where
  "partition_events stamps =
     [Emit ''sku-convergence-test'' 100 ''initial-stock'' (stamps ! 0), Disconnect ''wh-del-2''] @
     map (\<lambda>i. Emit ''sku-convergence-test'' (- 1) (''sale-'' @ nat_string i) (stamps ! Suc i)) [0..<25] @
     [Reconnect ''wh-del-2'']"

definition converged :: "int list \<Rightarrow> bool option" where
  "converged stamps =
     (case warehouse_run (partition_events stamps) (build_nodes [''wh-blr-1'', ''wh-del-2'']) of
        None \<Rightarrow> None
      | Some s \<Rightarrow>
          (case (jget (snd s) ''wh-blr-1'', jget (snd s) ''wh-del-2'') of
             (Some nodeA, Some nodeB) \<Rightarrow>
               Some (node_get ''sku-convergence-test'' nodeA = Num (100 - 25) \<and>
                     node_get ''sku-convergence-test'' nodeB = Num (100 - 25))
           | _ \<Rightarrow> None))"

text \<open>A bus that never returned would leave the check waiting.\<close>

definition testWarehouseConvergenceAfterPartition :: "env \<Rightarrow> ('r, 'st, 'b, convergence) saga_act" where
  "testWarehouseConvergenceAfterPartition E =
     bind (map_act (\<lambda>_. date_now E) (replicate 26 ())) (\<lambda>stamps.
     bind (perf_now E) (\<lambda>start.
     bind (perf_now E) (\<lambda>stop.
     case converged stamps of
       None \<Rightarrow> throw NeverSettles
     | Some ok \<Rightarrow> ret \<lparr>cv_ok = ok, cv_convergeMs = stop - start, cv_eventsReplayed = 25\<rparr>)))"

section \<open>main\<close>

record verify_results =
  vr_concurrency :: contention
  vr_latency :: latency
  vr_multiInstanceConcurrency :: contention
  vr_sagaHappyPath :: bool
  vr_sagaPaymentCompensation :: bool
  vr_sagaShippingCompensation :: bool
  vr_warehouseConvergence :: convergence

text \<open>All checks on one Redis, up to the printing of the summary.\<close>

definition verify_main :: "'r redis_like \<Rightarrow> env \<Rightarrow> ('r, mem_orders, app_bus, verify_results) saga_act" where
  "verify_main R E =
     bind (testConcurrencyNoOversell R E) (\<lambda>concurrency.
     bind (testLatencyPercentiles R E) (\<lambda>latency.
     bind (testMultiInstanceConcurrency R E) (\<lambda>multiInstanceConcurrency.
     bind (testSagaHappyPath R E) (\<lambda>sagaHappyPath.
     bind (testSagaCompensatesOnPaymentFailure R E) (\<lambda>sagaPaymentCompensation.
     bind (testSagaCompensatesOnShippingFailure R E) (\<lambda>sagaShippingCompensation.
     bind (testWarehouseConvergenceAfterPartition E) (\<lambda>warehouseConvergence.
     ret \<lparr>vr_concurrency = concurrency, vr_latency = latency,
          vr_multiInstanceConcurrency = multiInstanceConcurrency, vr_sagaHappyPath = sagaHappyPath,
          vr_sagaPaymentCompensation = sagaPaymentCompensation,
          vr_sagaShippingCompensation = sagaShippingCompensation,
          vr_warehouseConvergence = warehouseConvergence\<rparr>)))))))"

end
