(* ===== verification/Verify_Correct.thy ===== *)
theory Verify_Correct
  imports Verify_Script
begin

text \<open>
  The verification script always succeeds: over any Redis client that implements the stock store,
  every check of \<open>Verify_Script\<close> returns and reports \<open>ok\<close>, one after the other on one Redis.
\<close>

section \<open>Identifiers are used once\<close>

definition grows :: "(('r, 'st, 'b) world, 'a) act \<Rightarrow> bool" where
  "grows m \<longleftrightarrow> (\<forall>w. co_uuids w \<le> co_uuids (snd (m w)))"

lemma grows_bind [intro!]:
  assumes "grows m" and "\<And>a. grows (f a)"
  shows "grows (bind m f)"
  unfolding grows_def
proof
  fix w
  show "co_uuids w \<le> co_uuids (snd (bind m f w))"
  proof (cases "m w")
    case (Pair r w1)
    with assms(1) have "co_uuids w \<le> co_uuids w1" by (auto simp: grows_def dest: spec [of _ w])
    moreover have "co_uuids w1 \<le> co_uuids (snd (f a w1))" for a using assms(2) by (simp add: grows_def)
    ultimately show ?thesis using Pair by (cases r) (auto simp: bind_apply intro: order_trans)
  qed
qed

lemma grows_basic [simp, intro]:
  "grows (ret a)" "grows (throw e)" "grows (date_now E)" "grows (perf_now E)" "grows (random_uuid E)"
  "grows (on_redis m)" "grows (on_metrics f)" "grows (noteKnown wh s)" "grows (on_store m')" "grows (on_bus m'')"
  "grows (on_payments p)" "grows (on_shipping q)"
  by (simp_all add: grows_def process_acts noteKnown_def on_store_def on_bus_def on_payments_def on_shipping_def
      split: prod.splits)

lemma grows_if [intro!]: "(c \<Longrightarrow> grows m) \<Longrightarrow> (\<not> c \<Longrightarrow> grows m') \<Longrightarrow> grows (if c then m else m')"
  by simp

lemma grows_for_each [intro!]: "(\<And>x. grows (f x)) \<Longrightarrow> grows (for_each f xs)"
  by (induction xs) auto

lemma grows_inventory [simp, intro]: "grows (reserve R E wh s q ttl)" "grows (resolve R E wh s i mode)"
  by (auto simp: reserve_def resolve_def on_redis_at_def Let_def)

lemma grows_steps [simp, intro]:
  "grows (transition D oid st ty det)" "grows (mustGet D oid)" "grows (fail D oid r det)"
  "grows (release_reservation D r')" "grows (commit_reservation D r')"
  by (auto simp: transition_def mustGet_def fail_def publish_saga_def release_reservation_def commit_reservation_def
      release_def commit_def split: option.splits)

lemma grows_compensate [simp, intro]: "grows (compensate D oid rs p q)"
  by (auto simp: compensate_def)

lemma grows_reserve_loop [simp, intro]: "grows (reserve_loop D ls rs)"
  by (induction ls arbitrary: rs) (auto simp del: bind_Pair)

lemma grows_run: "grows (run D oid)"
  unfolding run_def by (intro grows_bind) (auto split: option.splits prod.splits)

lemma fresh_ids_later: "fresh_ids E n X \<Longrightarrow> n \<le> n' \<Longrightarrow> fresh_ids E n' X"
  by (auto simp: fresh_ids_def)

lemma fresh_after_run:
  assumes "run D oid w = (r, w')" "fresh_ids E (co_uuids w) X"
  shows "fresh_ids E (co_uuids w') X"
  using fresh_ids_later [OF assms(2)] grows_run [of D oid] assms(1) by (auto simp: grows_def dest!: spec [of _ w])

section \<open>The steps of the checks\<close>

definition unit_of :: "string \<Rightarrow> string \<Rightarrow> order_line" where
  "unit_of w s = \<lparr>ol_sku = s, ol_qty = 1, ol_warehouseId = w\<rparr>"

lemma unit_of_fields [simp]:
  "ol_sku (unit_of w s) = s" "ol_qty (unit_of w s) = 1" "ol_warehouseId (unit_of w s) = w" "line_key (unit_of w s) = stockKey w s"
  by (simp_all add: unit_of_def line_key_def)

lemma demand_unit: "demand (replicate m (unit_of w s)) (stockKey w s) = int m"
  by (induction m) simp_all

lemma fulfillable_unit:
  "L (stockKey w s) = Some (int k) \<Longrightarrow> fulfillable L (replicate m (unit_of w s)) \<longleftrightarrow> m \<le> k"
  using demand_unit [of m w s] by (auto simp: fulfillable_iff)

context stock_redis
begin

lemma setStock_holding:
  fixes w :: "('r, 'z) process_scheme"
  assumes "holding E w L \<rho> [] []"
  shows "\<exists>w'. setStock R wh s (Num n) w = (Inr (), w') \<and> holding E w' (L(stockKey wh s \<mapsto> n)) \<rho> [] [] \<and>
     (\<exists>r' known. w' = w\<lparr>co_redis := r', co_known := known\<rparr>)"
proof -
  have inv: "invar (co_redis w)" and r: "repr (env_now E (co_ticks w)) L \<rho> (kv_of (co_redis w))"
    using assms by (simp_all add: holding_def)
  from setStock_run [OF inv] obtain r' where
    r': "setStock R wh s (Num n) w = (Inr (), w\<lparr>co_redis := r', co_known := jset (stockKey wh s) (wh, s) (co_known w)\<rparr>)"
      "invar r'" "kv_of r' = (kv_of (co_redis w))(stockKey wh s \<mapsto> (n, None))" by blast
  have "repr (env_now E (co_ticks w)) (L(stockKey wh s \<mapsto> n)) \<rho> (kv_of r')"
    using r unfolding repr_def r'(3) by (auto simp: lookup_def)
  with r'(1,2) show ?thesis by (auto simp: holding_def)
qed

lemma getAvailable_holding:
  fixes w :: "('r, 'z) process_scheme"
  assumes h: "holding E w L \<rho> tk pl" and clock: "clock_ok E"
    and L: "debit L (lines_of tk) (stockKey wh s) = Some n"
  shows "\<exists>w'. getAvailable R E wh s w = (Inr (Num n), w') \<and> holding E w' L \<rho> tk pl \<and>
     (\<exists>r'. w' = w\<lparr>co_redis := r', co_ticks := Suc (co_ticks w)\<rparr>)"
proof -
  let ?now = "env_now E (co_ticks w)"
  have inv: "invar (co_redis w)" and r: "repr ?now (debit L (lines_of tk)) (pledge \<rho> pl) (kv_of (co_redis w))"
    using h by (simp_all add: holding_def)
  from getAvailable_run [OF inv, of E wh s] obtain r' where
    r': "getAvailable R E wh s w = (Inr (Num (case lookup ?now (kv_of (co_redis w)) (stockKey wh s) of None \<Rightarrow> 0 | Some n \<Rightarrow> n)),
         w\<lparr>co_redis := r', co_ticks := Suc (co_ticks w)\<rparr>)"
      "invar r'" "kv_eq ?now (kv_of r') (kv_of (co_redis w))" by blast
  have "repr (env_now E (Suc (co_ticks w))) (debit L (lines_of tk)) (pledge \<rho> pl) (kv_of r')"
    using repr_later [OF repr_eq [OF r r'(3)]] clock by (simp add: clock_le)
  then show ?thesis
    using r'(1,2) repr_level [OF r, of wh s] L by (auto simp: holding_def)
qed

text \<open>Any stock and any reservations of others: what a check starts from and leaves behind.\<close>

definition ready :: "env \<Rightarrow> ('r, 'z) process_scheme \<Rightarrow> bool" where
  "ready E w \<longleftrightarrow> (\<exists>L \<rho>. holding E w L \<rho> [] [] \<and> fresh_ids E (co_uuids w) (dom \<rho>))"

text \<open>Of the \<open>k\<close> units of a sku, \<open>m\<close> are reserved.\<close>

definition taken_units :: "env \<Rightarrow> string \<Rightarrow> string \<Rightarrow> nat \<Rightarrow> nat \<Rightarrow> ('r, 'z) process_scheme \<Rightarrow> bool" where
  "taken_units E wh s k m w \<longleftrightarrow> (\<exists>L \<rho> tk. holding E w L \<rho> tk tk \<and> separate \<rho> tk \<and>
     lines_of tk = replicate m (unit_of wh s) \<and> L (stockKey wh s) = Some (int k) \<and> m \<le> k \<and>
     fresh_ids E (co_uuids w) (dom \<rho> \<union> set (ids tk)))"

lemma getAvailable_ready:
  fixes w :: "('r, 'z) process_scheme"
  assumes h: "holding E w L \<rho> [] []" and clock: "clock_ok E" and fresh: "fresh_ids E (co_uuids w) (dom \<rho>)"
    and L: "debit L [] (stockKey wh s) = Some n"
  shows "\<exists>w'. getAvailable R E wh s w = (Inr (Num n), w') \<and> ready E w'"
proof -
  have "debit L (lines_of []) (stockKey wh s) = Some n" using L by simp
  from getAvailable_holding [OF h clock this] obtain w' r' where
    "getAvailable R E wh s w = (Inr (Num n), w')" "holding E w' L \<rho> [] []"
    "w' = w\<lparr>co_redis := r', co_ticks := Suc (co_ticks w)\<rparr>" by blast
  with fresh show ?thesis by (auto simp: ready_def)
qed

lemma taken_units_none: "ready E w \<Longrightarrow> \<exists>w'. setStock R wh s (Num (int k)) w = (Inr (), w') \<and> taken_units E wh s k 0 w'"
  using setStock_holding [of E w _ _ wh s "int k"]
  by (fastforce simp: ready_def taken_units_def separate_def)

lemma taken_units_same:
  "taken_units E wh s k m w \<Longrightarrow> clock_ok E \<Longrightarrow> co_redis w' = co_redis w \<Longrightarrow> co_uuids w' = co_uuids w \<Longrightarrow>
     co_ticks w \<le> co_ticks w' \<Longrightarrow> taken_units E wh s k m w'"
  unfolding taken_units_def by (metis holding_tick)

lemma taken_units_le: "taken_units E wh s k m w \<Longrightarrow> m \<le> k"
  by (auto simp: taken_units_def)

lemma taken_units_ready: "taken_units E wh s k m w \<Longrightarrow> ready E w"
proof -
  assume "taken_units E wh s k m w"
  then obtain L \<rho> tk where t: "holding E w L \<rho> tk tk" "fresh_ids E (co_uuids w) (dom \<rho> \<union> set (ids tk))"
    unfolding taken_units_def by blast
  have "dom (pledge \<rho> tk) = dom \<rho> \<union> set (ids tk)"
    by (force simp: pledge_def dom_map_of_conv_image_fst)
  with t show ?thesis unfolding ready_def holding_def
    by (intro exI [of _ "debit L (lines_of tk)"] exI [of _ "pledge \<rho> tk"]) simp
qed

lemma reserve_unit_run:
  fixes w :: "('r, 'st, 'b) world"
  assumes "taken_units E wh s k m w" and clock: "clock_ok E"
  shows "\<exists>res w'. reserve R E wh s (Num 1) DEFAULT_RESERVATION_TTL_SECONDS w = (Inr res, w') \<and>
     (rr_ok res \<longleftrightarrow> m < k) \<and> taken_units E wh s k (min k (Suc m)) w'"
proof -
  let ?l = "unit_of wh s"
  from assms(1) obtain L \<rho> tk where
    t: "holding E w L \<rho> tk tk" "separate \<rho> tk" "lines_of tk = replicate m ?l" "L (stockKey wh s) = Some (int k)" "m \<le> k"
      "fresh_ids E (co_uuids w) (dom \<rho> \<union> set (ids tk))" unfolding taken_units_def by blast
  have full: "fulfillable L (lines_of tk)" using fulfillable_unit [of L wh s k, OF t(4)] t(3,5) by simp
  have snoc: "lines_of tk @ [?l] = replicate (Suc m) ?l" using t(3) by (simp add: replicate_append_same)
  from reserve_line_run [OF t(1,2) full t(6) clock, of ?l]
  obtain res w1 where
    w1: "reserve R E wh s (Num 1) DEFAULT_RESERVATION_TTL_SECONDS w = (Inr res, w1)"
    and c: "if Suc m \<le> k then
        \<exists>i d. rr_ok res \<and> rr_reservationId res = Some i \<and>
          holding E w1 L \<rho> (tk @ [(?l, i, d)]) (tk @ [(?l, i, d)]) \<and>
          separate \<rho> (tk @ [(?l, i, d)]) \<and> env_now E (co_ticks w) + 900000 \<le> d \<and>
          fresh_ids E (co_uuids w1) (dom \<rho> \<union> set (ids (tk @ [(?l, i, d)])))
      else \<not> rr_ok res \<and> holding E w1 L \<rho> tk tk \<and> fresh_ids E (co_uuids w1) (dom \<rho> \<union> set (ids tk))"
    unfolding snoc fulfillable_unit [of L wh s k, OF t(4)] unit_of_fields by blast
  show ?thesis
  proof (cases "Suc m \<le> k")
    case True
    with c obtain i d where i: "rr_ok res" "holding E w1 L \<rho> (tk @ [(?l, i, d)]) (tk @ [(?l, i, d)])"
      "separate \<rho> (tk @ [(?l, i, d)])" "fresh_ids E (co_uuids w1) (dom \<rho> \<union> set (ids (tk @ [(?l, i, d)])))" by auto
    moreover have "lines_of (tk @ [(?l, i, d)]) = replicate (Suc m) ?l" using snoc by simp
    ultimately have "taken_units E wh s k (Suc m) w1"
      using t(4) True unfolding taken_units_def by blast
    with w1 i(1) True show ?thesis by (auto simp: min_def)
  next
    case False
    with c t(5) have "m = k" "\<not> rr_ok res" "holding E w1 L \<rho> tk tk" "fresh_ids E (co_uuids w1) (dom \<rho> \<union> set (ids tk))"
      by auto
    moreover from this t have "taken_units E wh s k m w1" unfolding taken_units_def by blast
    ultimately show ?thesis using w1 by auto
  qed
qed

lemma unit_calls_run:
  fixes w :: "('r, 'st, 'b) world"
  assumes "taken_units E wh s k m w" and clock: "clock_ok E"
  shows "\<exists>rs w'. unit_calls R E wh s n w = (Inr rs, w') \<and> length rs = n \<and>
     length (filter rr_ok rs) = min k (m + n) - m \<and> taken_units E wh s k (min k (m + n)) w'"
  using assms(1)
proof (induction n arbitrary: m w)
  case 0
  then show ?case using taken_units_le [OF 0] by (simp add: unit_calls_def min_absorb2)
next
  case (Suc n)
  from reserve_unit_run [OF Suc.prems clock] obtain res w1 where
    w1: "reserve R E wh s (Num 1) DEFAULT_RESERVATION_TTL_SECONDS w = (Inr res, w1)" "rr_ok res \<longleftrightarrow> m < k"
      "taken_units E wh s k (min k (Suc m)) w1" by blast
  from Suc.IH [OF w1(3)] obtain rs w2 where
    w2: "unit_calls R E wh s n w1 = (Inr rs, w2)" "length rs = n"
      "length (filter rr_ok rs) = min k (min k (Suc m) + n) - min k (Suc m)"
      "taken_units E wh s k (min k (min k (Suc m) + n)) w2" by blast
  note le = taken_units_le [OF Suc.prems]
  have "min k (min k (Suc m) + n) = min k (m + Suc n)" by (simp add: min_def)
  moreover have "unit_calls R E wh s (Suc n) w = (Inr (res # rs), w2)"
    using w1(1) w2(1) by (simp add: unit_calls_def bind_apply)
  ultimately show ?case
    using w1(2) w2(2-4) le by (intro exI [of _ "res # rs"] exI [of _ w2]) (auto simp: min_def)
qed

lemma services_run:
  fixes w :: "('r, 'st, 'b) world"
  assumes "taken_units E wh s k m w" and clock: "clock_ok E"
  shows "\<exists>rss w'. instance_calls R E wh s j q w = (Inr rss, w') \<and>
     length (filter rr_ok (concat rss)) = min k (m + j * q) - m \<and> taken_units E wh s k (min k (m + j * q)) w'"
  using assms(1)
proof (induction j arbitrary: m w)
  case 0
  then show ?case using taken_units_le [OF 0] by (simp add: instance_calls_def min_absorb2)
next
  case (Suc j)
  have "taken_units E wh s k m (w\<lparr>co_known := []\<rparr>)" by (rule taken_units_same [OF Suc.prems clock]) simp_all
  from unit_calls_run [OF this clock, of q] obtain rs w1 where
    r: "unit_calls R E wh s q (w\<lparr>co_known := []\<rparr>) = (Inr rs, w1)" 
      "length (filter rr_ok rs) = min k (m + q) - m" "taken_units E wh s k (min k (m + q)) w1" by blast
  let ?w1 = "w1\<lparr>co_known := co_known w\<rparr>"
  have "taken_units E wh s k (min k (m + q)) ?w1" by (rule taken_units_same [OF r(3) clock]) simp_all
  from Suc.IH [OF this] obtain rss w2 where
    i: "instance_calls R E wh s j q ?w1 = (Inr rss, w2)"
      "length (filter rr_ok (concat rss)) = min k (min k (m + q) + j * q) - min k (m + q)"
      "taken_units E wh s k (min k (min k (m + q) + j * q)) w2" by blast
  note le = taken_units_le [OF Suc.prems]
  have sum: "min k (min k (m + q) + j * q) = min k (m + Suc j * q)" by (simp add: min_def)
  have "in_new_service (unit_calls R E wh s q) w = (Inr rs, ?w1)" using r(1) by (simp add: in_new_service_def)
  then have "instance_calls R E wh s (Suc j) q w = (Inr (rs # rss), w2)"
    using i(1) by (simp add: bind_apply instance_calls_def)
  moreover have "length (filter rr_ok (concat (rs # rss))) = min k (m + Suc j * q) - m"
    using r(2) i(2) le unfolding sum by (simp add: min_def)
  ultimately show ?case using i(3) unfolding sum by blast
qed

lemma timed_calls_run:
  fixes w :: "('r, 'st, 'b) world"
  assumes "taken_units E wh s k m w" and clock: "clock_ok E"
  shows "\<exists>ts w'. timed_calls R E wh s n w = (Inr ts, w') \<and> length ts = n \<and> ready E w'"
  using assms(1)
proof (induction n arbitrary: m w)
  case 0
  then show ?case by (auto simp: timed_calls_def intro: taken_units_ready)
next
  case (Suc n)
  let ?w0 = "w\<lparr>co_ticks := Suc (co_ticks w)\<rparr>"
  have "taken_units E wh s k m ?w0" by (rule taken_units_same [OF Suc.prems clock]) simp_all
  from reserve_unit_run [OF this clock] obtain res w1 where
    w1: "reserve R E wh s (Num 1) DEFAULT_RESERVATION_TTL_SECONDS ?w0 = (Inr res, w1)"
      "taken_units E wh s k (min k (Suc m)) w1" by blast
  let ?w2 = "w1\<lparr>co_ticks := Suc (co_ticks w1)\<rparr>"
  have "taken_units E wh s k (min k (Suc m)) ?w2" by (rule taken_units_same [OF w1(2) clock]) simp_all
  from Suc.IH [OF this] obtain ts w3 where
    w3: "timed_calls R E wh s n ?w2 = (Inr ts, w3)" "length ts = n" "ready E w3" by blast
  have "timed_calls R E wh s (Suc n) w = (Inr ((env_perf E (co_ticks w1) - env_perf E (co_ticks w)) # ts), w3)"
    using w1(1) w3(1) by (simp add: timed_calls_def timed_reserve_def bind_apply perf_now_def)
  with w3(2,3) show ?case
    by (intro exI [of _ "(env_perf E (co_ticks w1) - env_perf E (co_ticks w)) # ts"] exI [of _ w3]) simp
qed

text \<open>What is left of the sku, read after the clock.\<close>

lemma units_left_run:
  fixes w :: "('r, 'st, 'b) world"
  assumes "taken_units E wh s k m w" and clock: "clock_ok E"
  shows "\<exists>w'. getAvailable R E wh s (w\<lparr>co_ticks := Suc (co_ticks w)\<rparr>) = (Inr (Num (int k - int m)), w') \<and> ready E w'"
proof -
  let ?w = "w\<lparr>co_ticks := Suc (co_ticks w)\<rparr>"
  have "taken_units E wh s k m ?w" by (rule taken_units_same [OF assms]) simp_all
  then obtain L \<rho> tk where
    t: "holding E ?w L \<rho> tk tk" "separate \<rho> tk" "lines_of tk = replicate m (unit_of wh s)" "L (stockKey wh s) = Some (int k)"
      "m \<le> k" "fresh_ids E (co_uuids ?w) (dom \<rho> \<union> set (ids tk))" unfolding taken_units_def by blast
  have "debit L (lines_of tk) (stockKey wh s) = Some (int k - int m)" unfolding t(3) debit_def demand_unit by (simp add: t(4))
  from getAvailable_holding [OF t(1) clock this] obtain w' r' where
    w': "getAvailable R E wh s ?w = (Inr (Num (int k - int m)), w')" "holding E w' L \<rho> tk tk"
      "w' = ?w\<lparr>co_redis := r', co_ticks := Suc (co_ticks ?w)\<rparr>" by blast
  have "taken_units E wh s k m w'" using w'(2) t(2-6) unfolding taken_units_def w'(3) by force
  then show ?thesis using w'(1) taken_units_ready by blast
qed

lemma no_oversell_run:
  fixes w :: "('r, 'st, 'b) world"
  assumes "ready E w" and clock: "clock_ok E"
  shows "\<exists>w' t. testConcurrencyNoOversell R E w =
     (Inr \<lparr>cn_ok = True, cn_accepted = 50, cn_rejected = 450, cn_elapsedMs = t\<rparr>, w') \<and> ready E w'"
proof -
  let ?s = "''sku-concurrency-test''"
  from taken_units_none [OF assms(1), of WAREHOUSE ?s 50] obtain w1 where
    w1: "setStock R WAREHOUSE ?s (Num 50) w = (Inr (), w1)" "taken_units E WAREHOUSE ?s 50 0 w1" by auto
  let ?w2 = "w1\<lparr>co_ticks := Suc (co_ticks w1)\<rparr>"
  have "taken_units E WAREHOUSE ?s 50 0 ?w2" by (rule taken_units_same [OF w1(2) clock]) simp_all
  from unit_calls_run [OF this clock, of 500] obtain rs w3 where
    w3: "unit_calls R E WAREHOUSE ?s 500 ?w2 = (Inr rs, w3)" "length rs = 500" "length (filter rr_ok rs) = 50"
      "taken_units E WAREHOUSE ?s 50 50 w3" by auto
  from units_left_run [OF w3(4) clock] obtain w4 where
    w4: "getAvailable R E WAREHOUSE ?s (w3\<lparr>co_ticks := Suc (co_ticks w3)\<rparr>) = (Inr (Num 0), w4)" "ready E w4" by auto
  have "length (filter (\<lambda>r. \<not> rr_ok r) rs) = 450" using sum_length_filter_compl [of rr_ok rs] w3(2,3) by simp
  then show ?thesis
    using w1(1) w3(1,3) w4 by (simp add: testConcurrencyNoOversell_def bind_apply perf_now_def Let_def)
qed

lemma multi_instance_run:
  fixes w :: "('r, 'st, 'b) world"
  assumes "ready E w" and clock: "clock_ok E"
  shows "\<exists>w' t. testMultiInstanceConcurrency R E w =
     (Inr \<lparr>cn_ok = True, cn_accepted = 200, cn_rejected = 1300, cn_elapsedMs = t\<rparr>, w') \<and> ready E w'"
proof -
  let ?s = "''sku-multi-instance-test''"
  from taken_units_none [OF assms(1), of WAREHOUSE ?s 200] obtain w1 where
    w1: "setStock R WAREHOUSE ?s (Num 200) w = (Inr (), w1)" "taken_units E WAREHOUSE ?s 200 0 w1" by auto
  let ?w2 = "w1\<lparr>co_ticks := Suc (co_ticks w1)\<rparr>"
  have "taken_units E WAREHOUSE ?s 200 0 ?w2" by (rule taken_units_same [OF w1(2) clock]) simp_all
  from services_run [OF this clock, of 10 150] obtain rss w3 where
    w3: "instance_calls R E WAREHOUSE ?s 10 150 ?w2 = (Inr rss, w3)"
      "length (filter rr_ok (concat rss)) = 200" "taken_units E WAREHOUSE ?s 200 200 w3" by auto
  from units_left_run [OF w3(3) clock] obtain w4 where
    w4: "getAvailable R E WAREHOUSE ?s (w3\<lparr>co_ticks := Suc (co_ticks w3)\<rparr>) = (Inr (Num 0), w4)" "ready E w4" by auto
  show ?thesis
    using w1(1) w3(1,2) w4 by (simp add: testMultiInstanceConcurrency_def bind_apply perf_now_def Let_def)
qed

lemma latency_run:
  fixes w :: "('r, 'st, 'b) world"
  assumes "ready E w" and clock: "clock_ok E"
  shows "\<exists>w' t. testLatencyPercentiles R E w = (Inr t, w') \<and> lt_p50 t \<le> lt_p95 t \<and> lt_p95 t \<le> lt_p99 t \<and> ready E w'"
proof -
  let ?s = "''sku-latency-test''"
  from taken_units_none [OF assms(1), of WAREHOUSE ?s 3000] obtain w1 where
    w1: "setStock R WAREHOUSE ?s (Num 3000) w = (Inr (), w1)" "taken_units E WAREHOUSE ?s 3000 0 w1" by auto
  from timed_calls_run [OF w1(2) clock, of 2000] obtain ts w2 where
    w2: "timed_calls R E WAREHOUSE ?s 2000 w1 = (Inr ts, w2)" "length ts = 2000" "ready E w2" by blast
  have "sort ts ! i \<le> sort ts ! j" if "i \<le> j" "j < 2000" for i j
    using that w2(2) by (intro sorted_nth_mono) simp_all
  then show ?thesis
    using w1(1) w2 by (simp add: testLatencyPercentiles_def bind_apply Let_def pick_def)
qed

end

context saga
begin

lemma create_run:
  assumes "ok (w_store w)" and "bus_ok (w_bus w)" and oid: "oid = env_uuid E (co_uuids w)" and "valid_id oid"
    and "valid_scope (Scoped biz)" and "orders_of (w_store w) oid = None" and "0 < amount" "amount < 2 ^ 31"
    and "0 < ol_qty l" "ol_qty l < 2 ^ 31"
  shows "\<exists>w' od. createOrder (SagaOrchestrator R S B E) customer [l] amount biz w = (Inr oid, w') \<and>
     tracks E w' oid od \<and> or_lines od = [l] \<and> or_id od = oid \<and> or_history od = [] \<and>
     co_redis w' = co_redis w \<and> w_payments w' = w_payments w \<and> w_shipping w' = w_shipping w \<and>
     co_ticks w \<le> co_ticks w' \<and> co_uuids w' = Suc (co_uuids w)"
proof -
  let ?od = "\<lparr>or_id = oid, or_customerId = customer, or_lines = [l], or_amountCents = amount, or_status = CREATED,
     or_history = [], or_createdAt = env_now E (co_ticks w), or_updatedAt = env_now E (Suc (co_ticks w)),
     or_businessId = biz\<rparr>"
  have "storable ?od" using assms(7-10) by (simp add: storable_def)
  with create_law [OF assms(1), of ?od] assms(4-6) obtain st' where
    st': "os_create S ?od (w_store w) = (Inr (), st')" "ok st'" "orders_of st' = (orders_of (w_store w))(oid \<mapsto> ?od)" by auto
  let ?w1 = "w\<lparr>co_uuids := Suc (co_uuids w), co_ticks := Suc (Suc (co_ticks w)), w_store := st'\<rparr>"
  from publish_saga_run [of ?w1 E oid "''order.created''" "created_payload customer [l] amount biz"] assms(2) obtain w2 where
    w2: "publish_saga (SagaOrchestrator R S B E) oid ''order.created'' (created_payload customer [l] amount biz) ?w1 = (Inr (), w2)"
      "bus_ok (w_bus w2)" "keeps ?w1 w2" "w_store w2 = st'" "co_ticks w2 = Suc (co_ticks ?w1)" by auto
  have "createOrder (SagaOrchestrator R S B E) customer [l] amount biz w = (Inr oid, w2)"
    using st'(1) w2(1) oid by (simp add: createOrder_def bind_apply random_uuid_def date_now_def on_store_def zoom_apply)
  moreover have "tracks E w2 oid ?od" using w2(2,4) st'(2,3) by (simp add: tracks_def)
  ultimately show ?thesis
    using w2(3,5) by (intro exI [of _ w2] exI [of _ ?od]) (simp add: keeps_def)
qed

text \<open>A run of an order of one line that the stock covers, on a participant that may decline.\<close>

lemma covered_run:
  assumes t: "tracks E w oid od" and od: "or_lines od = [l]" "or_id od = oid" and h: "holding E w L \<rho> [] []"
    and fresh: "fresh_ids E (co_uuids w) (dom \<rho>)" and clock: "clock_ok E"
    and window: "\<forall>i. env_now E (i + 13) < env_now E i + 900000" and full: "fulfillable L [l]"
    and pay: "pay \<longleftrightarrow> injected (failPaymentForOrderIds (pg_failures (w_payments w))) oid"
    and ship: "ship \<longleftrightarrow> injected (failShippingForOrderIds (sp_failures (w_shipping w))) oid"
  shows "\<exists>w' od'. run (SagaOrchestrator R S B E) oid w = (Inr od', w') \<and>
     or_status od' = (if pay \<or> ship then CANCELLED else CONFIRMED) \<and> (pay \<longrightarrow> has_event ''order.compensating'' od') \<and>
     holding E w' (if pay \<or> ship then L else debit L [l]) \<rho> [] []"
proof -
  have win: "env_now E (co_ticks w + 4 * length (or_lines od) + 9) < env_now E (co_ticks w) + 900000"
    using window by (simp add: od add.commute)
  from run_outcome [OF t h fresh clock win] obtain w' od' v rs where
    r: "run (SagaOrchestrator R S B E) oid w = (Inr od', w')" "verdict_ok L od (w_payments w) (w_shipping w) v"
      "went E oid (verdict_steps oid rs v) w od w' od'"
      "holding E w' (if v = Done then debit L (or_lines od) else L) \<rho> [] []" by blast
  have v: "v = (if pay then No_Payment else if ship then No_Courier else Done)"
    using r(2) full pay ship by (cases v) (auto simp: verdict_ok_def od)
  have u: "untimed od' = fold (apply_step kept) (verdict_steps oid rs v) (untimed od)" using r(3) by (simp add: went_def)
  have "or_status od' = (if v = Done then CONFIRMED else CANCELLED)"
    using arg_cong [OF u, of or_status] by (simp add: verdict_status)
  moreover have "has_event ''order.compensating'' od'" if pay
  proof -
    have "has_event ''order.compensating'' (untimed od')"
      unfolding u using v that by (simp add: has_event_def declined_by_def rollback_def apply_step_def with_event_def)
    then show ?thesis by (auto simp: has_event_def untimed_def)
  qed
  ultimately show ?thesis
    using r(1,4) v od by (intro exI [of _ w'] exI [of _ od']) (auto split: if_splits)
qed

end

lemma idle_bus_ready [simp]: "bus_ready idle_bus"
  by (simp add: idle_bus_def new_bus_def bus_ready_def)

lemma no_injection [simp]:
  "\<not> injected (failPaymentForOrderIds no_failures) i" "\<not> injected (failShippingForOrderIds no_failures) i"
  by (simp_all add: no_failures_def)

lemma covers_line: "L (line_key l) = Some n \<Longrightarrow> 0 < ol_qty l \<Longrightarrow> ol_qty l \<le> n \<Longrightarrow> fulfillable L [l]"
  using fulfillable_snoc [of L "[]" l] by simp

context stock_redis
begin

lemma script_is_saga:
  "saga R kv_of invar InMemoryOrderStore (\<lambda>orders. jget orders) ims_ok (\<lambda>_. True) (\<lambda>_. True) (\<lambda>j. j)
     (InMemoryEventBus app_handler) bus_ready"
  by (intro saga.intro stock_redis_axioms ims.order_store_axioms app.inmem.event_bus_laws_axioms)

lemma happy_path_run:
  assumes "ready E w" and clock: "clock_ok E" and window: "\<forall>i. env_now E (i + 13) < env_now E i + 900000"
  shows "\<exists>w'. testSagaHappyPath R E w = (Inr True, w') \<and> ready E w'"
proof -
  from assms(1) obtain L \<rho> where h: "holding E w L \<rho> [] []" and fresh: "fresh_ids E (co_uuids w) (dom \<rho>)"
    unfolding ready_def by blast
  let ?s = "''sku-happy-path''" and ?oid = "env_uuid E (co_uuids w)"
  let ?l = "\<lparr>ol_sku = ?s, ol_qty = 2, ol_warehouseId = WAREHOUSE\<rparr>" and ?L = "L(stockKey WAREHOUSE ''sku-happy-path'' \<mapsto> 10)"
  let ?w0 = "w\<lparr>w_payments := new_payment_gateway no_failures, w_shipping := new_shipping_provider no_failures,
     w_bus := idle_bus, w_store := []\<rparr>"
  have "holding E ?w0 L \<rho> [] []" using h by (simp add: holding_def)
  from setStock_holding [OF this, of WAREHOUSE ?s 10] obtain w1 r1 k1 where
    w1: "setStock R WAREHOUSE ?s (Num 10) ?w0 = (Inr (), w1)" "holding E w1 ?L \<rho> [] []"
      "w1 = ?w0\<lparr>co_redis := r1, co_known := k1\<rparr>" by blast
  from saga.create_run [OF script_is_saga, where w = w1 and E = E and amount = 4999 and l = ?l and oid = ?oid and biz = None
      and customer = "''cust-1''"] obtain w2 od where
    w2: "createOrder (script_saga R E) ''cust-1'' [?l] 4999 None w1 = (Inr ?oid, w2)"
      "saga.tracks (\<lambda>orders. jget orders) ims_ok bus_ready E w2 ?oid od" "or_lines od = [?l]" "or_id od = ?oid"
      "co_redis w2 = co_redis w1" "w_payments w2 = w_payments w1" "w_shipping w2 = w_shipping w1"
      "co_ticks w1 \<le> co_ticks w2" "co_uuids w2 = Suc (co_uuids w1)"
    by (auto simp: w1(3))
  have h2: "holding E w2 ?L \<rho> [] []" by (rule holding_tick [OF w1(2) clock w2(5,8)])
  have f2: "fresh_ids E (co_uuids w2) (dom \<rho>)" using fresh_ids_later [OF fresh] w2(9) w1(3) by simp
  have "fulfillable ?L [?l]" by (rule covers_line [of _ _ 10]) (simp_all add: line_key_def)
  from saga.covered_run [OF script_is_saga w2(2-4) h2 f2 clock window this, of False False] obtain w3 od' where
    w3: "run (script_saga R E) ?oid w2 = (Inr od', w3)" "or_status od' = CONFIRMED" "holding E w3 (debit ?L [?l]) \<rho> [] []"
    using w2(6,7) w1(3) by (auto simp: new_payment_gateway_def new_shipping_provider_def)
  have "debit (debit ?L [?l]) [] (stockKey WAREHOUSE ?s) = Some 8" by (simp add: debit_def line_key_def)
  from getAvailable_ready [OF w3(3) clock fresh_after_run [OF w3(1) f2] this] obtain w4 where
    "getAvailable R E WAREHOUSE ?s w3 = (Inr (Num 8), w4)" "ready E w4" by blast
  then show ?thesis
    using w1(1) w2(1) w3(1,2) by (simp add: testSagaHappyPath_def with_new_saga_def bind_apply)
qed

lemma declined_run:
  fixes w :: "('r, mem_orders, app_bus) world"
  assumes h: "holding E w (L(stockKey WAREHOUSE s \<mapsto> 10)) \<rho> [] []" and fresh: "fresh_ids E (co_uuids w) (dom \<rho>)"
    and clock: "clock_ok E" and window: "\<forall>i. env_now E (i + 13) < env_now E i + 900000"
    and t: "saga.tracks (\<lambda>orders. jget orders) ims_ok bus_ready E w oid od" "or_lines od = [l]" "or_id od = oid"
    and l: "ol_sku l = s" "ol_warehouseId l = WAREHOUSE" "0 < ol_qty l" "ol_qty l \<le> 10"
    and declined: "injected (failPaymentForOrderIds (pg_failures (w_payments w))) oid \<or>
       injected (failShippingForOrderIds (sp_failures (w_shipping w))) oid"
  shows "\<exists>od' w1 w2 w3. getAvailable R E WAREHOUSE s w = (Inr (Num 10), w1) \<and>
     run (script_saga R E) oid w1 = (Inr od', w2) \<and> getAvailable R E WAREHOUSE s w2 = (Inr (Num 10), w3) \<and> ready E w3 \<and>
     or_status od' = CANCELLED \<and>
     (injected (failPaymentForOrderIds (pg_failures (w_payments w))) oid \<longrightarrow> has_event ''order.compensating'' od')"
proof -
  let ?L = "L(stockKey WAREHOUSE s \<mapsto> 10)"
  have lev: "debit ?L (lines_of []) (stockKey WAREHOUSE s) = Some 10" by simp
  from getAvailable_holding [OF h clock lev] obtain w1 r' where
    w1: "getAvailable R E WAREHOUSE s w = (Inr (Num 10), w1)" "holding E w1 ?L \<rho> [] []"
      "w1 = w\<lparr>co_redis := r', co_ticks := Suc (co_ticks w)\<rparr>" by blast
  have t1: "saga.tracks (\<lambda>orders. jget orders) ims_ok bus_ready E w1 oid od"
    using t(1) clock_le [OF clock, of "co_ticks w" "Suc (co_ticks w)"]
    unfolding saga.tracks_def [OF script_is_saga] w1(3) by (auto intro: order_trans)
  have f1: "fresh_ids E (co_uuids w1) (dom \<rho>)" using fresh by (simp add: w1(3))
  have "fulfillable ?L [l]" by (rule covers_line [of _ _ 10]) (simp_all add: line_key_def l)
  from saga.covered_run [OF script_is_saga t1 t(2,3) w1(2) f1 clock window this refl refl] declined obtain od' w2 where
    w2: "run (script_saga R E) oid w1 = (Inr od', w2)" "or_status od' = CANCELLED" "holding E w2 ?L \<rho> [] []"
      "injected (failPaymentForOrderIds (pg_failures (w_payments w))) oid \<longrightarrow> has_event ''order.compensating'' od'"
    by (auto simp: w1(3))
  have d: "debit ?L [] (stockKey WAREHOUSE s) = Some 10" using lev by simp
  from getAvailable_ready [OF w2(3) clock fresh_after_run [OF w2(1) f1] d] w1(1) w2 show ?thesis by blast
qed

lemma payment_failure_run:
  assumes "ready E w" and clock: "clock_ok E" and window: "\<forall>i. env_now E (i + 13) < env_now E i + 900000"
  shows "\<exists>w'. testSagaCompensatesOnPaymentFailure R E w = (Inr True, w') \<and> ready E w'"
proof -
  from assms(1) obtain L \<rho> where h: "holding E w L \<rho> [] []" and fresh: "fresh_ids E (co_uuids w) (dom \<rho>)"
    unfolding ready_def by blast
  let ?s = "''sku-payment-fail''" and ?oid = "env_uuid E (Suc (co_uuids w))"
  let ?l = "\<lparr>ol_sku = ?s, ol_qty = 3, ol_warehouseId = WAREHOUSE\<rparr>" and ?L = "L(stockKey WAREHOUSE ''sku-payment-fail'' \<mapsto> 10)"
  from setStock_holding [OF h, of WAREHOUSE ?s 10] obtain w1 r1 k1 where
    w1: "setStock R WAREHOUSE ?s (Num 10) w = (Inr (), w1)" "holding E w1 ?L \<rho> [] []"
      "w1 = w\<lparr>co_redis := r1, co_known := k1\<rparr>" by blast
  let ?w2 = "w1\<lparr>co_uuids := Suc (co_uuids w), w_payments := new_payment_gateway (no_failures\<lparr>failPaymentForOrderIds := Some {}\<rparr>),
     w_shipping := new_shipping_provider no_failures, w_bus := idle_bus, w_store := []\<rparr>"
  have h2: "holding E ?w2 ?L \<rho> [] []" using w1(2) by (simp add: holding_def)
  from saga.create_run [OF script_is_saga, where w = ?w2 and E = E and amount = 9999 and l = ?l and oid = ?oid and biz = None
      and customer = "''cust-2''"] obtain w3 od where
    w3: "createOrder (script_saga R E) ''cust-2'' [?l] 9999 None ?w2 = (Inr ?oid, w3)"
      "saga.tracks (\<lambda>orders. jget orders) ims_ok bus_ready E w3 ?oid od" "or_lines od = [?l]" "or_id od = ?oid"
      "co_redis w3 = co_redis ?w2" "co_ticks ?w2 \<le> co_ticks w3" "co_uuids w3 = Suc (co_uuids ?w2)"
    by auto
  let ?w4 = "w3\<lparr>w_payments := (w_payments w3)\<lparr>pg_failures := (pg_failures (w_payments w3))
     \<lparr>failPaymentForOrderIds := Some {?oid}\<rparr>\<rparr>\<rparr>"
  have h4: "holding E ?w4 ?L \<rho> [] []" by (rule holding_tick [OF h2 clock]) (use w3(5,6) in simp_all)
  have f4: "fresh_ids E (co_uuids ?w4) (dom \<rho>)" using fresh_ids_later [OF fresh] w3(7) by simp
  have t4: "saga.tracks (\<lambda>orders. jget orders) ims_ok bus_ready E ?w4 ?oid od"
    using w3(2) unfolding saga.tracks_def [OF script_is_saga] by simp
  from declined_run [OF h4 f4 clock window t4 w3(3,4)] obtain od' w5 w6 w7 where
    "getAvailable R E WAREHOUSE ?s ?w4 = (Inr (Num 10), w5)" "run (script_saga R E) ?oid w5 = (Inr od', w6)"
    "getAvailable R E WAREHOUSE ?s w6 = (Inr (Num 10), w7)" "ready E w7" "or_status od' = CANCELLED" "has_event ''order.compensating'' od'"
    by auto
  then show ?thesis
    using w1(1,3) w3(1)
    by (simp add: testSagaCompensatesOnPaymentFailure_def with_new_saga_def bind_apply random_uuid_def)
qed

lemma shipping_failure_run:
  assumes "ready E w" and clock: "clock_ok E" and window: "\<forall>i. env_now E (i + 13) < env_now E i + 900000"
  shows "\<exists>w'. testSagaCompensatesOnShippingFailure R E w = (Inr True, w') \<and> ready E w'"
proof -
  from assms(1) obtain L \<rho> where h: "holding E w L \<rho> [] []" and fresh: "fresh_ids E (co_uuids w) (dom \<rho>)"
    unfolding ready_def by blast
  let ?s = "''sku-shipping-fail''" and ?oid = "env_uuid E (co_uuids w)"
  let ?l = "\<lparr>ol_sku = ?s, ol_qty = 4, ol_warehouseId = WAREHOUSE\<rparr>" and ?L = "L(stockKey WAREHOUSE ''sku-shipping-fail'' \<mapsto> 10)"
  from setStock_holding [OF h, of WAREHOUSE ?s 10] obtain w1 r1 k1 where
    w1: "setStock R WAREHOUSE ?s (Num 10) w = (Inr (), w1)" "holding E w1 ?L \<rho> [] []"
      "w1 = w\<lparr>co_redis := r1, co_known := k1\<rparr>" by blast
  let ?w2 = "w1\<lparr>w_payments := new_payment_gateway no_failures,
     w_shipping := new_shipping_provider no_failures, w_bus := idle_bus, w_store := []\<rparr>"
  have h2: "holding E ?w2 ?L \<rho> [] []" using w1(2) by (simp add: holding_def)
  from saga.create_run [OF script_is_saga, where w = ?w2 and E = E and amount = 14999 and l = ?l and oid = ?oid and biz = None
      and customer = "''cust-3''"] obtain w3 od where
    w3: "createOrder (script_saga R E) ''cust-3'' [?l] 14999 None ?w2 = (Inr ?oid, w3)"
      "saga.tracks (\<lambda>orders. jget orders) ims_ok bus_ready E w3 ?oid od" "or_lines od = [?l]" "or_id od = ?oid"
      "co_redis w3 = co_redis ?w2" "co_ticks ?w2 \<le> co_ticks w3" "co_uuids w3 = Suc (co_uuids ?w2)"
    by (auto simp: w1(3))
  let ?w4 = "w3\<lparr>w_shipping := (w_shipping w3)\<lparr>sp_failures := (sp_failures (w_shipping w3))
     \<lparr>failShippingForOrderIds := Some {?oid}\<rparr>\<rparr>\<rparr>"
  have h4: "holding E ?w4 ?L \<rho> [] []" by (rule holding_tick [OF h2 clock]) (use w3(5,6) in simp_all)
  have f4: "fresh_ids E (co_uuids ?w4) (dom \<rho>)" using fresh_ids_later [OF fresh] w3(7) w1(3) by simp
  have t4: "saga.tracks (\<lambda>orders. jget orders) ims_ok bus_ready E ?w4 ?oid od"
    using w3(2) unfolding saga.tracks_def [OF script_is_saga] by simp
  from declined_run [OF h4 f4 clock window t4 w3(3,4)] obtain od' w5 w6 w7 where
    "getAvailable R E WAREHOUSE ?s ?w4 = (Inr (Num 10), w5)" "run (script_saga R E) ?oid w5 = (Inr od', w6)"
    "getAvailable R E WAREHOUSE ?s w6 = (Inr (Num 10), w7)" "ready E w7" "or_status od' = CANCELLED"
    by auto
  then show ?thesis
    using w1(1) w3(1)
    by (simp add: testSagaCompensatesOnShippingFailure_def with_new_saga_def bind_apply)
qed

end

lemma built_connected: "jget (snd (build_nodes js)) i = Some n \<Longrightarrow> wn_connected n"
proof -
  have "wn_connected n" if "jget (snd (fold new_node js s)) i = Some n" "\<forall>n. jget (snd s) i = Some n \<longrightarrow> wn_connected n" for s
    using that
  proof (induction js arbitrary: s)
    case Nil
    then show ?case by simp
  next
    case (Cons j js)
    have "\<forall>n. jget (snd (new_node j s)) i = Some n \<longrightarrow> wn_connected n"
      using Cons.prems(2) by (auto simp: new_node_def fresh_node_def)
    with Cons.IH [of "new_node j s"] Cons.prems(1) show ?case by simp
  qed
  from this [of "(new_bus, [])"] show "jget (snd (build_nodes js)) i = Some n \<Longrightarrow> wn_connected n"
    by (simp add: build_nodes_def)
qed

lemma emissions_connect: "fold (connects i) (map (\<lambda>k. Emit (sku k) (d k) (r k) (t k)) ks) c = c"
  by (induction ks) (simp_all add: connects_def)

lemma converged_run: "converged stamps = Some True"
proof -
  let ?ids = "[''wh-blr-1'', ''wh-del-2'']" and ?s = "''sku-convergence-test''" and ?xs = "partition_events stamps"
  from network_ok_build [of ?ids] have b: "network_ok ?ids (build_nodes ?ids)" "stock_log (build_nodes ?ids) = []" by simp_all
  from network_ok_run [OF b(1), of ?xs] b(2) obtain s where
    s: "warehouse_run ?xs (build_nodes ?ids) = Some s" "network_ok ?ids s" "stock_log s = emitted ?xs" by auto
  have sum: "level ?s (emitted ?xs) = Num 75"
    unfolding level_stock_events by (simp add: partition_events_def comp_def upt_rec)
  have "\<exists>n. jget (snd s) i = Some n \<and> node_get ?s n = Num 75" if i: "i \<in> set ?ids" for i
  proof -
    from s(2,3) i obtain n where n: "jget (snd s) i = Some n" "node_agrees (emitted ?xs) n"
      unfolding network_ok_def jhas_def by fastforce
    from connected_run [OF b(1) s(1), of i] n(1) obtain n0 where
      n0: "jget (snd (build_nodes ?ids)) i = Some n0" "wn_connected n = fold (connects i) ?xs (wn_connected n0)"
      by (cases "jget (snd (build_nodes ?ids)) i") simp_all
    have "wn_connected n"
      using n0(2) built_connected [OF n0(1)] i
      by (auto simp: partition_events_def emissions_connect connects_def)
    with n(2) sum have "node_get ?s n = Num 75" by (simp add: node_agrees_def)
    with n(1) show ?thesis by blast
  qed
  from this [of "''wh-blr-1''"] this [of "''wh-del-2''"] s(1) show ?thesis
    by (auto simp: converged_def)
qed

lemma stamps_run: "\<exists>ts. map_act (\<lambda>_. date_now E) xs w = (Inr ts, w\<lparr>co_ticks := co_ticks w + length xs\<rparr>)"
proof (induction xs arbitrary: w)
  case Nil
  then show ?case by simp
next
  case (Cons x xs)
  from Cons.IH [of "w\<lparr>co_ticks := Suc (co_ticks w)\<rparr>"] show ?case by (auto simp: bind_apply date_now_def)
qed

lemma convergence_run:
  "\<exists>w' t. testWarehouseConvergenceAfterPartition E w =
     (Inr \<lparr>cv_ok = True, cv_convergeMs = t, cv_eventsReplayed = 25\<rparr>, w')"
proof -
  from stamps_run [of E "replicate 26 ()" w] obtain ts where
    ts: "map_act (\<lambda>_. date_now E) (replicate 26 ()) w = (Inr ts, w\<lparr>co_ticks := co_ticks w + 26\<rparr>)" by auto
  show ?thesis
    unfolding testWarehouseConvergenceAfterPartition_def bind_Inr [of "map_act _ _", OF ts]
    by (simp add: bind_apply perf_now_def converged_run)
qed

text \<open>The whole script: what \<open>results\<close> holds when \<open>main\<close> prints it.\<close>

definition all_passed :: "verify_results \<Rightarrow> bool" where
  "all_passed r \<longleftrightarrow>
     cn_ok (vr_concurrency r) \<and> cn_accepted (vr_concurrency r) = 50 \<and> cn_rejected (vr_concurrency r) = 450 \<and>
     lt_p50 (vr_latency r) \<le> lt_p95 (vr_latency r) \<and> lt_p95 (vr_latency r) \<le> lt_p99 (vr_latency r) \<and>
     cn_ok (vr_multiInstanceConcurrency r) \<and> cn_accepted (vr_multiInstanceConcurrency r) = 200 \<and>
     vr_sagaHappyPath r \<and> vr_sagaPaymentCompensation r \<and> vr_sagaShippingCompensation r \<and>
     cv_ok (vr_warehouseConvergence r)"

context stock_redis
begin

lemma main_run:
  assumes "ready E w" and clock: "clock_ok E" and window: "\<forall>i. env_now E (i + 13) < env_now E i + 900000"
  shows "\<exists>r w'. verify_main R E w = (Inr r, w') \<and> all_passed r"
proof -
  from no_oversell_run [OF assms(1) clock] obtain w1 t1 where
    r1: "testConcurrencyNoOversell R E w = (Inr \<lparr>cn_ok = True, cn_accepted = 50, cn_rejected = 450, cn_elapsedMs = t1\<rparr>, w1)"
      "ready E w1" by blast
  from latency_run [OF r1(2) clock] obtain w2 t2 where
    r2: "testLatencyPercentiles R E w1 = (Inr t2, w2)" "lt_p50 t2 \<le> lt_p95 t2" "lt_p95 t2 \<le> lt_p99 t2" "ready E w2" by blast
  from multi_instance_run [OF r2(4) clock] obtain w3 t3 where
    r3: "testMultiInstanceConcurrency R E w2 =
        (Inr \<lparr>cn_ok = True, cn_accepted = 200, cn_rejected = 1300, cn_elapsedMs = t3\<rparr>, w3)" "ready E w3" by blast
  from happy_path_run [OF r3(2) clock window] obtain w4 where
    r4: "testSagaHappyPath R E w3 = (Inr True, w4)" "ready E w4" by blast
  from payment_failure_run [OF r4(2) clock window] obtain w5 where
    r5: "testSagaCompensatesOnPaymentFailure R E w4 = (Inr True, w5)" "ready E w5" by blast
  from shipping_failure_run [OF r5(2) clock window] obtain w6 where
    r6: "testSagaCompensatesOnShippingFailure R E w5 = (Inr True, w6)" by blast
  from convergence_run [of E w6] obtain w7 t7 where
    r7: "testWarehouseConvergenceAfterPartition E w6 =
        (Inr \<lparr>cv_ok = True, cv_convergeMs = t7, cv_eventsReplayed = 25\<rparr>, w7)" by blast
  show ?thesis
    using r2(2,3) by (simp add: verify_main_def bind_apply r1(1) r2(1) r3(1) r4(1) r5(1) r6 r7 all_passed_def)
qed

end



end
