(* ===== verification/Pg_Schema.thy ===== *)
theory Pg_Schema
  imports Order_Refinement
begin

text \<open>
  The constraints of \<open>docs/schema.sql\<close> as an invariant of the tables, kept by every method of
  \<open>PgOrderStore\<close> on any arguments, and the atomicity of its transactions.
\<close>

section \<open>The schema\<close>

definition uuid_value :: "(string \<Rightarrow> string option) \<Rightarrow> string \<Rightarrow> bool" where
  "uuid_value uuid_in u \<longleftrightarrow> Some u \<in> range uuid_in"

definition positive_integer :: "int \<Rightarrow> bool" where
  "positive_integer n \<longleftrightarrow> 0 < n \<and> n < 2 ^ 31"

definition schema_ok :: "(string \<Rightarrow> string option) \<Rightarrow> pg_db \<Rightarrow> bool" where
  "schema_ok uuid_in db \<longleftrightarrow>
     distinct (map ow_id (db_orders db)) \<and>
     (\<forall>r \<in> set (db_orders db). uuid_value uuid_in (ow_id r) \<and> pred_option (uuid_value uuid_in) (ow_business_id r) \<and>
        positive_integer (ow_amount_cents r)) \<and>
     distinct (map line_pkey (db_lines db)) \<and>
     (\<forall>l \<in> set (db_lines db). lw_order_id l \<in> ow_id ` set (db_orders db) \<and> positive_integer (lw_qty l)) \<and>
     distinct (map ew_id (db_events db)) \<and>
     (\<forall>e \<in> set (db_events db). ew_order_id e \<in> ow_id ` set (db_orders db) \<and> ew_id e < db_next_event db)"

lemma schema_ok_new: "schema_ok uuid_in new_pg_db"
  by (simp add: schema_ok_def new_pg_db_def)

lemma schema_ok_serial: "schema_ok uuid_in db \<Longrightarrow> db_next_event db \<le> n \<Longrightarrow> schema_ok uuid_in (db\<lparr>db_next_event := n\<rparr>)"
  by (fastforce simp: schema_ok_def)

section \<open>Statements and transactions keep it\<close>

text \<open>An action keeps the schema and gives a value that satisfies \<open>Q\<close>; serial numbers do not go back.\<close>

definition keeps_schema :: "(string \<Rightarrow> string option) \<Rightarrow> ('a \<Rightarrow> bool) \<Rightarrow> (pg_db, 'a) act \<Rightarrow> bool" where
  "keeps_schema uuid_in Q m \<longleftrightarrow> (\<forall>db. schema_ok uuid_in db \<longrightarrow>
     (case m db of (r, db') \<Rightarrow> schema_ok uuid_in db' \<and> db_next_event db \<le> db_next_event db' \<and> (\<forall>a. r = Inr a \<longrightarrow> Q a)))"

lemma keeps_schemaI:
  assumes "\<And>db r db'. schema_ok uuid_in db \<Longrightarrow> m db = (r, db') \<Longrightarrow>
    schema_ok uuid_in db' \<and> db_next_event db \<le> db_next_event db' \<and> (\<forall>a. r = Inr a \<longrightarrow> Q a)"
  shows "keeps_schema uuid_in Q m"
  using assms unfolding keeps_schema_def by fast

lemma keeps_schemaD:
  "keeps_schema uuid_in Q m \<Longrightarrow> schema_ok uuid_in db \<Longrightarrow> m db = (r, db') \<Longrightarrow>
     schema_ok uuid_in db' \<and> db_next_event db \<le> db_next_event db' \<and> (\<forall>a. r = Inr a \<longrightarrow> Q a)"
  unfolding keeps_schema_def by (drule spec [of _ db]) simp

lemma keeps_bind:
  assumes m: "keeps_schema uuid_in Q m" and f: "\<And>a. Q a \<Longrightarrow> keeps_schema uuid_in Q' (f a)"
  shows "keeps_schema uuid_in Q' (bind m f)"
proof (rule keeps_schemaI)
  fix db r db' assume db: "schema_ok uuid_in db" and r: "bind m f db = (r, db')"
  obtain r1 db1 where m1: "m db = (r1, db1)" by (cases "m db")
  note k = keeps_schemaD [OF m db m1]
  show "schema_ok uuid_in db' \<and> db_next_event db \<le> db_next_event db' \<and> (\<forall>a. r = Inr a \<longrightarrow> Q' a)"
  proof (cases r1)
    case (Inl e)
    then show ?thesis using r k m1 by (auto simp: bind_apply)
  next
    case (Inr a)
    then have "f a db1 = (r, db')" using r m1 by (simp add: bind_apply)
    then show ?thesis using keeps_schemaD [OF f, of a db1 r db'] k Inr by auto
  qed
qed

lemma keeps_throw: "keeps_schema uuid_in Q (throw e)"
  by (simp add: keeps_schema_def)

lemma keeps_ret: "Q a \<Longrightarrow> keeps_schema uuid_in Q (ret a)"
  by (simp add: keeps_schema_def)

lemma keeps_for_each: "(\<And>x. keeps_schema uuid_in (\<lambda>_. True) (f x)) \<Longrightarrow> keeps_schema uuid_in (\<lambda>_. True) (for_each f xs)"
  by (induction xs) (auto intro: keeps_bind keeps_ret)

lemma keeps_cast: "keeps_schema uuid_in (uuid_value uuid_in) (cast_uuid uuid_in s)"
proof (cases "uuid_in s")
  case (Some u)
  then have "uuid_value uuid_in u" unfolding uuid_value_def by (metis rangeI)
  with Some show ?thesis by (simp only: cast_uuid_def option.case keeps_ret)
qed (simp add: cast_uuid_def keeps_throw)

lemma keeps_cast_null: "keeps_schema uuid_in (pred_option (uuid_value uuid_in)) (cast_uuid_null uuid_in x)"
proof (cases x)
  case (Some s)
  show ?thesis unfolding Some cast_uuid_null_def option.case
    by (rule keeps_bind [OF keeps_cast]) (rule keeps_ret, simp)
qed (simp only: cast_uuid_null_def option.case keeps_ret option.pred_inject)

lemma keeps_insert_order:
  assumes "uuid_value uuid_in (ow_id row)" "pred_option (uuid_value uuid_in) (ow_business_id row)"
  shows "keeps_schema uuid_in (\<lambda>_. True) (insert_order row)"
  by (rule keeps_schemaI)
     (use assms in \<open>auto simp: insert_order_def schema_ok_def fits_integer_def positive_integer_def split: if_splits\<close>)

lemma keeps_insert_line: "keeps_schema uuid_in (\<lambda>_. True) (insert_line row)"
  by (rule keeps_schemaI)
     (auto simp: insert_line_def schema_ok_def fits_integer_def positive_integer_def split: if_splits)

lemma keeps_insert_event: "keeps_schema uuid_in (\<lambda>_. True) (insert_event oid ty det ts)"
  by (rule keeps_schemaI)
     (fastforce simp: insert_event_def schema_ok_def Let_def split: if_splits)

lemma schema_ok_rows:
  assumes db: "schema_ok uuid_in db" and ids: "map ow_id rows = map ow_id (db_orders db)"
    and rows: "\<forall>r \<in> set rows. uuid_value uuid_in (ow_id r) \<and> pred_option (uuid_value uuid_in) (ow_business_id r) \<and>
       positive_integer (ow_amount_cents r)"
  shows "schema_ok uuid_in (db\<lparr>db_orders := rows\<rparr>)"
proof -
  have "ow_id ` set rows = ow_id ` set (db_orders db)" using arg_cong [OF ids, of set] by simp
  then show ?thesis using db rows ids by (simp add: schema_ok_def)
qed

lemma keeps_update_order: "keeps_schema uuid_in (\<lambda>_. True) (update_order oid status ts)"
proof (rule keeps_schemaI)
  fix db r db' assume db: "schema_ok uuid_in db" and r: "update_order oid status ts db = (r, db')"
  have "schema_ok uuid_in (db\<lparr>db_orders := map (restatus oid status ts) (db_orders db)\<rparr>)"
  proof (rule schema_ok_rows [OF db])
    have "\<forall>r \<in> set (db_orders db). uuid_value uuid_in (ow_id r) \<and> pred_option (uuid_value uuid_in) (ow_business_id r) \<and>
       positive_integer (ow_amount_cents r)" using db by (simp add: schema_ok_def)
    then show "\<forall>r \<in> set (map (restatus oid status ts) (db_orders db)). uuid_value uuid_in (ow_id r) \<and>
       pred_option (uuid_value uuid_in) (ow_business_id r) \<and> positive_integer (ow_amount_cents r)"
      by (auto simp: restatus_def)
  qed simp
  then show "schema_ok uuid_in db' \<and> db_next_event db \<le> db_next_event db' \<and> (\<forall>a. r = Inr a \<longrightarrow> True)"
    using r by (auto simp: update_order_def)
qed

lemma keeps_transaction:
  assumes "keeps_schema uuid_in (\<lambda>_. True) body"
  shows "keeps_schema uuid_in (\<lambda>_. True) (transaction body)"
proof (rule keeps_schemaI)
  fix db r db' assume db: "schema_ok uuid_in db" and r: "transaction body db = (r, db')"
  obtain r1 db1 where b: "body db = (r1, db1)" by (cases "body db")
  from keeps_schemaD [OF assms db b] r b db
  show "schema_ok uuid_in db' \<and> db_next_event db \<le> db_next_event db' \<and> (\<forall>a. r = Inr a \<longrightarrow> True)"
    by (cases r1) (auto simp: transaction_def schema_ok_serial)
qed

lemma keeps_create: "keeps_schema uuid_in (\<lambda>_. True) (pg_create uuid_in od)"
  unfolding pg_create_def
  by (intro keeps_transaction keeps_bind [OF keeps_cast] keeps_bind [OF keeps_cast_null]
      keeps_bind [OF keeps_insert_order] keeps_for_each keeps_insert_line) simp_all

lemma keeps_updateStatus: "keeps_schema uuid_in (\<lambda>_. True) (pg_updateStatus uuid_in jsonb oid status ev now)"
  unfolding pg_updateStatus_def
  by (intro keeps_transaction keeps_bind [OF keeps_cast] keeps_bind [OF keeps_update_order])
     (simp add: keeps_throw keeps_insert_event)

section \<open>Queries change nothing\<close>

definition reads_only :: "(pg_db, 'a) act \<Rightarrow> bool" where
  "reads_only m \<longleftrightarrow> (\<forall>db. snd (m db) = db)"

lemma reads_bind [intro!]:
  assumes "reads_only m" "\<And>a. reads_only (f a)"
  shows "reads_only (bind m f)"
  unfolding reads_only_def
proof
  fix db
  have "snd (m db) = db" "\<And>a db. snd (f a db) = db" using assms by (simp_all add: reads_only_def)
  then show "snd (bind m f db) = db" by (cases "m db") (auto simp: bind_apply split: sum.splits)
qed

lemma reads_basic [simp, intro]: "reads_only (ret a)" "reads_only (throw e)" "reads_only (read_state g)"
  by (simp_all add: reads_only_def)

lemma reads_casts [simp, intro]: "reads_only (cast_uuid uuid_in s)" "reads_only (cast_uuid_null uuid_in x)"
  by (auto simp: reads_only_def cast_uuid_def cast_uuid_null_def bind_apply split: option.splits)

lemma reads_map [intro!]: "(\<And>x. reads_only (f x)) \<Longrightarrow> reads_only (map_act f xs)"
  by (induction xs) auto

lemma reads_queries [simp, intro]:
  "reads_only (scope_condition uuid_in sc)" "reads_only (linesFor uuid_in xs)" "reads_only (eventsFor uuid_in xs)"
  by (auto simp: scope_condition_def linesFor_def eventsFor_def split: scope.splits)

lemma reads_hydrate [simp, intro]: "reads_only (hydrateAll uuid_in rows)"
  by (auto simp: hydrateAll_def)

lemma reads_methods:
  "reads_only (pg_get uuid_in oid sc)" "reads_only (pg_all uuid_in sc)" "reads_only (pg_nonTerminal uuid_in)"
  by (auto simp: pg_get_def pg_all_def pg_nonTerminal_def split: option.splits)

lemma reads_keeps:
  assumes ro: "reads_only m"
  shows "keeps_schema uuid_in (\<lambda>_. True) m"
proof (rule keeps_schemaI)
  fix db r db' assume db: "schema_ok uuid_in db" and m: "m db = (r, db')"
  have "snd (m db) = db" using ro by (simp add: reads_only_def)
  with db m show "schema_ok uuid_in db' \<and> db_next_event db \<le> db_next_event db' \<and> (\<forall>a. r = Inr a \<longrightarrow> True)" by simp
qed

section \<open>The invariant of the database\<close>

lemma keeps_call: "keeps_schema uuid_in (\<lambda>_. True) (store_call (PgOrderStore uuid_in jsonb) x)"
proof -
  have then_ret: "keeps_schema uuid_in (\<lambda>_. True) m \<Longrightarrow> keeps_schema uuid_in (\<lambda>_. True) (bind m (\<lambda>a. ret (f a)))"
    for m :: "(pg_db, 'a) act" and f :: "'a \<Rightarrow> order_answer"
    by (erule keeps_bind) (simp add: keeps_ret)
  show ?thesis
    using then_ret [OF keeps_create] then_ret [OF keeps_updateStatus] reads_methods [THEN reads_keeps, THEN then_ret]
    by (cases x) (simp_all add: PgOrderStore_def keeps_bind [OF reads_keeps [OF reads_methods(1)]] keeps_bind [OF reads_keeps [OF reads_methods(2)]]
        keeps_bind [OF reads_keeps [OF reads_methods(3)]] keeps_bind [OF keeps_create] keeps_bind [OF keeps_updateStatus] keeps_ret)
qed

lemma keeps_run: "schema_ok uuid_in db \<Longrightarrow> schema_ok uuid_in (snd (store_run (PgOrderStore uuid_in jsonb) xs db))"
proof (induction xs arbitrary: db)
  case Nil
  then show ?case by simp
next
  case (Cons x xs)
  obtain a db1 where a: "store_call (PgOrderStore uuid_in jsonb) x db = (a, db1)"
    by (cases "store_call (PgOrderStore uuid_in jsonb) x db")
  then have "schema_ok uuid_in db1" using keeps_schemaD [OF keeps_call Cons.prems a] by blast
  from Cons.IH [OF this] a show ?case by (auto simp: case_prod_beta)
qed

lemma rejected_transaction: "transaction body db = (Inl e, db') \<Longrightarrow> db' = db\<lparr>db_next_event := db_next_event db'\<rparr>"
  by (auto simp: transaction_def split: prod.splits sum.splits)

lemma rejected_query:
  assumes "reads_only m" "bind m (\<lambda>a. ret (f a)) db = (Inl e, db')"
  shows "db' = db\<lparr>db_next_event := db_next_event db'\<rparr>"
proof -
  have "snd (m db) = db" using assms(1) by (simp add: reads_only_def)
  then have "db' = db" using assms(2) by (auto simp: bind_apply split: prod.splits sum.splits)
  then show ?thesis by simp
qed

lemma rejected_call:
  assumes "store_call (PgOrderStore uuid_in jsonb) x db = (Inl e, db')"
  shows "db' = db\<lparr>db_next_event := db_next_event db'\<rparr>"
proof -
  show ?thesis
  proof (cases x)
    case (OsCreate od)
    have "pg_create uuid_in od db = (Inl e, db')"
      using assms OsCreate by (auto simp: PgOrderStore_def bind_apply split: prod.splits sum.splits)
    then show ?thesis unfolding pg_create_def by (rule rejected_transaction)
  next
    case (OsUpdate oid status ev now)
    have "pg_updateStatus uuid_in jsonb oid status ev now db = (Inl e, db')"
      using assms OsUpdate by (auto simp: PgOrderStore_def bind_apply split: prod.splits sum.splits)
    then show ?thesis unfolding pg_updateStatus_def by (rule rejected_transaction)
  next
    case (OsGet oid sc)
    then show ?thesis using rejected_query [OF reads_methods(1)] assms by (simp add: PgOrderStore_def)
  next
    case (OsAll sc)
    then show ?thesis using rejected_query [OF reads_methods(2)] assms by (simp add: PgOrderStore_def)
  next
    case OsNonTerminal
    then show ?thesis using rejected_query [OF reads_methods(3)] assms by (simp add: PgOrderStore_def)
  qed
qed

text \<open>C18: The database keeps its schema, whatever the store is asked. After any calls with any arguments, from the
  empty tables on, those that Postgres rejects included: ids are unique and of type UUID,
  the lines of an order unique per item and warehouse, amounts and quantities positive integers,
  every line and event belongs to an order, and serial numbers are unique and used up; and a
  call that is rejected changes no row, however far its transaction had come.\<close>

theorem database_keeps_its_schema:
  "schema_ok uuid_in (snd (store_run (PgOrderStore uuid_in jsonb) xs new_pg_db)) \<and>
   (case store_call (PgOrderStore uuid_in jsonb) x (snd (store_run (PgOrderStore uuid_in jsonb) xs new_pg_db)) of
      (Inl _, db') \<Rightarrow> \<exists>n. db' = (snd (store_run (PgOrderStore uuid_in jsonb) xs new_pg_db))\<lparr>db_next_event := n\<rparr>
    | (Inr _, db') \<Rightarrow> schema_ok uuid_in db')"
proof -
  let ?db = "snd (store_run (PgOrderStore uuid_in jsonb) xs new_pg_db)"
  have ok: "schema_ok uuid_in ?db" by (rule keeps_run [OF schema_ok_new])
  obtain a db' where a: "store_call (PgOrderStore uuid_in jsonb) x ?db = (a, db')"
    by (cases "store_call (PgOrderStore uuid_in jsonb) x ?db")
  show ?thesis
  proof (cases a)
    case (Inl e)
    with a rejected_call have "db' = ?db\<lparr>db_next_event := db_next_event db'\<rparr>" by blast
    then have "\<exists>n. db' = ?db\<lparr>db_next_event := n\<rparr>" by blast
    then show ?thesis using ok a Inl by simp
  next
    case (Inr r)
    then show ?thesis using ok a keeps_schemaD [OF keeps_call ok a] by simp
  qed
qed

end
