(* ===== verification/Threads.thy ===== *)
theory Threads
  imports Prelude
begin

text \<open>
  Asynchronous functions that run interleaved. A call that has started is a thread: it is
  finished, or it waits at an \<open>await\<close> and, when it is resumed, does everything up to its next
  \<open>await\<close> in one step. A pool of threads over one state is driven by a schedule, the list of the
  threads that are resumed one after the other. The proof rules are those of a shared invariant:
  each thread owns a piece of ghost state, and every step has to keep the invariant of the
  shared state and all the pieces.
\<close>

section \<open>Threads\<close>

datatype ('s, 'a) thread =
    Finished "js_error + 'a"
  | Await "'s \<Rightarrow> ('s, 'a) thread \<times> 's"

definition tret :: "'a \<Rightarrow> ('s, 'a) thread" where
  "tret a = Finished (Inr a)"

text \<open>\<open>await f()\<close>, where the effect of \<open>f\<close> is one step.\<close>

definition await :: "('s, 'a) act \<Rightarrow> ('s, 'a) thread" where
  "await m = Await (\<lambda>s. case m s of (r, s') \<Rightarrow> (Finished r, s'))"

text \<open>What follows a call: nothing, when the call threw.\<close>

primrec tbind :: "('s, 'a) thread \<Rightarrow> ('a \<Rightarrow> ('s, 'b) thread) \<Rightarrow> ('s, 'b) thread" where
  "tbind (Finished r) f = (case r of Inl e \<Rightarrow> Finished (Inl e) | Inr a \<Rightarrow> f a)"
| "tbind (Await k) f = Await (map_prod (\<lambda>p. tbind p f) id \<circ> k)"

fun for_each_thread :: "('x \<Rightarrow> ('s, unit) thread) \<Rightarrow> 'x list \<Rightarrow> ('s, unit) thread" where
  "for_each_thread f [] = tret ()"
| "for_each_thread f (x # xs) = tbind (f x) (\<lambda>_. for_each_thread f xs)"

text \<open>A thread that is driven to its end with nothing in between is an action.\<close>

primrec drive :: "('s, 'a) thread \<Rightarrow> ('s, 'a) act" where
  "drive (Finished r) = (\<lambda>s. (r, s))"
| "drive (Await k) = (\<lambda>s. case (map_prod drive id \<circ> k) s of (m, s') \<Rightarrow> m s')"

lemma drive_Await: "drive (Await k) s = drive (fst (k s)) (snd (k s))"
  by (cases "k s") simp

named_theorems drive_simps \<open>driving a thread is running its program\<close>

lemma drive_tret [drive_simps]: "drive (tret a) = ret a"
  by (simp add: tret_def fun_eq_iff)

lemma drive_await [drive_simps]: "drive (await m) = m"
  by (simp add: await_def fun_eq_iff split: prod.splits)

lemma drive_tbind [drive_simps]: "drive (tbind p f) = bind (drive p) (\<lambda>a. drive (f a))"
proof (induction p)
  case (Finished r)
  then show ?case by (cases r) (simp_all add: fun_eq_iff bind_def)
next
  case (Await k)
  have "drive (tbind (fst (k s)) f) (snd (k s)) = bind (drive (fst (k s))) (\<lambda>a. drive (f a)) (snd (k s))" for s
    using Await [of "k s" "fst (k s)"] by (cases "k s") (metis fst_conv fsts.intros rangeI)
  then show ?case
    by (simp add: fun_eq_iff bind_def drive_Await del: drive.simps(2))
qed

lemma drive_for_each [drive_simps]: "drive (for_each_thread f xs) = for_each (\<lambda>x. drive (f x)) xs"
  by (induction xs) (simp_all add: drive_simps)

lemma drive_if [drive_simps]: "drive (if b then p else q) = (if b then drive p else drive q)"
  by simp

section \<open>Pools and schedules\<close>

text \<open>Resuming the i-th thread; a finished thread stays as it is.\<close>

definition resume :: "nat \<Rightarrow> ('s, 'a) thread list \<times> 's \<Rightarrow> ('s, 'a) thread list \<times> 's" where
  "resume i c = (case c of (ps, s) \<Rightarrow>
     if i < length ps then
       (case ps ! i of
          Finished r \<Rightarrow> (ps, s)
        | Await k \<Rightarrow> (case k s of (p, s') \<Rightarrow> (ps[i := p], s')))
     else (ps, s))"

fun interleave :: "nat list \<Rightarrow> ('s, 'a) thread list \<times> 's \<Rightarrow> ('s, 'a) thread list \<times> 's" where
  "interleave [] c = c"
| "interleave (i # is) c = interleave is (resume i c)"

lemma resume_length [simp]: "length (fst (resume i c)) = length (fst c)"
  by (simp add: resume_def split: prod.splits thread.splits)

lemma interleave_length [simp]: "length (fst (interleave is c)) = length (fst c)"
  by (induction "is" arbitrary: c) simp_all

lemma interleave_append: "interleave (is @ js) c = interleave js (interleave is c)"
  by (induction "is" arbitrary: c) simp_all

text \<open>A thread alone in its pool runs as the program it stands for.\<close>

lemma interleave_alone:
  "\<exists>n. interleave (replicate n 0) ([p], s) = ([Finished (fst (drive p s))], snd (drive p s))"
proof (induction p arbitrary: s)
  case (Finished r)
  show ?case by (intro exI [of _ 0]) simp
next
  case (Await k)
  have "fst (k s) \<in> Basic_BNFs.fsts (k s)" by (cases "k s") (simp add: fsts.intros)
  from Await [OF rangeI this] obtain n where "interleave (replicate n 0) ([fst (k s)], snd (k s)) =
      ([Finished (fst (drive (fst (k s)) (snd (k s))))], snd (drive (fst (k s)) (snd (k s))))" by blast
  then have "interleave (replicate (Suc n) 0) ([Await k], s) =
      ([Finished (fst (drive (Await k) s))], snd (drive (Await k) s))"
    unfolding drive_Await by (simp add: resume_def split_beta)
  then show ?case by blast
qed

section \<open>Proof rules\<close>

text \<open>
  \<open>J m s gs\<close> is the invariant of the shared state \<open>s\<close> and of the ghost pieces \<open>gs\<close>, one per
  thread, with at most \<open>m\<close> steps to come. A thread that owns \<open>g\<close> is safe for \<open>n\<close> steps when it
  ends within \<open>n\<close> steps in a result that fits the piece it then owns, and each of its steps keeps
  the invariant whatever the other threads own, and wherever it stands among them.
\<close>

primrec safe ::
  "(nat \<Rightarrow> 's \<Rightarrow> 'g list \<Rightarrow> bool) \<Rightarrow> nat \<Rightarrow> ('s, 'a) thread \<Rightarrow> (js_error + 'a \<Rightarrow> 'g \<Rightarrow> bool) \<Rightarrow> 'g \<Rightarrow> bool" where
  "safe J 0 p Q g = (case p of Finished r \<Rightarrow> Q r g | Await k \<Rightarrow> False)"
| "safe J (Suc n) p Q g =
     (case p of
        Finished r \<Rightarrow> Q r g
      | Await k \<Rightarrow> \<forall>m s gs i. i < length gs \<and> gs ! i = g \<and> J (Suc m) s gs \<longrightarrow>
          (\<exists>g'. J m (snd (k s)) (gs[i := g']) \<and> safe J n (fst (k s)) Q g'))"

lemma safe_Finished [simp]: "safe J n (Finished r) Q g = Q r g"
  by (cases n) simp_all

lemma safe_tret [simp]: "safe J n (tret a) Q g = Q (Inr a) g"
  by (simp add: tret_def)

lemma safe_AwaitI:
  assumes "\<And>m s gs i. i < length gs \<Longrightarrow> gs ! i = g \<Longrightarrow> J (Suc m) s gs \<Longrightarrow>
     \<exists>g'. J m (snd (k s)) (gs[i := g']) \<and> safe J n (fst (k s)) Q g'"
  shows "safe J (Suc n) (Await k) Q g"
  using assms by simp

lemma safe_AwaitD:
  "safe J (Suc n) (Await k) Q g \<Longrightarrow> i < length gs \<Longrightarrow> gs ! i = g \<Longrightarrow> J (Suc m) s gs \<Longrightarrow>
     \<exists>g'. J m (snd (k s)) (gs[i := g']) \<and> safe J n (fst (k s)) Q g'"
  by simp

lemma safe_await:
  assumes "\<And>m s gs i. i < length gs \<Longrightarrow> gs ! i = g \<Longrightarrow> J (Suc m) s gs \<Longrightarrow>
     \<exists>r s' g'. a s = (r, s') \<and> J m s' (gs[i := g']) \<and> Q r g'"
  shows "safe J (Suc 0) (await a) Q g"
  unfolding await_def
proof (rule safe_AwaitI)
  fix m s gs i
  assume "i < length gs" "gs ! i = g" "J (Suc m) s gs"
  from assms [OF this] obtain r s' g' where "a s = (r, s')" "J m s' (gs[i := g'])" "Q r g'" by blast
  then show "\<exists>g'. J m (snd (case a s of (r, s') \<Rightarrow> (Finished r, s'))) (gs[i := g']) \<and>
      safe J 0 (fst (case a s of (r, s') \<Rightarrow> (Finished r, s'))) Q g'" by auto
qed

lemma safe_mono:
  "safe J n p Q g \<Longrightarrow> n \<le> n' \<Longrightarrow> (\<And>r g. Q r g \<Longrightarrow> Q' r g) \<Longrightarrow> safe J n' p Q' g"
proof (induction n arbitrary: n' p g)
  case 0
  then show ?case by (cases p) auto
next
  case (Suc n)
  obtain m where m: "n' = Suc m" "n \<le> m" using Suc.prems(2) by (cases n') auto
  show ?case
  proof (cases p)
    case (Finished r)
    then show ?thesis using Suc.prems by simp
  next
    case (Await k)
    show ?thesis
      unfolding Await m(1)
    proof (rule safe_AwaitI)
      fix l s gs i
      assume "i < length gs" "gs ! i = g" "J (Suc l) s gs"
      from safe_AwaitD [OF Suc.prems(1) [unfolded Await] this] obtain g' where
        "J l (snd (k s)) (gs[i := g'])" "safe J n (fst (k s)) Q g'" by blast
      then show "\<exists>g'. J l (snd (k s)) (gs[i := g']) \<and> safe J m (fst (k s)) Q' g'"
        using Suc.IH [OF _ m(2) Suc.prems(3)] by blast
    qed
  qed
qed

lemma safe_bind:
  assumes "safe J n p (\<lambda>r g. case r of Inl e \<Rightarrow> Q (Inl e) g | Inr a \<Rightarrow> safe J m (f a) Q g) g"
  shows "safe J (n + m) (tbind p f) Q g"
  using assms
proof (induction n arbitrary: p g)
  case 0
  then show ?case by (cases p) (auto split: sum.splits)
next
  case (Suc n)
  show ?case
  proof (cases p)
    case (Finished r)
    with Suc.prems show ?thesis
      by (cases r) (auto simp del: safe.simps elim: safe_mono)
  next
    case (Await k)
    show ?thesis
      unfolding Await add_Suc tbind.simps
    proof (rule safe_AwaitI)
      fix l s gs i
      assume "i < length gs" "gs ! i = g" "J (Suc l) s gs"
      from safe_AwaitD [OF Suc.prems [unfolded Await] this] obtain g' where "J l (snd (k s)) (gs[i := g'])"
        "safe J n (fst (k s)) (\<lambda>r g. case r of Inl e \<Rightarrow> Q (Inl e) g | Inr a \<Rightarrow> safe J m (f a) Q g) g'" by blast
      then show "\<exists>g'. J l (snd ((map_prod (\<lambda>p. tbind p f) id \<circ> k) s)) (gs[i := g']) \<and>
          safe J (n + m) (fst ((map_prod (\<lambda>p. tbind p f) id \<circ> k) s)) Q g'"
        using Suc.IH by auto
    qed
  qed
qed

text \<open>One step and the rest, for steps that do not throw.\<close>

lemma safe_step:
  assumes "\<And>m s gs i. i < length gs \<Longrightarrow> gs ! i = g \<Longrightarrow> J (Suc m) s gs \<Longrightarrow>
     \<exists>x s' g'. a s = (Inr x, s') \<and> J m s' (gs[i := g']) \<and> P x g'"
    and "\<And>x g'. P x g' \<Longrightarrow> safe J n (f x) Q g'"
  shows "safe J (Suc n) (tbind (await a) f) Q g"
proof -
  have "safe J (Suc 0 + n) (tbind (await a) f) Q g"
  proof (rule safe_bind, rule safe_await)
    fix m s gs i
    assume "i < length gs" "gs ! i = g" "J (Suc m) s gs"
    from assms(1) [OF this] obtain x s' g' where "a s = (Inr x, s')" "J m s' (gs[i := g'])" "P x g'" by blast
    with assms(2) show "\<exists>r s' g'. a s = (r, s') \<and> J m s' (gs[i := g']) \<and>
        (case r of Inl e \<Rightarrow> Q (Inl e) g' | Inr x \<Rightarrow> safe J n (f x) Q g')" by auto
  qed
  then show ?thesis by simp
qed

lemma safe_then:
  assumes "safe J n p (\<lambda>r g. \<exists>x. r = Inr x \<and> P x g) g" and "\<And>x g. P x g \<Longrightarrow> safe J m (f x) Q g"
  shows "safe J (n + m) (tbind p f) Q g"
  by (rule safe_bind) (rule safe_mono [OF assms(1) order_refl], use assms(2) in auto)

lemma safe_then_le:
  assumes "safe J n p (\<lambda>r g. \<exists>x. r = Inr x \<and> P x g) g" and "\<And>x g. P x g \<Longrightarrow> safe J m (f x) Q g" and "n + m \<le> k"
  shows "safe J k (tbind p f) Q g"
  using safe_then [OF assms(1,2)] assms(3) by (rule safe_mono)

text \<open>A loop: each iteration takes the piece from what is left to what is left after it.\<close>

lemma safe_for_each:
  assumes "\<And>x xs g. I (x # xs) g \<Longrightarrow> safe J k (f x) (\<lambda>r g. r = Inr () \<and> I xs g) g"
  shows "I xs g \<Longrightarrow> safe J (k * length xs) (for_each_thread f xs) (\<lambda>r g. r = Inr () \<and> I [] g) g"
proof (induction xs arbitrary: g)
  case Nil
  then show ?case by simp
next
  case (Cons x xs)
  have "safe J (k + k * length xs) (tbind (f x) (\<lambda>_. for_each_thread f xs)) (\<lambda>r g. r = Inr () \<and> I [] g) g"
    using assms [OF Cons.prems] Cons.IH by (intro safe_then [where P = "\<lambda>_. I xs"]) (auto elim: safe_mono)
  then show ?case by simp
qed

text \<open>
  Every schedule keeps the invariant; a thread that has been resumed as often as its bound says
  is finished.
\<close>

definition pool_safe ::
  "(nat \<Rightarrow> 's \<Rightarrow> 'g list \<Rightarrow> bool) \<Rightarrow> (nat \<Rightarrow> js_error + 'a \<Rightarrow> 'g \<Rightarrow> bool) \<Rightarrow> nat list \<Rightarrow>
     ('s, 'a) thread list \<times> 's \<Rightarrow> 'g list \<Rightarrow> bool" where
  "pool_safe J Q ns c gs \<longleftrightarrow> length ns = length (fst c) \<and> length gs = length (fst c) \<and>
     (\<forall>i < length (fst c). safe J (ns ! i) (fst c ! i) (Q i) (gs ! i)) \<and> J (sum_list ns) (snd c) gs"

lemma resume_safe:
  assumes safe: "pool_safe J Q ns (ps, s) gs" and i: "i < length ps"
    and weaken: "\<And>m s gs. J (Suc m) s gs \<Longrightarrow> J m s gs"
  shows "\<exists>gs'. pool_safe J Q (ns[i := ns ! i - 1]) (resume i (ps, s)) gs'"
proof -
  from safe have len: "length ns = length ps" "length gs = length ps"
    and each: "\<And>j. j < length ps \<Longrightarrow> safe J (ns ! j) (ps ! j) (Q j) (gs ! j)" and J: "J (sum_list ns) s gs"
    by (auto simp: pool_safe_def)
  show ?thesis
  proof (cases "ns ! i")
    case 0
    then obtain r where "ps ! i = Finished r" using each [OF i] by (cases "ps ! i") auto
    then have "pool_safe J Q (ns[i := ns ! i - 1]) (resume i (ps, s)) gs"
      using safe i 0 by (simp add: resume_def list_update_same_conv [THEN iffD2] len)
    then show ?thesis by blast
  next
    case (Suc n)
    have sum: "sum_list ns = Suc (sum_list (ns[i := n]))"
      using i Suc elem_le_sum_list [of i ns] by (simp add: sum_list_update len)
    show ?thesis
    proof (cases "ps ! i")
      case (Finished r)
      have "J (sum_list (ns[i := n])) s gs" using J weaken by (simp add: sum)
      moreover have "safe J (ns[i := n] ! j) (ps ! j) (Q j) (gs ! j)" if "j < length ps" for j
        using each [OF that] Finished that len by (cases "j = i") simp_all
      ultimately have "pool_safe J Q (ns[i := n]) (ps, s) gs"
        using len by (simp add: pool_safe_def)
      then show ?thesis using i Finished Suc by (auto simp: resume_def)
    next
      case (Await k)
      from safe_AwaitD [OF each [OF i, unfolded Suc Await] _ refl J [unfolded sum]] i len(2) obtain g' where
        g': "J (sum_list (ns[i := n])) (snd (k s)) (gs[i := g'])" "safe J n (fst (k s)) (Q i) g'" by auto
      have "safe J (ns[i := n] ! j) (ps[i := fst (k s)] ! j) (Q j) (gs[i := g'] ! j)" if "j < length ps" for j
        using each [OF that] g'(2) that len by (cases "j = i") simp_all
      with g'(1) have "pool_safe J Q (ns[i := n]) (ps[i := fst (k s)], snd (k s)) (gs[i := g'])"
        using len by (simp add: pool_safe_def)
      then show ?thesis using i Await Suc by (auto simp: resume_def split: prod.splits)
    qed
  qed
qed

theorem interleave_safe:
  assumes "pool_safe J Q ns c gs" and "\<And>m s gs. J (Suc m) s gs \<Longrightarrow> J m s gs"
  shows "\<exists>gs' ns'. pool_safe J Q ns' (interleave is c) gs' \<and>
     (\<forall>i < length (fst c). ns' ! i \<le> ns ! i - count_list is i)"
  using assms(1)
proof (induction "is" arbitrary: c ns gs)
  case Nil
  then show ?case by auto
next
  case (Cons i "is")
  obtain ps s where c: "c = (ps, s)" by (cases c)
  show ?case
  proof (cases "i < length ps")
    case False
    then have "resume i c = c" by (simp add: resume_def c)
    with Cons.IH [OF Cons.prems] False show ?thesis by (auto simp: c)
  next
    case True
    from resume_safe [OF Cons.prems [unfolded c] True assms(2)] obtain gs1 where
      g1: "pool_safe J Q (ns[i := ns ! i - 1]) (resume i c) gs1" unfolding c by blast
    have len: "length ns = length ps" using Cons.prems by (simp add: pool_safe_def c)
    from Cons.IH [OF g1] obtain gs' ns' where
      *: "pool_safe J Q ns' (interleave is (resume i c)) gs'"
        "\<forall>j < length ps. ns' ! j \<le> ns[i := ns ! i - 1] ! j - count_list is j" by (auto simp: c)
    have "ns' ! j \<le> ns ! j - count_list (i # is) j" if "j < length ps" for j
      using *(2) that True by (cases "j = i") (force simp: len)+
    with *(1) show ?thesis by (intro exI [of _ gs'] exI [of _ ns']) (simp add: c)
  qed
qed

lemma pool_safe_finished:
  assumes "pool_safe J Q ns c gs" and "i < length (fst c)" and "ns ! i = 0"
  shows "\<exists>r. fst c ! i = Finished r \<and> Q i r (gs ! i)"
proof -
  from assms have "safe J 0 (fst c ! i) (Q i) (gs ! i)" by (auto simp: pool_safe_def)
  then show ?thesis by (cases "fst c ! i") auto
qed

declare safe.simps [simp del]

end
