(* ===== verification/Saga_Threads.thy ===== *)
theory Saga_Threads
  imports Threads Saga_Correct
begin

text \<open>
  A saga as it runs beside others. \<open>wireAsyncSagaExecution\<close> starts \<open>run\<close> and does not wait for it,
  so the runs of several orders take turns at every \<open>await\<close> of \<open>src/orders/sagaOrchestrator.ts\<close> and
  of the methods it calls. The definitions here are those of the theories Inventory and Saga cut at
  the awaits: what one step holds is the code between two of them. A thread alone in its pool is the
  run of the theory Saga.
\<close>

section \<open>The methods, cut at their awaits\<close>

text \<open>\<open>reserve\<close>: what is done before the script is sent, the script on the server, and what is
  done with its reply.\<close>

definition reserve_begin ::
  "env \<Rightarrow> string \<Rightarrow> string \<Rightarrow> (('r, 'z) process_scheme, string \<times> rat) act" where
  "reserve_begin E warehouseId sku =
     bind (noteKnown warehouseId sku) (\<lambda>_.
     bind (random_uuid E) (\<lambda>reservationId.
     bind (perf_now E) (\<lambda>start. ret (reservationId, start))))"

definition reserve_send ::
  "'r redis_like \<Rightarrow> env \<Rightarrow> string \<Rightarrow> string \<Rightarrow> jsnum \<Rightarrow> jsnum \<Rightarrow> string \<Rightarrow> (('r, 'z) process_scheme, reply) act" where
  "reserve_send R E warehouseId sku qty ttlSeconds reservationId =
     on_redis_at E (rl_eval R RESERVE_SCRIPT 2
       [AStr (stockKey warehouseId sku), AStr (reservationKey reservationId),
        ANum qty, AStr reservationId, ANum ttlSeconds])"

definition reserve_end ::
  "env \<Rightarrow> string \<Rightarrow> string \<Rightarrow> string \<Rightarrow> rat \<Rightarrow> reply \<Rightarrow> (('r, 'z) process_scheme, reservation_result) act" where
  "reserve_end E warehouseId sku reservationId start result =
     bind (perf_now E) (\<lambda>stop.
     bind (on_metrics (\<lambda>m. m\<lparr>reservationLatency := observe (stop - start) (reservationLatency m)\<rparr>)) (\<lambda>_.
     (let status = fst result; v = snd result in
      if status = ''INSUFFICIENT_STOCK'' \<or> status = ''UNKNOWN_SKU'' then
        bind (on_metrics (\<lambda>m. m\<lparr>reservationsRejected := inc (stock_labels sku warehouseId) (reservationsRejected m)\<rparr>))
          (\<lambda>_. ret (rejected_result (if status = ''UNKNOWN_SKU'' then UNKNOWN_SKU else INSUFFICIENT_STOCK) (Some v)))
      else
        bind (on_metrics (\<lambda>m. m\<lparr>reservationsAccepted := inc (stock_labels sku warehouseId) (reservationsAccepted m)\<rparr>))
          (\<lambda>_. ret (accepted_result reservationId v)))))"

definition reserve_thread ::
  "'r redis_like \<Rightarrow> env \<Rightarrow> string \<Rightarrow> string \<Rightarrow> jsnum \<Rightarrow> jsnum \<Rightarrow> (('r, 'z) process_scheme, reservation_result) thread" where
  "reserve_thread R E warehouseId sku qty ttlSeconds =
     (if js_le qty (Num 0) then await (ret (rejected_result INVALID_QTY None))
      else
        tbind (await (reserve_begin E warehouseId sku)) (\<lambda>(reservationId, start).
        tbind (await (reserve_send R E warehouseId sku qty ttlSeconds reservationId)) (\<lambda>result.
        await (reserve_end E warehouseId sku reservationId start result))))"

type_synonym ('r, 'st, 'b, 'a) saga_thread = "(('r, 'st, 'b) world, 'a) thread"

text \<open>\<open>transition\<close>: the update of the order, the event on the bus, the count of the outcome.\<close>

definition record_step ::
  "('r, 'st, 'b) deps \<Rightarrow> string \<Rightarrow> order_status \<Rightarrow> string \<Rightarrow> fields \<Rightarrow> ('r, 'st, 'b, unit) saga_act" where
  "record_step D orderId status eventType detail =
     bind (date_now (dp_env D)) (\<lambda>stamp.
     bind (date_now (dp_env D)) (\<lambda>now.
     on_store (os_updateStatus (dp_store D) orderId status
       \<lparr>ev_type = eventType, ev_at = stamp, ev_detail = Some (JObj detail)\<rparr> now)))"

definition count_outcome :: "order_status \<Rightarrow> ('r, 'st, 'b, unit) saga_act" where
  "count_outcome status =
     on_metrics (\<lambda>m. m\<lparr>sagaOutcomes := inc [(''status'', status_text status)] (sagaOutcomes m)\<rparr>)"

definition transition_thread ::
  "('r, 'st, 'b) deps \<Rightarrow> string \<Rightarrow> order_status \<Rightarrow> string \<Rightarrow> fields \<Rightarrow> ('r, 'st, 'b, unit) saga_thread" where
  "transition_thread D orderId status eventType detail =
     tbind (await (record_step D orderId status eventType detail)) (\<lambda>_.
     tbind (await (publish_saga D orderId eventType detail)) (\<lambda>_.
     if status = CONFIRMED \<or> status = CANCELLED then await (count_outcome status) else tret ()))"

definition fail_thread ::
  "('r, 'st, 'b) deps \<Rightarrow> string \<Rightarrow> string \<Rightarrow> fields \<Rightarrow> ('r, 'st, 'b, unit) saga_thread" where
  "fail_thread D orderId reason detail =
     transition_thread D orderId CANCELLED ''order.cancelled'' (spread [(''reason'', JStr reason)] detail)"

fun reserve_loop_thread ::
  "('r, 'st, 'b) deps \<Rightarrow> order_line list \<Rightarrow> reservation list \<Rightarrow>
     ('r, 'st, 'b, order_line option \<times> reservation list) saga_thread" where
  "reserve_loop_thread D [] reservations = tret (None, reservations)"
| "reserve_loop_thread D (l # ls) reservations =
     tbind (reserve_thread (dp_redis D) (dp_env D) (ol_warehouseId l) (ol_sku l) (Num (ol_qty l))
              DEFAULT_RESERVATION_TTL_SECONDS) (\<lambda>result.
       if \<not> rr_ok result then tret (Some l, reservations)
       else reserve_loop_thread D ls
         (reservations @ [\<lparr>rv_warehouseId = ol_warehouseId l, rv_sku = ol_sku l,
                           rv_reservationId = the (rr_reservationId result)\<rparr>]))"

definition compensate_thread ::
  "('r, 'st, 'b) deps \<Rightarrow> string \<Rightarrow> reservation list \<Rightarrow> bool \<Rightarrow> bool \<Rightarrow> ('r, 'st, 'b, unit) saga_thread" where
  "compensate_thread D oid reservations paid shipped =
     tbind (transition_thread D oid COMPENSATING ''order.compensating'' []) (\<lambda>_.
     tbind (if shipped then tbind (await (on_shipping (cancel oid))) (\<lambda>_. tret ()) else tret ()) (\<lambda>_.
     tbind (if paid then tbind (await (on_payments (refund oid))) (\<lambda>_. tret ()) else tret ()) (\<lambda>_.
     for_each_thread (\<lambda>r. await (release_reservation D r)) reservations)))"

section \<open>The run, cut at its awaits\<close>

definition rollback_thread ::
  "('r, 'st, 'b) deps \<Rightarrow> string \<Rightarrow> string \<Rightarrow> reservation list \<Rightarrow> bool \<Rightarrow> string \<Rightarrow> fields \<Rightarrow>
     ('r, 'st, 'b, order) saga_thread" where
  "rollback_thread D orderId oid reservations paid reason detail =
     tbind (compensate_thread D oid reservations paid False) (\<lambda>_.
     tbind (fail_thread D oid reason detail) (\<lambda>_.
     await (mustGet D orderId)))"

definition ship_thread ::
  "('r, 'st, 'b) deps \<Rightarrow> string \<Rightarrow> order \<Rightarrow> reservation list \<Rightarrow> ('r, 'st, 'b, order) saga_thread" where
  "ship_thread D orderId od reservations =
     tbind (await (on_shipping (schedule (or_id od) (primaryWarehouse od)))) (\<lambda>shipment.
     if \<not> sr_ok shipment then
       rollback_thread D orderId (or_id od) reservations True ''SHIPPING_FAILED''
         [(''reason'', nullable (sr_reason shipment))]
     else
       tbind (transition_thread D (or_id od) SHIPPING_SCHEDULED ''order.shipping_scheduled''
                [(''shipmentId'', nullable (sr_shipmentId shipment))]) (\<lambda>_.
       tbind (for_each_thread (\<lambda>r. await (commit_reservation D r)) reservations) (\<lambda>_.
       tbind (transition_thread D (or_id od) CONFIRMED ''order.confirmed'' []) (\<lambda>_.
       await (mustGet D orderId)))))"

definition pay_thread ::
  "('r, 'st, 'b) deps \<Rightarrow> string \<Rightarrow> order \<Rightarrow> reservation list \<Rightarrow> ('r, 'st, 'b, order) saga_thread" where
  "pay_thread D orderId od reservations =
     tbind (await (on_payments (charge (or_id od) (or_amountCents od)))) (\<lambda>payment.
     if \<not> pr_ok payment then
       rollback_thread D orderId (or_id od) reservations False ''PAYMENT_FAILED''
         [(''reason'', nullable (pr_reason payment))]
     else
       tbind (transition_thread D (or_id od) PAYMENT_CHARGED ''order.payment_charged''
                [(''paymentId'', nullable (pr_paymentId payment))]) (\<lambda>_.
       ship_thread D orderId od reservations))"

definition run_thread :: "('r, 'st, 'b) deps \<Rightarrow> string \<Rightarrow> ('r, 'st, 'b, order) saga_thread" where
  "run_thread D orderId =
     tbind (await (mustGet D orderId)) (\<lambda>od.
     tbind (reserve_loop_thread D (or_lines od) []) (\<lambda>(failed, reservations).
     case failed of
       Some line \<Rightarrow>
         rollback_thread D orderId (or_id od) reservations False ''INVENTORY_UNAVAILABLE''
           [(''sku'', JStr (ol_sku line)), (''warehouseId'', JStr (ol_warehouseId line))]
     | None \<Rightarrow>
         tbind (transition_thread D (or_id od) INVENTORY_RESERVED ''order.inventory_reserved''
                  [(''reservations'', JArr (map reservation_json reservations))]) (\<lambda>_.
         pay_thread D orderId od reservations)))"

text \<open>The runs \<open>wireAsyncSagaExecution\<close> has started, one thread each.\<close>

definition sagas :: "('r, 'st, 'b) deps \<Rightarrow> string list \<Rightarrow> ('r, 'st, 'b, order) saga_thread list" where
  "sagas D orderIds = map (run_thread D) orderIds"

section \<open>A thread that is not interleaved is the method\<close>

lemma drive_reserve [drive_simps]: "drive (reserve_thread R E w s qty ttl) = reserve R E w s qty ttl"
  by (simp add: reserve_thread_def reserve_def reserve_begin_def reserve_send_def reserve_end_def
      drive_simps bind_assoc split_beta Let_def cong: if_cong)

lemma drive_transition [drive_simps]: "drive (transition_thread D oid st ty det) = transition D oid st ty det"
  by (simp add: transition_thread_def transition_def record_step_def count_outcome_def drive_simps bind_assoc)

lemma drive_fail [drive_simps]: "drive (fail_thread D oid reason det) = fail D oid reason det"
  by (simp add: fail_thread_def fail_def drive_simps)

lemma drive_reserve_loop [drive_simps]: "drive (reserve_loop_thread D ls rs) = reserve_loop D ls rs"
  by (induction ls arbitrary: rs) (simp_all add: drive_simps cong: if_cong)

lemma drive_compensate [drive_simps]:
  "drive (compensate_thread D oid rs paid shipped) = compensate D oid rs paid shipped"
  by (simp add: compensate_thread_def compensate_def drive_simps)

lemma drive_rollback [drive_simps]:
  "drive (rollback_thread D orderId oid rs paid reason det) =
     bind (compensate D oid rs paid False) (\<lambda>_. bind (fail D oid reason det) (\<lambda>_. mustGet D orderId))"
  by (simp add: rollback_thread_def drive_simps)

lemma drive_ship [drive_simps]: "drive (ship_thread D orderId od rs) = ship_stage D orderId od rs"
  by (simp add: ship_thread_def ship_stage_def drive_simps cong: if_cong)

lemma drive_pay [drive_simps]: "drive (pay_thread D orderId od rs) = pay_stage D orderId od rs"
  by (simp add: pay_thread_def pay_stage_def drive_simps cong: if_cong)

lemma drive_option [drive_simps]:
  "drive (case x of None \<Rightarrow> p | Some y \<Rightarrow> q y) = (case x of None \<Rightarrow> drive p | Some y \<Rightarrow> drive (q y))"
  by (cases x) simp_all

lemma drive_run: "drive (run_thread D orderId) = run D orderId"
  unfolding run_stages run_thread_def by (simp add: drive_simps case_prod_beta' cong: option.case_cong)


end
