(* ===== verification/Pool_Stock.thy ===== *)
theory Pool_Stock
  imports Saga_Threads "HOL-Library.Multiset"
begin

text \<open>
  The stock that several sagas share. What all of them together have taken, hold and have drawn is
  one view of the stock, which does not depend on the order in which they did it; each step of a
  saga on the stock store changes the view by one line of one order.
\<close>

section \<open>Orderings do not matter\<close>

lemma demand_mset: "mset ls = mset ls' \<Longrightarrow> demand ls k = demand ls' k"
proof -
  assume "mset ls = mset ls'"
  then have "mset (map f ls) = mset (map f ls')" for f :: "order_line \<Rightarrow> int" by simp
  then have "sum_list (map f ls) = sum_list (map f ls')" for f :: "order_line \<Rightarrow> int"
    unfolding sum_mset_sum_list [symmetric] by (rule arg_cong)
  then show ?thesis unfolding demand_def by blast
qed

lemma debit_mset: "mset tk = mset tk' \<Longrightarrow> debit L (lines_of tk) = debit L (lines_of tk')"
  by (simp add: debit_def fun_eq_iff demand_mset [of "lines_of tk" "lines_of tk'"])

lemma ids_mset: "mset tk = mset tk' \<Longrightarrow> mset (ids tk) = mset (ids tk')"
  by simp

lemma distinct_mset: "mset xs = mset ys \<Longrightarrow> distinct xs = distinct ys"
  by (metis mset_eq_imp_distinct_iff)

lemma pledge_mset:
  assumes "mset pl = mset pl'" and "distinct (ids pl)"
  shows "pledge \<rho> pl = pledge \<rho> pl'"
proof -
  let ?f = "\<lambda>(l, i, d). (i, (ol_qty l, Some d))"
  have fst: "map fst (map ?f tk) = ids tk" for tk :: "taken list" by auto
  have "distinct (ids pl')"
    using assms(2) unfolding distinct_mset [OF ids_mset [OF assms(1)]] .
  moreover have "set (map ?f pl) = set (map ?f pl')"
    using mset_eq_setD [OF assms(1)] by simp
  ultimately have "map_of (map ?f pl) = map_of (map ?f pl')"
    using assms(2) by (subst map_of_inject_set) (simp_all only: fst)
  then show ?thesis by (simp add: pledge_def)
qed

text \<open>What can be fulfilled together can be fulfilled in part.\<close>

lemma demand_submset:
  assumes "mset xs \<subseteq># mset ys" and "\<forall>l \<in> set ys. 0 < ol_qty l"
  shows "demand xs k \<le> demand ys k"
proof -
  from assms(1) obtain zs where zs: "mset ys = mset (xs @ zs)"
    by (metis ex_mset mset_append subset_mset.le_iff_add)
  then have "set zs \<subseteq> set ys" by (metis mset_eq_setD set_append sup_ge2)
  then have "0 \<le> demand zs k" using assms(2) by (intro demand_nonneg) blast
  then show ?thesis using demand_mset [OF zs] by simp
qed

lemma fulfillable_submset:
  assumes "mset xs \<subseteq># mset ys" and "fulfillable L ys"
  shows "fulfillable L xs"
  unfolding fulfillable_iff
proof
  fix l assume "l \<in> set xs"
  then have l: "l \<in> set ys" using assms(1) by (meson mset_subset_eqD set_mset_mset in_multiset_in_set)
  have pos: "\<forall>l \<in> set ys. 0 < ol_qty l" using assms(2) by (simp add: fulfillable_iff)
  from assms(2) l obtain n where "0 < ol_qty l" "L (line_key l) = Some n" "demand ys (line_key l) \<le> n"
    by (auto simp: fulfillable_iff)
  with demand_submset [OF assms(1) pos, of "line_key l"]
  show "0 < ol_qty l \<and> (\<exists>n. L (line_key l) = Some n \<and> demand xs (line_key l) \<le> n)" by simp
qed

section \<open>The view of the stock\<close>

text \<open>
  \<open>T\<close> is what has been taken from the levels \<open>L\<close>, \<open>P\<close> what of it is still pledged, \<open>N\<close> the
  identifiers drawn for reservations.
\<close>

context stock_redis
begin

definition stock_view ::
  "env \<Rightarrow> (string \<Rightarrow> int option) \<Rightarrow> kv \<Rightarrow> int \<Rightarrow> ('r, 'z) process_scheme \<Rightarrow> taken list \<Rightarrow> taken list \<Rightarrow> string list \<Rightarrow> bool" where
  "stock_view E L \<rho> deadline w T P N \<longleftrightarrow> holding E w L \<rho> T P \<and> separate \<rho> P \<and> fulfillable L (lines_of T) \<and>
     distinct (ids P @ N) \<and> fresh_ids E (co_uuids w) (dom \<rho> \<union> set (ids P @ N)) \<and> due_after deadline P \<and>
     set N \<inter> dom \<rho> = {}"

lemma holding_perm:
  "mset T = mset T' \<Longrightarrow> mset P = mset P' \<Longrightarrow> distinct (ids P) \<Longrightarrow> holding E w L \<rho> T P = holding E w L \<rho> T' P'"
  unfolding holding_def by (simp only: debit_mset [of T T'] pledge_mset [of P P'])

lemma stock_view_perm:
  assumes "stock_view E L \<rho> t w T P N" and "mset T = mset T'" and "mset P = mset P'" and "mset N = mset N'"
  shows "stock_view E L \<rho> t w T' P' N'"
proof -
  have v: "holding E w L \<rho> T P" "separate \<rho> P" "fulfillable L (lines_of T)" "distinct (ids P @ N)"
    "fresh_ids E (co_uuids w) (dom \<rho> \<union> set (ids P @ N))" "due_after t P" "set N \<inter> dom \<rho> = {}"
    using assms(1) by (simp_all add: stock_view_def)
  have d: "distinct (ids P)" using v(4) by simp
  have sets: "set P = set P'" "set N = set N'" by (rule mset_eq_setD, fact)+
  have "holding E w L \<rho> T' P'"
    using v(1) unfolding holding_perm [OF assms(2,3) d] .
  moreover have "distinct (ids P')" using d unfolding distinct_mset [OF ids_mset [OF assms(3)]] .
  moreover have "fulfillable L (lines_of T')"
    using v(3) by (rule fulfillable_submset [rotated]) (simp only: mset_map assms(2) subset_mset.order_refl)
  moreover have m: "mset (ids P @ N) = mset (ids P' @ N')"
    unfolding mset_append ids_mset [OF assms(3)] assms(4) by (rule refl)
  have "distinct (ids P' @ N')" using v(4) unfolding distinct_mset [OF m] .
  ultimately show ?thesis
    using v(2,5-7) unfolding stock_view_def separate_def due_after_def set_append set_map sets by blast
qed

lemma stock_view_tick:
  assumes "stock_view E L \<rho> t w T P N" and "clock_ok E" and "co_redis w' = co_redis w"
    and "co_uuids w' = co_uuids w" and "co_ticks w \<le> co_ticks w'"
  shows "stock_view E L \<rho> t w' T P N"
  using assms by (auto simp: stock_view_def intro: holding_tick)

text \<open>Drawing an identifier.\<close>

lemma stock_view_draw:
  fixes w :: "('r, 'z) process_scheme"
  assumes v: "stock_view E L \<rho> t w T P N" and clock: "clock_ok E"
  obtains w' :: "('r, 'z) process_scheme" and start where
    "reserve_begin E wh sku w = (Inr (env_uuid E (co_uuids w), start), w')"
    "stock_view E L \<rho> t w' T P (env_uuid E (co_uuids w) # N)"
    "w' = w\<lparr>co_known := jset (stockKey wh sku) (wh, sku) (co_known w), co_uuids := Suc (co_uuids w),
            co_ticks := Suc (co_ticks w)\<rparr>"
proof -
  let ?i = "env_uuid E (co_uuids w)"
  let ?w = "w\<lparr>co_known := jset (stockKey wh sku) (wh, sku) (co_known w), co_uuids := Suc (co_uuids w),
            co_ticks := Suc (co_ticks w)\<rparr>"
  have "reserve_begin E wh sku w = (Inr (?i, env_perf E (co_ticks w)), ?w)"
    by (simp add: reserve_begin_def noteKnown_def process_acts)
  moreover have f: "fresh_ids E (co_uuids w) (dom \<rho> \<union> set (ids P @ N))" using v by (simp add: stock_view_def)
  have "stock_view E L \<rho> t ?w T P (?i # N)"
    using v fresh_ids_next [OF f] clock
    by (auto simp: stock_view_def insert_commute intro: holding_tick)
  ultimately show thesis using that by blast
qed

text \<open>The script on the server: it takes the units when the levels cover the line after all that
  has been taken by anyone.\<close>

lemma stock_view_reserve:
  fixes w :: "('r, 'z) process_scheme"
  assumes v: "stock_view E L \<rho> t w T P (i # N)" and q: "0 < ol_qty l"
    and t: "t < env_now E (co_ticks w) + 900000" and clock: "clock_ok E"
  obtains r' status n where
    "reserve_send R E (ol_warehouseId l) (ol_sku l) (Num (ol_qty l)) DEFAULT_RESERVATION_TTL_SECONDS i w =
       (Inr (status, n), w\<lparr>co_redis := r', co_ticks := Suc (co_ticks w)\<rparr>)"
    "status = ''OK'' \<and> (\<exists>d. stock_view E L \<rho> t (w\<lparr>co_redis := r', co_ticks := Suc (co_ticks w)\<rparr>)
         ((l, i, d) # T) ((l, i, d) # P) N) \<or>
     status \<in> {''INSUFFICIENT_STOCK'', ''UNKNOWN_SKU''} \<and> \<not> fulfillable L (l # lines_of T) \<and>
       stock_view E L \<rho> t (w\<lparr>co_redis := r', co_ticks := Suc (co_ticks w)\<rparr>) T P (i # N)"
proof -
  let ?now = "env_now E (co_ticks w)" and ?w = "ol_warehouseId l" and ?s = "ol_sku l"
  let ?m = "kv_of (co_redis w)" and ?d = "env_now E (co_ticks w) + 900 * 1000"
  let ?sp = "spec_reserve ?now (stockKey ?w ?s) (reservationKey i) (ol_qty l) 900 ?m"
  let ?args = "[AStr (stockKey ?w ?s), AStr (reservationKey i), ANum (Num (ol_qty l)), AStr i, ANum (Num 900)]"
  obtain res r' where ev: "rl_eval R RESERVE_SCRIPT 2 ?args ?now (co_redis w) = (res, r')"
    by (cases "rl_eval R RESERVE_SCRIPT 2 ?args ?now (co_redis w)")
  let ?w' = "w\<lparr>co_redis := r', co_ticks := Suc (co_ticks w)\<rparr>"
  from v have h: "holding E w L \<rho> T P" and sep: "separate \<rho> P" and full: "fulfillable L (lines_of T)"
    and dist: "distinct (ids P @ i # N)" and fresh: "fresh_ids E (co_uuids w) (dom \<rho> \<union> set (ids P @ i # N))"
    and due: "due_after t P" and out: "set (i # N) \<inter> dom \<rho> = {}" by (simp_all add: stock_view_def)
  have inv: "invar (co_redis w)" and r: "repr ?now (debit L (lines_of T)) (pledge \<rho> P) ?m"
    using h by (simp_all add: holding_def)
  from reserve_law [OF inv q _ ev] have
    res: "res = Inr (fst ?sp)" and r': "invar r'" "kv_eq ?now (kv_of r') (snd ?sp)" by simp_all
  have send: "reserve_send R E ?w ?s (Num (ol_qty l)) DEFAULT_RESERVATION_TTL_SECONDS i w =
      (Inr (fst (fst ?sp), snd (fst ?sp)), ?w')"
    using ev [unfolded res]
    by (simp add: reserve_send_def DEFAULT_RESERVATION_TTL_SECONDS_def process_acts)
  have new: "i \<notin> set (ids P)" using dist by simp
  have lev: "lookup ?now ?m (stockKey ?w ?s) = debit L (lines_of T) (stockKey ?w ?s)"
    by (rule repr_level [OF r])
  have later: "?now \<le> env_now E (Suc (co_ticks w))" using clock by (simp add: clock_le)
  have fin: "holding E ?w' L \<rho> T' P'" if "repr ?now (debit L (lines_of T')) (pledge \<rho> P') (snd ?sp)" for T' P'
    using repr_eq [OF that r'(2)] later r'(1) by (auto simp: holding_def elim: repr_later)
  have perm: "fulfillable L (l # lines_of T) = fulfillable L (lines_of T @ [l])"
    by (metis fulfillable_submset mset_append mset.simps add_mset_add_single subset_mset.order_refl)
  show thesis
  proof (cases "fulfillable L (lines_of T @ [l])")
    case True
    then obtain n where n: "L (line_key l) = Some n" "ol_qty l \<le> n - demand (lines_of T) (line_key l)"
      by (auto simp: fulfillable_snoc [OF full])
    let ?a = "n - demand (lines_of T) (line_key l)" and ?x = "(l, i, ?d)"
    have a: "debit L (lines_of T) (stockKey ?w ?s) = Some ?a"
      using n(1) by (simp add: debit_def line_key_def)
    have rep: "fst (fst ?sp) = ''OK''" using n(2) lev a by (simp add: spec_reserve_reply)
    from repr_reserve [OF r a n(2), of i 900]
    have "holding E ?w' L \<rho> (T @ [?x]) (P @ [?x])"
      using debit_snoc [of L l n "lines_of T"] n(1)
      by (intro fin) (simp add: line_key_def pledge_snoc [OF new])
    then have "stock_view E L \<rho> t ?w' (T @ [?x]) (P @ [?x]) N"
      using True dist fresh due t out separate_snoc [OF sep new]
      by (auto simp: stock_view_def due_after_def insert_commute)
    then have "stock_view E L \<rho> t ?w' (?x # T) (?x # P) N"
      by (rule stock_view_perm) simp_all
    then show thesis using that [OF send] rep by blast
  next
    case False
    have low: "a < ol_qty l" if "debit L (lines_of T) (stockKey ?w ?s) = Some a" for a
      using False that q by (auto simp: fulfillable_snoc [OF full] debit_def line_key_def)
    have "snd ?sp = ?m" using low by (rule repr_reserve_fails [OF r])
    then have "holding E ?w' L \<rho> T P" using r by (intro fin) simp
    then have "stock_view E L \<rho> t ?w' T P (i # N)"
      using v by (simp add: stock_view_def)
    moreover have "fst (fst ?sp) \<in> {''INSUFFICIENT_STOCK'', ''UNKNOWN_SKU''}"
      using low lev by (auto simp: spec_reserve_reply split: option.splits)
    ultimately show thesis using that [OF send] False perm by blast
  qed
qed

text \<open>Giving units back, and keeping them for good; the identifier is spent, and counts as drawn.\<close>

lemma stock_view_release:
  assumes v: "stock_view E L \<rho> t w (x # T) (x # P) N" and t: "env_now E (co_ticks w) \<le> t"
    and clock: "clock_ok E" and D: "dp_redis D = R" "dp_env D = E"
  shows "\<exists>w'. release_reservation D (rsv x) w = (Inr (), w') \<and> stock_view E L \<rho> t w' T P (fst (snd x) # N) \<and>
     same_rest w w' \<and> co_ticks w' = Suc (co_ticks w)"
proof -
  have sep: "separate \<rho> (x # P)" and full: "fulfillable L (lines_of (x # T))" and due: "due_after t (x # P)"
    using v by (simp_all add: stock_view_def)
  have lvl: "L (line_key (fst x)) \<noteq> None" using full by (auto simp: fulfillable_iff)
  have now: "due_after (env_now E (co_ticks w)) [x]"
    using due t by (auto simp: due_after_def)
  have h: "holding E w L \<rho> (x # T) (x # P)" using v by (simp add: stock_view_def)
  from release_reservation_run [OF h sep lvl now clock D] obtain w' where
    w': "release_reservation D (rsv x) w = (Inr (), w')" "holding E w' L \<rho> T P" "same_rest w w'"
      "co_ticks w' = Suc (co_ticks w)" "co_uuids w' = co_uuids w" by blast
  have "fulfillable L (lines_of T)" by (rule fulfillable_submset [OF _ full]) simp
  then have "stock_view E L \<rho> t w' T P (fst (snd x) # N)"
    using v w'(2,5) by (auto simp: stock_view_def separate_def due_after_def fresh_ids_def)
  with w' show ?thesis by blast
qed

lemma stock_view_commit:
  assumes v: "stock_view E L \<rho> t w T (x # P) N" and t: "env_now E (co_ticks w) \<le> t"
    and clock: "clock_ok E" and D: "dp_redis D = R" "dp_env D = E"
  shows "\<exists>w'. commit_reservation D (rsv x) w = (Inr (), w') \<and> stock_view E L \<rho> t w' T P (fst (snd x) # N) \<and>
     same_rest w w' \<and> co_ticks w' = Suc (co_ticks w)"
proof -
  have h: "holding E w L \<rho> T (x # P)" and sep: "separate \<rho> (x # P)" and due: "due_after t (x # P)"
    using v by (simp_all add: stock_view_def)
  have now: "due_after (env_now E (co_ticks w)) [x]"
    using due t by (auto simp: due_after_def)
  from commit_reservation_run [OF h sep now clock D] obtain w' where
    w': "commit_reservation D (rsv x) w = (Inr (), w')" "holding E w' L \<rho> T P" "same_rest w w'"
      "co_ticks w' = Suc (co_ticks w)" "co_uuids w' = co_uuids w" by blast
  have "stock_view E L \<rho> t w' T P (fst (snd x) # N)"
    using v w'(2,5) by (auto simp: stock_view_def separate_def due_after_def fresh_ids_def)
  with w' show ?thesis by blast
qed

end

end
