(* ===== verification/Saga_Pool.thy ===== *)
theory Saga_Pool
  imports Pool_Stock "HOL-Library.Sublist"
begin

text \<open>
  The invariant of a pool of sagas and the steps that keep it. What belongs to one saga - its order,
  its charge, its shipment, its events on the bus - only its own steps change; the stock is shared,
  and each saga owns what it has taken of it. From the steps: a saga among others ends, within a
  number of its own steps, confirmed with all its effects or cancelled with none.
\<close>

section \<open>What a saga owns\<close>

text \<open>
  \<open>gh_order\<close> is the order as it was when the pool was formed, \<open>gh_stored\<close> as it is stored now;
  \<open>gh_steps\<close> are the steps in its history, \<open>gh_told\<close> those on the bus; \<open>gh_taken\<close> what it has
  taken from the stock, \<open>gh_pledged\<close> what of that is not resolved, \<open>gh_drawn\<close> identifiers it drew.
\<close>

record ghost =
  gh_order :: order
  gh_stored :: order
  gh_steps :: "saga_step list"
  gh_told :: "saga_step list"
  gh_taken :: "taken list"
  gh_pledged :: "taken list"
  gh_drawn :: "string list"
  gh_charge :: "string option"
  gh_shipment :: "string option"

abbreviation gh_id :: "ghost \<Rightarrow> string" where
  "gh_id g \<equiv> or_id (gh_order g)"

section \<open>How a saga stands with the stock\<close>

text \<open>
  Between any two of its steps the history of an order bounds what its saga holds: what it has taken
  is still pledged unless it is committing; a recorded list of reservations is that of all the lines,
  in order, some of them spent and then the pledged ones; a confirmed order has taken its lines and
  pledges nothing, a cancelled one has taken nothing.
\<close>

definition recorded :: "saga_step list \<Rightarrow> fields option" where
  "recorded steps = map_option (snd \<circ> snd) (find (\<lambda>x. fst (snd x) = ''order.inventory_reserved'') steps)"

definition last_status :: "saga_step list \<Rightarrow> order_status" where
  "last_status steps = (if steps = [] then CREATED else fst (last steps))"

definition recalls :: "order \<Rightarrow> saga_step list \<Rightarrow> taken list \<Rightarrow> string list \<Rightarrow> bool" where
  "recalls od steps pl dr \<longleftrightarrow> (\<forall>det. recorded steps = Some det \<longrightarrow> (\<exists>spent.
     det = [(''reservations'', JArr (map reservation_json (map rsv (spent @ pl))))] \<and>
     lines_of (spent @ pl) = or_lines od \<and> distinct (ids (spent @ pl)) \<and> set (ids spent) \<subseteq> set dr))"

definition coherent :: "order \<Rightarrow> saga_step list \<Rightarrow> taken list \<Rightarrow> taken list \<Rightarrow> string list \<Rightarrow> bool" where
  "coherent od steps tk pl dr \<longleftrightarrow> distinct (ids pl) \<and> suffix pl tk \<and>
     (last_status steps \<notin> {SHIPPING_SCHEDULED, CONFIRMED} \<longrightarrow> tk = pl) \<and>
     (last_status steps = CONFIRMED \<longrightarrow> pl = [] \<and> lines_of tk = or_lines od) \<and>
     (last_status steps \<in> {CANCELLED, FAILED} \<longrightarrow> tk = []) \<and> recalls od steps pl dr"

lemma recorded_Nil [simp]: "recorded [] = None"
  by (simp add: recorded_def)

lemma last_status_simps [simp]: "last_status [] = CREATED" "last_status (steps @ [x]) = fst x"
  by (simp_all add: last_status_def)

lemma recorded_other: "fst (snd x) \<noteq> ''order.inventory_reserved'' \<Longrightarrow> recorded (steps @ [x]) = recorded steps"
  unfolding recorded_def by (induction steps) simp_all

lemma coherent_first: "coherent od [] [] [] []"
  by (simp add: coherent_def recalls_def)

text \<open>The steps that keep it: drawing, reserving, releasing, committing, and the transitions.\<close>

lemma coherent_draw: "coherent od steps tk pl dr \<Longrightarrow> coherent od steps tk pl (i # dr)"
  unfolding coherent_def recalls_def list.set(2) by (meson subset_insertI2)

lemma coherent_reserve:
  "coherent od [] tk tk dr \<Longrightarrow> i \<notin> set (ids tk) \<Longrightarrow> coherent od [] (tk @ [(l, i, d)]) (tk @ [(l, i, d)]) dr'"
  by (simp add: coherent_def recalls_def)

lemma recalls_spend:
  assumes "recalls od steps (x # pl) dr"
  shows "recalls od steps pl (fst (snd x) # dr)"
  unfolding recalls_def
proof (intro allI impI)
  fix det assume "recorded steps = Some det"
  with assms obtain spent where
    "det = [(''reservations'', JArr (map reservation_json (map rsv (spent @ x # pl))))]"
    "lines_of (spent @ x # pl) = or_lines od" "distinct (ids (spent @ x # pl))" "set (ids spent) \<subseteq> set dr"
    unfolding recalls_def by blast
  then show "\<exists>spent. det = [(''reservations'', JArr (map reservation_json (map rsv (spent @ pl))))] \<and>
      lines_of (spent @ pl) = or_lines od \<and> distinct (ids (spent @ pl)) \<and> set (ids spent) \<subseteq> set (fst (snd x) # dr)"
    by (intro exI [of _ "spent @ [x]"]) auto
qed

lemma coherent_release:
  "coherent od steps (x # pl) (x # pl) dr \<Longrightarrow> last_status steps = COMPENSATING \<Longrightarrow>
     coherent od steps pl pl (fst (snd x) # dr)"
  unfolding coherent_def by (simp add: recalls_spend)

lemma coherent_commit:
  "coherent od steps tk (x # pl) dr \<Longrightarrow> last_status steps = SHIPPING_SCHEDULED \<Longrightarrow>
     coherent od steps tk pl (fst (snd x) # dr)"
  unfolding coherent_def by (auto simp: recalls_spend dest: suffix_ConsD)

definition may_follow :: "order \<Rightarrow> saga_step list \<Rightarrow> taken list \<Rightarrow> taken list \<Rightarrow> saga_step \<Rightarrow> bool" where
  "may_follow od steps tk pl x \<longleftrightarrow> (\<forall>dr. coherent od steps tk pl dr \<longrightarrow> coherent od (steps @ [x]) tk pl dr)"

lemma follow_reserved:
  "lines_of tk = or_lines od \<Longrightarrow> may_follow od [] tk tk (INVENTORY_RESERVED, ''order.inventory_reserved'',
     [(''reservations'', JArr (map reservation_json (map rsv tk)))])"
  unfolding may_follow_def coherent_def recalls_def
  by (auto simp: recorded_def last_status_def intro!: exI [of _ "[]"])

lemma follow_other:
  assumes "fst (snd x) \<noteq> ''order.inventory_reserved''"
    and "fst x \<notin> {SHIPPING_SCHEDULED, CONFIRMED} \<Longrightarrow> tk = pl"
    and "fst x = CONFIRMED \<Longrightarrow> pl = [] \<and> lines_of tk = or_lines od" and "fst x \<in> {CANCELLED, FAILED} \<Longrightarrow> tk = []"
  shows "may_follow od steps tk pl x"
  using assms unfolding may_follow_def coherent_def recalls_def recorded_other [OF assms(1)] last_status_simps by blast

lemma follow_simps:
  "may_follow od steps tk tk (COMPENSATING, ''order.compensating'', det)"
  "may_follow od steps tk tk (PAYMENT_CHARGED, ''order.payment_charged'', det)"
  "may_follow od steps tk tk (SHIPPING_SCHEDULED, ''order.shipping_scheduled'', det)"
  "may_follow od steps [] [] (CANCELLED, ''order.cancelled'', det)"
  by (rule follow_other; simp)+

lemma follow_confirmed:
  "lines_of tk = or_lines od \<Longrightarrow> may_follow od steps tk [] (CONFIRMED, ''order.confirmed'', det)"
  by (rule follow_other) simp_all

text \<open>All pieces of a kind, with those of one saga in front.\<close>

definition others :: "('g \<Rightarrow> 'a list) \<Rightarrow> nat \<Rightarrow> 'g list \<Rightarrow> 'a list" where
  "others f i gs = concat (map f (take i gs @ drop (Suc i) gs))"

lemma mset_focus: "i < length gs \<Longrightarrow> mset (concat (map f gs)) = mset (f (gs ! i) @ others f i gs)"
  by (subst id_take_nth_drop [of i gs]) (simp_all add: others_def)

lemma others_update [simp]: "others f i (gs[i := g]) = others f i gs"
  by (simp add: others_def)

lemma mset_focus_update: "i < length gs \<Longrightarrow> mset (concat (map f (gs[i := g]))) = mset (f g @ others f i gs)"
  using mset_focus [of i "gs[i := g]" f] by simp

context saga
begin

text \<open>What can be seen of one order.\<close>

definition told :: "('r, 'st, 'b) world \<Rightarrow> string \<Rightarrow> (string \<times> json \<times> string option) list" where
  "told w x = filter (\<lambda>a. snd (snd a) = Some x) (announcements w)"

definition seen where
  "seen w x = (orders_of (w_store w) x, charges (w_payments w) x, shipments (w_shipping w) x, told w x)"

definition owns :: "env \<Rightarrow> ('r, 'st, 'b) world \<Rightarrow> ('r, 'st, 'b) world \<Rightarrow> ghost \<Rightarrow> bool" where
  "owns E w0 w g \<longleftrightarrow>
     seen w (gh_id g) = (Some (gh_stored g), gh_charge g, gh_shipment g,
       told w0 (gh_id g) @ map (announced (gh_id g)) (gh_told g)) \<and>
     untimed (gh_stored g) = fold (apply_step kept) (gh_steps g) (untimed (gh_order g)) \<and>
     (\<forall>h \<in> set (or_history (gh_stored g)). ev_at h \<le> env_now E (co_ticks w)) \<and>
     mset (lines_of (gh_taken g)) \<subseteq># mset (or_lines (gh_order g)) \<and>
     coherent (gh_order g) (gh_steps g) (gh_taken g) (gh_pledged g) (gh_drawn g)"

lemma owns_later:
  "owns E w0 w g \<Longrightarrow> seen w' (gh_id g) = seen w (gh_id g) \<Longrightarrow>
     env_now E (co_ticks w) \<le> env_now E (co_ticks w') \<Longrightarrow> owns E w0 w' g"
  unfolding owns_def by (metis order_trans)

definition view_of ::
  "env \<Rightarrow> (string \<Rightarrow> int option) \<Rightarrow> kv \<Rightarrow> int \<Rightarrow> ('r, 'st, 'b) world \<Rightarrow> ghost \<Rightarrow> nat \<Rightarrow> ghost list \<Rightarrow> bool" where
  "view_of E L \<rho> deadline w g i gs \<longleftrightarrow>
     stock_view E L \<rho> deadline w (gh_taken g @ others gh_taken i gs) (gh_pledged g @ others gh_pledged i gs)
       (gh_drawn g @ others gh_drawn i gs)"

text \<open>The constants of a pool: the clock, and how late it is when the last step is taken. All reservations
  made since the pool was formed live past \<open>lease_end\<close>.\<close>

definition lease_end :: "env \<Rightarrow> ('r, 'st, 'b) world \<Rightarrow> int" where
  "lease_end E w0 = env_now E (co_ticks w0) + 899999"

definition pool_setting :: "env \<Rightarrow> nat \<Rightarrow> ('r, 'st, 'b) world \<Rightarrow> order list \<Rightarrow> bool" where
  "pool_setting E stop w0 ods \<longleftrightarrow> clock_ok E \<and> distinct (map or_id ods) \<and>
     env_now E stop < env_now E (co_ticks w0) + 900000"

definition pool_ok ::
  "env \<Rightarrow> (string \<Rightarrow> int option) \<Rightarrow> kv \<Rightarrow> nat \<Rightarrow> ('r, 'st, 'b) world \<Rightarrow> order list \<Rightarrow>
     nat \<Rightarrow> ('r, 'st, 'b) world \<Rightarrow> ghost list \<Rightarrow> bool" where
  "pool_ok E L \<rho> stop w0 ods m w gs \<longleftrightarrow>
     stock_view E L \<rho> (lease_end E w0) w (concat (map gh_taken gs)) (concat (map gh_pledged gs))
       (concat (map gh_drawn gs)) \<and>
     (\<forall>g \<in> set gs. owns E w0 w g) \<and> map gh_order gs = ods \<and>
     (\<forall>x. x \<notin> or_id ` set ods \<longrightarrow> seen w x = seen w0 x) \<and>
     pg_failures (w_payments w) = pg_failures (w_payments w0) \<and>
     sp_failures (w_shipping w) = sp_failures (w_shipping w0) \<and>
     ok (w_store w) \<and> bus_ok (w_bus w) \<and> co_ticks w0 \<le> co_ticks w \<and> co_ticks w + 3 * m \<le> stop"

lemma pool_ok_weaken: "pool_ok E L \<rho> stop w0 ods (Suc m) w gs \<Longrightarrow> pool_ok E L \<rho> stop w0 ods m w gs"
  by (simp add: pool_ok_def)

lemma pool_view:
  assumes "pool_ok E L \<rho> stop w0 ods m w gs" and "i < length gs"
  shows "view_of E L \<rho> (lease_end E w0) w (gs ! i) i gs"
  unfolding view_of_def
  by (rule stock_view_perm [OF _ mset_focus mset_focus mset_focus]) (use assms in \<open>simp_all add: pool_ok_def\<close>)

lemma pool_late:
  assumes "pool_setting E stop w0 ods" and "pool_ok E L \<rho> stop w0 ods m w gs"
  shows "env_now E (co_ticks w) \<le> lease_end E w0" and "lease_end E w0 < env_now E (co_ticks w) + 900000"
proof -
  have "env_now E (co_ticks w0) \<le> env_now E (co_ticks w)" "env_now E (co_ticks w) \<le> env_now E stop"
    using assms by (simp_all add: pool_setting_def pool_ok_def clock_le)
  with assms(1) show "env_now E (co_ticks w) \<le> lease_end E w0" "lease_end E w0 < env_now E (co_ticks w) + 900000"
    by (simp_all add: pool_setting_def lease_end_def)
qed

lemma pool_owns: "pool_ok E L \<rho> stop w0 ods m w gs \<Longrightarrow> i < length gs \<Longrightarrow> owns E w0 w (gs ! i)"
  by (simp add: pool_ok_def)

section \<open>One saga steps\<close>

lemma pool_step:
  assumes setting: "pool_setting E stop w0 ods" and J: "pool_ok E L \<rho> stop w0 ods (Suc m) w gs" and i: "i < length gs"
    and order: "gh_order g' = gh_order (gs ! i)"
    and view: "view_of E L \<rho> (lease_end E w0) w' g' i gs"
    and own: "owns E w0 w' g'"
    and frame: "\<And>x. x \<noteq> gh_id (gs ! i) \<Longrightarrow> seen w' x = seen w x"
    and fails: "pg_failures (w_payments w') = pg_failures (w_payments w)"
      "sp_failures (w_shipping w') = sp_failures (w_shipping w)"
    and okw: "ok (w_store w')" "bus_ok (w_bus w')" and ticks: "co_ticks w \<le> co_ticks w'" "co_ticks w' \<le> co_ticks w + 3"
  shows "pool_ok E L \<rho> stop w0 ods m w' (gs[i := g'])"
proof -
  from J have orders: "map gh_order gs = ods" and owners: "\<forall>g \<in> set gs. owns E w0 w g"
    and out: "\<forall>x. x \<notin> or_id ` set ods \<longrightarrow> seen w x = seen w0 x" by (simp_all add: pool_ok_def)
  have dist: "distinct (map gh_id gs)"
    using setting orders by (auto simp: pool_setting_def comp_def)
  have now: "env_now E (co_ticks w) \<le> env_now E (co_ticks w')"
    using setting ticks by (simp add: pool_setting_def clock_le)
  have "owns E w0 w' (gs[i := g'] ! j)" if j: "j < length gs" for j
  proof (cases "j = i")
    case False
    then have "gh_id (gs ! j) \<noteq> gh_id (gs ! i)"
      using nth_eq_iff_index_eq [OF dist, of j i] i j by simp
    then have "seen w' (gh_id (gs ! j)) = seen w (gh_id (gs ! j))" by (rule frame)
    then show ?thesis using owns_later [of E w0 w "gs ! j" w'] owners j False now by simp
  qed (use own i in simp)
  then have "\<forall>g \<in> set (gs[i := g']). owns E w0 w' g" by (auto simp: in_set_conv_nth)
  moreover have "map gh_order (gs[i := g']) = ods"
    unfolding map_update order using orders i by (metis list_update_id nth_map)
  moreover have "seen w' x = seen w0 x" if "x \<notin> or_id ` set ods" for x
  proof -
    have "x \<noteq> gh_id (gs ! i)" using that orders i by (metis image_eqI length_map nth_map nth_mem)
    then show ?thesis using frame out that by metis
  qed
  moreover have "stock_view E L \<rho> (lease_end E w0) w' (concat (map gh_taken (gs[i := g'])))
      (concat (map gh_pledged (gs[i := g']))) (concat (map gh_drawn (gs[i := g'])))"
    by (rule stock_view_perm [OF view [unfolded view_of_def]]) (simp_all only: mset_focus_update [OF i])
  ultimately show ?thesis
    using J fails okw ticks unfolding pool_ok_def by simp
qed

text \<open>A step on the stock store, and a step on everything else.\<close>

definition same_side :: "('r, 'st, 'b) world \<Rightarrow> ('r, 'st, 'b) world \<Rightarrow> bool" where
  "same_side w w' \<longleftrightarrow> w_payments w' = w_payments w \<and> w_shipping w' = w_shipping w \<and> w_bus w' = w_bus w \<and>
     w_store w' = w_store w"

lemma same_rest_side: "same_rest w w' \<Longrightarrow> same_side w w'"
  by (simp add: same_rest_def same_side_def)

lemma seen_same_side: "same_side w w' \<Longrightarrow> seen w' x = seen w x"
  by (simp add: same_side_def seen_def told_def announcements_def)

lemma stock_step:
  assumes "pool_setting E stop w0 ods" and "pool_ok E L \<rho> stop w0 ods (Suc m) w gs" and "i < length gs"
    and g': "g' = (gs ! i)\<lparr>gh_taken := tk, gh_pledged := pl, gh_drawn := dr\<rparr>"
    and view: "view_of E L \<rho> (lease_end E w0) w' g' i gs" and side: "same_side w w'"
    and sub: "mset (lines_of tk) \<subseteq># mset (or_lines (gh_order (gs ! i)))"
    and coh: "coherent (gh_order (gs ! i)) (gh_steps (gs ! i)) tk pl dr"
    and ticks: "co_ticks w \<le> co_ticks w'" "co_ticks w' \<le> co_ticks w + 3"
  shows "pool_ok E L \<rho> stop w0 ods m w' (gs[i := g'])"
proof (rule pool_step [OF assms(1-3) _ view])
  have now: "env_now E (co_ticks w) \<le> env_now E (co_ticks w')"
    using assms(1) ticks by (simp add: pool_setting_def clock_le)
  have "owns E w0 w (gs ! i)" using assms(2,3) by (rule pool_owns)
  then have "owns E w0 w' (gs ! i)" using seen_same_side [OF side] now by (rule owns_later)
  then show "owns E w0 w' g'" using sub coh unfolding g' owns_def by simp
qed (use assms in \<open>simp_all add: pool_ok_def same_side_def seen_same_side [OF side]\<close>)

lemma side_step:
  assumes "pool_setting E stop w0 ods" and "pool_ok E L \<rho> stop w0 ods (Suc m) w gs" and "i < length gs"
    and g': "gh_order g' = gh_order (gs ! i)" "gh_taken g' = gh_taken (gs ! i)" "gh_pledged g' = gh_pledged (gs ! i)"
      "gh_drawn g' = gh_drawn (gs ! i)"
    and redis: "co_redis w' = co_redis w" "co_uuids w' = co_uuids w"
    and own: "owns E w0 w' g'" and frame: "\<And>x. x \<noteq> gh_id (gs ! i) \<Longrightarrow> seen w' x = seen w x"
    and fails: "pg_failures (w_payments w') = pg_failures (w_payments w)"
      "sp_failures (w_shipping w') = sp_failures (w_shipping w)"
    and okw: "ok (w_store w')" "bus_ok (w_bus w')" and ticks: "co_ticks w \<le> co_ticks w'" "co_ticks w' \<le> co_ticks w + 3"
  shows "pool_ok E L \<rho> stop w0 ods m w' (gs[i := g'])"
proof (rule pool_step [OF assms(1-3) g'(1) _ own frame fails okw ticks])
  have "clock_ok E" using assms(1) by (simp add: pool_setting_def)
  with pool_view [OF assms(2,3)] show "view_of E L \<rho> (lease_end E w0) w' g' i gs"
    unfolding view_of_def g' by (rule stock_view_tick) (fact redis ticks)+
qed

end

end
