(* ===== verification/Saga_Stages.thy ===== *)
theory Saga_Stages
  imports Saga_Pool
begin

text \<open>
  The stages of a saga among others: each method of the orchestrator, as a thread, ends within a
  bounded number of its own steps in the next stage, whatever the other sagas do in between.
\<close>

text \<open>What the injected failures make a participant do.\<close>

definition pay_declines :: "('r, 'st, 'b) world \<Rightarrow> string \<Rightarrow> bool" where
  "pay_declines w oid = injected (failPaymentForOrderIds (pg_failures (w_payments w))) oid"

definition ship_declines :: "('r, 'st, 'b) world \<Rightarrow> string \<Rightarrow> bool" where
  "ship_declines w oid = injected (failShippingForOrderIds (sp_failures (w_shipping w))) oid"

context saga
begin

section \<open>Transitions\<close>

text \<open>A saga between two of its transitions.\<close>

definition stage ::
  "order \<Rightarrow> saga_step list \<Rightarrow> taken list \<Rightarrow> taken list \<Rightarrow> string option \<Rightarrow> string option \<Rightarrow> ghost \<Rightarrow> bool" where
  "stage od steps tk pl c s g \<longleftrightarrow> gh_order g = od \<and> gh_steps g = steps \<and> gh_told g = steps \<and>
     gh_taken g = tk \<and> gh_pledged g = pl \<and> gh_charge g = c \<and> gh_shipment g = s"

lemma idle_step:
  assumes "pool_setting E stop w0 ods" and "pool_ok E L \<rho> stop w0 ods (Suc m) w gs" and "i < length gs"
    and "same_side w w'" and "co_redis w' = co_redis w" and "co_uuids w' = co_uuids w"
    and "co_ticks w \<le> co_ticks w'" and "co_ticks w' \<le> co_ticks w + 3"
  shows "pool_ok E L \<rho> stop w0 ods m w' (gs[i := gs ! i])"
proof (rule side_step [OF assms(1-3)])
  have "env_now E (co_ticks w) \<le> env_now E (co_ticks w')"
    using assms(1,7) by (simp add: pool_setting_def clock_le)
  then show "owns E w0 w' (gs ! i)"
    using pool_owns [OF assms(2,3)] seen_same_side [OF assms(4)] by (rule owns_later [rotated 2])
qed (use assms in \<open>simp_all add: pool_ok_def same_side_def seen_same_side [OF assms(4)]\<close>)

lemma record_step_run:
  assumes setting: "pool_setting E stop w0 ods" and J: "pool_ok E L \<rho> stop w0 ods (Suc m) w gs" and i: "i < length gs"
    and oid: "gh_id (gs ! i) = oid"
    and may: "may_follow (gh_order (gs ! i)) (gh_steps (gs ! i)) (gh_taken (gs ! i)) (gh_pledged (gs ! i)) (st, ty, det)"
  shows "\<exists>w' od. record_step (SagaOrchestrator R S B E) oid st ty det w = (Inr (), w') \<and>
     pool_ok E L \<rho> stop w0 ods m w'
       (gs[i := (gs ! i)\<lparr>gh_stored := od, gh_steps := gh_steps (gs ! i) @ [(st, ty, det)]\<rparr>])"
proof -
  let ?g = "gs ! i" and ?a = "env_now E (co_ticks w)" and ?n = "env_now E (Suc (co_ticks w))"
  let ?ev = "\<lparr>ev_type = ty, ev_at = ?a, ev_detail = Some (JObj det)\<rparr>"
  have own: "owns E w0 w ?g" using J i by (rule pool_owns)
  then have od: "orders_of (w_store w) oid = Some (gh_stored ?g)"
    and hist: "\<forall>h \<in> set (or_history (gh_stored ?g)). ev_at h \<le> ?a"
    by (simp_all add: owns_def seen_def oid)
  have okw: "ok (w_store w)" using J by (simp add: pool_ok_def)
  from update_law [OF okw _ od, of ?ev st ?n] id_law [OF okw od] hist obtain st' u where
    up: "os_updateStatus S oid st ?ev ?n (w_store w) = (Inr (), st')" "ok st'"
      "orders_of st' = (orders_of (w_store w))(oid \<mapsto> with_event st (kept_event kept ?ev) u (gh_stored ?g))" by auto
  let ?od = "with_event st (kept_event kept ?ev) u (gh_stored ?g)"
  let ?w' = "w\<lparr>co_ticks := Suc (Suc (co_ticks w)), w_store := st'\<rparr>"
  let ?g' = "?g\<lparr>gh_stored := ?od, gh_steps := gh_steps ?g @ [(st, ty, det)]\<rparr>"
  have run: "record_step (SagaOrchestrator R S B E) oid st ty det w = (Inr (), ?w')"
    unfolding record_step_def bind_date_now using up(1) by (simp add: on_store_def zoom_apply)
  have le: "?a \<le> env_now E (Suc (Suc (co_ticks w)))"
    using setting by (simp add: pool_setting_def clock_le)
  have "pool_ok E L \<rho> stop w0 ods m ?w' (gs[i := ?g'])"
  proof (rule side_step [OF setting J i])
    have "\<forall>h \<in> set (or_history ?od). ev_at h \<le> env_now E (co_ticks ?w')"
      using hist le by (auto simp: with_event_def)
    then show "owns E w0 ?w' ?g'"
      using own up(3) oid may unfolding owns_def may_follow_def
      by (simp add: seen_def told_def announcements_def untimed_with_event)
  qed (use J up(2,3) oid in \<open>simp_all add: pool_ok_def seen_def told_def announcements_def\<close>)
  with run show ?thesis by blast
qed

lemma publish_step_run:
  assumes setting: "pool_setting E stop w0 ods" and J: "pool_ok E L \<rho> stop w0 ods (Suc m) w gs" and i: "i < length gs"
    and oid: "gh_id (gs ! i) = oid"
  shows "\<exists>w'. publish_saga (SagaOrchestrator R S B E) oid ty det w = (Inr (), w') \<and>
     pool_ok E L \<rho> stop w0 ods m w' (gs[i := (gs ! i)\<lparr>gh_told := gh_told (gs ! i) @ [(st, ty, det)]\<rparr>])"
proof -
  let ?g = "gs ! i"
  have own: "owns E w0 w ?g" using J i by (rule pool_owns)
  have "bus_ok (w_bus w)" using J by (simp add: pool_ok_def)
  from publish_saga_run [OF this, of E oid ty det st] obtain w' where
    w': "publish_saga (SagaOrchestrator R S B E) oid ty det w = (Inr (), w')" "bus_ok (w_bus w')"
      "announcements w' = announcements w @ [announced oid (st, ty, det)]" "keeps w w'"
      "w_store w' = w_store w" "co_ticks w' = Suc (co_ticks w)" by blast
  have key: "snd (snd (announced oid (st, ty, det))) = Some oid" by (simp add: announced_def)
  have told: "told w' x = told w x @ (if x = oid then [announced oid (st, ty, det)] else [])" for x
    using w'(3) key by (simp add: told_def)
  let ?g' = "?g\<lparr>gh_told := gh_told ?g @ [(st, ty, det)]\<rparr>"
  have le: "env_now E (co_ticks w) \<le> env_now E (co_ticks w')"
    using setting w'(6) by (simp add: pool_setting_def clock_le)
  have "pool_ok E L \<rho> stop w0 ods m w' (gs[i := ?g'])"
  proof (rule side_step [OF setting J i])
    have "\<forall>h \<in> set (or_history (gh_stored ?g)). ev_at h \<le> env_now E (co_ticks w')"
      using own le unfolding owns_def by (metis order_trans)
    then show "owns E w0 w' ?g'"
      using own told w'(4,5) oid unfolding owns_def
      by (simp add: seen_def keeps_def)
  qed (use J told w'(2,4-6) oid in \<open>simp_all add: pool_ok_def seen_def keeps_def\<close>)
  with w'(1) show ?thesis by blast
qed

lemma safe_transition:
  assumes setting: "pool_setting E stop w0 ods" and at: "stage od steps tk pl c s g" and oid: "or_id od = oid"
    and may: "may_follow od steps tk pl (st, ty, det)"
  shows "safe (pool_ok E L \<rho> stop w0 ods) 3 (transition_thread (SagaOrchestrator R S B E) oid st ty det)
     (\<lambda>r g. \<exists>x. r = Inr x \<and> stage od (steps @ [(st, ty, det)]) tk pl c s g) g"
proof -
  let ?J = "pool_ok E L \<rho> stop w0 ods" and ?D = "SagaOrchestrator R S B E" and ?x = "(st, ty, det)"
  let ?mid = "\<lambda>g. stage od steps tk pl c s (g\<lparr>gh_steps := steps\<rparr>) \<and> gh_steps g = steps @ [?x]"
  let ?Q = "\<lambda>r g. \<exists>x::unit. r = Inr x \<and> stage od (steps @ [?x]) tk pl c s g"
  have "safe ?J (Suc (Suc (Suc 0))) (transition_thread ?D oid st ty det) ?Q g"
    unfolding transition_thread_def
  proof (rule safe_step [where P = "\<lambda>_. ?mid"])
    fix m w gs i
    assume i: "i < length gs" and g: "gs ! i = g" and J: "?J (Suc m) w gs"
    have "gh_id (gs ! i) = oid"
      "may_follow (gh_order (gs ! i)) (gh_steps (gs ! i)) (gh_taken (gs ! i)) (gh_pledged (gs ! i)) ?x"
      using at oid may g by (simp_all add: stage_def)
    from record_step_run [OF setting J i this] obtain w' od' where
      w': "record_step ?D oid st ty det w = (Inr (), w')"
      "?J m w' (gs[i := (gs ! i)\<lparr>gh_stored := od', gh_steps := gh_steps (gs ! i) @ [?x]\<rparr>])" by blast
    moreover have "?mid ((gs ! i)\<lparr>gh_stored := od', gh_steps := gh_steps (gs ! i) @ [?x]\<rparr>)"
      using at g by (simp add: stage_def)
    ultimately show "\<exists>x w' g'. record_step ?D oid st ty det w = (Inr x, w') \<and> ?J m w' (gs[i := g']) \<and> ?mid g'"
      by blast
  next
    fix g1 assume mid: "?mid g1"
    show "safe ?J (Suc (Suc 0)) (tbind (await (publish_saga ?D oid ty det)) (\<lambda>_.
        if st = CONFIRMED \<or> st = CANCELLED then await (count_outcome st) else tret ())) ?Q g1"
    proof (rule safe_step [where P = "\<lambda>_. stage od (steps @ [?x]) tk pl c s"])
      fix m w gs i
      assume i: "i < length gs" and g: "gs ! i = g1" and J: "?J (Suc m) w gs"
      have "gh_id (gs ! i) = oid" using mid oid g by (simp add: stage_def)
      from publish_step_run [OF setting J i this, of ty det st] obtain w' where
        w': "publish_saga ?D oid ty det w = (Inr (), w')"
        "?J m w' (gs[i := (gs ! i)\<lparr>gh_told := gh_told (gs ! i) @ [?x]\<rparr>])" by blast
      moreover have "stage od (steps @ [?x]) tk pl c s ((gs ! i)\<lparr>gh_told := gh_told (gs ! i) @ [?x]\<rparr>)"
        using mid g by (simp add: stage_def)
      ultimately show "\<exists>x w' g'. publish_saga ?D oid ty det w = (Inr x, w') \<and> ?J m w' (gs[i := g']) \<and>
          stage od (steps @ [?x]) tk pl c s g'" by blast
    next
      fix g2 assume end_: "stage od (steps @ [?x]) tk pl c s g2"
      have "safe ?J (Suc 0) (await (count_outcome st)) ?Q g2"
      proof (rule safe_await)
        fix m w gs i
        assume i: "i < length gs" and g: "gs ! i = g2" and J: "?J (Suc m) w gs"
        obtain w' where w': "count_outcome st w = (Inr (), w')" and side: "same_side w w'"
          "co_redis w' = co_redis w" "co_uuids w' = co_uuids w" "co_ticks w' = co_ticks w"
          by (simp add: count_outcome_def on_metrics_def same_side_def)
        have "?J m w' (gs[i := gs ! i])" using idle_step [OF setting J i side(1-3)] side(4) by simp
        with w' end_ g show "\<exists>r w' g'. count_outcome st w = (r, w') \<and> ?J m w' (gs[i := g']) \<and> ?Q r g'" by blast
      qed
      then show "safe ?J (Suc 0) (if st = CONFIRMED \<or> st = CANCELLED then await (count_outcome st) else tret ()) ?Q g2"
        using end_ by (simp split: if_split)
    qed
  qed
  then show ?thesis by (simp add: numeral_3_eq_3)
qed

text \<open>Reading the order back.\<close>

lemma mustGet_step:
  assumes J: "pool_ok E L \<rho> stop w0 ods m w gs" and i: "i < length gs" and oid: "gh_id (gs ! i) = oid"
  shows "mustGet (SagaOrchestrator R S B E) oid w = (Inr (gh_stored (gs ! i)), w)"
proof (rule mustGet_run)
  show "tracks E w oid (gh_stored (gs ! i))"
    using pool_owns [OF J i] J oid by (simp add: tracks_def owns_def seen_def pool_ok_def)
qed

lemma safe_mustGet:
  assumes setting: "pool_setting E stop w0 ods" and at: "stage od steps tk pl c s g" and oid: "or_id od = oid"
  shows "safe (pool_ok E L \<rho> stop w0 ods) 1 (await (mustGet (SagaOrchestrator R S B E) oid))
     (\<lambda>r g. \<exists>x. r = Inr x \<and> x = gh_stored g \<and> stage od steps tk pl c s g \<and>
        untimed x = fold (apply_step kept) steps (untimed od)) g"
  unfolding One_nat_def
proof (rule safe_await)
  fix m w gs i
  assume i: "i < length gs" and g: "gs ! i = g" and J: "pool_ok E L \<rho> stop w0 ods (Suc m) w gs"
  have "gh_id (gs ! i) = oid" using at oid g by (simp add: stage_def)
  from mustGet_step [OF J i this] have run: "mustGet (SagaOrchestrator R S B E) oid w = (Inr (gh_stored g), w)"
    by (simp add: g)
  moreover have "pool_ok E L \<rho> stop w0 ods m w (gs[i := g])"
    using pool_ok_weaken [OF J] unfolding g [symmetric] list_update_id .
  moreover have "untimed (gh_stored g) = fold (apply_step kept) steps (untimed od)"
    using pool_owns [OF J i] at g by (simp add: owns_def stage_def)
  ultimately show "\<exists>r w' g'. mustGet (SagaOrchestrator R S B E) oid w = (r, w') \<and> pool_ok E L \<rho> stop w0 ods m w' (gs[i := g']) \<and>
      (\<exists>x. r = Inr x \<and> x = gh_stored g' \<and> stage od steps tk pl c s g' \<and> untimed x = fold (apply_step kept) steps (untimed od))"
    using at by blast
qed

section \<open>Payment and shipping\<close>

lemma payment_step:
  assumes setting: "pool_setting E stop w0 ods" and J: "pool_ok E L \<rho> stop w0 ods (Suc m) w gs" and i: "i < length gs"
    and oid: "gh_id (gs ! i) = oid" and p: "charges p = (charges (w_payments w))(oid := v)"
      "pg_failures p = pg_failures (w_payments w)"
  shows "pool_ok E L \<rho> stop w0 ods m (w\<lparr>w_payments := p\<rparr>) (gs[i := (gs ! i)\<lparr>gh_charge := v\<rparr>])"
proof (rule side_step [OF setting J i])
  show "owns E w0 (w\<lparr>w_payments := p\<rparr>) ((gs ! i)\<lparr>gh_charge := v\<rparr>)"
    using pool_owns [OF J i] p(1) oid unfolding owns_def by (simp add: seen_def told_def announcements_def)
qed (use J p oid in \<open>simp_all add: pool_ok_def seen_def told_def announcements_def\<close>)

lemma shipment_step:
  assumes setting: "pool_setting E stop w0 ods" and J: "pool_ok E L \<rho> stop w0 ods (Suc m) w gs" and i: "i < length gs"
    and oid: "gh_id (gs ! i) = oid" and p: "shipments p = (shipments (w_shipping w))(oid := v)"
      "sp_failures p = sp_failures (w_shipping w)"
  shows "pool_ok E L \<rho> stop w0 ods m (w\<lparr>w_shipping := p\<rparr>) (gs[i := (gs ! i)\<lparr>gh_shipment := v\<rparr>])"
proof (rule side_step [OF setting J i])
  show "owns E w0 (w\<lparr>w_shipping := p\<rparr>) ((gs ! i)\<lparr>gh_shipment := v\<rparr>)"
    using pool_owns [OF J i] p(1) oid unfolding owns_def by (simp add: seen_def told_def announcements_def)
qed (use J p oid in \<open>simp_all add: pool_ok_def seen_def told_def announcements_def\<close>)

lemma safe_charge:
  assumes setting: "pool_setting E stop w0 ods" and at: "stage od steps tk pl c s g" and oid: "or_id od = oid"
  shows "safe (pool_ok E L \<rho> stop w0 ods) 1 (await (on_payments (charge oid amount)))
     (\<lambda>r g. \<exists>x. r = Inr x \<and>
        (if pay_declines w0 oid
         then x = \<lparr>pr_ok = False, pr_paymentId = None, pr_reason = Some ''CARD_DECLINED''\<rparr> \<and> stage od steps tk pl c s g
         else x = \<lparr>pr_ok = True, pr_paymentId = Some (payment_ticket oid), pr_reason = None\<rparr> \<and>
           stage od steps tk pl (Some (payment_ticket oid)) s g)) g"
  unfolding One_nat_def
proof (rule safe_await)
  fix m w gs i
  assume i: "i < length gs" and g: "gs ! i = g" and J: "pool_ok E L \<rho> stop w0 ods (Suc m) w gs"
  let ?P = "\<lambda>x g. if pay_declines w0 oid
       then x = \<lparr>pr_ok = False, pr_paymentId = None, pr_reason = Some ''CARD_DECLINED''\<rparr> \<and> stage od steps tk pl c s g
       else x = \<lparr>pr_ok = True, pr_paymentId = Some (payment_ticket oid), pr_reason = None\<rparr> \<and>
         stage od steps tk pl (Some (payment_ticket oid)) s g"
  have id: "gh_id (gs ! i) = oid" using at oid g by (simp add: stage_def)
  have same: "injected (failPaymentForOrderIds (pg_failures (w_payments w))) oid = pay_declines w0 oid"
    using J by (simp add: pool_ok_def pay_declines_def)
  have "\<exists>x w' g'. on_payments (charge oid amount) w = (Inr x, w') \<and> pool_ok E L \<rho> stop w0 ods m w' (gs[i := g']) \<and> ?P x g'"
  proof (rule charge_cases [of "w_payments w" oid amount])
    assume d: "injected (failPaymentForOrderIds (pg_failures (w_payments w))) oid"
      "charge oid amount (w_payments w) =
        (\<lparr>pr_ok = False, pr_paymentId = None, pr_reason = Some ''CARD_DECLINED''\<rparr>, w_payments w)"
    have "pool_ok E L \<rho> stop w0 ods m w (gs[i := g])"
      using pool_ok_weaken [OF J] unfolding g [symmetric] list_update_id .
    with d same at show ?thesis
      by (intro exI [of _ "\<lparr>pr_ok = False, pr_paymentId = None, pr_reason = Some ''CARD_DECLINED''\<rparr>"] exI [of _ w]
          exI [of _ g]) (simp add: on_payments_def)
  next
    fix p assume d: "\<not> injected (failPaymentForOrderIds (pg_failures (w_payments w))) oid"
      "charge oid amount (w_payments w) =
        (\<lparr>pr_ok = True, pr_paymentId = Some (payment_ticket oid), pr_reason = None\<rparr>, p)"
      and p: "charges p = (charges (w_payments w))(oid \<mapsto> payment_ticket oid)" "pg_failures p = pg_failures (w_payments w)"
    from payment_step [OF setting J i id p] d same at g show ?thesis
      by (intro exI [of _ "\<lparr>pr_ok = True, pr_paymentId = Some (payment_ticket oid), pr_reason = None\<rparr>"]
          exI [of _ "w\<lparr>w_payments := p\<rparr>"] exI [of _ "g\<lparr>gh_charge := Some (payment_ticket oid)\<rparr>"])
         (simp add: on_payments_def stage_def)
  qed
  then show "\<exists>r w' g'. on_payments (charge oid amount) w = (r, w') \<and> pool_ok E L \<rho> stop w0 ods m w' (gs[i := g']) \<and>
      (\<exists>x. r = Inr x \<and> ?P x g')" by blast
qed

lemma safe_refund:
  assumes setting: "pool_setting E stop w0 ods" and at: "stage od steps tk pl c s g" and oid: "or_id od = oid"
  shows "safe (pool_ok E L \<rho> stop w0 ods) 1 (await (on_payments (refund oid)))
     (\<lambda>r g. \<exists>x. r = Inr x \<and> stage od steps tk pl None s g) g"
  unfolding One_nat_def
proof (rule safe_await)
  fix m w gs i
  assume i: "i < length gs" and g: "gs ! i = g" and J: "pool_ok E L \<rho> stop w0 ods (Suc m) w gs"
  have id: "gh_id (gs ! i) = oid" using at oid g by (simp add: stage_def)
  have "pool_ok E L \<rho> stop w0 ods m (w\<lparr>w_payments := snd (refund oid (w_payments w))\<rparr>)
      (gs[i := (gs ! i)\<lparr>gh_charge := None\<rparr>])"
    by (rule payment_step [OF setting J i id refund_charges refund_failures])
  moreover have "stage od steps tk pl None s ((gs ! i)\<lparr>gh_charge := None\<rparr>)" using at g by (simp add: stage_def)
  moreover have "on_payments (refund oid) w =
      (Inr (fst (refund oid (w_payments w))), w\<lparr>w_payments := snd (refund oid (w_payments w))\<rparr>)"
    by (simp add: on_payments_def split_beta)
  ultimately show "\<exists>r w' g'. on_payments (refund oid) w = (r, w') \<and> pool_ok E L \<rho> stop w0 ods m w' (gs[i := g']) \<and>
      (\<exists>x. r = Inr x \<and> stage od steps tk pl None s g')" by blast
qed

lemma safe_schedule:
  assumes setting: "pool_setting E stop w0 ods" and at: "stage od steps tk pl c s g" and oid: "or_id od = oid"
  shows "safe (pool_ok E L \<rho> stop w0 ods) 1 (await (on_shipping (schedule oid wh)))
     (\<lambda>r g. \<exists>x. r = Inr x \<and>
        (if ship_declines w0 oid
         then x = \<lparr>sr_ok = False, sr_shipmentId = None, sr_reason = Some ''NO_COURIER_AVAILABLE''\<rparr> \<and> stage od steps tk pl c s g
         else x = \<lparr>sr_ok = True, sr_shipmentId = Some (shipment_ticket oid), sr_reason = None\<rparr> \<and>
           stage od steps tk pl c (Some (shipment_ticket oid)) g)) g"
  unfolding One_nat_def
proof (rule safe_await)
  fix m w gs i
  assume i: "i < length gs" and g: "gs ! i = g" and J: "pool_ok E L \<rho> stop w0 ods (Suc m) w gs"
  let ?P = "\<lambda>x g. if ship_declines w0 oid
       then x = \<lparr>sr_ok = False, sr_shipmentId = None, sr_reason = Some ''NO_COURIER_AVAILABLE''\<rparr> \<and> stage od steps tk pl c s g
       else x = \<lparr>sr_ok = True, sr_shipmentId = Some (shipment_ticket oid), sr_reason = None\<rparr> \<and>
         stage od steps tk pl c (Some (shipment_ticket oid)) g"
  have id: "gh_id (gs ! i) = oid" using at oid g by (simp add: stage_def)
  have same: "injected (failShippingForOrderIds (sp_failures (w_shipping w))) oid = ship_declines w0 oid"
    using J by (simp add: pool_ok_def ship_declines_def)
  have "\<exists>x w' g'. on_shipping (schedule oid wh) w = (Inr x, w') \<and> pool_ok E L \<rho> stop w0 ods m w' (gs[i := g']) \<and> ?P x g'"
  proof (rule schedule_cases [of "w_shipping w" oid wh])
    assume d: "injected (failShippingForOrderIds (sp_failures (w_shipping w))) oid"
      "schedule oid wh (w_shipping w) =
        (\<lparr>sr_ok = False, sr_shipmentId = None, sr_reason = Some ''NO_COURIER_AVAILABLE''\<rparr>, w_shipping w)"
    have "pool_ok E L \<rho> stop w0 ods m w (gs[i := g])"
      using pool_ok_weaken [OF J] unfolding g [symmetric] list_update_id .
    with d same at show ?thesis
      by (intro exI [of _ "\<lparr>sr_ok = False, sr_shipmentId = None, sr_reason = Some ''NO_COURIER_AVAILABLE''\<rparr>"] exI [of _ w]
          exI [of _ g]) (simp add: on_shipping_def)
  next
    fix p assume d: "\<not> injected (failShippingForOrderIds (sp_failures (w_shipping w))) oid"
      "schedule oid wh (w_shipping w) =
        (\<lparr>sr_ok = True, sr_shipmentId = Some (shipment_ticket oid), sr_reason = None\<rparr>, p)"
      and p: "shipments p = (shipments (w_shipping w))(oid \<mapsto> shipment_ticket oid)" "sp_failures p = sp_failures (w_shipping w)"
    from shipment_step [OF setting J i id p] d same at g show ?thesis
      by (intro exI [of _ "\<lparr>sr_ok = True, sr_shipmentId = Some (shipment_ticket oid), sr_reason = None\<rparr>"]
          exI [of _ "w\<lparr>w_shipping := p\<rparr>"] exI [of _ "g\<lparr>gh_shipment := Some (shipment_ticket oid)\<rparr>"])
         (simp add: on_shipping_def stage_def)
  qed
  then show "\<exists>r w' g'. on_shipping (schedule oid wh) w = (r, w') \<and> pool_ok E L \<rho> stop w0 ods m w' (gs[i := g']) \<and>
      (\<exists>x. r = Inr x \<and> ?P x g')" by blast
qed

end

end
