(* ===== verification/Saga_Concurrent.thy ===== *)
theory Saga_Concurrent
  imports Saga_Stages
begin

text \<open>
  Several orders at once. The loops over the lines, the rollback and the whole run of a saga among
  others; from them, what a pool of sagas comes to under any schedule.
\<close>

lemma lines_of_others:
  "\<forall>g \<in> set gs. mset (map fst (f g)) \<subseteq># mset (k g) \<Longrightarrow>
     mset (map fst (concat (map f gs))) \<subseteq># mset (concat (map k gs))"
proof (induction gs)
  case (Cons g gs)
  then have "mset (map fst (f g)) \<subseteq># mset (k g)"
    "mset (map fst (concat (map f gs))) \<subseteq># mset (concat (map k gs))" by simp_all
  then have "mset (map fst (f g)) + mset (map fst (concat (map f gs))) \<subseteq># mset (k g) + mset (concat (map k gs))"
    by (rule subset_mset.add_mono)
  then show ?case by simp
qed simp

abbreviation all_lines :: "order list \<Rightarrow> order_line list" where
  "all_lines ods \<equiv> concat (map or_lines ods)"

context saga
begin

lemma taken_in_all:
  assumes J: "pool_ok E L \<rho> stop w0 ods m w gs" and i: "i < length gs"
    and next_: "mset (xs @ lines_of (gh_taken (gs ! i))) \<subseteq># mset (or_lines (gh_order (gs ! i)))"
  shows "mset (xs @ lines_of (gh_taken (gs ! i) @ others gh_taken i gs)) \<subseteq># mset (all_lines ods)"
proof -
  have each: "\<forall>g \<in> set (take i gs @ drop (Suc i) gs). mset (map fst (gh_taken g)) \<subseteq># mset (or_lines (gh_order g))"
    using J by (auto simp: pool_ok_def owns_def dest: in_set_takeD in_set_dropD)
  have "map gh_order gs = ods" using J by (simp add: pool_ok_def)
  then have "all_lines ods = concat (map (\<lambda>g. or_lines (gh_order g)) gs)" by (auto simp: comp_def)
  then have "mset (all_lines ods) = mset (or_lines (gh_order (gs ! i))) + mset (others (\<lambda>g. or_lines (gh_order g)) i gs)"
    using mset_focus [OF i, of "\<lambda>g. or_lines (gh_order g)"] by simp
  moreover have "mset (lines_of (others gh_taken i gs)) \<subseteq># mset (others (\<lambda>g. or_lines (gh_order g)) i gs)"
    using lines_of_others [OF each] unfolding others_def .
  ultimately show ?thesis
    using subset_mset.add_mono [OF next_] by (simp add: add.assoc)
qed

lemma short_of_all:
  assumes "pool_ok E L \<rho> stop w0 ods m w gs" and "i < length gs"
    and "mset (l # lines_of (gh_taken (gs ! i))) \<subseteq># mset (or_lines (gh_order (gs ! i)))"
    and "\<not> fulfillable L (l # lines_of (gh_taken (gs ! i) @ others gh_taken i gs))"
  shows "\<not> fulfillable L (all_lines ods)"
  using fulfillable_submset [OF taken_in_all [OF assms(1,2), of "[l]"]] assms(3,4) by auto

section \<open>Reserving one line\<close>

lemma reserve_begin_step:
  assumes setting: "pool_setting E stop w0 ods" and J: "pool_ok E L \<rho> stop w0 ods (Suc m) w gs" and i: "i < length gs"
  shows "\<exists>rid start w'. reserve_begin E wh sku w = (Inr (rid, start), w') \<and>
     pool_ok E L \<rho> stop w0 ods m w' (gs[i := (gs ! i)\<lparr>gh_drawn := rid # gh_drawn (gs ! i)\<rparr>])"
proof -
  have clock: "clock_ok E" using setting by (simp add: pool_setting_def)
  from stock_view_draw [OF pool_view [OF J i, unfolded view_of_def] clock, of wh sku] obtain w' start where
    w': "reserve_begin E wh sku w = (Inr (env_uuid E (co_uuids w), start), w')"
      "stock_view E L \<rho> (lease_end E w0) w' (gh_taken (gs ! i) @ others gh_taken i gs)
         (gh_pledged (gs ! i) @ others gh_pledged i gs)
         (env_uuid E (co_uuids w) # gh_drawn (gs ! i) @ others gh_drawn i gs)"
      "w' = w\<lparr>co_known := jset (stockKey wh sku) (wh, sku) (co_known w), co_uuids := Suc (co_uuids w),
              co_ticks := Suc (co_ticks w)\<rparr>" by blast
  let ?g' = "(gs ! i)\<lparr>gh_taken := gh_taken (gs ! i), gh_pledged := gh_pledged (gs ! i),
      gh_drawn := env_uuid E (co_uuids w) # gh_drawn (gs ! i)\<rparr>"
  have "pool_ok E L \<rho> stop w0 ods m w' (gs[i := ?g'])"
  proof (rule stock_step [OF setting J i refl])
    show "view_of E L \<rho> (lease_end E w0) w' ?g' i gs" using w'(2) by (simp add: view_of_def)
    show "mset (lines_of (gh_taken (gs ! i))) \<subseteq># mset (or_lines (gh_order (gs ! i)))"
      using pool_owns [OF J i] by (simp add: owns_def)
    show "coherent (gh_order (gs ! i)) (gh_steps (gs ! i)) (gh_taken (gs ! i)) (gh_pledged (gs ! i))
        (env_uuid E (co_uuids w) # gh_drawn (gs ! i))"
      using pool_owns [OF J i] by (intro coherent_draw) (simp add: owns_def)
  qed (simp_all add: w'(3) same_side_def)
  then show ?thesis using w'(1) by auto
qed

lemma reserve_send_step:
  assumes setting: "pool_setting E stop w0 ods" and J: "pool_ok E L \<rho> stop w0 ods (Suc m) w gs" and i: "i < length gs"
    and at: "stage od [] tk tk c s (gs ! i)" and drawn: "gh_drawn (gs ! i) = rid # rest"
    and l: "0 < ol_qty l" and next_: "mset (lines_of tk @ [l]) \<subseteq># mset (or_lines od)"
  shows "\<exists>status n w' g'. reserve_send R E (ol_warehouseId l) (ol_sku l) (Num (ol_qty l)) DEFAULT_RESERVATION_TTL_SECONDS rid w
       = (Inr (status, n), w') \<and> pool_ok E L \<rho> stop w0 ods m w' (gs[i := g']) \<and>
     (status = ''OK'' \<and> (\<exists>d. stage od [] (tk @ [(l, rid, d)]) (tk @ [(l, rid, d)]) c s g') \<or>
      status \<in> {''INSUFFICIENT_STOCK'', ''UNKNOWN_SKU''} \<and> stage od [] tk tk c s g' \<and> \<not> fulfillable L (all_lines ods))"
proof -
  let ?g = "gs ! i" and ?t = "lease_end E w0"
  have clock: "clock_ok E" using setting by (simp add: pool_setting_def)
  have g: "gh_taken ?g = tk" "gh_pledged ?g = tk" "gh_order ?g = od" "gh_steps ?g = []" using at by (simp_all add: stage_def)
  have t: "?t < env_now E (co_ticks w) + 900000" by (rule pool_late [OF setting J])
  have view: "stock_view E L \<rho> ?t w (tk @ others gh_taken i gs) (tk @ others gh_pledged i gs)
      (rid # rest @ others gh_drawn i gs)"
    using pool_view [OF J i] by (simp add: view_of_def g drawn)
  obtain r' status n where
    send: "reserve_send R E (ol_warehouseId l) (ol_sku l) (Num (ol_qty l)) DEFAULT_RESERVATION_TTL_SECONDS rid w
       = (Inr (status, n), w\<lparr>co_redis := r', co_ticks := Suc (co_ticks w)\<rparr>)"
    and cases: "status = ''OK'' \<and> (\<exists>d. stock_view E L \<rho> ?t (w\<lparr>co_redis := r', co_ticks := Suc (co_ticks w)\<rparr>)
         ((l, rid, d) # tk @ others gh_taken i gs) ((l, rid, d) # tk @ others gh_pledged i gs) (rest @ others gh_drawn i gs)) \<or>
     status \<in> {''INSUFFICIENT_STOCK'', ''UNKNOWN_SKU''} \<and> \<not> fulfillable L (l # lines_of (tk @ others gh_taken i gs)) \<and>
       stock_view E L \<rho> ?t (w\<lparr>co_redis := r', co_ticks := Suc (co_ticks w)\<rparr>) (tk @ others gh_taken i gs)
         (tk @ others gh_pledged i gs) (rid # rest @ others gh_drawn i gs)"
    by (rule stock_view_reserve [OF view l t clock])
  let ?w' = "w\<lparr>co_redis := r', co_ticks := Suc (co_ticks w)\<rparr>"
  have side: "same_side w ?w'" by (simp add: same_side_def)
  have sub: "mset (l # lines_of tk) \<subseteq># mset (or_lines od)" using next_ by simp
  from cases show ?thesis
  proof (elim disjE conjE exE)
    fix d assume ok: "status = ''OK''"
      and v: "stock_view E L \<rho> ?t ?w' ((l, rid, d) # tk @ others gh_taken i gs) ((l, rid, d) # tk @ others gh_pledged i gs)
        (rest @ others gh_drawn i gs)"
    let ?tk = "tk @ [(l, rid, d)]"
    let ?g' = "?g\<lparr>gh_taken := ?tk, gh_pledged := ?tk, gh_drawn := rest\<rparr>"
    have "pool_ok E L \<rho> stop w0 ods m ?w' (gs[i := ?g'])"
    proof (rule stock_step [OF setting J i refl _ side])
      show "view_of E L \<rho> ?t ?w' ?g' i gs"
        unfolding view_of_def by (rule stock_view_perm [OF v]) simp_all
      show "mset (lines_of ?tk) \<subseteq># mset (or_lines (gh_order ?g))" using sub g by simp
      have "coherent od [] tk tk (gh_drawn ?g)" using pool_owns [OF J i] by (simp add: owns_def g)
      moreover have "rid \<notin> set (ids tk)" using v by (simp add: stock_view_def)
      ultimately show "coherent (gh_order ?g) (gh_steps ?g) ?tk ?tk rest"
        unfolding g by (rule coherent_reserve)
    qed simp_all
    moreover have "stage od [] ?tk ?tk c s ?g'" using at by (simp add: stage_def)
    ultimately show ?thesis using send ok by blast
  next
    assume no: "status \<in> {''INSUFFICIENT_STOCK'', ''UNKNOWN_SKU''}"
      and short: "\<not> fulfillable L (l # lines_of (tk @ others gh_taken i gs))"
      and v: "stock_view E L \<rho> ?t ?w' (tk @ others gh_taken i gs) (tk @ others gh_pledged i gs)
        (rid # rest @ others gh_drawn i gs)"
    let ?g' = "?g\<lparr>gh_taken := tk, gh_pledged := tk, gh_drawn := rid # rest\<rparr>"
    have "pool_ok E L \<rho> stop w0 ods m ?w' (gs[i := ?g'])"
    proof (rule stock_step [OF setting J i refl _ side])
      show "view_of E L \<rho> ?t ?w' ?g' i gs" using v by (simp add: view_of_def)
      show "mset (lines_of tk) \<subseteq># mset (or_lines (gh_order ?g))"
        using pool_owns [OF J i] by (simp add: owns_def g)
      show "coherent (gh_order ?g) (gh_steps ?g) tk tk (rid # rest)"
        using pool_owns [OF J i] by (simp add: owns_def g drawn)
    qed simp_all
    moreover have "stage od [] tk tk c s ?g'" using at by (simp add: stage_def)
    moreover have "\<not> fulfillable L (all_lines ods)"
      using short_of_all [OF J i, of l] sub short by (simp add: g)
    ultimately show ?thesis using send no by blast
  qed
qed

lemma reserve_end_run:
  "\<exists>res w'. reserve_end E wh sku rid start (status, n) w = (Inr res, w') \<and> same_side w w' \<and>
     co_redis w' = co_redis w \<and> co_uuids w' = co_uuids w \<and> co_ticks w' = Suc (co_ticks w) \<and>
     (if status \<in> {''INSUFFICIENT_STOCK'', ''UNKNOWN_SKU''} then \<not> rr_ok res
      else rr_ok res \<and> rr_reservationId res = Some rid)"
  by (simp add: reserve_end_def process_acts Let_def same_side_def rejected_result_def accepted_result_def)

lemma safe_reserve:
  assumes setting: "pool_setting E stop w0 ods" and at: "stage od [] tk tk c s g"
    and l: "l \<in> set (or_lines od)" and next_: "mset (lines_of tk @ [l]) \<subseteq># mset (or_lines od)"
  shows "safe (pool_ok E L \<rho> stop w0 ods) 3
     (reserve_thread R E (ol_warehouseId l) (ol_sku l) (Num (ol_qty l)) DEFAULT_RESERVATION_TTL_SECONDS)
     (\<lambda>r g. \<exists>x. r = Inr x \<and>
        (rr_ok x \<and> (\<exists>i d. rr_reservationId x = Some i \<and> stage od [] (tk @ [(l, i, d)]) (tk @ [(l, i, d)]) c s g) \<or>
         \<not> rr_ok x \<and> stage od [] tk tk c s g \<and> \<not> fulfillable L (all_lines ods))) g"
    (is "safe ?J 3 ?p ?Q g")
proof (cases "0 < ol_qty l")
  case False
  have "safe ?J (Suc 0) (await (ret (rejected_result INVALID_QTY None))) ?Q g"
  proof (rule safe_await)
    fix m w gs i
    assume i: "i < length gs" and g: "gs ! i = g" and J: "?J (Suc m) w gs"
    have "map gh_order gs = ods" using J by (simp add: pool_ok_def)
    moreover have "gh_order (gs ! i) = od" using at g by (simp add: stage_def)
    ultimately have "od \<in> set ods" using i by (metis length_map nth_map nth_mem)
    then have "l \<in> set (all_lines ods)" using l by auto
    then have "\<not> fulfillable L (all_lines ods)" using False by (auto simp: fulfillable_iff)
    moreover have "?J m w (gs[i := g])" using pool_ok_weaken [OF J] unfolding g [symmetric] list_update_id .
    ultimately show "\<exists>r w' g'. ret (rejected_result INVALID_QTY None) w = (r, w') \<and> ?J m w' (gs[i := g']) \<and> ?Q r g'"
      using at by (intro exI [of _ "Inr (rejected_result INVALID_QTY None)"] exI [of _ w] exI [of _ g])
        (simp add: rejected_result_def)
  qed
  then have "safe ?J 3 (await (ret (rejected_result INVALID_QTY None))) ?Q g" by (rule safe_mono) simp_all
  then show ?thesis using False by (simp add: reserve_thread_def)
next
  case True
  let ?W = "ol_warehouseId l" and ?S = "ol_sku l" and ?T = "DEFAULT_RESERVATION_TTL_SECONDS"
  let ?drew = "\<lambda>(x :: string \<times> rat) g. stage od [] tk tk c s g \<and> (\<exists>rest. gh_drawn g = fst x # rest)"
  let ?sent = "\<lambda>rid (x :: reply) g. fst x = ''OK'' \<and> (\<exists>d. stage od [] (tk @ [(l, rid, d)]) (tk @ [(l, rid, d)]) c s g) \<or>
      fst x \<in> {''INSUFFICIENT_STOCK'', ''UNKNOWN_SKU''} \<and> stage od [] tk tk c s g \<and> \<not> fulfillable L (all_lines ods)"
  have "safe ?J (Suc (Suc (Suc 0)))
      (tbind (await (reserve_begin E ?W ?S)) (\<lambda>(rid, start).
       tbind (await (reserve_send R E ?W ?S (Num (ol_qty l)) ?T rid)) (\<lambda>result.
       await (reserve_end E ?W ?S rid start result)))) ?Q g"
  proof (rule safe_step [where P = ?drew])
    fix m w gs i
    assume i: "i < length gs" and g: "gs ! i = g" and J: "?J (Suc m) w gs"
    from reserve_begin_step [OF setting J i, of ?W ?S] obtain rid start w' where
      w': "reserve_begin E ?W ?S w = (Inr (rid, start), w')"
        "?J m w' (gs[i := (gs ! i)\<lparr>gh_drawn := rid # gh_drawn (gs ! i)\<rparr>])" by blast
    moreover have "?drew (rid, start) ((gs ! i)\<lparr>gh_drawn := rid # gh_drawn (gs ! i)\<rparr>)"
      using at g by (simp add: stage_def)
    ultimately show "\<exists>x w' g'. reserve_begin E ?W ?S w = (Inr x, w') \<and> ?J m w' (gs[i := g']) \<and> ?drew x g'" by blast
  next
    fix x :: "string \<times> rat" and g1 assume drew: "?drew x g1"
    obtain rid start where x: "x = (rid, start)" by (cases x)
    from drew obtain rest where g1: "stage od [] tk tk c s g1" "gh_drawn g1 = rid # rest" by (auto simp: x)
    have "safe ?J (Suc (Suc 0)) (tbind (await (reserve_send R E ?W ?S (Num (ol_qty l)) ?T rid)) (\<lambda>result.
        await (reserve_end E ?W ?S rid start result))) ?Q g1"
    proof (rule safe_step [where P = "?sent rid"])
      fix m w gs i
      assume i: "i < length gs" and g: "gs ! i = g1" and J: "?J (Suc m) w gs"
      from reserve_send_step [OF setting J i g1 [folded g] True next_] obtain status n w' g' where
        "reserve_send R E ?W ?S (Num (ol_qty l)) ?T rid w = (Inr (status, n), w')" "?J m w' (gs[i := g'])"
        "?sent rid (status, n) g'" unfolding fst_conv by (elim exE conjE)
      then show "\<exists>x w' g'. reserve_send R E ?W ?S (Num (ol_qty l)) ?T rid w = (Inr x, w') \<and> ?J m w' (gs[i := g']) \<and>
          ?sent rid x g'" by blast
    next
      fix y :: reply and g2 assume sent: "?sent rid y g2"
      obtain status n where y: "y = (status, n)" by (cases y)
      show "safe ?J (Suc 0) (await (reserve_end E ?W ?S rid start y)) ?Q g2"
      proof (rule safe_await)
        fix m w gs i
        assume i: "i < length gs" and g: "gs ! i = g2" and J: "?J (Suc m) w gs"
        from reserve_end_run [of E ?W ?S rid start status n w] obtain res w' where
          w': "reserve_end E ?W ?S rid start y w = (Inr res, w')" "same_side w w'" "co_redis w' = co_redis w"
            "co_uuids w' = co_uuids w" "co_ticks w' = Suc (co_ticks w)"
            "if status \<in> {''INSUFFICIENT_STOCK'', ''UNKNOWN_SKU''} then \<not> rr_ok res
             else rr_ok res \<and> rr_reservationId res = Some rid" unfolding y by blast
        have "?J m w' (gs[i := g2])"
          using idle_step [OF setting J i w'(2-4)] w'(5) unfolding g by simp
        moreover have "?Q (Inr res) g2" using sent w'(6) by (auto simp: y)
        ultimately show "\<exists>r w' g'. reserve_end E ?W ?S rid start y w = (r, w') \<and> ?J m w' (gs[i := g']) \<and> ?Q r g'"
          using w'(1) by blast
      qed
    qed
    then show "safe ?J (Suc (Suc 0)) (case x of (rid, start) \<Rightarrow>
        tbind (await (reserve_send R E ?W ?S (Num (ol_qty l)) ?T rid)) (\<lambda>result.
        await (reserve_end E ?W ?S rid start result))) ?Q g1" by (simp add: x)
  qed
  then show ?thesis using True by (simp add: reserve_thread_def numeral_3_eq_3)
qed

section \<open>The loops\<close>

lemma safe_reserve_loop:
  assumes setting: "pool_setting E stop w0 ods"
  shows "stage od [] tk tk c s g \<Longrightarrow> or_lines od = lines_of tk @ ls \<Longrightarrow>
     safe (pool_ok E L \<rho> stop w0 ods) (3 * length ls)
       (reserve_loop_thread (SagaOrchestrator R S B E) ls (map rsv tk))
       (\<lambda>r g. \<exists>x. r = Inr x \<and> (\<exists>tk'. snd x = map rsv tk' \<and> length tk' \<le> length (or_lines od) \<and> stage od [] tk' tk' c s g \<and>
          (case fst x of None \<Rightarrow> lines_of tk' = or_lines od
           | Some l \<Rightarrow> l \<in> set (or_lines od) \<and> \<not> fulfillable L (all_lines ods)))) g"
proof (induction ls arbitrary: tk g)
  case Nil
  then have "length tk \<le> length (or_lines od)" by simp
  with Nil show ?case by auto
next
  case (Cons l ls)
  let ?J = "pool_ok E L \<rho> stop w0 ods" and ?D = "SagaOrchestrator R S B E"
  let ?Q = "\<lambda>r g. \<exists>x. r = Inr x \<and> (\<exists>tk'. snd x = map rsv tk' \<and> length tk' \<le> length (or_lines od) \<and> stage od [] tk' tk' c s g \<and>
      (case fst x of None \<Rightarrow> lines_of tk' = or_lines od
       | Some l \<Rightarrow> l \<in> set (or_lines od) \<and> \<not> fulfillable L (all_lines ods)))"
  let ?P = "\<lambda>x g. rr_ok x \<and> (\<exists>i d. rr_reservationId x = Some i \<and> stage od [] (tk @ [(l, i, d)]) (tk @ [(l, i, d)]) c s g) \<or>
      \<not> rr_ok x \<and> stage od [] tk tk c s g \<and> \<not> fulfillable L (all_lines ods)"
  have l: "l \<in> set (or_lines od)" "mset (lines_of tk @ [l]) \<subseteq># mset (or_lines od)"
    using Cons.prems(2) by simp_all
  have "safe ?J (3 + 3 * length ls) (reserve_loop_thread ?D (l # ls) (map rsv tk)) ?Q g"
    unfolding reserve_loop_thread.simps SagaOrchestrator_fields
  proof (rule safe_then [where P = ?P])
    show "safe ?J 3 (reserve_thread R E (ol_warehouseId l) (ol_sku l) (Num (ol_qty l)) DEFAULT_RESERVATION_TTL_SECONDS)
        (\<lambda>r g. \<exists>x. r = Inr x \<and> ?P x g) g"
      by (rule safe_reserve [OF setting Cons.prems(1) l])
  next
    fix x g1 assume x: "?P x g1"
    show "safe ?J (3 * length ls)
        (if \<not> rr_ok x then tret (Some l, map rsv tk)
         else reserve_loop_thread ?D ls (map rsv tk @ [\<lparr>rv_warehouseId = ol_warehouseId l, rv_sku = ol_sku l,
                rv_reservationId = the (rr_reservationId x)\<rparr>])) ?Q g1"
    proof (cases "rr_ok x")
      case False
      have "length tk \<le> length (or_lines od)" using Cons.prems(2) by simp
      with False x l show ?thesis by auto
    next
      case True
      with x obtain i d where i: "rr_reservationId x = Some i" "stage od [] (tk @ [(l, i, d)]) (tk @ [(l, i, d)]) c s g1"
        by auto
      have "safe ?J (3 * length ls) (reserve_loop_thread ?D ls (map rsv (tk @ [(l, i, d)]))) ?Q g1"
        using Cons.prems(2) by (intro Cons.IH [OF i(2)]) simp
      with True i(1) show ?thesis by (simp add: rsv_def)
    qed
  qed
  then show ?case by simp
qed

lemma safe_release_all:
  assumes setting: "pool_setting E stop w0 ods" and at: "stage od steps tk tk c s g"
    and st: "last_status steps = COMPENSATING"
  shows "safe (pool_ok E L \<rho> stop w0 ods) (length tk)
     (for_each_thread (\<lambda>r. await (release_reservation (SagaOrchestrator R S B E) r)) (map rsv tk))
     (\<lambda>r g. \<exists>x. r = Inr x \<and> stage od steps [] [] c s g) g"
proof -
  let ?J = "pool_ok E L \<rho> stop w0 ods" and ?D = "SagaOrchestrator R S B E"
  let ?I = "\<lambda>xs g. \<exists>tk. xs = map rsv tk \<and> stage od steps tk tk c s g"
  have "safe ?J (Suc 0 * length (map rsv tk)) (for_each_thread (\<lambda>r. await (release_reservation ?D r)) (map rsv tk))
      (\<lambda>r g. r = Inr () \<and> ?I [] g) g"
  proof (rule safe_for_each)
    fix x xs g1 assume "?I (x # xs) g1"
    then obtain y tk1 where x: "x = rsv y" "xs = map rsv tk1" and g1: "stage od steps (y # tk1) (y # tk1) c s g1" by auto
    show "safe ?J (Suc 0) (await (release_reservation ?D x)) (\<lambda>r g. r = Inr () \<and> ?I xs g) g1"
    proof (rule safe_await)
      fix m w gs i
      assume i: "i < length gs" and g: "gs ! i = g1" and J: "?J (Suc m) w gs"
      have clock: "clock_ok E" using setting by (simp add: pool_setting_def)
      have late: "env_now E (co_ticks w) \<le> lease_end E w0" by (rule pool_late [OF setting J])
      have g': "gh_taken (gs ! i) = y # tk1" "gh_pledged (gs ! i) = y # tk1" using g1 g by (simp_all add: stage_def)
      have "stock_view E L \<rho> (lease_end E w0) w (y # tk1 @ others gh_taken i gs) (y # tk1 @ others gh_pledged i gs)
          (gh_drawn (gs ! i) @ others gh_drawn i gs)"
        using pool_view [OF J i] by (simp add: view_of_def g')
      from stock_view_release [OF this late clock, of ?D] obtain w' where
        w': "release_reservation ?D (rsv y) w = (Inr (), w')"
          "stock_view E L \<rho> (lease_end E w0) w' (tk1 @ others gh_taken i gs) (tk1 @ others gh_pledged i gs)
            (fst (snd y) # gh_drawn (gs ! i) @ others gh_drawn i gs)" "same_rest w w'" "co_ticks w' = Suc (co_ticks w)" by auto
      let ?g' = "(gs ! i)\<lparr>gh_taken := tk1, gh_pledged := tk1, gh_drawn := fst (snd y) # gh_drawn (gs ! i)\<rparr>"
      have "?J m w' (gs[i := ?g'])"
      proof (rule stock_step [OF setting J i refl _ same_rest_side [OF w'(3)]])
        show "view_of E L \<rho> (lease_end E w0) w' ?g' i gs" using w'(2) by (simp add: view_of_def)
        have "mset (lines_of (y # tk1)) \<subseteq># mset (or_lines (gh_order (gs ! i)))"
          using pool_owns [OF J i] by (simp add: owns_def g')
        then show "mset (lines_of tk1) \<subseteq># mset (or_lines (gh_order (gs ! i)))"
          by (rule subset_mset.order_trans [rotated]) simp
        have "coherent (gh_order (gs ! i)) (gh_steps (gs ! i)) (y # tk1) (y # tk1) (gh_drawn (gs ! i))"
          using pool_owns [OF J i] by (simp add: owns_def g')
        then show "coherent (gh_order (gs ! i)) (gh_steps (gs ! i)) tk1 tk1 (fst (snd y) # gh_drawn (gs ! i))"
          using st g1 g by (intro coherent_release) (simp_all add: stage_def)
      qed (simp_all add: w'(4))
      moreover have "stage od steps tk1 tk1 c s ?g'" using g1 g by (simp add: stage_def)
      ultimately show "\<exists>r w' g'. release_reservation ?D x w = (r, w') \<and> ?J m w' (gs[i := g']) \<and> r = Inr () \<and> ?I xs g'"
        using w'(1) x by blast
    qed
  next
    show "?I (map rsv tk) g" using at by blast
  qed
  then show ?thesis by (auto elim: safe_mono)
qed

lemma safe_commit_all:
  assumes setting: "pool_setting E stop w0 ods" and at: "stage od steps tk pl c s g"
    and st: "last_status steps = SHIPPING_SCHEDULED"
  shows "safe (pool_ok E L \<rho> stop w0 ods) (length pl)
     (for_each_thread (\<lambda>r. await (commit_reservation (SagaOrchestrator R S B E) r)) (map rsv pl))
     (\<lambda>r g. \<exists>x. r = Inr x \<and> stage od steps tk [] c s g) g"
proof -
  let ?J = "pool_ok E L \<rho> stop w0 ods" and ?D = "SagaOrchestrator R S B E"
  let ?I = "\<lambda>xs g. \<exists>pl. xs = map rsv pl \<and> stage od steps tk pl c s g"
  have "safe ?J (Suc 0 * length (map rsv pl)) (for_each_thread (\<lambda>r. await (commit_reservation ?D r)) (map rsv pl))
      (\<lambda>r g. r = Inr () \<and> ?I [] g) g"
  proof (rule safe_for_each)
    fix x xs g1 assume "?I (x # xs) g1"
    then obtain y pl1 where x: "x = rsv y" "xs = map rsv pl1" and g1: "stage od steps tk (y # pl1) c s g1" by auto
    show "safe ?J (Suc 0) (await (commit_reservation ?D x)) (\<lambda>r g. r = Inr () \<and> ?I xs g) g1"
    proof (rule safe_await)
      fix m w gs i
      assume i: "i < length gs" and g: "gs ! i = g1" and J: "?J (Suc m) w gs"
      have clock: "clock_ok E" using setting by (simp add: pool_setting_def)
      have late: "env_now E (co_ticks w) \<le> lease_end E w0" by (rule pool_late [OF setting J])
      have g': "gh_taken (gs ! i) = tk" "gh_pledged (gs ! i) = y # pl1" using g1 g by (simp_all add: stage_def)
      have "stock_view E L \<rho> (lease_end E w0) w (tk @ others gh_taken i gs) (y # pl1 @ others gh_pledged i gs)
          (gh_drawn (gs ! i) @ others gh_drawn i gs)"
        using pool_view [OF J i] by (simp add: view_of_def g')
      from stock_view_commit [OF this late clock, of ?D] obtain w' where
        w': "commit_reservation ?D (rsv y) w = (Inr (), w')"
          "stock_view E L \<rho> (lease_end E w0) w' (tk @ others gh_taken i gs) (pl1 @ others gh_pledged i gs)
            (fst (snd y) # gh_drawn (gs ! i) @ others gh_drawn i gs)" "same_rest w w'" "co_ticks w' = Suc (co_ticks w)" by auto
      let ?g' = "(gs ! i)\<lparr>gh_taken := tk, gh_pledged := pl1, gh_drawn := fst (snd y) # gh_drawn (gs ! i)\<rparr>"
      have "?J m w' (gs[i := ?g'])"
      proof (rule stock_step [OF setting J i refl _ same_rest_side [OF w'(3)]])
        show "view_of E L \<rho> (lease_end E w0) w' ?g' i gs" using w'(2) by (simp add: view_of_def)
        show "mset (lines_of tk) \<subseteq># mset (or_lines (gh_order (gs ! i)))"
          using pool_owns [OF J i] by (simp add: owns_def g')
        have "coherent (gh_order (gs ! i)) (gh_steps (gs ! i)) tk (y # pl1) (gh_drawn (gs ! i))"
          using pool_owns [OF J i] by (simp add: owns_def g')
        then show "coherent (gh_order (gs ! i)) (gh_steps (gs ! i)) tk pl1 (fst (snd y) # gh_drawn (gs ! i))"
          using st g1 g by (intro coherent_commit) (simp_all add: stage_def)
      qed (simp_all add: w'(4))
      moreover have "stage od steps tk pl1 c s ?g'" using g1 g by (simp add: stage_def)
      ultimately show "\<exists>r w' g'. commit_reservation ?D x w = (r, w') \<and> ?J m w' (gs[i := g']) \<and> r = Inr () \<and> ?I xs g'"
        using w'(1) x by blast
    qed
  next
    show "?I (map rsv pl) g" using at by blast
  qed
  then show ?thesis by (auto elim: safe_mono)
qed

end

end
