(* ===== verification/Pool_Outcome.thy ===== *)
theory Pool_Outcome
  imports Saga_Concurrent Production_Saga
begin

text \<open>
  What a pool of sagas comes to: the run of one saga among others, every schedule of a pool, and
  the properties over the deployed stores.
\<close>

text \<open>How many steps of its own the saga of an order takes at most.\<close>

definition saga_steps :: "order \<Rightarrow> nat" where
  "saga_steps od = 17 + 4 * length (or_lines od)"

context saga
begin

section \<open>A whole run among others\<close>

definition ended ::
  "order \<Rightarrow> saga_step list \<Rightarrow> taken list \<Rightarrow> string option \<Rightarrow> string option \<Rightarrow> js_error + order \<Rightarrow> ghost \<Rightarrow> bool" where
  "ended od steps tk c s r g \<longleftrightarrow> r = Inr (gh_stored g) \<and> stage od steps tk [] c s g \<and>
     untimed (gh_stored g) = fold (apply_step kept) steps (untimed od)"

lemma safe_last_get:
  assumes "pool_setting E stop w0 ods" and "stage od steps tk [] c s g" and "or_id od = oid"
  shows "safe (pool_ok E L \<rho> stop w0 ods) 1 (await (mustGet (SagaOrchestrator R S B E) oid)) (ended od steps tk c s) g"
  by (rule safe_mono [OF safe_mustGet [OF assms]]) (auto simp: ended_def)

lemma safe_rollback:
  assumes setting: "pool_setting E stop w0 ods" and at: "stage od steps tk tk c s g" and oid: "or_id od = oid"
  shows "safe (pool_ok E L \<rho> stop w0 ods) (8 + length tk)
     (rollback_thread (SagaOrchestrator R S B E) oid oid (map rsv tk) paid reason det)
     (ended od (steps @ rollback reason det) [] (if paid then None else c) s) g"
proof -
  let ?J = "pool_ok E L \<rho> stop w0 ods" and ?D = "SagaOrchestrator R S B E"
  let ?c = "if paid then None else c"
  let ?s1 = "steps @ [(COMPENSATING, ''order.compensating'', [])]"
  let ?s2 = "?s1 @ [(CANCELLED, ''order.cancelled'', spread [(''reason'', JStr reason)] det)]"
  have refund: "safe ?J 1 (if paid then tbind (await (on_payments (refund oid))) (\<lambda>_. tret ()) else tret ())
      (\<lambda>r g. \<exists>x. r = Inr x \<and> stage od ?s1 tk tk ?c s g) g1" if g1: "stage od ?s1 tk tk c s g1" for g1
  proof (cases paid)
    case True
    have "safe ?J 1 (tbind (await (on_payments (refund oid))) (\<lambda>_. tret ()))
        (\<lambda>r g. \<exists>x. r = Inr x \<and> stage od ?s1 tk tk None s g) g1"
      by (rule safe_then_le [OF safe_refund [OF setting g1 oid], where m = 0]) simp_all
    with True show ?thesis by simp
  qed (use g1 in simp)
  have "safe ?J (3 + (0 + (1 + length tk))) (compensate_thread ?D oid (map rsv tk) paid False)
      (\<lambda>r g. \<exists>x. r = Inr x \<and> stage od ?s1 [] [] ?c s g) g"
    unfolding compensate_thread_def if_False
    by (rule safe_then [OF safe_transition [OF setting at oid]],
        rule follow_simps, rule safe_then [where P = "\<lambda>_. stage od ?s1 tk tk c s"], simp,
        rule safe_then [OF refund], assumption, rule safe_release_all [OF setting], assumption, simp)
  then have undo: "safe ?J (4 + length tk) (compensate_thread ?D oid (map rsv tk) paid False)
      (\<lambda>r g. \<exists>x. r = Inr x \<and> stage od ?s1 [] [] ?c s g) g"
    by (rule safe_mono) simp_all
  have "safe ?J (4 + length tk + (3 + 1)) (rollback_thread ?D oid oid (map rsv tk) paid reason det)
      (ended od ?s2 [] ?c s) g"
    unfolding rollback_thread_def fail_thread_def
    by (rule safe_then [OF undo], rule safe_then [OF safe_transition [OF setting _ oid]], assumption, rule follow_simps,
        rule safe_last_get [OF setting _ oid], assumption)
  then show ?thesis by (rule safe_mono) (simp_all add: rollback_def)
qed

lemma safe_ship:
  assumes setting: "pool_setting E stop w0 ods" and at: "stage od steps tk tk c s g" and oid: "or_id od = oid"
    and lines: "lines_of tk = or_lines od"
  shows "safe (pool_ok E L \<rho> stop w0 ods) (9 + length tk)
     (ship_thread (SagaOrchestrator R S B E) oid od (map rsv tk))
     (if ship_declines w0 oid
      then ended od (steps @ declined_by ''SHIPPING_FAILED'' ''NO_COURIER_AVAILABLE'') [] None s
      else ended od (steps @ [scheduled_step oid, confirmed_step]) tk c (Some (shipment_ticket oid))) g"
    (is "safe ?J _ _ ?Q g")
proof -
  let ?D = "SagaOrchestrator R S B E"
  let ?s1 = "steps @ [scheduled_step oid]"
  let ?happy = "\<lambda>det. tbind (transition_thread ?D oid SHIPPING_SCHEDULED ''order.shipping_scheduled'' det) (\<lambda>_.
      tbind (for_each_thread (\<lambda>r. await (commit_reservation ?D r)) (map rsv tk)) (\<lambda>_.
      tbind (transition_thread ?D oid CONFIRMED ''order.confirmed'' []) (\<lambda>_. await (mustGet ?D oid))))"
  have happy: "safe ?J (3 + (length tk + (3 + 1))) (?happy [(''shipmentId'', JStr (shipment_ticket oid))])
      (ended od (?s1 @ [confirmed_step]) tk c (Some (shipment_ticket oid))) g1"
    if g1: "stage od steps tk tk c (Some (shipment_ticket oid)) g1" for g1
    unfolding scheduled_step_def confirmed_step_def
    by (rule safe_then [OF safe_transition [OF setting g1 oid]], rule follow_simps,
        rule safe_then [OF safe_commit_all [OF setting]], assumption, simp,
        rule safe_then [OF safe_transition [OF setting _ oid]], assumption, rule follow_confirmed [OF lines],
        rule safe_last_get [OF setting _ oid], assumption)
  show ?thesis
    unfolding ship_thread_def oid
  proof (rule safe_then_le [OF safe_schedule [OF setting at oid]])
    fix x g1
    assume x: "if ship_declines w0 oid
         then x = \<lparr>sr_ok = False, sr_shipmentId = None, sr_reason = Some ''NO_COURIER_AVAILABLE''\<rparr> \<and> stage od steps tk tk c s g1
         else x = \<lparr>sr_ok = True, sr_shipmentId = Some (shipment_ticket oid), sr_reason = None\<rparr> \<and>
           stage od steps tk tk c (Some (shipment_ticket oid)) g1"
    show "safe ?J (8 + length tk)
        (if \<not> sr_ok x then rollback_thread ?D oid oid (map rsv tk) True ''SHIPPING_FAILED'' [(''reason'', nullable (sr_reason x))]
         else ?happy [(''shipmentId'', nullable (sr_shipmentId x))]) ?Q g1"
    proof (cases "ship_declines w0 oid")
      case True
      with x have g1: "stage od steps tk tk c s g1" and no: "\<not> sr_ok x" "sr_reason x = Some ''NO_COURIER_AVAILABLE''"
        by simp_all
      have "safe ?J (8 + length tk) (rollback_thread ?D oid oid (map rsv tk) True ''SHIPPING_FAILED''
          [(''reason'', JStr ''NO_COURIER_AVAILABLE'')]) ?Q g1"
        using safe_rollback [OF setting g1 oid, where paid = True and reason = "''SHIPPING_FAILED''"
          and det = "[(''reason'', JStr ''NO_COURIER_AVAILABLE'')]"] True by (simp add: declined_by_def)
      then show ?thesis using no by (simp add: nullable_def)
    next
      case False
      with x have g1: "stage od steps tk tk c (Some (shipment_ticket oid)) g1"
        and ok: "sr_ok x" "sr_shipmentId x = Some (shipment_ticket oid)" by simp_all
      show ?thesis
        using safe_mono [OF happy [OF g1], of "8 + length tk"] False ok by (simp add: nullable_def)
    qed
  qed simp
qed

lemma safe_pay:
  assumes setting: "pool_setting E stop w0 ods" and at: "stage od steps tk tk c s g" and oid: "or_id od = oid"
    and lines: "lines_of tk = or_lines od"
  shows "safe (pool_ok E L \<rho> stop w0 ods) (13 + length tk)
     (pay_thread (SagaOrchestrator R S B E) oid od (map rsv tk))
     (if pay_declines w0 oid then ended od (steps @ declined_by ''PAYMENT_FAILED'' ''CARD_DECLINED'') [] c s
      else if ship_declines w0 oid
      then ended od (steps @ charged_step oid # declined_by ''SHIPPING_FAILED'' ''NO_COURIER_AVAILABLE'') [] None s
      else ended od (steps @ [charged_step oid, scheduled_step oid, confirmed_step]) tk
        (Some (payment_ticket oid)) (Some (shipment_ticket oid))) g"
    (is "safe ?J _ _ ?Q g")
proof -
  let ?D = "SagaOrchestrator R S B E"
  let ?happy = "\<lambda>det. tbind (transition_thread ?D oid PAYMENT_CHARGED ''order.payment_charged'' det) (\<lambda>_.
      ship_thread ?D oid od (map rsv tk))"
  have happy: "safe ?J (3 + (9 + length tk)) (?happy [(''paymentId'', JStr (payment_ticket oid))])
      (if ship_declines w0 oid
       then ended od ((steps @ [charged_step oid]) @ declined_by ''SHIPPING_FAILED'' ''NO_COURIER_AVAILABLE'') [] None s
       else ended od ((steps @ [charged_step oid]) @ [scheduled_step oid, confirmed_step]) tk
         (Some (payment_ticket oid)) (Some (shipment_ticket oid))) g1"
    if g1: "stage od steps tk tk (Some (payment_ticket oid)) s g1" for g1
    unfolding charged_step_def
    by (rule safe_then [OF safe_transition [OF setting g1 oid]], rule follow_simps,
        rule safe_ship [OF setting _ oid lines], assumption)
  show ?thesis
    unfolding pay_thread_def oid
  proof (rule safe_then_le [OF safe_charge [OF setting at oid]])
    fix x g1
    assume x: "if pay_declines w0 oid
         then x = \<lparr>pr_ok = False, pr_paymentId = None, pr_reason = Some ''CARD_DECLINED''\<rparr> \<and> stage od steps tk tk c s g1
         else x = \<lparr>pr_ok = True, pr_paymentId = Some (payment_ticket oid), pr_reason = None\<rparr> \<and>
           stage od steps tk tk (Some (payment_ticket oid)) s g1"
    show "safe ?J (12 + length tk)
        (if \<not> pr_ok x then rollback_thread ?D oid oid (map rsv tk) False ''PAYMENT_FAILED'' [(''reason'', nullable (pr_reason x))]
         else ?happy [(''paymentId'', nullable (pr_paymentId x))]) ?Q g1"
    proof (cases "pay_declines w0 oid")
      case True
      with x have g1: "stage od steps tk tk c s g1" and no: "\<not> pr_ok x" "pr_reason x = Some ''CARD_DECLINED''" by simp_all
      have "safe ?J (8 + length tk) (rollback_thread ?D oid oid (map rsv tk) False ''PAYMENT_FAILED''
          [(''reason'', JStr ''CARD_DECLINED'')]) ?Q g1"
        using safe_rollback [OF setting g1 oid, where paid = False and reason = "''PAYMENT_FAILED''"
          and det = "[(''reason'', JStr ''CARD_DECLINED'')]"] True by (simp add: declined_by_def)
      then show ?thesis using no by (auto simp: nullable_def elim: safe_mono)
    next
      case False
      with x have g1: "stage od steps tk tk (Some (payment_ticket oid)) s g1"
        and ok: "pr_ok x" "pr_paymentId x = Some (payment_ticket oid)" by simp_all
      show ?thesis using happy [OF g1] False ok by (cases "ship_declines w0 oid") (simp_all add: nullable_def)
    qed
  qed simp
qed

text \<open>The verdict of a saga among others: a shortage is one of the stock that all orders share.\<close>

definition verdict_among :: "(string \<Rightarrow> int option) \<Rightarrow> ('r, 'st, 'b) world \<Rightarrow> order list \<Rightarrow> order \<Rightarrow> verdict \<Rightarrow> bool" where
  "verdict_among L w0 ods od v =
     (case v of
        Short l \<Rightarrow> l \<in> set (or_lines od) \<and> \<not> fulfillable L (all_lines ods)
      | No_Payment \<Rightarrow> pay_declines w0 (or_id od)
      | No_Courier \<Rightarrow> \<not> pay_declines w0 (or_id od) \<and> ship_declines w0 (or_id od)
      | Done \<Rightarrow> \<not> pay_declines w0 (or_id od) \<and> \<not> ship_declines w0 (or_id od))"

definition settled ::
  "(string \<Rightarrow> int option) \<Rightarrow> ('r, 'st, 'b) world \<Rightarrow> order list \<Rightarrow> order \<Rightarrow> js_error + order \<Rightarrow> ghost \<Rightarrow> bool" where
  "settled L w0 ods od r g \<longleftrightarrow> (\<exists>v rs tk. verdict_among L w0 ods od v \<and>
     lines_of tk = (if v = Done then or_lines od else []) \<and>
     ended od (verdict_steps (or_id od) rs v) tk
       (charges_after (or_id od) v (charges (w_payments w0)) (or_id od))
       (shipments_after (or_id od) v (shipments (w_shipping w0)) (or_id od)) r g)"

lemma safe_run:
  assumes setting: "pool_setting E stop w0 ods" and od: "or_id od = oid"
    and at: "stage od [] [] [] (charges (w_payments w0) oid) (shipments (w_shipping w0) oid) g"
  shows "safe (pool_ok E L \<rho> stop w0 ods) (17 + 4 * length (or_lines od)) (run_thread (SagaOrchestrator R S B E) oid)
     (settled L w0 ods od) g"
proof -
  let ?J = "pool_ok E L \<rho> stop w0 ods" and ?D = "SagaOrchestrator R S B E" and ?n = "length (or_lines od)"
  let ?c = "charges (w_payments w0) oid" and ?s = "shipments (w_shipping w0) oid"
  let ?P = "\<lambda>x g. \<exists>tk. snd x = map rsv tk \<and> length tk \<le> ?n \<and> stage od [] tk tk ?c ?s g \<and>
      (case fst x of None \<Rightarrow> lines_of tk = or_lines od
       | Some l \<Rightarrow> l \<in> set (or_lines od) \<and> \<not> fulfillable L (all_lines ods))"
  have lines: "safe ?J (3 * ?n + (16 + ?n)) (tbind (reserve_loop_thread ?D (or_lines od) []) (\<lambda>(failed, rs).
      case failed of
        Some line \<Rightarrow> rollback_thread ?D oid oid rs False ''INVENTORY_UNAVAILABLE''
          [(''sku'', JStr (ol_sku line)), (''warehouseId'', JStr (ol_warehouseId line))]
      | None \<Rightarrow> tbind (transition_thread ?D oid INVENTORY_RESERVED ''order.inventory_reserved''
          [(''reservations'', JArr (map reservation_json rs))]) (\<lambda>_. pay_thread ?D oid od rs))) (settled L w0 ods od) g1"
    if g1: "stage od [] [] [] ?c ?s g1" for g1
  proof (rule safe_then [where P = ?P])
    show "safe ?J (3 * ?n) (reserve_loop_thread ?D (or_lines od) []) (\<lambda>r g. \<exists>x. r = Inr x \<and> ?P x g) g1"
      using safe_reserve_loop [OF setting g1, of "or_lines od"] by simp
  next
    fix x g2 assume "?P x g2"
    then obtain f tk where x: "x = (f, map rsv tk)" and n: "length tk \<le> ?n" and g2: "stage od [] tk tk ?c ?s g2"
      and f: "case f of None \<Rightarrow> lines_of tk = or_lines od
        | Some l \<Rightarrow> l \<in> set (or_lines od) \<and> \<not> fulfillable L (all_lines ods)" by (cases x) auto
    show "safe ?J (16 + ?n) (case x of (failed, rs) \<Rightarrow> case failed of
        Some line \<Rightarrow> rollback_thread ?D oid oid rs False ''INVENTORY_UNAVAILABLE''
          [(''sku'', JStr (ol_sku line)), (''warehouseId'', JStr (ol_warehouseId line))]
      | None \<Rightarrow> tbind (transition_thread ?D oid INVENTORY_RESERVED ''order.inventory_reserved''
          [(''reservations'', JArr (map reservation_json rs))]) (\<lambda>_. pay_thread ?D oid od rs)) (settled L w0 ods od) g2"
    proof (cases f)
      case (Some l)
      have "settled L w0 ods od r g" if "ended od (stock_shortage l) [] ?c ?s r g" for r g
        using that f Some od unfolding settled_def
        by (intro exI [of _ "Short l"] exI [of _ "[]"])
           (simp add: verdict_among_def charges_after_def shipments_after_def)
      moreover have "safe ?J (8 + length tk) (rollback_thread ?D oid oid (map rsv tk) False ''INVENTORY_UNAVAILABLE''
          [(''sku'', JStr (ol_sku l)), (''warehouseId'', JStr (ol_warehouseId l))]) (ended od (stock_shortage l) [] ?c ?s) g2"
        using safe_rollback [OF setting g2 od, where paid = False] by (simp add: stock_shortage_def)
      ultimately show ?thesis using n by (auto simp: x Some elim: safe_mono)
    next
      case None
      with f have tk: "lines_of tk = or_lines od" by simp
      let ?Q = "if pay_declines w0 oid then ended od ([reserved_step (map rsv tk)] @ declined_by ''PAYMENT_FAILED'' ''CARD_DECLINED'') [] ?c ?s
        else if ship_declines w0 oid
        then ended od ([reserved_step (map rsv tk)] @ charged_step oid # declined_by ''SHIPPING_FAILED'' ''NO_COURIER_AVAILABLE'') [] None ?s
        else ended od ([reserved_step (map rsv tk)] @ [charged_step oid, scheduled_step oid, confirmed_step]) tk
          (Some (payment_ticket oid)) (Some (shipment_ticket oid))"
      have settled: "settled L w0 ods od r g" if q: "?Q r g" for r g
      proof -
        consider "pay_declines w0 oid" | "\<not> pay_declines w0 oid" "ship_declines w0 oid"
          | "\<not> pay_declines w0 oid" "\<not> ship_declines w0 oid" by blast
        then show ?thesis
        proof cases
          case 1
          with q od show ?thesis unfolding settled_def
            by (intro exI [of _ No_Payment] exI [of _ "map rsv tk"] exI [of _ "[]"])
               (simp add: verdict_among_def charges_after_def shipments_after_def)
        next
          case 2
          with q od show ?thesis unfolding settled_def
            by (intro exI [of _ No_Courier] exI [of _ "map rsv tk"] exI [of _ "[]"])
               (simp add: verdict_among_def charges_after_def shipments_after_def)
        next
          case 3
          with q od tk show ?thesis unfolding settled_def
            by (intro exI [of _ Done] exI [of _ "map rsv tk"] exI [of _ tk])
               (simp add: verdict_among_def charges_after_def shipments_after_def)
        qed
      qed
      have "safe ?J (3 + (13 + length tk)) (tbind (transition_thread ?D oid INVENTORY_RESERVED ''order.inventory_reserved''
          [(''reservations'', JArr (map reservation_json (map rsv tk)))]) (\<lambda>_. pay_thread ?D oid od (map rsv tk))) ?Q g2"
      proof (rule safe_then [OF safe_transition [OF setting g2 od follow_reserved [OF tk]]])
        fix g3 assume "stage od ([] @ [(INVENTORY_RESERVED, ''order.inventory_reserved'',
            [(''reservations'', JArr (map reservation_json (map rsv tk)))])]) tk tk ?c ?s g3"
        then have "stage od [reserved_step (map rsv tk)] tk tk ?c ?s g3" by (simp add: reserved_step_def)
        then show "safe ?J (13 + length tk) (pay_thread ?D oid od (map rsv tk)) ?Q g3"
          by (rule safe_pay [OF setting _ od tk])
      qed
      then have "safe ?J (16 + ?n) (tbind (transition_thread ?D oid INVENTORY_RESERVED ''order.inventory_reserved''
          [(''reservations'', JArr (map reservation_json (map rsv tk)))]) (\<lambda>_. pay_thread ?D oid od (map rsv tk)))
          (settled L w0 ods od) g2"
        by (rule safe_mono) (use n settled in simp_all)
      then show ?thesis by (simp add: x None)
    qed
  qed
  show ?thesis
    unfolding run_thread_def
  proof (rule safe_then_le [OF safe_mustGet [OF setting at od]])
    fix x g1
    assume x: "x = gh_stored g1 \<and> stage od [] [] [] ?c ?s g1 \<and> untimed x = fold (apply_step kept) [] (untimed od)"
    have same: "untimed x = untimed od" using x by auto
    have fields: "or_lines x = or_lines od" "or_id x = oid" "or_amountCents x = or_amountCents od"
      using arg_cong [OF same, of or_lines] arg_cong [OF same, of or_id] arg_cong [OF same, of or_amountCents] od by simp_all
    have pay: "pay_thread ?D oid x rs = pay_thread ?D oid od rs" for rs
      by (simp add: pay_thread_def ship_thread_def primaryWarehouse_def fields od cong: if_cong)
    show "safe ?J (3 * ?n + (16 + ?n)) (tbind (reserve_loop_thread ?D (or_lines x) []) (\<lambda>(failed, rs).
      case failed of
        Some line \<Rightarrow> rollback_thread ?D oid (or_id x) rs False ''INVENTORY_UNAVAILABLE''
          [(''sku'', JStr (ol_sku line)), (''warehouseId'', JStr (ol_warehouseId line))]
      | None \<Rightarrow> tbind (transition_thread ?D (or_id x) INVENTORY_RESERVED ''order.inventory_reserved''
          [(''reservations'', JArr (map reservation_json rs))]) (\<lambda>_. pay_thread ?D oid x rs))) (settled L w0 ods od) g1"
      unfolding pay fields by (rule lines) (use x in blast)
  qed simp
qed

section \<open>Every schedule\<close>

definition first_ghost :: "('r, 'st, 'b) world \<Rightarrow> order \<Rightarrow> ghost" where
  "first_ghost w od = \<lparr>gh_order = od, gh_stored = od, gh_steps = [], gh_told = [], gh_taken = [], gh_pledged = [],
     gh_drawn = [], gh_charge = charges (w_payments w) (or_id od), gh_shipment = shipments (w_shipping w) (or_id od)\<rparr>"

lemma first_pool_ok:
  assumes tracked: "\<forall>od \<in> set ods. tracks E w (or_id od) od" and okw: "ok (w_store w)" "bus_ok (w_bus w)"
    and h: "holding E w L \<rho> [] []" and fresh: "fresh_ids E (co_uuids w) (dom \<rho>)"
    and stop: "stop = co_ticks w + 3 * m"
  shows "pool_ok E L \<rho> stop w ods m w (map (first_ghost w) ods)"
proof -
  have nil: "concat (map f (map (first_ghost w) xs)) = []" if "\<And>od. f (first_ghost w od) = []" for f :: "ghost \<Rightarrow> 'x list" and xs
    using that by (induction xs) simp_all
  have empty: "concat (map gh_taken (map (first_ghost w) ods)) = []" "concat (map gh_pledged (map (first_ghost w) ods)) = []"
    "concat (map gh_drawn (map (first_ghost w) ods)) = []"
    by (rule nil, simp add: first_ghost_def)+
  have "stock_view E L \<rho> (lease_end E w) w [] [] []"
    using h fresh by (simp add: stock_view_def separate_def due_after_def)
  moreover have "owns E w w (first_ghost w od)" if "od \<in> set ods" for od
    using tracked that by (auto simp: owns_def seen_def first_ghost_def tracks_def coherent_first)
  ultimately show ?thesis
    using stop okw unfolding pool_ok_def empty by (auto simp: first_ghost_def comp_def)
qed

lemma first_pool_safe:
  assumes setting: "pool_setting E (co_ticks w + 3 * sum_list (map saga_steps ods)) w ods"
    and tracked: "\<forall>od \<in> set ods. tracks E w (or_id od) od" and okw: "ok (w_store w)" "bus_ok (w_bus w)"
    and h: "holding E w L \<rho> [] []" and fresh: "fresh_ids E (co_uuids w) (dom \<rho>)"
  shows "pool_safe (pool_ok E L \<rho> (co_ticks w + 3 * sum_list (map saga_steps ods)) w ods)
     (\<lambda>i. settled L w ods (ods ! i)) (map saga_steps ods)
     (sagas (SagaOrchestrator R S B E) (map or_id ods), w) (map (first_ghost w) ods)"
  unfolding pool_safe_def
proof (intro conjI allI impI)
  fix i assume "i < length (fst (sagas (SagaOrchestrator R S B E) (map or_id ods), w))"
  then have i: "i < length ods" by (simp add: sagas_def)
  have "stage (ods ! i) [] [] [] (charges (w_payments w) (or_id (ods ! i))) (shipments (w_shipping w) (or_id (ods ! i)))
      (first_ghost w (ods ! i))" by (simp add: stage_def first_ghost_def)
  from safe_run [OF setting refl this] i
  show "safe (pool_ok E L \<rho> (co_ticks w + 3 * sum_list (map saga_steps ods)) w ods) (map saga_steps ods ! i)
      (fst (sagas (SagaOrchestrator R S B E) (map or_id ods), w) ! i) (settled L w ods (ods ! i))
      (map (first_ghost w) ods ! i)" by (simp add: sagas_def saga_steps_def)
qed (use first_pool_ok [OF tracked okw h fresh refl] in \<open>simp_all add: sagas_def\<close>)

lemma pool_run:
  assumes "pool_setting E (co_ticks w + 3 * sum_list (map saga_steps ods)) w ods"
    and "\<forall>od \<in> set ods. tracks E w (or_id od) od" and okw: "ok (w_store w)" "bus_ok (w_bus w)"
    and "holding E w L \<rho> [] []" and "fresh_ids E (co_uuids w) (dom \<rho>)"
    and run: "interleave is (sagas (SagaOrchestrator R S B E) (map or_id ods), w) = (ps, w')"
  shows "\<exists>gs m. pool_ok E L \<rho> (co_ticks w + 3 * sum_list (map saga_steps ods)) w ods m w' gs \<and> length gs = length ods \<and>
     length ps = length ods \<and>
     (\<forall>i < length ods. saga_steps (ods ! i) \<le> count_list is i \<longrightarrow>
        (\<exists>r. ps ! i = Finished r \<and> settled L w ods (ods ! i) r (gs ! i)))"
proof -
  let ?J = "pool_ok E L \<rho> (co_ticks w + 3 * sum_list (map saga_steps ods)) w ods"
  let ?c = "(sagas (SagaOrchestrator R S B E) (map or_id ods), w)"
  from interleave_safe [OF first_pool_safe [OF assms(1-6)] pool_ok_weaken, of "is"] obtain gs ns where
    safe: "pool_safe ?J (\<lambda>i. settled L w ods (ods ! i)) ns (interleave is ?c) gs"
    and le: "\<forall>i < length (fst ?c). ns ! i \<le> map saga_steps ods ! i - count_list is i" by blast
  have len: "length ps = length ods" using interleave_length [of "is" ?c] unfolding run by (simp add: sagas_def)
  have "\<exists>r. ps ! i = Finished r \<and> settled L w ods (ods ! i) r (gs ! i)"
    if i: "i < length ods" "saga_steps (ods ! i) \<le> count_list is i" for i
  proof -
    have "ns ! i \<le> saga_steps (ods ! i) - count_list is i" using le i(1) by (auto simp: sagas_def)
    then have "ns ! i = 0" using i(2) by simp
    with pool_safe_finished [OF safe, of i] i(1) len run show ?thesis by simp
  qed
  moreover have "?J (sum_list ns) w' gs" "length gs = length ods"
    using safe run len by (simp_all add: pool_safe_def)
  ultimately show ?thesis using len by blast
qed

text \<open>What the pool invariant says without its ghosts.\<close>

lemma pool_shows:
  assumes "pool_ok E L \<rho> stop w0 ods m w gs"
  shows "\<exists>sold held. repr (env_now E (co_ticks w)) (debit L (lines_of sold)) (pledge \<rho> held) (kv_of (co_redis w)) \<and>
     fulfillable L (lines_of sold) \<and> mset (lines_of sold) \<subseteq># mset (all_lines ods) \<and> separate \<rho> held"
proof -
  have "\<forall>g \<in> set gs. mset (map fst (gh_taken g)) \<subseteq># mset (or_lines (gh_order g))"
    using assms by (simp add: pool_ok_def owns_def)
  from lines_of_others [OF this] have
    "mset (lines_of (concat (map gh_taken gs))) \<subseteq># mset (concat (map (\<lambda>g. or_lines (gh_order g)) gs))" .
  moreover have "map gh_order gs = ods" using assms by (simp add: pool_ok_def)
  then have "all_lines ods = concat (map (\<lambda>g. or_lines (gh_order g)) gs)" by (auto simp: comp_def)
  ultimately show ?thesis
    using assms by (intro exI [of _ "concat (map gh_taken gs)"] exI [of _ "concat (map gh_pledged gs)"])
      (simp add: pool_ok_def stock_view_def holding_def)
qed

text \<open>What one order of a pool has come to.\<close>

definition comes_to ::
  "(string \<Rightarrow> int option) \<Rightarrow> ('r, 'st, 'b) world \<Rightarrow> order list \<Rightarrow> ('r, 'st, 'b) world \<Rightarrow> order \<Rightarrow> order \<Rightarrow> bool" where
  "comes_to L w0 ods w od0 od \<longleftrightarrow> (let x = or_id od0 in
     orders_of (w_store w) x = Some od \<and> or_lines od = or_lines od0 \<and>
     (or_status od = CONFIRMED \<and> charges (w_payments w) x = Some (payment_ticket x) \<and>
        shipments (w_shipping w) x = Some (shipment_ticket x) \<or>
      or_status od = CANCELLED \<and> charges (w_payments w) x = None \<and>
        shipments (w_shipping w) x = shipments (w_shipping w0) x) \<and>
     (or_status od = CONFIRMED \<longrightarrow> \<not> pay_declines w0 x \<and> \<not> ship_declines w0 x) \<and>
     (fulfillable L (all_lines ods) \<and> \<not> pay_declines w0 x \<and> \<not> ship_declines w0 x \<longrightarrow> or_status od = CONFIRMED) \<and>
     (\<exists>steps. map ev_type (or_history od) = map ev_type (or_history od0) @ map (\<lambda>x. fst (snd x)) steps \<and>
        told w x = told w0 x @ map (announced x) steps))"

lemma settled_outcome:
  assumes J: "pool_ok E L \<rho> stop w0 ods m w gs" and i: "i < length gs" and s: "settled L w0 ods (ods ! i) r (gs ! i)"
    and no: "charges (w_payments w0) (or_id (ods ! i)) = None"
  shows "\<exists>od. r = Inr od \<and> comes_to L w0 ods w (ods ! i) od \<and>
     gh_pledged (gs ! i) = [] \<and> lines_of (gh_taken (gs ! i)) = (if or_status od = CONFIRMED then or_lines od else [])"
proof -
  let ?g = "gs ! i" and ?x = "or_id (ods ! i)"
  from s obtain v rs tk where v: "verdict_among L w0 ods (ods ! i) v"
    and tk: "lines_of tk = (if v = Done then or_lines (ods ! i) else [])"
    and e: "ended (ods ! i) (verdict_steps ?x rs v) tk (charges_after ?x v (charges (w_payments w0)) ?x)
       (shipments_after ?x v (shipments (w_shipping w0)) ?x) r ?g" unfolding settled_def by blast
  have g: "gh_order ?g = ods ! i" "gh_steps ?g = verdict_steps ?x rs v" "gh_told ?g = gh_steps ?g"
    "gh_taken ?g = tk" "gh_pledged ?g = []" "gh_charge ?g = charges_after ?x v (charges (w_payments w0)) ?x"
    "gh_shipment ?g = shipments_after ?x v (shipments (w_shipping w0)) ?x"
    using e by (simp_all add: ended_def stage_def)
  have r: "r = Inr (gh_stored ?g)"
    and u: "untimed (gh_stored ?g) = fold (apply_step kept) (verdict_steps ?x rs v) (untimed (ods ! i))"
    using e by (simp_all add: ended_def)
  have own: "seen w ?x = (Some (gh_stored ?g), gh_charge ?g, gh_shipment ?g, told w0 ?x @ map (announced ?x) (gh_told ?g))"
    using pool_owns [OF J i] by (simp add: owns_def g(1))
  have st: "or_status (gh_stored ?g) = (if v = Done then CONFIRMED else CANCELLED)"
    using arg_cong [OF u, of or_status] by (simp add: verdict_status)
  have fields: "or_lines (fold (apply_step kept) steps od) = or_lines od" for steps od
    by (induction steps arbitrary: od) simp_all
  have ln: "or_lines (gh_stored ?g) = or_lines (ods ! i)"
    using arg_cong [OF u, of or_lines] by (simp add: fields)
  have "map ev_type (or_history (gh_stored ?g)) =
      map ev_type (or_history (ods ! i)) @ map (\<lambda>x. fst (snd x)) (gh_steps ?g)"
    using arg_cong [OF u, of "\<lambda>od. map ev_type (or_history od)"] by (simp only: step_types untimed_types g(2))
  then have tr: "\<exists>steps. map ev_type (or_history (gh_stored ?g)) = map ev_type (or_history (ods ! i)) @ map (\<lambda>x. fst (snd x)) steps \<and>
      told w ?x = told w0 ?x @ map (announced ?x) steps"
    using own g(3) by (intro exI [of _ "gh_steps ?g"]) (simp add: seen_def)
  have fair: "v = Done" if "fulfillable L (all_lines ods)" "\<not> pay_declines w0 ?x" "\<not> ship_declines w0 ?x"
    using v that by (cases v) (auto simp: verdict_among_def)
  have sound: "\<not> pay_declines w0 ?x \<and> \<not> ship_declines w0 ?x" if "v = Done"
    using v that by (simp add: verdict_among_def)
  have "comes_to L w0 ods w (ods ! i) (gh_stored ?g)"
    unfolding comes_to_def Let_def
  proof (intro conjI)
    show "orders_of (w_store w) ?x = Some (gh_stored ?g)" using own by (simp add: seen_def)
    show "or_status (gh_stored ?g) = CONFIRMED \<and> charges (w_payments w) ?x = Some (payment_ticket ?x) \<and>
        shipments (w_shipping w) ?x = Some (shipment_ticket ?x) \<or>
      or_status (gh_stored ?g) = CANCELLED \<and> charges (w_payments w) ?x = None \<and>
        shipments (w_shipping w) ?x = shipments (w_shipping w0) ?x"
      using own st g(6,7) no by (simp add: seen_def charges_after_def shipments_after_def)
  qed (use st sound fair ln tr in auto)
  moreover have "lines_of (gh_taken ?g) = (if or_status (gh_stored ?g) = CONFIRMED then or_lines (gh_stored ?g) else [])"
    using g(4) tk st ln by simp
  ultimately show ?thesis using r g(5) by blast
qed

lemma pool_outcome:
  assumes J: "pool_ok E L \<rho> stop w0 ods m w gs" and len: "length gs = length ods" "length ps = length ods"
    and fin: "\<forall>i < length ods. \<exists>r. ps ! i = Finished r \<and> settled L w0 ods (ods ! i) r (gs ! i)"
    and no: "\<forall>od \<in> set ods. charges (w_payments w0) (or_id od) = None"
  shows "\<exists>res. ps = map (\<lambda>od. Finished (Inr od)) res \<and> length res = length ods \<and>
     (\<forall>i < length ods. comes_to L w0 ods w (ods ! i) (res ! i)) \<and>
     fulfillable L (all_lines (filter (\<lambda>od. or_status od = CONFIRMED) res)) \<and>
     repr (env_now E (co_ticks w)) (debit L (all_lines (filter (\<lambda>od. or_status od = CONFIRMED) res))) \<rho> (kv_of (co_redis w))"
proof -
  define res where "res = map (\<lambda>i. case ps ! i of Finished (Inr od) \<Rightarrow> od) [0..<length ods]"
  have each: "ps ! i = Finished (Inr (res ! i)) \<and> comes_to L w0 ods w (ods ! i) (res ! i) \<and>
      gh_pledged (gs ! i) = [] \<and> lines_of (gh_taken (gs ! i)) = (if or_status (res ! i) = CONFIRMED then or_lines (res ! i) else [])"
    if i: "i < length ods" for i
  proof -
    obtain r where r: "ps ! i = Finished r" "settled L w0 ods (ods ! i) r (gs ! i)" using fin i by blast
    have "i < length gs" "charges (w_payments w0) (or_id (ods ! i)) = None" using i len no by simp_all
    from settled_outcome [OF J this(1) r(2) this(2)] obtain od where
      od: "r = Inr od" "comes_to L w0 ods w (ods ! i) od" "gh_pledged (gs ! i) = []"
        "lines_of (gh_taken (gs ! i)) = (if or_status od = CONFIRMED then or_lines od else [])" by blast
    moreover have "res ! i = od" using i by (simp add: res_def r(1) od(1))
    ultimately show ?thesis using r(1) by simp
  qed
  have lenr: "length res = length ods" by (simp add: res_def)
  have ps: "ps = map (\<lambda>od. Finished (Inr od)) res"
    using each len lenr by (intro nth_equalityI) simp_all
  have "map gh_pledged gs = map (\<lambda>_. []) gs"
    using each len by (intro nth_equalityI) simp_all
  then have pl: "concat (map gh_pledged gs) = []" by simp
  have "map (\<lambda>g. lines_of (gh_taken g)) gs = map (\<lambda>od. if or_status od = CONFIRMED then or_lines od else []) res"
    using each len lenr by (intro nth_equalityI) simp_all
  moreover have "lines_of (concat (map gh_taken gs)) = concat (map (\<lambda>g. lines_of (gh_taken g)) gs)"
    by (simp add: map_concat comp_def)
  moreover have "concat (map (\<lambda>od. if or_status od = CONFIRMED then or_lines od else []) xs) =
      all_lines (filter (\<lambda>od. or_status od = CONFIRMED) xs)" for xs by (induction xs) simp_all
  ultimately have tk: "lines_of (concat (map gh_taken gs)) = all_lines (filter (\<lambda>od. or_status od = CONFIRMED) res)" by simp
  have stock: "fulfillable L (all_lines (filter (\<lambda>od. or_status od = CONFIRMED) res))"
    "repr (env_now E (co_ticks w)) (debit L (all_lines (filter (\<lambda>od. or_status od = CONFIRMED) res))) \<rho> (kv_of (co_redis w))"
    using J unfolding pool_ok_def stock_view_def holding_def pl tk pledge_Nil by blast+
  show ?thesis
    by (intro exI [of _ res] conjI allI impI ps lenr stock) (simp add: each)
qed

end

end
