(* ===== verification/Concurrent_Orders.thy ===== *)
theory Concurrent_Orders
  imports Pool_Outcome
begin

text \<open>
  The orders that \<open>wireAsyncSagaExecution\<close> runs at the same time, on the deployed stores: the Lua
  scripts on any Redis server, \<open>PgOrderStore\<close>, and any bus that keeps the publishers' contract. The
  schedule says which run is resumed next; it is arbitrary.
\<close>

section \<open>A pool of orders\<close>

text \<open>
  The orders are stored and nothing has been charged for them, the stock shows the levels \<open>L\<close>
  and the reservations \<open>\<rho>\<close> of others, and the clock moves less than the fifteen minutes of a
  reservation while the runs last.
\<close>

definition pool_started ::
  "('d \<Rightarrow> kv) \<Rightarrow> ('d \<Rightarrow> bool) \<Rightarrow> ('b \<Rightarrow> bool) \<Rightarrow> (string \<Rightarrow> string option) \<Rightarrow> env \<Rightarrow>
     (string \<Rightarrow> int option) \<Rightarrow> kv \<Rightarrow> order list \<Rightarrow> ('d, pg_db, 'b) world \<Rightarrow> bool" where
  "pool_started kv_of invar bus_ok uuid_in E L \<rho> ods w \<longleftrightarrow>
     invar (co_redis w) \<and> repr (env_now E (co_ticks w)) L \<rho> (kv_of (co_redis w)) \<and>
     pg_ok uuid_in (w_store w) \<and> bus_ok (w_bus w) \<and>
     (\<forall>od \<in> set ods. pg_orders (w_store w) (or_id od) = Some od \<and> charges (w_payments w) (or_id od) = None \<and>
        (\<forall>h \<in> set (or_history od). ev_at h \<le> env_now E (co_ticks w))) \<and>
     distinct (map or_id ods) \<and> clock_ok E \<and> fresh_ids E (co_uuids w) (dom \<rho>) \<and>
     env_now E (co_ticks w + 3 * sum_list (map saga_steps ods)) < env_now E (co_ticks w) + 900000"

text \<open>A schedule resumes every run often enough when each order occurs in it as often as its run
  has steps.\<close>

definition complete :: "order list \<Rightarrow> nat list \<Rightarrow> bool" where
  "complete ods is \<longleftrightarrow> (\<forall>i < length ods. saga_steps (ods ! i) \<le> count_list is i)"

definition order_events :: "'b event_bus \<Rightarrow> 'b \<Rightarrow> string \<Rightarrow> string list" where
  "order_events B b x = map de_type (filter (\<lambda>e. de_key e = Some x) (eb_history B ORDERS_TOPIC b))"

lemma pool_reached:
  fixes C :: "'d redis_commands" and w :: "('d, pg_db, 'b) world"
  assumes "redis_server C kv_of invar" and "event_bus_laws B bus_ok"
    and started: "pool_started kv_of invar bus_ok uuid_in E L \<rho> ods w"
    and run: "interleave is (sagas (SagaOrchestrator (server_client C) (PgOrderStore uuid_in jsonb) B E) (map or_id ods), w) = (ps, w')"
  shows "\<exists>gs m. saga.pool_ok kv_of invar pg_orders (pg_ok uuid_in) jsonb B bus_ok E L \<rho>
       (co_ticks w + 3 * sum_list (map saga_steps ods)) w ods m w' gs \<and>
     length gs = length ods \<and> length ps = length ods \<and>
     (\<forall>i < length ods. saga_steps (ods ! i) \<le> count_list is i \<longrightarrow>
        (\<exists>r. ps ! i = Finished r \<and> saga.settled jsonb L w ods (ods ! i) r (gs ! i)))"
proof -
  note sg = deployment_is_saga [OF assms(1,2), of uuid_in jsonb]
  note sr = redis_server.server_is_stock_redis [OF assms(1)]
  have setting: "saga.pool_setting E (co_ticks w + 3 * sum_list (map saga_steps ods)) w ods"
    unfolding saga.pool_setting_def [OF sg] using started by (simp add: pool_started_def)
  have t: "\<forall>od \<in> set ods. saga.tracks pg_orders (pg_ok uuid_in) bus_ok E w (or_id od) od"
    unfolding saga.tracks_def [OF sg] using started by (simp add: pool_started_def)
  have h: "stock_redis.holding kv_of invar E w L \<rho> [] []"
    unfolding stock_redis.holding_def [OF sr] using started by (simp add: pool_started_def)
  have ok: "pg_ok uuid_in (w_store w)" "bus_ok (w_bus w)" and fresh: "fresh_ids E (co_uuids w) (dom \<rho>)"
    using started by (simp_all add: pool_started_def)
  show ?thesis by (rule saga.pool_run [OF sg setting t ok h fresh run])
qed

lemma pool_ends:
  fixes C :: "'d redis_commands" and w :: "('d, pg_db, 'b) world"
  assumes "redis_server C kv_of invar" and "event_bus_laws B bus_ok"
    and started: "pool_started kv_of invar bus_ok uuid_in E L \<rho> ods w" and "complete ods is"
    and run: "interleave is (sagas (SagaOrchestrator (server_client C) (PgOrderStore uuid_in jsonb) B E) (map or_id ods), w) = (ps, w')"
  shows "\<exists>res. ps = map (\<lambda>od. Finished (Inr od)) res \<and> length res = length ods \<and>
     (\<forall>i < length ods. saga.comes_to pg_orders B L w ods w' (ods ! i) (res ! i)) \<and>
     fulfillable L (all_lines (filter (\<lambda>od. or_status od = CONFIRMED) res)) \<and>
     repr (env_now E (co_ticks w')) (debit L (all_lines (filter (\<lambda>od. or_status od = CONFIRMED) res))) \<rho> (kv_of (co_redis w')) \<and>
     (\<forall>x. x \<notin> or_id ` set ods \<longrightarrow> saga.seen pg_orders B w' x = saga.seen pg_orders B w x)"
proof -
  note sg = deployment_is_saga [OF assms(1,2), of uuid_in jsonb]
  from pool_reached [OF assms(1-3) run] assms(4) obtain gs m where
    J: "saga.pool_ok kv_of invar pg_orders (pg_ok uuid_in) jsonb B bus_ok E L \<rho>
       (co_ticks w + 3 * sum_list (map saga_steps ods)) w ods m w' gs"
    and len: "length gs = length ods" "length ps = length ods"
    and fin: "\<forall>i < length ods. \<exists>r. ps ! i = Finished r \<and> saga.settled jsonb L w ods (ods ! i) r (gs ! i)"
    unfolding complete_def by blast
  have no: "\<forall>od \<in> set ods. charges (w_payments w) (or_id od) = None" using started by (simp add: pool_started_def)
  have rest: "\<forall>x. x \<notin> or_id ` set ods \<longrightarrow> saga.seen pg_orders B w' x = saga.seen pg_orders B w x"
    using J unfolding saga.pool_ok_def [OF sg] by blast
  from saga.pool_outcome [OF sg J len fin no] rest show ?thesis by blast
qed

section \<open>Two orders for one item\<close>

definition demo_order2 :: order where
  "demo_order2 = demo_order\<lparr>or_id := ''o2''\<rparr>"

definition demo_pg2 :: pg_db where
  "demo_pg2 = demo_pg\<lparr>
     db_orders := db_orders demo_pg @ map (\<lambda>r. r\<lparr>ow_id := ''o2''\<rparr>) (db_orders demo_pg),
     db_lines := db_lines demo_pg @ map (\<lambda>r. r\<lparr>lw_order_id := ''o2''\<rparr>) (db_lines demo_pg)\<rparr>"

definition demo_pool :: "redis_mem production_world" where
  "demo_pool = demo_production\<lparr>w_store := demo_pg2\<rparr>"

definition round_robin :: "nat list" where
  "round_robin = concat (replicate 21 [0, 1])"

lemma demo_pool_started:
  "pool_started mem_kv mem_ok bus_ready Some demo_env demo_levels Map.empty [demo_order, demo_order2] demo_pool"
proof -
  have "mem_ok (co_redis demo_pool)" "repr (env_now demo_env (co_ticks demo_pool)) demo_levels Map.empty
      (mem_kv (co_redis demo_pool))"
    using demo_shows_stock [of demo_order]
    by (simp_all add: shows_stock_def demo_pool_def demo_production_def) (simp add: demo_world_with_def)
  moreover have "pg_ok Some (w_store demo_pool)"
    by (simp add: pg_ok_def demo_pool_def demo_pg2_def demo_pg_def canonical_def)
  moreover have "pg_orders (w_store demo_pool) (or_id od) = Some od" if "od \<in> {demo_order, demo_order2}" for od
    using that by (auto simp: demo_pool_def pg_orders_def demo_pg2_def demo_pg_def order_of_row_def toOrder_def pg_lines_def
        pg_events_def line_of_row_def demo_order_def demo_order2_def)
  moreover have "bus_ready (w_bus demo_pool)"
    using wired_ready [OF wired_server_bus] by (simp add: demo_pool_def demo_production_def)
  moreover have "charges (w_payments demo_pool) = Map.empty"
    by (simp add: demo_pool_def demo_production_def new_payment_gateway_def)
  moreover have "env_now demo_env (co_ticks demo_pool + 3 * sum_list (map saga_steps [demo_order, demo_order2]))
      < env_now demo_env (co_ticks demo_pool) + 900000"
    by (simp add: demo_env_def demo_pool_def demo_production_def demo_order_def demo_order2_def saga_steps_def)
  ultimately show ?thesis
    using demo_env_ok unfolding pool_started_def by (auto simp: demo_order_def demo_order2_def)
qed

lemma demo_complete: "complete [demo_order, demo_order2] round_robin"
  unfolding complete_def
proof (intro allI impI)
  fix i assume "i < length [demo_order, demo_order2]"
  then have i: "i = 0 \<or> i = 1" by auto
  have "count_list (concat (replicate n [0, 1])) i = n" for n using i by (induction n) auto
  then show "saga_steps ([demo_order, demo_order2] ! i) \<le> count_list round_robin i"
    using i by (auto simp: round_robin_def saga_steps_def demo_order_def demo_order2_def)
qed

definition demo_sagas :: "(redis_mem, pg_db, app_bus, order) saga_thread list" where
  "demo_sagas = sagas (SagaOrchestrator (server_client mem_commands) (PgOrderStore Some (\<lambda>j. j))
     (InMemoryEventBus app_handler) demo_env) (map or_id [demo_order, demo_order2])"

lemmas demo_pool_facts = memsrv.redis_server_axioms app.inmem.event_bus_laws_axioms demo_pool_started

section \<open>Properties\<close>

text \<open>C4: All or nothing, for any number of orders at once. However the runs of several orders take
  turns, once each has been resumed often enough they are all finished: every order is confirmed in the
  database, charged and shipped, or cancelled, not charged and not shipped; what is gone from the stock
  is exactly the lines of the confirmed orders, which the stock covered; no reservation of theirs is
  left; and no other order, charge or shipment is touched.\<close>

theorem concurrent_all_or_nothing:
  fixes C :: "'d redis_commands" and w :: "('d, pg_db, 'b) world"
  assumes "redis_server C kv_of invar" and "event_bus_laws B bus_ok"
    and "pool_started kv_of invar bus_ok uuid_in E L \<rho> ods w" and "complete ods is"
  shows "\<exists>res w'. interleave is
       (sagas (SagaOrchestrator (server_client C) (PgOrderStore uuid_in jsonb) B E) (map or_id ods), w)
         = (map (\<lambda>od. Finished (Inr od)) res, w') \<and> length res = length ods \<and>
     (\<forall>i < length ods. let x = or_id (ods ! i); od = res ! i in
        pg_orders (w_store w') x = Some od \<and> or_lines od = or_lines (ods ! i) \<and>
        (or_status od = CONFIRMED \<and> charges (w_payments w') x = Some (payment_ticket x) \<and>
           shipments (w_shipping w') x = Some (shipment_ticket x) \<or>
         or_status od = CANCELLED \<and> charges (w_payments w') x = None \<and>
           shipments (w_shipping w') x = shipments (w_shipping w) x)) \<and>
     (let sold = all_lines (filter (\<lambda>od. or_status od = CONFIRMED) res) in
        fulfillable L sold \<and> repr (env_now E (co_ticks w')) (debit L sold) \<rho> (kv_of (co_redis w'))) \<and>
     (\<forall>x. x \<notin> or_id ` set ods \<longrightarrow> pg_orders (w_store w') x = pg_orders (w_store w) x \<and>
        charges (w_payments w') x = charges (w_payments w) x \<and> shipments (w_shipping w') x = shipments (w_shipping w) x)"
proof -
  note sg = deployment_is_saga [OF assms(1,2), of uuid_in jsonb]
  obtain ps w' where run: "interleave is
      (sagas (SagaOrchestrator (server_client C) (PgOrderStore uuid_in jsonb) B E) (map or_id ods), w) = (ps, w')"
    by fastforce
  from pool_ends [OF assms run] obtain res where
    r: "ps = map (\<lambda>od. Finished (Inr od)) res" "length res = length ods"
      "\<forall>i < length ods. saga.comes_to pg_orders B L w ods w' (ods ! i) (res ! i)"
      "fulfillable L (all_lines (filter (\<lambda>od. or_status od = CONFIRMED) res))"
      "repr (env_now E (co_ticks w')) (debit L (all_lines (filter (\<lambda>od. or_status od = CONFIRMED) res))) \<rho> (kv_of (co_redis w'))"
      "\<forall>x. x \<notin> or_id ` set ods \<longrightarrow> saga.seen pg_orders B w' x = saga.seen pg_orders B w x" by (elim exE conjE)
  show ?thesis
    unfolding Let_def
  proof (intro exI [of _ res] exI [of _ w'] conjI allI impI r(2,4,5))
    show "interleave is (sagas (SagaOrchestrator (server_client C) (PgOrderStore uuid_in jsonb) B E) (map or_id ods), w)
        = (map (\<lambda>od. Finished (Inr od)) res, w')" using run r(1) by simp
  next
    fix i assume "i < length ods"
    then have "saga.comes_to pg_orders B L w ods w' (ods ! i) (res ! i)" using r(3) by blast
    then show "pg_orders (w_store w') (or_id (ods ! i)) = Some (res ! i)" "or_lines (res ! i) = or_lines (ods ! i)"
      "or_status (res ! i) = CONFIRMED \<and> charges (w_payments w') (or_id (ods ! i)) = Some (payment_ticket (or_id (ods ! i))) \<and>
           shipments (w_shipping w') (or_id (ods ! i)) = Some (shipment_ticket (or_id (ods ! i))) \<or>
       or_status (res ! i) = CANCELLED \<and> charges (w_payments w') (or_id (ods ! i)) = None \<and>
           shipments (w_shipping w') (or_id (ods ! i)) = shipments (w_shipping w) (or_id (ods ! i))"
      unfolding saga.comes_to_def [OF sg] Let_def by blast+
  next
    fix x assume "x \<notin> or_id ` set ods"
    then have "saga.seen pg_orders B w' x = saga.seen pg_orders B w x" using r(6) by blast
    then show "pg_orders (w_store w') x = pg_orders (w_store w) x" "charges (w_payments w') x = charges (w_payments w) x"
      "shipments (w_shipping w') x = shipments (w_shipping w) x"
      unfolding saga.seen_def [OF sg] by simp_all
  qed
qed

theorem concurrent_all_or_nothing_witness:
  "\<exists>res w'. interleave round_robin (demo_sagas, demo_pool) = (map (\<lambda>od. Finished (Inr od)) res, w') \<and> length res = 2 \<and>
     repr (env_now demo_env (co_ticks w')) (debit demo_levels (all_lines (filter (\<lambda>od. or_status od = CONFIRMED) res)))
       Map.empty (mem_kv (co_redis w'))"
  using concurrent_all_or_nothing [OF demo_pool_facts demo_complete, of "\<lambda>j. j"]
  unfolding demo_sagas_def Let_def by fastforce

text \<open>C5: At no moment of any schedule, complete or not, have the runs taken more of an item than there
  was: what the stock shows is the levels less some of the lines of the orders, lines that the levels
  cover together, and the reservations of others are still there.\<close>

theorem concurrent_never_oversell:
  fixes C :: "'d redis_commands" and w :: "('d, pg_db, 'b) world"
  assumes "redis_server C kv_of invar" and "event_bus_laws B bus_ok"
    and "pool_started kv_of invar bus_ok uuid_in E L \<rho> ods w"
    and "interleave is (sagas (SagaOrchestrator (server_client C) (PgOrderStore uuid_in jsonb) B E) (map or_id ods), w) = (ps, w')"
  shows "\<exists>taken held. repr (env_now E (co_ticks w')) (debit L (lines_of taken)) (pledge \<rho> held) (kv_of (co_redis w')) \<and>
     fulfillable L (lines_of taken) \<and> mset (lines_of taken) \<subseteq># mset (all_lines ods) \<and>
     (\<forall>i. \<rho> i \<noteq> None \<longrightarrow> pledge \<rho> held i = \<rho> i)"
proof -
  from pool_reached [OF assms] saga.pool_shows [OF deployment_is_saga [OF assms(1,2)]] obtain taken held where
    t: "repr (env_now E (co_ticks w')) (debit L (lines_of taken)) (pledge \<rho> held) (kv_of (co_redis w'))"
      "fulfillable L (lines_of taken)" "mset (lines_of taken) \<subseteq># mset (all_lines ods)" "separate \<rho> held" by blast
  moreover have "pledge \<rho> held i = \<rho> i" if "\<rho> i \<noteq> None" for i
    using t(4) that by (intro pledge_out) (auto simp: separate_def)
  ultimately show ?thesis by blast
qed

theorem concurrent_never_oversell_witness:
  "\<exists>taken held. repr (env_now demo_env (co_ticks (snd (interleave [0, 1, 1, 0, 1] (demo_sagas, demo_pool)))))
       (debit demo_levels (lines_of taken)) (pledge Map.empty held)
       (mem_kv (co_redis (snd (interleave [0, 1, 1, 0, 1] (demo_sagas, demo_pool)))))"
  using concurrent_never_oversell [OF demo_pool_facts, of "[0, 1, 1, 0, 1]" "\<lambda>j. j"
      "fst (interleave [0, 1, 1, 0, 1] (demo_sagas, demo_pool))" "snd (interleave [0, 1, 1, 0, 1] (demo_sagas, demo_pool))"]
  unfolding demo_sagas_def by auto

text \<open>C6: When the stock covers all the orders together, none of them is refused for a shortage, however
  their runs take turns: an order is confirmed exactly when neither participant declines it.\<close>

theorem concurrent_no_false_shortage:
  fixes C :: "'d redis_commands" and w :: "('d, pg_db, 'b) world"
  assumes "redis_server C kv_of invar" and "event_bus_laws B bus_ok"
    and "pool_started kv_of invar bus_ok uuid_in E L \<rho> ods w" and "complete ods is"
    and "fulfillable L (all_lines ods)" and "i < length ods"
  shows "\<exists>od. fst (interleave is
       (sagas (SagaOrchestrator (server_client C) (PgOrderStore uuid_in jsonb) B E) (map or_id ods), w)) ! i = Finished (Inr od) \<and>
     (or_status od = CONFIRMED \<longleftrightarrow> \<not> pay_declines w (or_id (ods ! i)) \<and> \<not> ship_declines w (or_id (ods ! i)))"
proof -
  note sg = deployment_is_saga [OF assms(1,2), of uuid_in jsonb]
  obtain ps w' where run: "interleave is
      (sagas (SagaOrchestrator (server_client C) (PgOrderStore uuid_in jsonb) B E) (map or_id ods), w) = (ps, w')"
    by fastforce
  from pool_ends [OF assms(1-4) run] assms(6) obtain res where
    r: "ps = map (\<lambda>od. Finished (Inr od)) res" "length res = length ods"
      "saga.comes_to pg_orders B L w ods w' (ods ! i) (res ! i)" by blast
  then have "or_status (res ! i) = CONFIRMED \<longleftrightarrow> \<not> pay_declines w (or_id (ods ! i)) \<and> \<not> ship_declines w (or_id (ods ! i))"
    using assms(5) unfolding saga.comes_to_def [OF sg] Let_def by blast
  then show ?thesis using r(1,2) assms(6) by (simp add: run)
qed

theorem concurrent_no_false_shortage_witness:
  "\<exists>od. fst (interleave round_robin (demo_sagas, demo_pool)) ! 1 = Finished (Inr od) \<and> or_status od = CONFIRMED"
proof -
  have "fulfillable demo_levels (all_lines [demo_order, demo_order2])"
    by (simp add: fulfillable_def demo_levels_def demo_order_def demo_order2_def line_key_def)
  moreover have "\<not> pay_declines demo_pool x \<and> \<not> ship_declines demo_pool x" for x
    by (simp add: pay_declines_def ship_declines_def demo_pool_def demo_production_def new_payment_gateway_def
        new_shipping_provider_def no_failures_def)
  ultimately show ?thesis
    using concurrent_no_false_shortage [OF demo_pool_facts demo_complete, of 1 "\<lambda>j. j"]
    unfolding demo_sagas_def by auto
qed

text \<open>The events of an order are on the bus in the order of its history, and only those: when its run
  has ended, the types of the events with its key are those there before, followed by the types that the
  run has added to its history, whatever other runs have published in between.\<close>

theorem concurrent_events_in_order:
  fixes C :: "'d redis_commands" and w :: "('d, pg_db, 'b) world"
  assumes "redis_server C kv_of invar" and "event_bus_laws B bus_ok"
    and "pool_started kv_of invar bus_ok uuid_in E L \<rho> ods w" and "complete ods is" and "od0 \<in> set ods"
    and "interleave is (sagas (SagaOrchestrator (server_client C) (PgOrderStore uuid_in jsonb) B E) (map or_id ods), w) = (ps, w')"
  shows "\<exists>od types. pg_orders (w_store w') (or_id od0) = Some od \<and>
     map ev_type (or_history od) = map ev_type (or_history od0) @ types \<and>
     order_events B (w_bus w') (or_id od0) = order_events B (w_bus w) (or_id od0) @ types"
proof -
  note sg = deployment_is_saga [OF assms(1,2), of uuid_in jsonb]
  obtain i where i: "i < length ods" "od0 = ods ! i" using assms(5) by (metis in_set_conv_nth)
  from pool_ends [OF assms(1-4,6)] i obtain od where "saga.comes_to pg_orders B L w ods w' od0 od" by blast
  then obtain steps where s: "pg_orders (w_store w') (or_id od0) = Some od"
    "map ev_type (or_history od) = map ev_type (or_history od0) @ map (\<lambda>x. fst (snd x)) steps"
    "saga.told B w' (or_id od0) = saga.told B w (or_id od0) @ map (announced (or_id od0)) steps"
    unfolding saga.comes_to_def [OF sg] Let_def by blast
  have types: "order_events B (w_bus u) x = map fst (saga.told B u x)" for u :: "('d, pg_db, 'b) world" and x
    unfolding order_events_def saga.told_def [OF sg] saga.announcements_def [OF sg]
    by (simp add: filter_map comp_def)
  have "map fst (map (announced (or_id od0)) steps) = map (\<lambda>x. fst (snd x)) steps"
    by (induction steps) (simp_all add: announced_def split: prod.splits)
  then show ?thesis using s(1,2) unfolding types s(3) by auto
qed

theorem concurrent_events_in_order_witness:
  "\<exists>od types. pg_orders (w_store (snd (interleave round_robin (demo_sagas, demo_pool)))) ''o2'' = Some od \<and>
     map ev_type (or_history od) = types \<and>
     order_events (InMemoryEventBus app_handler) (w_bus (snd (interleave round_robin (demo_sagas, demo_pool)))) ''o2'' =
       order_events (InMemoryEventBus app_handler) (w_bus demo_pool) ''o2'' @ types"
proof -
  have "demo_order2 \<in> set [demo_order, demo_order2]" "or_id demo_order2 = ''o2''" "or_history demo_order2 = []"
    by (simp_all add: demo_order2_def demo_order_def)
  then show ?thesis
    using concurrent_events_in_order [OF demo_pool_facts demo_complete, of demo_order2 "\<lambda>j. j"
      "fst (interleave round_robin (demo_sagas, demo_pool))" "snd (interleave round_robin (demo_sagas, demo_pool))"]
    unfolding demo_sagas_def by auto
qed

section \<open>Orders that cross\<close>

text \<open>One unit of each of two items; one order asks for the first and the second item, another for the
  second and the first.\<close>

definition cross_line :: "string \<Rightarrow> order_line" where
  "cross_line s = \<lparr>ol_sku = s, ol_qty = 1, ol_warehouseId = ''w1''\<rparr>"

definition cross_order :: "string \<Rightarrow> string list \<Rightarrow> order" where
  "cross_order x skus = demo_order\<lparr>or_id := x, or_lines := map cross_line skus\<rparr>"

definition cross_world :: server_world where
  "cross_world = (demo_world_with demo_order)\<lparr>
     co_redis := \<lparr>rm_store = [(stockKey ''w1'' ''s1'', ''1''), (stockKey ''w1'' ''s2'', ''1'')], rm_expiresAt = []\<rparr>,
     w_store := [(''a'', cross_order ''a'' [''s1'', ''s2'']), (''b'', cross_order ''b'' [''s2'', ''s1''])]\<rparr>"

definition end_status :: "('s, order) thread \<Rightarrow> order_status option" where
  "end_status p = (case p of Finished (Inr od) \<Rightarrow> Some (or_status od) | _ \<Rightarrow> None)"

definition cross_statuses :: "nat list \<Rightarrow> order_status option list" where
  "cross_statuses is =
     map end_status (fst (interleave is (sagas (server_saga demo_env) [''a'', ''b''], cross_world)))"


end
