(* ===== verification/Crash_Anywhere.thy ===== *)
theory Crash_Anywhere
  imports Crash_Recovery Concurrent_Orders
begin

text \<open>
  A process that is killed while it runs any number of sagas, each of them at any of its awaits, and
  the startup sweep of the process that comes after it: what every order has become, and what is
  then out of the stock for it.
\<close>

section \<open>What the history of an order says\<close>

lemma step_details:
  "map (\<lambda>h. (ev_type h, ev_detail h)) (or_history (fold (apply_step kept) steps od)) =
     map (\<lambda>h. (ev_type h, ev_detail h)) (or_history od) @ map (\<lambda>(st, ty, det). (ty, Some (kept (JObj det)))) steps"
  by (induction steps arbitrary: od) (auto simp: apply_step_def with_event_def)

lemma untimed_details:
  "map (\<lambda>h. (ev_type h, ev_detail h)) (or_history (untimed od)) = map (\<lambda>h. (ev_type h, ev_detail h)) (or_history od)"
  by (simp add: untimed_def comp_def)

lemma find_detail: "map_option ev_detail (find (\<lambda>h. ev_type h = ty) hs) =
    map_option snd (find (\<lambda>p. fst p = ty) (map (\<lambda>h. (ev_type h, ev_detail h)) hs))"
  by (induction hs) simp_all

lemma find_step: "map_option snd (find (\<lambda>p. fst p = ty) (map (\<lambda>(st, ty, det). (ty, Some (kept (JObj det)))) steps)) =
    map_option (\<lambda>x. Some (kept (JObj (snd (snd x))))) (find (\<lambda>x. fst (snd x) = ty) steps)"
  by (induction steps) (auto split: prod.splits)

text \<open>An order that was created empty and has gone through steps since.\<close>

definition stepped :: "(json \<Rightarrow> json) \<Rightarrow> saga_step list \<Rightarrow> order \<Rightarrow> bool" where
  "stepped kept steps od \<longleftrightarrow> (\<exists>od0. or_status od0 = CREATED \<and> or_history od0 = [] \<and>
     untimed od = fold (apply_step kept) steps (untimed od0))"

lemma stepped_detail:
  assumes "stepped kept steps od"
  shows "map_option ev_detail (find (\<lambda>h. ev_type h = ''order.inventory_reserved'') (or_history od)) =
     map_option (\<lambda>det. Some (kept (JObj det))) (recorded steps)"
proof -
  from assms obtain od0 where od0: "or_history od0 = []" "untimed od = fold (apply_step kept) steps (untimed od0)"
    unfolding stepped_def by blast
  have "map (\<lambda>h. (ev_type h, ev_detail h)) (or_history od) = map (\<lambda>(st, ty, det). (ty, Some (kept (JObj det)))) steps"
    unfolding untimed_details [symmetric, of od] od0(2) step_details untimed_details od0(1) by simp
  then show ?thesis
    unfolding find_detail recorded_def option.map_comp by (simp only: find_step) (simp add: comp_def)
qed

lemma stepped_status: "stepped kept steps od \<Longrightarrow> or_status od = last_status steps"
proof -
  have "or_status (fold (apply_step kept) steps od) = (if steps = [] then or_status od else last_status steps)" for od
    by (induction steps rule: rev_induct) (simp_all add: apply_step_def with_event_def split: prod.splits)
  then show "stepped kept steps od \<Longrightarrow> ?thesis"
    unfolding stepped_def by (metis (mono_tags, lifting) last_status_simps(1) untimed_fields(6))
qed

lemma stepped_has: "stepped kept steps od \<Longrightarrow> has_event ''order.inventory_reserved'' od \<longleftrightarrow> recorded steps \<noteq> None"
proof -
  assume s: "stepped kept steps od"
  have "has_event ''order.inventory_reserved'' od \<longleftrightarrow>
      map_option ev_detail (find (\<lambda>h. ev_type h = ''order.inventory_reserved'') (or_history od)) \<noteq> None"
    by (auto simp: has_event_def find_None_iff)
  then show ?thesis unfolding stepped_detail [OF s] by simp
qed

lemma stepped_reservations:
  assumes "jsonb_like kept" and "stepped kept steps od"
  shows "recorded steps = None \<Longrightarrow> reservationsFromHistory od = []"
    and "recorded steps = Some [(''reservations'', JArr (map reservation_json rs))] \<Longrightarrow> reservationsFromHistory od = rs"
proof -
  let ?find = "find (\<lambda>h. ev_type h = ''order.inventory_reserved'') (or_history od)"
  note d = stepped_detail [OF assms(2)]
  show "recorded steps = None \<Longrightarrow> reservationsFromHistory od = []"
    using d by (simp add: reservationsFromHistory_def)
  assume "recorded steps = Some [(''reservations'', JArr (map reservation_json rs))]"
  with d obtain h where h: "?find = Some h" "ev_detail h = Some (kept (JObj [(''reservations'', JArr (map reservation_json rs))]))"
    by auto
  have "json_field (kept (JObj [(''reservations'', JArr xs)])) ''reservations'' = Some (JArr (map kept xs))" for xs
    using assms(1) by (simp add: jsonb_like_def)
  moreover have "map reservation_of_json (map kept (map reservation_json rs)) = rs"
    using jsonb_reservation [OF assms(1)] by (simp add: comp_def)
  ultimately show "reservationsFromHistory od = rs" using h by (simp add: reservationsFromHistory_def)
qed

section \<open>What a sweep leaves of what an order holds\<close>

text \<open>An order whose reservations are recorded is given back what it still has pledged; of an order that
  recorded none the sweep finds nothing to give back.\<close>

definition left_taken :: "ghost \<Rightarrow> taken list" where
  "left_taken g = (if recorded (gh_steps g) = None then gh_taken g
     else take (length (gh_taken g) - length (gh_pledged g)) (gh_taken g))"

definition left_pledged :: "ghost \<Rightarrow> taken list" where
  "left_pledged g = (if recorded (gh_steps g) = None then gh_pledged g else [])"

abbreviation coherent_ghost :: "ghost \<Rightarrow> bool" where
  "coherent_ghost g \<equiv> coherent (gh_order g) (gh_steps g) (gh_taken g) (gh_pledged g) (gh_drawn g)"

lemma coherent_split:
  assumes c: "coherent_ghost g" and s: "jsonb_like kept" "stepped kept (gh_steps g) od"
  obtains spent rel where "gh_taken g = left_taken g @ rel" "gh_pledged g = rel @ left_pledged g"
    "reservationsFromHistory od = map rsv (spent @ rel)" "distinct (ids (spent @ rel))"
    "set (ids spent) \<subseteq> set (gh_drawn g)" "length (spent @ rel) \<le> length (or_lines (gh_order g))"
proof (cases "recorded (gh_steps g)")
  case None
  with stepped_reservations(1) [OF s] that [of "[]" "[]"] show thesis
    by (simp add: left_taken_def left_pledged_def)
next
  case (Some det)
  with c obtain spent where sp:
    "det = [(''reservations'', JArr (map reservation_json (map rsv (spent @ gh_pledged g))))]"
    "lines_of (spent @ gh_pledged g) = or_lines (gh_order g)" "distinct (ids (spent @ gh_pledged g))"
    "set (ids spent) \<subseteq> set (gh_drawn g)" unfolding coherent_def recalls_def by blast
  from c obtain gone where "gh_taken g = gone @ gh_pledged g" by (auto simp: coherent_def suffix_def)
  then have "gh_taken g = left_taken g @ gh_pledged g" using Some by (simp add: left_taken_def)
  moreover have "gh_pledged g = gh_pledged g @ left_pledged g" using Some by (simp add: left_pledged_def)
  moreover have "reservationsFromHistory od = map rsv (spent @ gh_pledged g)"
    using stepped_reservations(2) [OF s] Some sp(1) by blast
  moreover have "length (spent @ gh_pledged g) \<le> length (or_lines (gh_order g))"
    using arg_cong [OF sp(2), of length] by simp
  ultimately show thesis using that sp(3,4) by blast
qed

lemma coherent_left:
  assumes "coherent_ghost g"
  shows "mset (left_taken g) \<subseteq># mset (gh_taken g)" "mset (left_pledged g) \<subseteq># mset (gh_pledged g)"
    and "isTerminalStatus (last_status (gh_steps g)) \<Longrightarrow> left_taken g = gh_taken g \<and> left_pledged g = gh_pledged g"
proof -
  have "mset (take n xs) \<subseteq># mset xs" for n and xs :: "taken list"
    by (metis append_take_drop_id mset_append mset_subset_eq_add_left)
  then show "mset (left_taken g) \<subseteq># mset (gh_taken g)" by (simp add: left_taken_def)
  show "mset (left_pledged g) \<subseteq># mset (gh_pledged g)" by (simp add: left_pledged_def)
  assume "isTerminalStatus (last_status (gh_steps g))"
  then have "last_status (gh_steps g) = CONFIRMED \<or> last_status (gh_steps g) \<in> {CANCELLED, FAILED}"
    by (simp add: isTerminalStatus_def TERMINAL_ORDER_STATUSES_def)
  with assms have "gh_pledged g = []" by (auto simp: coherent_def suffix_def)
  then show "left_taken g = gh_taken g \<and> left_pledged g = gh_pledged g"
    by (simp add: left_taken_def left_pledged_def)
qed

text \<open>While the orders with the identifiers \<open>X\<close> are still to be swept.\<close>

definition now_taken :: "string set \<Rightarrow> ghost \<Rightarrow> taken list" where
  "now_taken X g = (if gh_id g \<in> X then gh_taken g else left_taken g)"

definition now_pledged :: "string set \<Rightarrow> ghost \<Rightarrow> taken list" where
  "now_pledged X g = (if gh_id g \<in> X then gh_pledged g else left_pledged g)"

lemma concat_submset:
  "\<forall>g \<in> set gs. mset (f g) \<subseteq># mset (k g) \<Longrightarrow> mset (concat (map f gs)) \<subseteq># mset (concat (map k gs))"
proof (induction gs)
  case (Cons g gs)
  then have "mset (f g) \<subseteq># mset (k g)" "mset (concat (map f gs)) \<subseteq># mset (concat (map k gs))" by simp_all
  then show ?case by (simp add: subset_mset.add_mono)
qed simp

lemma others_submset:
  "\<forall>g \<in> set gs. mset (f g) \<subseteq># mset (k g) \<Longrightarrow> mset (others f i gs) \<subseteq># mset (others k i gs)"
  unfolding others_def by (rule concat_submset) (auto dest: in_set_takeD in_set_dropD)

lemma others_swept:
  assumes "distinct (map gh_id gs)" and "i < length gs"
  shows "others (now_taken (X - {gh_id (gs ! i)})) i gs = others (now_taken X) i gs"
    and "others (now_pledged (X - {gh_id (gs ! i)})) i gs = others (now_pledged X) i gs"
proof -
  have "gh_id g \<noteq> gh_id (gs ! i)" if "g \<in> set (take i gs @ drop (Suc i) gs)" for g
  proof -
    have "distinct (map gh_id (take i gs @ gs ! i # drop (Suc i) gs))"
      using assms id_take_nth_drop [of i gs] by simp
    then have "gh_id (gs ! i) \<notin> gh_id ` set (take i gs @ drop (Suc i) gs)" by auto
    then show ?thesis using that by (metis imageI)
  qed
  then show "others (now_taken (X - {gh_id (gs ! i)})) i gs = others (now_taken X) i gs"
    "others (now_pledged (X - {gh_id (gs ! i)})) i gs = others (now_pledged X) i gs"
    unfolding others_def now_taken_def now_pledged_def by (intro arg_cong [of _ _ concat] map_cong refl; simp)+
qed

lemma debit_append: "debit L (xs @ ys) = debit (debit L xs) ys"
  by (auto simp: debit_def fun_eq_iff option.map_comp comp_def intro!: option.map_cong)

lemma pledge_append: "pledge \<rho> (xs @ ys) = pledge (pledge \<rho> ys) xs"
  by (simp add: pledge_def)

section \<open>The sweep\<close>

text \<open>What is known of the orders of a process that has been killed.\<close>

definition crashed_ok :: "(string \<Rightarrow> int option) \<Rightarrow> kv \<Rightarrow> int \<Rightarrow> ghost list \<Rightarrow> bool" where
  "crashed_ok L \<rho> t gs \<longleftrightarrow> distinct (map gh_id gs) \<and> (\<forall>g \<in> set gs. coherent_ghost g) \<and>
     separate \<rho> (concat (map gh_pledged gs)) \<and> fulfillable L (lines_of (concat (map gh_taken gs))) \<and>
     distinct (ids (concat (map gh_pledged gs)) @ concat (map gh_drawn gs)) \<and>
     due_after t (concat (map gh_pledged gs)) \<and> set (concat (map gh_drawn gs)) \<inter> dom \<rho> = {}"

lemma now_submset:
  assumes "\<forall>g \<in> set gs. coherent_ghost g"
  shows "\<forall>g \<in> set gs. mset (now_taken X g) \<subseteq># mset (gh_taken g)"
    and "\<forall>g \<in> set gs. mset (now_pledged X g) \<subseteq># mset (gh_pledged g)"
  using assms coherent_left by (auto simp: now_taken_def now_pledged_def)

text \<open>What one order of them has to do with the rest.\<close>

lemma crashed_one:
  assumes cr: "crashed_ok L \<rho> t gs" and i: "i < length gs"
    and pl: "gh_pledged (gs ! i) = rel @ left_pledged (gs ! i)"
    and sp: "set (ids spent) \<subseteq> set (gh_drawn (gs ! i))" "distinct (ids (spent @ rel))"
    and rest: "rest = left_pledged (gs ! i) @ others (now_pledged X) i gs"
  shows "separate (pledge \<rho> rest) (spent @ rel)" and "due_after t rel" and "distinct (ids (rel @ rest))"
proof -
  let ?g = "gs ! i"
  have coh: "\<forall>g \<in> set gs. coherent_ghost g" using cr by (simp add: crashed_ok_def)
  have sub: "mset (others (now_pledged X) i gs) \<subseteq># mset (others gh_pledged i gs)"
    by (rule others_submset [OF now_submset(2) [OF coh]])
  then obtain zs where zs: "mset (others gh_pledged i gs) = mset (others (now_pledged X) i gs @ zs)"
    by (metis ex_mset mset_append subset_mset.le_iff_add)
  have m: "mset (concat (map gh_pledged gs)) = mset (rel @ rest @ zs)"
    unfolding mset_focus [OF i] pl rest using zs by simp
  have d: "mset (concat (map gh_drawn gs)) = mset (gh_drawn ?g @ others gh_drawn i gs)" by (rule mset_focus [OF i])
  have "mset (ids (concat (map gh_pledged gs)) @ concat (map gh_drawn gs)) =
      mset (ids (rel @ rest @ zs) @ gh_drawn ?g @ others gh_drawn i gs)"
    unfolding mset_append [of "ids _"] ids_mset [OF m] d by simp
  then have dist: "distinct (ids (rel @ rest @ zs) @ gh_drawn ?g @ others gh_drawn i gs)"
    using cr distinct_mset unfolding crashed_ok_def by blast
  then have dist': "distinct ((ids rel @ ids rest) @ ids zs @ gh_drawn ?g @ others gh_drawn i gs)" by simp
  then show "distinct (ids (rel @ rest))" unfolding distinct_append map_append by blast
  have ps: "set (concat (map gh_pledged gs)) = set (rel @ rest @ zs)" by (rule mset_eq_setD [OF m])
  then show "due_after t rel" using cr unfolding crashed_ok_def due_after_def by simp
  have "set (ids (rel @ rest @ zs)) \<inter> dom \<rho> = {}"
    using cr unfolding crashed_ok_def separate_def set_map ps by blast
  then have rel: "set (ids rel) \<inter> dom \<rho> = {}" unfolding map_append set_append by blast
  have drawn: "set (gh_drawn ?g) \<inter> dom \<rho> = {}"
    using cr mset_eq_setD [OF d] unfolding crashed_ok_def by auto
  have pledged: "dom (pledge \<rho> rest) \<subseteq> dom \<rho> \<union> set (ids rest)"
    using pledge_out by (metis (no_types, lifting) UnCI UnI2 domIff subsetI)
  have apart: "set (ids rel) \<inter> set (ids rest) = {}" "set (ids rest) \<inter> set (gh_drawn ?g) = {}"
    using dist' unfolding distinct_append set_append by blast+
  have "(A \<union> B) \<inter> Q = {}" if "A \<subseteq> D" "B \<inter> M = {}" "D \<inter> M = {}" "Q \<subseteq> M \<union> N" "B \<inter> N = {}" "N \<inter> D = {}"
    for A B D M N Q :: "string set" using that by blast
  from this [OF sp(1) rel drawn pledged apart] show "separate (pledge \<rho> rest) (spent @ rel)"
    using sp(2) unfolding separate_def map_append set_append by blast
qed

context saga
begin

lemma sweep_step:
  assumes cr: "crashed_ok L \<rho> t gs" and i: "i < length gs" and X: "gh_id (gs ! i) = oid" "oid \<in> X"
    and tr: "tracks E w oid od" and unfin: "\<not> isTerminalStatus (or_status od)" and clock: "clock_ok E"
    and s: "jsonb_like kept" "stepped kept (gh_steps (gs ! i)) od"
    and h: "holding E w L \<rho> (concat (map (now_taken X) gs)) (concat (map (now_pledged X) gs))"
    and time: "env_now E (co_ticks w + 3 + length (or_lines (gh_order (gs ! i)))) \<le> t"
  shows "\<exists>w' od' previous. recoverStuck (SagaOrchestrator R S B E) od w = (Inr od', w') \<and>
     went E oid (recovered_step previous) w od w' od' \<and>
     holding E w' L \<rho> (concat (map (now_taken (X - {oid})) gs)) (concat (map (now_pledged (X - {oid})) gs)) \<and>
     co_ticks w \<le> co_ticks w' \<and> co_ticks w' \<le> co_ticks w + (6 + length (or_lines (gh_order (gs ! i))))"
proof -
  let ?g = "gs ! i" and ?D = "SagaOrchestrator R S B E"
  have coh: "\<forall>g \<in> set gs. coherent_ghost g" using cr by (simp add: crashed_ok_def)
  then have "coherent_ghost ?g" using i by simp
  then obtain spent rel where
    split: "gh_taken ?g = left_taken ?g @ rel" "gh_pledged ?g = rel @ left_pledged ?g"
    and rec: "reservationsFromHistory od = map rsv (spent @ rel)"
    and sp: "distinct (ids (spent @ rel))" "set (ids spent) \<subseteq> set (gh_drawn ?g)"
    and len: "length (spent @ rel) \<le> length (or_lines (gh_order ?g))" by (rule coherent_split [OF _ s])
  let ?OT = "left_taken ?g @ others (now_taken X) i gs" and ?OP = "left_pledged ?g @ others (now_pledged X) i gs"
  let ?T = "concat (map (now_taken X) gs)" and ?P = "concat (map (now_pledged X) gs)"
  note one = crashed_one [where X = X, OF cr i split(2) sp(2,1) refl]
  have T: "mset ?T = mset (?OT @ rel)" and P: "mset (rel @ ?OP) = mset ?P"
    unfolding mset_focus [OF i] using X split by (simp_all add: now_taken_def now_pledged_def)
  have "holding E w L \<rho> (?OT @ rel) (rel @ ?OP)"
    using h unfolding holding_perm [OF T [symmetric] P one(3)] .
  then have h': "holding E w (debit L (lines_of ?OT)) (pledge \<rho> ?OP) rel rel"
    by (simp only: holding_def map_append [of fst] debit_append pledge_append)
  let ?in = "\<lambda>x. x \<in> set rel"
  have "filter ?in spent = []" using sp(1) by (auto simp: filter_empty_conv)
  then have own: "filter ?in (spent @ rel) = rel" by simp
  have lev: "debit L (lines_of ?OT) (line_key (fst x)) \<noteq> None" if "x \<in> set rel" for x
  proof -
    have "x \<in> set (concat (map gh_taken gs))" using that split(1) i by (auto intro!: bexI [of _ ?g])
    then have "L (line_key (fst x)) \<noteq> None" using cr unfolding crashed_ok_def fulfillable_iff by fastforce
    then show ?thesis by (simp add: debit_def)
  qed
  have "env_now E (co_ticks w + 3 + length (spent @ rel)) \<le> t"
    using time len clock_le [OF clock, of "co_ticks w + 3 + length (spent @ rel)"] by (meson add_left_mono order_trans)
  with one(2) have due: "due_after (env_now E (co_ticks w + 3 + length (spent @ rel))) rel" by (rule due_after_earlier)
  from recoverStuck_restores [OF tr unfin clock rec, of "debit L (lines_of ?OT)" "pledge \<rho> ?OP" ?in, unfolded own,
      OF h' one(1) _ due] lev obtain w' od' previous where
    w': "recoverStuck ?D od w = (Inr od', w')" "went E oid (recovered_step previous) w od w' od'"
      "holding E w' (debit L (lines_of ?OT)) (pledge \<rho> ?OP) [] []"
      "co_ticks w \<le> co_ticks w'" "co_ticks w' \<le> co_ticks w + length (spent @ rel) + 6" by blast
  have "holding E w' L \<rho> ?OT ?OP" using w'(3) by (simp add: holding_def)
  moreover have "mset ?OT = mset (concat (map (now_taken (X - {oid})) gs))"
    "mset ?OP = mset (concat (map (now_pledged (X - {oid})) gs))"
    using others_swept [of gs i X] cr i unfolding mset_focus [OF i] X(1) [symmetric]
    by (simp_all add: now_taken_def now_pledged_def crashed_ok_def)
  moreover have "distinct (ids ?OP)" using one(3) by simp
  ultimately have "holding E w' L \<rho> (concat (map (now_taken (X - {oid})) gs)) (concat (map (now_pledged (X - {oid})) gs))"
    using holding_perm [of ?OT _ ?OP] by blast
  moreover have "co_ticks w' \<le> co_ticks w + (6 + length (or_lines (gh_order ?g)))" using w'(5) len by linarith
  ultimately show ?thesis using w'(1,2,4) by blast
qed

lemma sweep_loop:
  assumes cr: "crashed_ok L \<rho> t gs" and clock: "clock_ok E" and js: "jsonb_like kept"
  shows "sound E w \<Longrightarrow> distinct (map or_id rs) \<Longrightarrow>
     \<forall>od \<in> set rs. stuck_in w od \<and> (\<exists>i < length gs. gh_id (gs ! i) = or_id od \<and>
       stepped kept (gh_steps (gs ! i)) od \<and> or_lines (gh_order (gs ! i)) = or_lines od) \<Longrightarrow>
     holding E w L \<rho> (concat (map (now_taken (or_id ` set rs)) gs)) (concat (map (now_pledged (or_id ` set rs)) gs)) \<Longrightarrow>
     env_now E (co_ticks w + sum_list (map (\<lambda>od. 6 + length (or_lines od)) rs)) \<le> t \<Longrightarrow>
     \<exists>w'. for_each (recover_one (SagaOrchestrator R S B E)) rs w = (Inr (), w') \<and>
       holding E w' L \<rho> (concat (map left_taken gs)) (concat (map left_pledged gs))"
proof (induction rs arbitrary: w)
  case Nil
  then show ?case by (simp add: now_taken_def now_pledged_def)
next
  case (Cons od rs)
  let ?D = "SagaOrchestrator R S B E" and ?X = "or_id ` set (od # rs)"
  have od: "orders_of (w_store w) (or_id od) = Some od" "\<not> isTerminalStatus (or_status od)"
    using Cons.prems(3) by (simp_all add: stuck_in_def)
  obtain i where i: "i < length gs" "gh_id (gs ! i) = or_id od" "stepped kept (gh_steps (gs ! i)) od"
    "or_lines (gh_order (gs ! i)) = or_lines od" using Cons.prems(3) by auto
  have "env_now E (co_ticks w + 3 + length (or_lines od)) \<le>
      env_now E (co_ticks w + sum_list (map (\<lambda>od. 6 + length (or_lines od)) (od # rs)))"
    by (rule clock_le [OF clock]) simp
  then have time: "env_now E (co_ticks w + 3 + length (or_lines (gh_order (gs ! i)))) \<le> t"
    using Cons.prems(5) i(4) by simp
  have "or_id od \<in> ?X" by simp
  from sweep_step [OF cr i(1,2) this sound_tracks [OF Cons.prems(1) od(1)] od(2) clock js i(3) Cons.prems(4) time]
  obtain w1 od1 previous where
    w1: "recoverStuck ?D od w = (Inr od1, w1)" "went E (or_id od) (recovered_step previous) w od w1 od1"
      "holding E w1 L \<rho> (concat (map (now_taken (?X - {or_id od})) gs)) (concat (map (now_pledged (?X - {or_id od})) gs))"
      "co_ticks w \<le> co_ticks w1" "co_ticks w1 \<le> co_ticks w + (6 + length (or_lines od))"
    unfolding i(4) by blast
  have X: "?X - {or_id od} = or_id ` set rs" using Cons.prems(2) by auto
  have "invar (co_redis w1)" using w1(3) by (simp add: holding_def)
  with sound_went [OF Cons.prems(1) w1(2) _ w1(4) clock] have s1: "sound E w1" by blast
  have upd: "orders_of (w_store w1) = (orders_of (w_store w))(or_id od \<mapsto> od1)" using w1(2) by (simp add: went_def)
  have "\<forall>od' \<in> set rs. or_id od' \<noteq> or_id od" using Cons.prems(2) by (metis distinct.simps(2) image_eqI list.set_map list.simps(9))
  with Cons.prems(3) upd have st: "\<forall>od' \<in> set rs. stuck_in w1 od' \<and> (\<exists>i < length gs. gh_id (gs ! i) = or_id od' \<and>
       stepped kept (gh_steps (gs ! i)) od' \<and> or_lines (gh_order (gs ! i)) = or_lines od')"
    by (simp add: stuck_in_def)
  have "env_now E (co_ticks w1 + sum_list (map (\<lambda>od. 6 + length (or_lines od)) rs)) \<le>
      env_now E (co_ticks w + sum_list (map (\<lambda>od. 6 + length (or_lines od)) (od # rs)))"
    by (rule clock_le [OF clock]) (use w1(5) in simp)
  with Cons.prems(5) have time1: "env_now E (co_ticks w1 + sum_list (map (\<lambda>od. 6 + length (or_lines od)) rs)) \<le> t"
    by (rule order_trans [rotated])
  have dist: "distinct (map or_id rs)" using Cons.prems(2) by simp
  from Cons.IH [OF s1 dist st w1(3) [unfolded X] time1] obtain w2 where
    "for_each (recover_one ?D) rs w1 = (Inr (), w2)"
    "holding E w2 L \<rho> (concat (map left_taken gs)) (concat (map left_pledged gs))" by blast
  moreover have "recover_one ?D od w = (Inr (), w1)" using w1(1) by (simp add: recover_one_def bind_apply)
  ultimately show ?case by (auto simp: bind_apply)
qed

end

lemma sum_of_part:
  fixes f :: "'x \<Rightarrow> nat"
  assumes "\<And>x y. x \<in> set xs \<Longrightarrow> y \<in> set ys \<Longrightarrow> k x = k y \<Longrightarrow> f x = f y"
    and "distinct (map k xs)" and "k ` set xs \<subseteq> k ` set ys"
  shows "sum_list (map f xs) \<le> sum_list (map f ys)"
  using assms
proof (induction xs arbitrary: ys)
  case (Cons x xs)
  from Cons.prems(3) obtain y where y: "y \<in> set ys" "k y = k x" by auto
  then obtain as bs where ys: "ys = as @ y # bs" by (meson split_list)
  have "sum_list (map f xs) \<le> sum_list (map f (as @ bs))"
  proof (rule Cons.IH)
    have "k ` set ys = insert (k x) (k ` set (as @ bs))" unfolding ys y(2) [symmetric] by simp
    then have "k ` set xs \<subseteq> insert (k x) (k ` set (as @ bs))" using Cons.prems(3) by simp
    moreover have "k x \<notin> k ` set xs" using Cons.prems(2) by simp
    ultimately show "k ` set xs \<subseteq> k ` set (as @ bs)" by (metis subset_insert)
  next
    fix x' y' assume "x' \<in> set xs" "y' \<in> set (as @ bs)" "k x' = k y'"
    then show "f x' = f y'" by (intro Cons.prems(1)) (simp_all add: ys)
  next
    show "distinct (map k xs)" using Cons.prems(2) by simp
  qed
  moreover have "f x = f y" using y by (intro Cons.prems(1)) simp_all
  ultimately show ?case by (simp add: ys)
qed simp

text \<open>From any point of any schedule: the sweep of a process that finds the Redis and the database of the
  killed one.\<close>

context saga
begin

lemma crash_ghosts:
  assumes setting: "pool_setting E stop w0 ods" and J: "pool_ok E L \<rho> stop w0 ods m w gs"
    and new: "\<forall>od \<in> set ods. or_status od = CREATED \<and> or_history od = []"
  shows "crashed_ok L \<rho> (lease_end E w0) gs"
    and "\<forall>g \<in> set gs. orders_of (w_store w) (gh_id g) = Some (gh_stored g) \<and> gh_id g = or_id (gh_stored g) \<and>
       stepped kept (gh_steps g) (gh_stored g) \<and> or_lines (gh_order g) = or_lines (gh_stored g) \<and>
       mset (lines_of (gh_taken g)) \<subseteq># mset (or_lines (gh_order g))"
proof -
  have orders: "map gh_order gs = ods" and own: "\<forall>g \<in> set gs. owns E w0 w g" and okw: "ok (w_store w)"
    using J by (simp_all add: pool_ok_def)
  have "distinct (map gh_id gs)" using setting orders by (auto simp: pool_setting_def comp_def)
  then show "crashed_ok L \<rho> (lease_end E w0) gs"
    using J own unfolding crashed_ok_def pool_ok_def stock_view_def owns_def by blast
  have lines: "or_lines (fold (apply_step kept) steps od) = or_lines od" for steps od
    by (induction steps arbitrary: od) simp_all
  have "stepped kept (gh_steps g) (gh_stored g) \<and> or_lines (gh_order g) = or_lines (gh_stored g)" if g: "g \<in> set gs" for g
  proof -
    have u: "untimed (gh_stored g) = fold (apply_step kept) (gh_steps g) (untimed (gh_order g))"
      using own g by (simp add: owns_def)
    have "gh_order g \<in> set ods" using orders g by auto
    with new have "or_status (gh_order g) = CREATED" "or_history (gh_order g) = []" by blast+
    with u have "stepped kept (gh_steps g) (gh_stored g)" unfolding stepped_def by blast
    moreover have "or_lines (untimed (gh_stored g)) = or_lines (untimed (gh_order g))" unfolding u lines ..
    ultimately show ?thesis by simp
  qed
  moreover have "orders_of (w_store w) (gh_id g) = Some (gh_stored g) \<and> mset (lines_of (gh_taken g)) \<subseteq># mset (or_lines (gh_order g))"
    if "g \<in> set gs" for g using own that by (simp add: owns_def seen_def)
  ultimately show "\<forall>g \<in> set gs. orders_of (w_store w) (gh_id g) = Some (gh_stored g) \<and> gh_id g = or_id (gh_stored g) \<and>
       stepped kept (gh_steps g) (gh_stored g) \<and> or_lines (gh_order g) = or_lines (gh_stored g) \<and>
       mset (lines_of (gh_taken g)) \<subseteq># mset (or_lines (gh_order g))"
    using id_law [OF okw] by metis
qed

lemma crash_sound:
  assumes J: "pool_ok E L \<rho> stop w0 ods m w gs" and clock: "clock_ok E"
    and others: "\<forall>x od. x \<notin> or_id ` set ods \<and> orders_of (w_store w0) x = Some od \<longrightarrow>
       (\<forall>h \<in> set (or_history od). ev_at h \<le> env_now E (co_ticks w0))"
    and w': "co_redis w' = co_redis w" "w_store w' = w_store w" "co_ticks w \<le> co_ticks w'" "bus_ok (w_bus w')"
  shows "sound E w'"
proof -
  have orders: "map gh_order gs = ods" and own: "\<forall>g \<in> set gs. owns E w0 w g"
    and out: "\<forall>x. x \<notin> or_id ` set ods \<longrightarrow> seen w x = seen w0 x" using J by (simp_all add: pool_ok_def)
  have le: "env_now E (co_ticks w) \<le> env_now E (co_ticks w')" "env_now E (co_ticks w0) \<le> env_now E (co_ticks w)"
    using J w'(3) clock by (simp_all add: pool_ok_def clock_le)
  have "\<forall>h \<in> set (or_history od). ev_at h \<le> env_now E (co_ticks w)" if od: "orders_of (w_store w) x = Some od" for x od
  proof (cases "x \<in> or_id ` set ods")
    case True
    then obtain g where g: "g \<in> set gs" "gh_id g = x" using orders by auto
    then have "od = gh_stored g" "\<forall>h \<in> set (or_history (gh_stored g)). ev_at h \<le> env_now E (co_ticks w)"
      using own od by (auto simp: owns_def seen_def)
    then show ?thesis by simp
  next
    case False
    then have "orders_of (w_store w0) x = Some od" using out od by (simp add: seen_def)
    with others False le(2) show ?thesis by (meson order_trans)
  qed
  with le(1) have "\<forall>x od. orders_of (w_store w') x = Some od \<longrightarrow> (\<forall>h \<in> set (or_history od). ev_at h \<le> env_now E (co_ticks w'))"
    unfolding w'(2) by (meson order_trans)
  moreover have "invar (co_redis w)" "ok (w_store w)" using J by (simp_all add: pool_ok_def stock_view_def holding_def)
  ultimately show ?thesis unfolding sound_def using w' by simp
qed

lemma crash_sweep:
  assumes setting: "pool_setting E stop w0 ods" and J: "pool_ok E L \<rho> stop w0 ods m w gs" and js: "jsonb_like kept"
    and new: "\<forall>od \<in> set ods. or_status od = CREATED \<and> or_history od = []"
    and others: "\<forall>x od. x \<notin> or_id ` set ods \<and> orders_of (w_store w0) x = Some od \<longrightarrow>
       isTerminalStatus (or_status od) \<and> (\<forall>h \<in> set (or_history od). ev_at h \<le> env_now E (co_ticks w0))"
    and w': "co_redis w' = co_redis w" "w_store w' = w_store w" "co_ticks w \<le> co_ticks w'" "bus_ok (w_bus w')"
    and time: "env_now E (co_ticks w' + sum_list (map (\<lambda>od. 6 + length (or_lines od)) ods)) \<le> lease_end E w0"
  shows "\<exists>n w''. recoverStuckOrders (SagaOrchestrator R S B E) w' = (Inr n, w'') \<and>
     holding E w'' L \<rho> (concat (map left_taken gs)) (concat (map left_pledged gs)) \<and>
     (\<forall>x. case orders_of (w_store w) x of
        None \<Rightarrow> orders_of (w_store w'') x = None
      | Some od \<Rightarrow> if isTerminalStatus (or_status od) then orders_of (w_store w'') x = Some od
          else \<exists>od'. orders_of (w_store w'') x = Some od' \<and> or_status od' = CANCELLED)"
proof -
  let ?D = "SagaOrchestrator R S B E"
  have clock: "clock_ok E" using setting by (simp add: pool_setting_def)
  note ghosts = crash_ghosts [OF setting J new]
  have s: "sound E w'" using crash_sound [OF J clock _ w'] others by blast
  have orders: "map gh_order gs = ods" using J by (simp add: pool_ok_def)
  from nonTerminal_law [of "w_store w'"] s obtain rs where
    rs: "os_nonTerminal S (w_store w') = (Inr rs, w_store w')" "distinct (map or_id rs)"
      "\<And>od. od \<in> set rs \<longleftrightarrow> stuck_in w' od" by (auto simp: sound_def stuck_in_def)
  have mine: "\<exists>g \<in> set gs. gh_id g = or_id od \<and> gh_stored g = od" if "od \<in> set rs" for od
  proof -
    from that rs(3) have od: "orders_of (w_store w) (or_id od) = Some od" "\<not> isTerminalStatus (or_status od)"
      by (simp_all add: stuck_in_def w'(2))
    have "or_id od \<in> or_id ` set ods"
    proof (rule ccontr)
      assume no: "or_id od \<notin> or_id ` set ods"
      then have "seen w (or_id od) = seen w0 (or_id od)" using J by (simp add: pool_ok_def)
      then have "orders_of (w_store w0) (or_id od) = Some od" using od(1) by (simp add: seen_def)
      with others no od(2) show False by blast
    qed
    then obtain g where g: "g \<in> set gs" "gh_id g = or_id od" using orders by auto
    then have "orders_of (w_store w) (or_id od) = Some (gh_stored g)" using ghosts(2) by metis
    with g od(1) show ?thesis by auto
  qed
  have start: "concat (map (now_taken (or_id ` set rs)) gs) = concat (map gh_taken gs) \<and>
      concat (map (now_pledged (or_id ` set rs)) gs) = concat (map gh_pledged gs)"
  proof -
    have "now_taken (or_id ` set rs) g = gh_taken g \<and> now_pledged (or_id ` set rs) g = gh_pledged g" if g: "g \<in> set gs" for g
    proof (cases "gh_id g \<in> or_id ` set rs")
      case False
      have st: "orders_of (w_store w') (or_id (gh_stored g)) = Some (gh_stored g)" "stepped kept (gh_steps g) (gh_stored g)"
        "gh_id g = or_id (gh_stored g)" using ghosts(2) g w'(2) by auto
      then have "isTerminalStatus (or_status (gh_stored g))" using False rs(3) [of "gh_stored g"] by (auto simp: stuck_in_def)
      then have "isTerminalStatus (last_status (gh_steps g))" using stepped_status [OF st(2)] by simp
      with coherent_left(3) ghosts(1) g show ?thesis by (simp add: crashed_ok_def now_taken_def now_pledged_def)
    qed (simp add: now_taken_def now_pledged_def)
    then show ?thesis by (metis (no_types, lifting) map_cong)
  qed
  have "\<forall>od \<in> set rs. stuck_in w' od \<and> (\<exists>i < length gs. gh_id (gs ! i) = or_id od \<and>
       stepped kept (gh_steps (gs ! i)) od \<and> or_lines (gh_order (gs ! i)) = or_lines od)"
    using mine rs(3) ghosts(2) by (metis in_set_conv_nth)
  moreover have "holding E w' L \<rho> (concat (map (now_taken (or_id ` set rs)) gs)) (concat (map (now_pledged (or_id ` set rs)) gs))"
    using J holding_tick [OF _ clock w'(1,3)] start by (simp add: pool_ok_def stock_view_def)
  moreover have "sum_list (map (\<lambda>od. 6 + length (or_lines od)) rs) \<le> sum_list (map (\<lambda>od. 6 + length (or_lines od)) ods)"
  proof (rule sum_of_part [where k = or_id])
    have "or_id od \<in> or_id ` set ods" if "od \<in> set rs" for od
    proof -
      from mine [OF that] obtain g where "g \<in> set gs" "gh_id g = or_id od" by blast
      with orders show ?thesis by (metis image_eqI list.set_map)
    qed
    then show "or_id ` set rs \<subseteq> or_id ` set ods" by blast
    fix x y assume "x \<in> set rs" "y \<in> set ods" "or_id x = or_id y"
    moreover obtain g where g: "g \<in> set gs" "gh_id g = or_id x" "gh_stored g = x" using mine \<open>x \<in> set rs\<close> by blast
    moreover have "gh_order g \<in> set ods" using g(1) orders by auto
    moreover have "inj_on or_id (set ods)" using setting by (simp add: pool_setting_def distinct_map)
    ultimately have "gh_order g = y" by (metis inj_onD)
    then show "6 + length (or_lines x) = 6 + length (or_lines y)" using ghosts(2) g by auto
  qed (fact rs(2))
  then have "env_now E (co_ticks w' + sum_list (map (\<lambda>od. 6 + length (or_lines od)) rs)) \<le> lease_end E w0"
    using time clock_le [OF clock] by (meson add_left_mono order_trans)
  ultimately obtain w'' where w'': "for_each (recover_one ?D) rs w' = (Inr (), w'')"
    "holding E w'' L \<rho> (concat (map left_taken gs)) (concat (map left_pledged gs))"
    using sweep_loop [OF ghosts(1) clock js s rs(2)] by blast
  have run: "recoverStuckOrders ?D w' = (Inr (length rs), w'')"
    unfolding recoverStuckOrders_def bind_on_store using rs(1) w''(1) by (simp add: bind_apply)
  have "case orders_of (w_store w) x of
        None \<Rightarrow> orders_of (w_store w'') x = None
      | Some od \<Rightarrow> if isTerminalStatus (or_status od) then orders_of (w_store w'') x = Some od
          else \<exists>od'. orders_of (w_store w'') x = Some od' \<and> or_status od' = CANCELLED" for x
    using recoverStuckOrders_run [OF s clock] unfolding run w'(2)
    by (auto split: option.splits if_splits dest: spec [of _ x])
  with run w''(2) show ?thesis by blast
qed

end

section \<open>A crash at any point\<close>

text \<open>
  What is left of the order \<open>od0\<close>, whose status and history at the crash are those of \<open>od\<close>: \<open>gone\<close> are
  its lines that are out of the stock after the sweep, \<open>held\<close> its open reservations. A confirmed order
  has its lines, a cancelled one nothing. An order with recorded reservations has none left; unless
  the crash found it at committing them it has also got all its units back. An order that had recorded
  none keeps what it had reserved: the units are out of the stock under reservations that will expire.
\<close>

definition left_behind :: "order \<Rightarrow> order \<Rightarrow> order_line list \<Rightarrow> taken list \<Rightarrow> bool" where
  "left_behind od0 od gone held \<longleftrightarrow> mset gone \<subseteq># mset (or_lines od0) \<and>
     (or_status od = CONFIRMED \<longrightarrow> gone = or_lines od0) \<and>
     (or_status od = CANCELLED \<longrightarrow> gone = [] \<and> held = []) \<and>
     (has_event ''order.inventory_reserved'' od \<longrightarrow> held = []) \<and>
     (or_status od \<notin> {SHIPPING_SCHEDULED, CONFIRMED} \<longrightarrow>
        gone = (if has_event ''order.inventory_reserved'' od then [] else lines_of held))"

lemma coherent_left_behind:
  assumes c: "coherent_ghost g" and s: "stepped kept (gh_steps g) od"
    and sub: "mset (lines_of (gh_taken g)) \<subseteq># mset (or_lines (gh_order g))"
  shows "left_behind (gh_order g) od (lines_of (left_taken g)) (left_pledged g)"
proof -
  have st: "or_status od = last_status (gh_steps g)" using s by (rule stepped_status)
  have ev: "has_event ''order.inventory_reserved'' od \<longleftrightarrow> recorded (gh_steps g) \<noteq> None" using s by (rule stepped_has)
  have "mset (lines_of (left_taken g)) \<subseteq># mset (lines_of (gh_taken g))"
    using image_mset_subseteq_mono [OF coherent_left(1) [OF c], of fst] by simp
  then have "mset (lines_of (left_taken g)) \<subseteq># mset (or_lines (gh_order g))" using sub by (rule subset_mset.order_trans)
  moreover have "last_status (gh_steps g) = CONFIRMED \<Longrightarrow> lines_of (left_taken g) = or_lines (gh_order g)"
    using c by (simp add: coherent_def left_taken_def)
  moreover have "last_status (gh_steps g) = CANCELLED \<Longrightarrow> left_taken g = [] \<and> left_pledged g = []"
    using c by (auto simp: coherent_def left_taken_def left_pledged_def suffix_def)
  moreover have "recorded (gh_steps g) \<noteq> None \<Longrightarrow> left_pledged g = []" by (auto simp: left_pledged_def)
  moreover have "left_taken g = (if recorded (gh_steps g) \<noteq> None then [] else left_pledged g)"
    if "last_status (gh_steps g) \<notin> {SHIPPING_SCHEDULED, CONFIRMED}"
    using c that by (simp add: coherent_def left_taken_def left_pledged_def)
  ultimately show ?thesis unfolding left_behind_def st ev by simp
qed

text \<open>C7: A crash of a server with any number of runs in flight, each at any of its awaits. The startup sweep
  of the next process, on the same Redis and Postgres and within the TTL of the reservations, succeeds;
  every order it finds unfinished is cancelled and every finished one is left as it is; the stock shows
  the levels less what the orders have left behind, which the levels covered: the lines of the confirmed
  ones, nothing of those that were reserved on the record and not yet being committed, and, of those that
  had not recorded their reservations, units under reservations that are still open. The
  reservations of others are as they were.\<close>

theorem crash_at_any_await:
  fixes C :: "'d redis_commands" and w w1 w2 :: "('d, pg_db, 'b) world"
  assumes "redis_server C kv_of invar" and "event_bus_laws B bus_ok" and "jsonb_like jsonb"
    and started: "pool_started kv_of invar bus_ok uuid_in E L \<rho> ods w"
    and new: "\<forall>od \<in> set ods. or_status od = CREATED \<and> or_history od = []"
    and others: "\<forall>x od. x \<notin> or_id ` set ods \<and> pg_orders (w_store w) x = Some od \<longrightarrow>
       isTerminalStatus (or_status od) \<and> (\<forall>h \<in> set (or_history od). ev_at h \<le> env_now E (co_ticks w))"
    and run: "interleave is (sagas (SagaOrchestrator (server_client C) (PgOrderStore uuid_in jsonb) B E) (map or_id ods), w) = (ps, w1)"
    and w2: "co_redis w2 = co_redis w1" "w_store w2 = w_store w1" "co_ticks w1 \<le> co_ticks w2" "bus_ok (w_bus w2)"
    and time: "env_now E (co_ticks w2 + sum_list (map (\<lambda>od. 6 + length (or_lines od)) ods)) < env_now E (co_ticks w) + 900000"
  shows "\<exists>n w3 gone held.
     recoverStuckOrders (SagaOrchestrator (server_client C) (PgOrderStore uuid_in jsonb) B E) w2 = (Inr n, w3) \<and>
     length gone = length ods \<and> length held = length ods \<and>
     (\<forall>i < length ods. \<exists>od od'. pg_orders (w_store w1) (or_id (ods ! i)) = Some od \<and>
        pg_orders (w_store w3) (or_id (ods ! i)) = Some od' \<and>
        (if isTerminalStatus (or_status od) then od' = od else or_status od' = CANCELLED) \<and>
        left_behind (ods ! i) od (gone ! i) (held ! i)) \<and>
     repr (env_now E (co_ticks w3)) (debit L (concat gone)) (pledge \<rho> (concat held)) (kv_of (co_redis w3)) \<and>
     fulfillable L (concat gone) \<and> (\<forall>i. \<rho> i \<noteq> None \<longrightarrow> pledge \<rho> (concat held) i = \<rho> i) \<and>
     (\<forall>x. x \<notin> or_id ` set ods \<longrightarrow> pg_orders (w_store w3) x = pg_orders (w_store w) x)"
proof -
  note sg = deployment_is_saga [OF assms(1,2), of uuid_in jsonb]
  note sr = redis_server.server_is_stock_redis [OF assms(1)]
  let ?stop = "co_ticks w + 3 * sum_list (map saga_steps ods)"
  obtain gs m where J: "saga.pool_ok kv_of invar pg_orders (pg_ok uuid_in) jsonb B bus_ok E L \<rho> ?stop w ods m w1 gs"
    and len: "length gs = length ods" using pool_reached [OF assms(1,2) started run] by blast
  have setting: "saga.pool_setting E ?stop w ods"
    unfolding saga.pool_setting_def [OF sg] using started by (simp add: pool_started_def)
  have "env_now E (co_ticks w2 + sum_list (map (\<lambda>od. 6 + length (or_lines od)) ods)) \<le> saga.lease_end E w"
    using time unfolding saga.lease_end_def [OF sg] by simp
  from saga.crash_sweep [OF sg setting J assms(3) new others w2 this] obtain n w3 where
    w3: "recoverStuckOrders (SagaOrchestrator (server_client C) (PgOrderStore uuid_in jsonb) B E) w2 = (Inr n, w3)"
      "stock_redis.holding kv_of invar E w3 L \<rho> (concat (map left_taken gs)) (concat (map left_pledged gs))"
    and all: "\<And>x. case pg_orders (w_store w1) x of
        None \<Rightarrow> pg_orders (w_store w3) x = None
      | Some od \<Rightarrow> if isTerminalStatus (or_status od) then pg_orders (w_store w3) x = Some od
          else \<exists>od'. pg_orders (w_store w3) x = Some od' \<and> or_status od' = CANCELLED" by blast
  note ghosts = saga.crash_ghosts [OF sg setting J new]
  have coh: "\<forall>g \<in> set gs. coherent_ghost g" using ghosts(1) by (simp add: crashed_ok_def)
  have orders: "map gh_order gs = ods"
    and out: "\<forall>x. x \<notin> or_id ` set ods \<longrightarrow> saga.seen pg_orders B w1 x = saga.seen pg_orders B w x"
    using J unfolding saga.pool_ok_def [OF sg] by blast+
  let ?gone = "map (\<lambda>g. lines_of (left_taken g)) gs" and ?held = "map left_pledged gs"
  have gone: "concat ?gone = lines_of (concat (map left_taken gs))" by (simp add: map_concat comp_def)
  have "mset (concat (map left_taken gs)) \<subseteq># mset (concat (map gh_taken gs))"
    using coh coherent_left(1) by (intro concat_submset) blast
  from image_mset_subseteq_mono [OF this, of fst]
  have "mset (concat ?gone) \<subseteq># mset (lines_of (concat (map gh_taken gs)))" unfolding gone mset_map .
  moreover have "fulfillable L (lines_of (concat (map gh_taken gs)))" using ghosts(1) by (simp add: crashed_ok_def)
  ultimately have "fulfillable L (concat ?gone)" by (rule fulfillable_submset)
  moreover have "pledge \<rho> (concat ?held) i = \<rho> i" if "\<rho> i \<noteq> None" for i
  proof (rule pledge_out)
    have "mset (concat ?held) \<subseteq># mset (concat (map gh_pledged gs))"
      using coh coherent_left(2) by (intro concat_submset) blast
    then have "set (concat ?held) \<subseteq> set (concat (map gh_pledged gs))" by (metis set_mset_mono set_mset_mset)
    moreover have "i \<notin> set (ids (concat (map gh_pledged gs)))"
      using ghosts(1) that unfolding crashed_ok_def separate_def by blast
    ultimately show "i \<notin> set (ids (concat ?held))" by auto
  qed
  moreover have "repr (env_now E (co_ticks w3)) (debit L (concat ?gone)) (pledge \<rho> (concat ?held)) (kv_of (co_redis w3))"
    using w3(2) unfolding stock_redis.holding_def [OF sr] gone by blast
  moreover have "\<exists>od od'. pg_orders (w_store w1) (or_id (ods ! i)) = Some od \<and>
      pg_orders (w_store w3) (or_id (ods ! i)) = Some od' \<and>
      (if isTerminalStatus (or_status od) then od' = od else or_status od' = CANCELLED) \<and>
      left_behind (ods ! i) od (?gone ! i) (?held ! i)" if i: "i < length ods" for i
  proof -
    let ?g = "gs ! i"
    have i': "i < length gs" unfolding len by (rule i)
    have "ods ! i = gh_order ?g" using nth_map [OF i', of gh_order] unfolding orders .
    note g = nth_mem [OF i'] this [symmetric]
    have at: "pg_orders (w_store w1) (or_id (ods ! i)) = Some (gh_stored ?g)"
      "stepped jsonb (gh_steps ?g) (gh_stored ?g)" "mset (lines_of (gh_taken ?g)) \<subseteq># mset (or_lines (gh_order ?g))"
      using bspec [OF ghosts(2) g(1)] unfolding g(2) by blast+
    have "left_behind (ods ! i) (gh_stored ?g) (?gone ! i) (?held ! i)"
      using coherent_left_behind [OF bspec [OF coh g(1)] at(2,3)] unfolding g(2) by (simp only: nth_map [OF i'])
    then show ?thesis using all [of "or_id (ods ! i)"] at(1) by (auto split: if_splits)
  qed
  moreover have "pg_orders (w_store w3) x = pg_orders (w_store w) x" if x: "x \<notin> or_id ` set ods" for x
  proof -
    have "pg_orders (w_store w1) x = pg_orders (w_store w) x"
      using out x unfolding saga.seen_def [OF sg] by simp
    then show ?thesis using all [of x] others x by (auto split: option.splits)
  qed
  ultimately show ?thesis
    using w3(1) len by (intro exI [of _ n] exI [of _ w3] exI [of _ ?gone] exI [of _ ?held]) simp
qed

text \<open>The two orders of the demonstration, killed when the first has reserved its line and the second has
  recorded its own.\<close>

definition demo_killed :: "redis_mem production_world" where
  "demo_killed = snd (interleave [0, 0, 0, 1, 1, 1, 1, 1] (demo_sagas, demo_pool))"

definition demo_next :: "redis_mem production_world" where
  "demo_next = demo_pool\<lparr>co_redis := co_redis demo_killed, w_store := w_store demo_killed, co_ticks := co_ticks demo_killed\<rparr>"

lemma demo_killed_ticks: "co_ticks demo_killed \<le> 30"
  by code_simp

theorem crash_at_any_await_witness:
  "\<exists>n w3 gone held.
     recoverStuckOrders (SagaOrchestrator (server_client mem_commands) (PgOrderStore Some (\<lambda>j. j))
       (InMemoryEventBus app_handler) demo_env) demo_next = (Inr n, w3) \<and>
     repr (env_now demo_env (co_ticks w3)) (debit demo_levels (concat gone)) (pledge Map.empty (concat held))
       (mem_kv (co_redis w3)) \<and>
     (\<exists>od. pg_orders (w_store w3) ''o1'' = Some od \<and> isTerminalStatus (or_status od))"
proof -
  have new: "\<forall>od \<in> set [demo_order, demo_order2]. or_status od = CREATED \<and> or_history od = []"
    by (simp add: demo_order_def demo_order2_def)
  have ids: "or_id demo_order = ''o1''" "or_id demo_order2 = ''o2''" by (simp_all add: demo_order_def demo_order2_def)
  have others: "\<forall>x od. x \<notin> or_id ` set [demo_order, demo_order2] \<and> pg_orders (w_store demo_pool) x = Some od \<longrightarrow>
      isTerminalStatus (or_status od) \<and> (\<forall>h \<in> set (or_history od). ev_at h \<le> env_now demo_env (co_ticks demo_pool))"
    by (auto simp: ids demo_pool_def pg_orders_def demo_pg2_def demo_pg_def)
  have js: "jsonb_like (\<lambda>j. j)" by (simp add: jsonb_like_def option.map_ident)
  have run: "interleave [0, 0, 0, 1, 1, 1, 1, 1] (sagas (SagaOrchestrator (server_client mem_commands)
      (PgOrderStore Some (\<lambda>j. j)) (InMemoryEventBus app_handler) demo_env) (map or_id [demo_order, demo_order2]), demo_pool)
      = (fst (interleave [0, 0, 0, 1, 1, 1, 1, 1] (demo_sagas, demo_pool)), demo_killed)"
    unfolding demo_killed_def demo_sagas_def by simp
  have w2: "co_redis demo_next = co_redis demo_killed" "w_store demo_next = w_store demo_killed"
    "co_ticks demo_killed \<le> co_ticks demo_next" "bus_ready (w_bus demo_next)"
    using wired_ready [OF wired_server_bus] by (simp_all add: demo_next_def demo_pool_def demo_production_def)
  have time: "env_now demo_env (co_ticks demo_next + sum_list (map (\<lambda>od. 6 + length (or_lines od)) [demo_order, demo_order2]))
      < env_now demo_env (co_ticks demo_pool) + 900000"
    using demo_killed_ticks by (simp add: demo_env_def demo_next_def demo_order_def demo_order2_def)
  from crash_at_any_await [OF memsrv.redis_server_axioms app.inmem.event_bus_laws_axioms js demo_pool_started new others
      run w2 time] obtain n w3 gone held where
    r: "recoverStuckOrders (SagaOrchestrator (server_client mem_commands) (PgOrderStore Some (\<lambda>j. j))
       (InMemoryEventBus app_handler) demo_env) demo_next = (Inr n, w3)"
      "repr (env_now demo_env (co_ticks w3)) (debit demo_levels (concat gone)) (pledge Map.empty (concat held))
       (mem_kv (co_redis w3))"
    and each: "\<forall>i < length [demo_order, demo_order2]. \<exists>od od'.
        pg_orders (w_store demo_killed) (or_id ([demo_order, demo_order2] ! i)) = Some od \<and>
        pg_orders (w_store w3) (or_id ([demo_order, demo_order2] ! i)) = Some od' \<and>
        (if isTerminalStatus (or_status od) then od' = od else or_status od' = CANCELLED) \<and>
        left_behind ([demo_order, demo_order2] ! i) od (gone ! i) (held ! i)" by (elim exE conjE)
  have "isTerminalStatus CANCELLED" by (simp add: isTerminalStatus_def TERMINAL_ORDER_STATUSES_def)
  with each [THEN spec [of _ 0]] ids have "\<exists>od. pg_orders (w_store w3) ''o1'' = Some od \<and> isTerminalStatus (or_status od)"
    by (auto split: if_splits)
  with r show ?thesis by blast
qed

section \<open>A crash while the lines are committed\<close>

text \<open>One order of two items, one unit each, the last ones.\<close>

definition commit_pg :: pg_db where
  "commit_pg = \<lparr>db_orders = [\<lparr>ow_id = ''a'', ow_customer_id = ''c1'', ow_business_id = None, ow_amount_cents = 500,
       ow_status = CREATED, ow_created_at = 0, ow_updated_at = 0\<rparr>],
     db_lines = map (\<lambda>s. \<lparr>lw_order_id = ''a'', lw_sku = s, lw_warehouse_id = ''w1'', lw_qty = 1\<rparr>) [''s1'', ''s2''],
     db_events = [], db_next_event = 1\<rparr>"

definition commit_world :: "redis_mem production_world" where
  "commit_world = demo_production\<lparr>
     co_redis := \<lparr>rm_store = [(stockKey ''w1'' ''s1'', ''1''), (stockKey ''w1'' ''s2'', ''1'')], rm_expiresAt = []\<rparr>,
     w_store := commit_pg\<rparr>"

text \<open>The world after the first steps of the run, and after the sweep of the process that comes next: the
  status of the order and the two counters.\<close>

definition killed_after :: "nat \<Rightarrow> redis_mem production_world" where
  "killed_after n = snd (interleave (replicate n 0)
     (sagas (production_saga mem_commands Some (\<lambda>j. j) demo_env) [''a''], commit_world))"

definition swept_after :: "nat \<Rightarrow> redis_mem production_world" where
  "swept_after n = snd (recoverStuckOrders (production_saga mem_commands Some (\<lambda>j. j) demo_env) (killed_after n))"

definition commit_shows :: "redis_mem production_world \<Rightarrow> order_status option \<times> string option \<times> string option" where
  "commit_shows w = (map_option or_status (pg_orders (w_store w) ''a''),
     jget (rm_store (co_redis w)) (stockKey ''w1'' ''s1''), jget (rm_store (co_redis w)) (stockKey ''w1'' ''s2''))"


end
