(* ===== verification/Sweep_Threads.thy ===== *)
theory Sweep_Threads
  imports Saga_Threads
begin

text \<open>
  The startup sweep as it runs beside others. Every replica that boots sweeps the same Postgres and
  Redis at the same time: the definitions of the theory Saga, cut at their awaits, and several
  processes over what they share.
\<close>

section \<open>The sweep, cut at its awaits\<close>

definition recover_thread :: "('r, 'st, 'b) deps \<Rightarrow> order \<Rightarrow> ('r, 'st, 'b, order) saga_thread" where
  "recover_thread D od =
     tbind (await (read_state (\<lambda>w. os_deref (dp_store D) od (w_store w)))) (\<lambda>cur.
     if isTerminalStatus (or_status cur) then tret cur
     else
       tbind (compensate_thread D (or_id cur) (reservationsFromHistory cur)
               (has_event ''order.payment_charged'' cur) (has_event ''order.shipping_scheduled'' cur)) (\<lambda>_.
       tbind (await (read_state (\<lambda>w. os_deref (dp_store D) od (w_store w)))) (\<lambda>later.
       tbind (fail_thread D (or_id cur) ''RECOVERED_AFTER_RESTART''
               [(''previousStatus'', JStr (status_text (or_status later)))]) (\<lambda>_.
       await (mustGet D (or_id cur))))))"

definition sweep_thread :: "('r, 'st, 'b) deps \<Rightarrow> ('r, 'st, 'b, nat) saga_thread" where
  "sweep_thread D =
     tbind (await (on_store (os_nonTerminal (dp_store D)))) (\<lambda>stuck.
     tbind (for_each_thread (\<lambda>od. tbind (recover_thread D od) (\<lambda>_. tret ())) stuck) (\<lambda>_.
     tret (length stuck)))"

lemma drive_recover [drive_simps]: "drive (recover_thread D od) = recoverStuck D od"
  by (simp add: recover_thread_def recoverStuck_def drive_simps cong: if_cong)

text \<open>A sweep that is not interleaved is the method.\<close>

lemma drive_sweep: "drive (sweep_thread D) = recoverStuckOrders D"
  by (simp add: sweep_thread_def recoverStuckOrders_def recover_one_def [abs_def] drive_simps)

section \<open>Several processes\<close>

text \<open>
  A cluster is the world of the process that took the last step, for what all share - Redis, the
  database, the clock, the source of identifiers - and the worlds of the processes, for what each
  has of its own. A step of a process is one on its own world with the shared parts of the moment.
\<close>

type_synonym ('r, 'st, 'b) cluster = "('r, 'st, 'b) world \<times> ('r, 'st, 'b) world list"

definition replica_view :: "nat \<Rightarrow> ('r, 'st, 'b) cluster \<Rightarrow> ('r, 'st, 'b) world" where
  "replica_view j s = (snd s ! j)\<lparr>co_redis := co_redis (fst s), co_ticks := co_ticks (fst s),
     co_uuids := co_uuids (fst s), w_store := w_store (fst s)\<rparr>"

definition replica_put :: "nat \<Rightarrow> ('r, 'st, 'b) cluster \<Rightarrow> ('r, 'st, 'b) world \<Rightarrow> ('r, 'st, 'b) cluster" where
  "replica_put j s w = (w, (snd s)[j := w])"

definition at_replica :: "nat \<Rightarrow> ('r, 'st, 'b, 'a) saga_act \<Rightarrow> (('r, 'st, 'b) cluster, 'a) act" where
  "at_replica j m s = (case m (replica_view j s) of (r, w) \<Rightarrow> (r, replica_put j s w))"

primrec replica_thread :: "nat \<Rightarrow> ('r, 'st, 'b, 'a) saga_thread \<Rightarrow> (('r, 'st, 'b) cluster, 'a) thread" where
  "replica_thread j (Finished r) = Finished r"
| "replica_thread j (Await k) = Await (\<lambda>s. map_prod id (replica_put j s)
     ((map_prod (replica_thread j) id \<circ> k) (replica_view j s)))"

named_theorems replica_simps \<open>a thread of a process, step by step\<close>

lemma replica_tret [replica_simps]: "replica_thread j (tret a) = tret a"
  by (simp add: tret_def)

lemma replica_await [replica_simps]: "replica_thread j (await m) = await (at_replica j m)"
  by (simp add: await_def at_replica_def fun_eq_iff split: prod.splits)

lemma replica_tbind [replica_simps]:
  "replica_thread j (tbind p f) = tbind (replica_thread j p) (\<lambda>a. replica_thread j (f a))"
proof (induction p)
  case (Finished r)
  then show ?case by (cases r) simp_all
next
  case (Await k)
  have "replica_thread j (tbind (fst (k w)) f) = tbind (replica_thread j (fst (k w))) (\<lambda>a. replica_thread j (f a))" for w
    using Await [of "k w" "fst (k w)"] by (cases "k w") (metis fst_conv fsts.intros rangeI)
  then show ?case by (simp add: fun_eq_iff map_prod_def split_beta)
qed

lemma replica_for_each [replica_simps]:
  "replica_thread j (for_each_thread f xs) = for_each_thread (\<lambda>x. replica_thread j (f x)) xs"
  by (induction xs) (simp_all add: replica_simps)

lemma replica_if [replica_simps]: "replica_thread j (if b then p else q) = (if b then replica_thread j p else replica_thread j q)"
  by simp

text \<open>What a process does when no other takes a step meanwhile is what it does alone.\<close>

lemma replica_view_put [simp]: "j < length (snd s) \<Longrightarrow> replica_view j (replica_put j s w) = w"
  by (simp add: replica_view_def replica_put_def)

lemma replica_put_put [simp]: "replica_put j (replica_put j s w) w' = replica_put j s w'"
  by (simp add: replica_put_def)

lemma drive_replica:
  "j < length (snd s) \<Longrightarrow> (\<forall>r. p \<noteq> Finished r) \<Longrightarrow> drive (replica_thread j p) s = at_replica j (drive p) s"
proof (induction p arbitrary: s)
  case (Finished r)
  then show ?case by simp
next
  case (Await k)
  let ?w = "replica_view j s"
  obtain q w where q: "k ?w = (q, w)" by (cases "k ?w")
  let ?s = "replica_put j s w"
  have one: "drive (replica_thread j (Await k)) s = drive (replica_thread j q) ?s" by (simp add: q)
  have two: "at_replica j (drive (Await k)) s = (case drive q w of (r, w') \<Rightarrow> (r, replica_put j s w'))"
    by (simp add: at_replica_def drive_Await q del: drive.simps)
  show ?case
  proof (cases q)
    case (Finished r)
    then show ?thesis unfolding one two by simp
  next
    case (Await k')
    have "j < length (snd ?s)" using Await.prems by (simp add: replica_put_def)
    moreover have "q \<in> Basic_BNFs.fsts (k ?w)" by (simp add: q fsts.intros)
    ultimately have "drive (replica_thread j q) ?s = at_replica j (drive q) ?s"
      using Await.IH [OF rangeI] Await by blast
    then show ?thesis unfolding one two using Await.prems(1) by (simp add: at_replica_def)
  qed
qed

end
