(* ===== verification/Sweep_Race.thy ===== *)
theory Sweep_Race
  imports Sweep_Threads Saga_Recovery Pool_Stock Recovery_Race
begin

text \<open>
  Several replicas that boot at the same time and sweep the same Postgres and Redis: for any number
  of them, any number of stuck orders and any schedule, the orders are rolled back as by one sweep.
\<close>

section \<open>The stock under several sweeps\<close>

context stock_redis
begin

text \<open>Releasing a recorded reservation that somebody may have released before.\<close>

lemma release_one_of:
  assumes h: "holding E w L \<rho> (filter P tk) (filter P tk)" and sep: "separate \<rho> tk" and y: "y \<in> set tk"
    and cover: "\<forall>x \<in> set tk. P x \<longrightarrow> L (line_key (fst x)) \<noteq> None"
    and due: "due_after (env_now E (co_ticks w)) (filter P tk)"
    and clock: "clock_ok E" and D: "dp_redis D = R" "dp_env D = E"
  shows "\<exists>w'. release_reservation D (rsv y) w = (Inr (), w') \<and>
     holding E w' L \<rho> (filter (\<lambda>x. P x \<and> fst (snd x) \<noteq> fst (snd y)) tk) (filter (\<lambda>x. P x \<and> fst (snd x) \<noteq> fst (snd y)) tk) \<and>
     same_rest w w' \<and> co_ticks w' = Suc (co_ticks w)"
proof -
  let ?P' = "\<lambda>x. P x \<and> fst (snd x) \<noteq> fst (snd y)"
  have inj: "x = y" if "x \<in> set tk" "fst (snd x) = fst (snd y)" for x
    using sep that y unfolding separate_def by (auto simp: distinct_map inj_on_def)
  have dist: "distinct tk" using sep by (simp add: separate_def distinct_map)
  show ?thesis
  proof (cases "P y")
    case True
    have "mset (filter P tk) = mset (y # filter ?P' tk)"
    proof (rule set_eq_iff_mset_eq_distinct [THEN iffD1])
      show "set (filter P tk) = set (y # filter ?P' tk)" using True y inj by auto
    qed (use dist in simp_all)
    moreover have d: "distinct (ids (filter P tk))" using separate_filter [OF sep] by (simp add: separate_def)
    ultimately have h': "holding E w L \<rho> (y # filter ?P' tk) (y # filter ?P' tk)"
      using h holding_perm by blast
    have "separate \<rho> (y # filter ?P' tk)"
      using separate_filter [OF sep, of ?P'] sep y by (auto simp: separate_def)
    moreover have "due_after (env_now E (co_ticks w)) [y]" using due True y by (auto simp: due_after_def)
    ultimately show ?thesis
      using release_reservation_run [OF h' _ _ _ clock D] cover True y by blast
  next
    case False
    have same: "filter ?P' tk = filter P tk" using False inj by (intro filter_cong) auto
    obtain l i d where yy: "y = (l, i, d)" by (cases y)
    have "i \<notin> set (ids (filter P tk))" using False inj yy by auto
    moreover have "i \<notin> dom \<rho>" using sep y yy by (force simp: separate_def)
    ultimately show ?thesis
      using release_spent_run [OF h _ _ clock D, of i l d] unfolding same unfolding yy by blast
  qed
qed

end

section \<open>What a sweeping process owns\<close>

text \<open>The reservations it has released, the orders it has begun to roll back or has found finished, and
  those of them that it has still to record as cancelled.\<close>

record sweeper =
  sw_released :: "string set"
  sw_touched :: "string set"
  sw_owes :: "string set"

definition new_sweeper :: sweeper where
  "new_sweeper = \<lparr>sw_released = {}, sw_touched = {}, sw_owes = {}\<rparr>"

abbreviation all_of :: "('g \<Rightarrow> 'x set) \<Rightarrow> 'g list \<Rightarrow> 'x set" where
  "all_of f gs \<equiv> \<Union> (f ` set gs)"

lemma all_focus: "i < length gs \<Longrightarrow> \<exists>Z. all_of f gs = f (gs ! i) \<union> Z \<and> (\<forall>g'. all_of f (gs[i := g']) = f g' \<union> Z)"
  by (rule exI [of _ "all_of f (take i gs @ drop (Suc i) gs)"])
     (subst (1) id_take_nth_drop [of i gs], auto simp: upd_conv_take_nth_drop)

lemma all_add: "i < length gs \<Longrightarrow> f g' = f (gs ! i) \<union> A \<Longrightarrow> all_of f (gs[i := g']) = all_of f gs \<union> A"
  using all_focus [of i gs f] by (metis Un_assoc Un_commute)

lemma all_same: "i < length gs \<Longrightarrow> f g' = f (gs ! i) \<Longrightarrow> all_of f (gs[i := g']) = all_of f gs"
  using all_add [of i gs f g' "{}"] by simp

lemma all_less: "i < length gs \<Longrightarrow> f g' = f (gs ! i) - A \<Longrightarrow> all_of f gs - A \<subseteq> all_of f (gs[i := g'])"
proof -
  assume i: "i < length gs" and g': "f g' = f (gs ! i) - A"
  from all_focus [OF i, of f] obtain Z where
    Z: "all_of f gs = f (gs ! i) \<union> Z" "\<forall>g'. all_of f (gs[i := g']) = f g' \<union> Z" by (elim exE conjE)
  have "all_of f (gs[i := g']) = (f (gs ! i) - A) \<union> Z" using Z(2) g' by simp
  with Z(1) show ?thesis by auto
qed

lemma reservations_with_event:
  "ev_type ev \<noteq> ''order.inventory_reserved'' \<Longrightarrow>
     reservationsFromHistory (with_event st ev u od) = reservationsFromHistory od"
proof -
  assume ev: "ev_type ev \<noteq> ''order.inventory_reserved''"
  have "find (\<lambda>h. ev_type h = ''order.inventory_reserved'') (hs @ [ev]) =
      find (\<lambda>h. ev_type h = ''order.inventory_reserved'') hs" for hs
    using ev by (induction hs) simp_all
  then show ?thesis by (simp add: reservationsFromHistory_def with_event_def)
qed

lemma replica_view_simps [simp]:
  "co_redis (replica_view j s) = co_redis (fst s)" "co_ticks (replica_view j s) = co_ticks (fst s)"
  "w_store (replica_view j s) = w_store (fst s)" "w_bus (replica_view j s) = w_bus (snd s ! j)"
  "fst (replica_put j s w) = w" "snd (replica_put j s w) = (snd s)[j := w]"
  by (simp_all add: replica_view_def replica_put_def)

lemma replica_view_same [simp]: "(replica_view j s)\<lparr>w_store := w_store (fst s)\<rparr> = replica_view j s"
  by (simp add: replica_view_def)

section \<open>The invariant of a race\<close>

text \<open>
  \<open>rs\<close> are the orders that were stuck when the sweeps began, with the reservations they record, \<open>old\<close> all
  orders as they were; of the reservations \<open>tk\<close> those that satisfy \<open>P\<close> were pledged then.
\<close>

record race =
  rc_env :: env
  rc_levels :: "string \<Rightarrow> int option"
  rc_others :: kv
  rc_taken :: "taken list"
  rc_pledged :: "taken \<Rightarrow> bool"
  rc_stuck :: "string \<Rightarrow> taken list option"
  rc_old :: "string \<Rightarrow> order option"
  rc_count :: nat
  rc_stop :: nat

definition pledged_now :: "race \<Rightarrow> string set \<Rightarrow> taken list" where
  "pledged_now c released = filter (\<lambda>y. rc_pledged c y \<and> fst (snd y) \<notin> released) (rc_taken c)"

text \<open>The conditions on the start that do not change.\<close>

definition race_setting :: "race \<Rightarrow> bool" where
  "race_setting c \<longleftrightarrow> clock_ok (rc_env c) \<and> separate (rc_others c) (rc_taken c) \<and>
     (\<forall>x \<in> set (rc_taken c). rc_pledged c x \<longrightarrow> rc_levels c (line_key (fst x)) \<noteq> None) \<and>
     due_after (env_now (rc_env c) (rc_stop c)) (filter (rc_pledged c) (rc_taken c)) \<and>
     (\<forall>x tk. rc_stuck c x = Some tk \<longrightarrow> set tk \<subseteq> set (rc_taken c)) \<and>
     (\<forall>x od. rc_stuck c x = None \<and> rc_old c x = Some od \<longrightarrow> isTerminalStatus (or_status od))"

definition raced :: "int \<Rightarrow> string \<Rightarrow> taken list \<Rightarrow> order option \<Rightarrow> sweeper list \<Rightarrow> bool" where
  "raced now x tk cell gs \<longleftrightarrow> (\<exists>od. cell = Some od \<and> (\<forall>h \<in> set (or_history od). ev_at h \<le> now) \<and>
     reservationsFromHistory od = map rsv tk \<and>
     (isTerminalStatus (or_status od) \<longrightarrow> or_status od = CANCELLED \<and> set (ids tk) \<subseteq> all_of sw_released gs) \<and>
     (x \<in> all_of sw_touched gs \<longrightarrow> or_status od = CANCELLED \<or> x \<in> all_of sw_owes gs))"

lemma raced_mono:
  assumes r: "raced now x tk cell gs" and "now \<le> now'" and "all_of sw_released gs \<subseteq> all_of sw_released gs'"
    and "x \<in> all_of sw_touched gs' \<Longrightarrow> x \<in> all_of sw_touched gs" and "x \<in> all_of sw_owes gs \<Longrightarrow> x \<in> all_of sw_owes gs'"
  shows "raced now' x tk cell gs'"
proof -
  from r obtain od where od: "cell = Some od" "\<forall>h \<in> set (or_history od). ev_at h \<le> now" "reservationsFromHistory od = map rsv tk"
    "isTerminalStatus (or_status od) \<longrightarrow> or_status od = CANCELLED \<and> set (ids tk) \<subseteq> all_of sw_released gs"
    "x \<in> all_of sw_touched gs \<longrightarrow> or_status od = CANCELLED \<or> x \<in> all_of sw_owes gs" unfolding raced_def by (elim exE conjE)
  from od(2) assms(2) have "\<forall>h \<in> set (or_history od). ev_at h \<le> now'" by (meson order_trans)
  moreover from od(4) assms(3) have
    "isTerminalStatus (or_status od) \<longrightarrow> or_status od = CANCELLED \<and> set (ids tk) \<subseteq> all_of sw_released gs'" by (meson order_trans)
  moreover from od(5) assms(4,5) have "x \<in> all_of sw_touched gs' \<longrightarrow> or_status od = CANCELLED \<or> x \<in> all_of sw_owes gs'" by meson
  ultimately show ?thesis unfolding raced_def using od(1,3) by blast
qed

text \<open>A process that has recorded the status of a stuck order.\<close>

definition marked :: "order_status \<Rightarrow> string \<Rightarrow> sweeper \<Rightarrow> sweeper" where
  "marked st x g = (if st = COMPENSATING
     then g\<lparr>sw_touched := insert x (sw_touched g), sw_owes := insert x (sw_owes g)\<rparr>
     else g\<lparr>sw_owes := sw_owes g - {x}\<rparr>)"

definition recovered_by :: "string \<Rightarrow> taken list \<Rightarrow> sweeper \<Rightarrow> sweeper" where
  "recovered_by x tk g = g\<lparr>sw_released := sw_released g \<union> set (ids tk), sw_touched := insert x (sw_touched g),
     sw_owes := sw_owes g - {x}\<rparr>"

definition may_mark :: "order_status \<Rightarrow> taken list \<Rightarrow> sweeper \<Rightarrow> bool" where
  "may_mark st tk g \<longleftrightarrow> st = COMPENSATING \<or> st = CANCELLED \<and> set (ids tk) \<subseteq> sw_released g"

lemma raced_marked:
  assumes i: "i < length gs" and may: "may_mark st tk (gs ! i)"
    and h: "\<forall>h \<in> set (or_history od'). ev_at h \<le> now" "reservationsFromHistory od' = map rsv tk" "or_status od' = st"
  shows "raced now x tk (Some od') (gs[i := marked st x (gs ! i)])"
proof -
  let ?g' = "marked st x (gs ! i)"
  have rel: "all_of sw_released (gs[i := ?g']) = all_of sw_released gs" by (rule all_same [OF i]) (simp add: marked_def)
  have mem: "gs ! i \<in> set gs" "?g' \<in> set (gs[i := ?g'])" using i by (simp_all add: set_update_memI)
  show ?thesis
  proof (cases "st = COMPENSATING")
    case True
    then have "x \<in> sw_owes ?g'" by (simp add: marked_def)
    then have "x \<in> all_of sw_owes (gs[i := ?g'])" using mem(2) by blast
    with True h show ?thesis by (auto simp: raced_def isTerminalStatus_def TERMINAL_ORDER_STATUSES_def)
  next
    case False
    with may have "st = CANCELLED" "set (ids tk) \<subseteq> all_of sw_released gs" using mem(1) by (auto simp: may_mark_def)
    with h show ?thesis unfolding raced_def rel by blast
  qed
qed

lemma raced_other:
  assumes i: "i < length gs" and "x \<noteq> y" and "raced now x tk cell gs" and "now \<le> now'"
  shows "raced now' x tk cell (gs[i := marked st y (gs ! i)])"
proof (rule raced_mono [OF assms(3,4)])
  show "all_of sw_released gs \<subseteq> all_of sw_released (gs[i := marked st y (gs ! i)])"
    by (subst all_same [OF i]) (simp_all add: marked_def)
  show "x \<in> all_of sw_touched gs" if "x \<in> all_of sw_touched (gs[i := marked st y (gs ! i)])"
    using that all_add [OF i, of sw_touched "marked st y (gs ! i)" "if st = COMPENSATING then {y} else {}"] assms(2)
    by (auto simp: marked_def split: if_splits)
  show "x \<in> all_of sw_owes (gs[i := marked st y (gs ! i)])" if x: "x \<in> all_of sw_owes gs"
  proof (cases "st = COMPENSATING")
    case True
    then show ?thesis using x all_add [OF i, of sw_owes "marked st y (gs ! i)" "{y}"] by (simp add: marked_def)
  next
    case False
    then have "all_of sw_owes gs - {y} \<subseteq> all_of sw_owes (gs[i := marked st y (gs ! i)])"
      by (intro all_less [OF i]) (simp add: marked_def)
    with x assms(2) show ?thesis by blast
  qed
qed

context saga
begin

definition stock_raced :: "race \<Rightarrow> ('r, 'st, 'b) world \<Rightarrow> sweeper list \<Rightarrow> bool" where
  "stock_raced c w gs \<longleftrightarrow> holding (rc_env c) w (rc_levels c) (rc_others c)
     (pledged_now c (all_of sw_released gs)) (pledged_now c (all_of sw_released gs))"

definition orders_raced :: "race \<Rightarrow> ('r, 'st, 'b) world \<Rightarrow> sweeper list \<Rightarrow> bool" where
  "orders_raced c w gs \<longleftrightarrow> (\<forall>x. case rc_stuck c x of
     None \<Rightarrow> orders_of (w_store w) x = rc_old c x
   | Some tk \<Rightarrow> raced (env_now (rc_env c) (co_ticks w)) x tk (orders_of (w_store w) x) gs)"

definition race_ok :: "race \<Rightarrow> nat \<Rightarrow> ('r, 'st, 'b) cluster \<Rightarrow> sweeper list \<Rightarrow> bool" where
  "race_ok c m s gs \<longleftrightarrow> stock_raced c (fst s) gs \<and> orders_raced c (fst s) gs \<and> ok (w_store (fst s)) \<and>
     length (snd s) = rc_count c \<and> (\<forall>l \<in> set (snd s). bus_ok (w_bus l)) \<and> co_ticks (fst s) + 3 * m \<le> rc_stop c"

lemma race_ok_weaken: "race_ok c (Suc m) s gs \<Longrightarrow> race_ok c m s gs"
  by (simp add: race_ok_def)

text \<open>A step of a process.\<close>

lemma race_step:
  assumes J: "race_ok c (Suc m) s gs" and w': "stock_raced c w' gs'" "orders_raced c w' gs'" "ok (w_store w')" "bus_ok (w_bus w')"
    "co_ticks w' \<le> co_ticks (fst s) + 3"
  shows "race_ok c m (replica_put j s w') gs'"
proof -
  have "\<forall>l \<in> set ((snd s)[j := w']). bus_ok (w_bus l)"
    using J w'(4) unfolding race_ok_def by (auto dest: set_update_subset_insert [THEN subsetD])
  with J w' show ?thesis unfolding race_ok_def by simp
qed

lemma stock_raced_tick:
  "stock_raced c w gs \<Longrightarrow> race_setting c \<Longrightarrow> co_redis w' = co_redis w \<Longrightarrow> co_ticks w \<le> co_ticks w' \<Longrightarrow>
     all_of sw_released gs' = all_of sw_released gs \<Longrightarrow> stock_raced c w' gs'"
  unfolding stock_raced_def race_setting_def by (auto intro: holding_tick)

lemma orders_raced_mono:
  assumes "orders_raced c w gs" and "race_setting c" and "w_store w' = w_store w" and "co_ticks w \<le> co_ticks w'"
    and "all_of sw_released gs \<subseteq> all_of sw_released gs'" and "all_of sw_touched gs' = all_of sw_touched gs"
    and "all_of sw_owes gs' = all_of sw_owes gs"
  shows "orders_raced c w' gs'"
  unfolding orders_raced_def assms(3)
proof
  fix x
  have le: "env_now (rc_env c) (co_ticks w) \<le> env_now (rc_env c) (co_ticks w')"
    using assms(2,4) by (simp add: race_setting_def clock_le)
  have x: "case rc_stuck c x of None \<Rightarrow> orders_of (w_store w) x = rc_old c x
   | Some tk \<Rightarrow> raced (env_now (rc_env c) (co_ticks w)) x tk (orders_of (w_store w) x) gs"
    using assms(1) unfolding orders_raced_def by blast
  show "case rc_stuck c x of None \<Rightarrow> orders_of (w_store w) x = rc_old c x
   | Some tk \<Rightarrow> raced (env_now (rc_env c) (co_ticks w')) x tk (orders_of (w_store w) x) gs'"
  proof (cases "rc_stuck c x")
    case (Some tk)
    with x have "raced (env_now (rc_env c) (co_ticks w)) x tk (orders_of (w_store w) x) gs" by simp
    from raced_mono [OF this le assms(5)] assms(6,7) show ?thesis by (simp add: Some)
  qed (use x in simp)
qed

text \<open>A step that leaves the stock and the orders alone.\<close>

lemma race_quiet:
  assumes set: "race_setting c" and J: "race_ok c (Suc m) s gs"
    and w': "co_redis w' = co_redis (fst s)" "w_store w' = w_store (fst s)" "bus_ok (w_bus w')"
      "co_ticks (fst s) \<le> co_ticks w'" "co_ticks w' \<le> co_ticks (fst s) + 3"
  shows "race_ok c m (replica_put j s w') gs"
proof (rule race_step [OF J])
  have st: "stock_raced c (fst s) gs" and od: "orders_raced c (fst s) gs" using J by (simp_all add: race_ok_def)
  show "stock_raced c w' gs" by (rule stock_raced_tick [OF st set w'(1,4) refl])
  show "orders_raced c w' gs" by (rule orders_raced_mono [OF od set w'(2,4) order_refl refl refl])
qed (use J w' in \<open>simp_all add: race_ok_def\<close>)

lemma race_record:
  assumes set: "race_setting c" and J: "race_ok c (Suc m) s gs" and i: "i < length gs" and j: "j < rc_count c"
    and x: "rc_stuck c x = Some tk" and may: "may_mark st tk (gs ! i)" and ty: "ty \<noteq> ''order.inventory_reserved''"
  shows "\<exists>s'. at_replica j (record_step (SagaOrchestrator R S B (rc_env c)) x st ty det) s = (Inr (), s') \<and>
     race_ok c m s' (gs[i := marked st x (gs ! i)])"
proof -
  let ?w = "replica_view j s" and ?E = "rc_env c" and ?gs = "gs[i := marked st x (gs ! i)]"
  let ?a = "env_now ?E (co_ticks (fst s))" and ?n = "env_now ?E (Suc (co_ticks (fst s)))"
  let ?ev = "\<lparr>ev_type = ty, ev_at = ?a, ev_detail = Some (JObj det)\<rparr>"
  from J have st: "stock_raced c (fst s) gs" and od: "orders_raced c (fst s) gs" and okw: "ok (w_store (fst s))"
    and len: "length (snd s) = rc_count c" and bus: "\<forall>l \<in> set (snd s). bus_ok (w_bus l)"
    by (simp_all add: race_ok_def)
  have "raced ?a x tk (orders_of (w_store (fst s)) x) gs" using od x unfolding orders_raced_def by (metis option.simps(5))
  then obtain o1 where o1: "orders_of (w_store (fst s)) x = Some o1" "\<forall>h \<in> set (or_history o1). ev_at h \<le> ?a"
    "reservationsFromHistory o1 = map rsv tk" unfolding raced_def by (elim exE conjE)
  from update_law [OF okw _ o1(1), of ?ev st ?n] id_law [OF okw o1(1)] o1(2) obtain st' u where
    up: "os_updateStatus S x st ?ev ?n (w_store (fst s)) = (Inr (), st')" "ok st'"
      "orders_of st' = (orders_of (w_store (fst s)))(x \<mapsto> with_event st (kept_event kept ?ev) u o1)" by auto
  let ?o2 = "with_event st (kept_event kept ?ev) u o1" and ?w' = "?w\<lparr>co_ticks := Suc (Suc (co_ticks (fst s))), w_store := st'\<rparr>"
  have run: "record_step (SagaOrchestrator R S B ?E) x st ty det ?w = (Inr (), ?w')"
    unfolding record_step_def bind_date_now using up(1) by (simp add: on_store_def zoom_apply)
  have le: "?a \<le> env_now ?E (co_ticks ?w')" using set by (simp add: race_setting_def clock_le)
  have "race_ok c m (replica_put j s ?w') ?gs"
  proof (rule race_step [OF J])
    have "all_of sw_released ?gs = all_of sw_released gs" by (rule all_same [OF i]) (simp add: marked_def)
    then show "stock_raced c ?w' ?gs" by (intro stock_raced_tick [OF st set]) simp_all
    show "orders_raced c ?w' ?gs"
      unfolding orders_raced_def
    proof
      fix y
      have y: "case rc_stuck c y of None \<Rightarrow> orders_of (w_store (fst s)) y = rc_old c y
       | Some tk \<Rightarrow> raced ?a y tk (orders_of (w_store (fst s)) y) gs" using od unfolding orders_raced_def by blast
      show "case rc_stuck c y of None \<Rightarrow> orders_of (w_store ?w') y = rc_old c y
       | Some tk \<Rightarrow> raced (env_now ?E (co_ticks ?w')) y tk (orders_of (w_store ?w') y) ?gs"
      proof (cases "y = x")
        case True
        have "\<forall>h \<in> set (or_history ?o2). ev_at h \<le> env_now ?E (co_ticks ?w')"
          using o1(2) le by (auto simp: with_event_def kept_event_def)
        moreover have "reservationsFromHistory ?o2 = map rsv tk"
          using o1(3) ty by (simp add: reservations_with_event kept_event_def)
        ultimately have "raced (env_now ?E (co_ticks ?w')) x tk (Some ?o2) ?gs"
          by (intro raced_marked [OF i may]) (simp_all add: with_event_def)
        with True x up(3) show ?thesis by simp
      next
        case False
        then have same: "orders_of (w_store ?w') y = orders_of (w_store (fst s)) y" using up(3) by simp
        show ?thesis
        proof (cases "rc_stuck c y")
          case (Some tk')
          with y have "raced ?a y tk' (orders_of (w_store (fst s)) y) gs" by simp
          from raced_other [OF i False this le] show ?thesis unfolding Some same by simp
        qed (use y same in simp)
      qed
    qed
    show "bus_ok (w_bus ?w')" using bus j len by simp
  qed (use up(2) in simp_all)
  moreover have "at_replica j (record_step (SagaOrchestrator R S B ?E) x st ty det) s = (Inr (), replica_put j s ?w')"
    by (simp add: at_replica_def run)
  ultimately show ?thesis by blast
qed

lemma race_release:
  assumes set: "race_setting c" and J: "race_ok c (Suc m) s gs" and i: "i < length gs" and j: "j < rc_count c"
    and y: "y \<in> set (rc_taken c)"
  shows "\<exists>s'. at_replica j (release_reservation (SagaOrchestrator R S B (rc_env c)) (rsv y)) s = (Inr (), s') \<and>
     race_ok c m s' (gs[i := (gs ! i)\<lparr>sw_released := insert (fst (snd y)) (sw_released (gs ! i))\<rparr>])"
proof -
  let ?w = "replica_view j s" and ?E = "rc_env c" and ?D = "SagaOrchestrator R S B (rc_env c)"
  let ?g' = "(gs ! i)\<lparr>sw_released := insert (fst (snd y)) (sw_released (gs ! i))\<rparr>"
  let ?P = "\<lambda>z. rc_pledged c z \<and> fst (snd z) \<notin> all_of sw_released gs"
  from J have st: "stock_raced c (fst s) gs" and od: "orders_raced c (fst s) gs"
    and len: "length (snd s) = rc_count c" and bus: "\<forall>l \<in> set (snd s). bus_ok (w_bus l)" and stop: "co_ticks (fst s) \<le> rc_stop c"
    by (simp_all add: race_ok_def)
  have clock: "clock_ok ?E" and sep: "separate (rc_others c) (rc_taken c)"
    and cover: "\<forall>x \<in> set (rc_taken c). ?P x \<longrightarrow> rc_levels c (line_key (fst x)) \<noteq> None"
    and due: "due_after (env_now ?E (rc_stop c)) (filter (rc_pledged c) (rc_taken c))"
    using set by (simp_all add: race_setting_def)
  have h: "holding ?E ?w (rc_levels c) (rc_others c) (filter ?P (rc_taken c)) (filter ?P (rc_taken c))"
    using st unfolding stock_raced_def pledged_now_def holding_def by simp
  have "due_after (env_now ?E (rc_stop c)) (filter ?P (rc_taken c))" using due unfolding due_after_def by auto
  then have due': "due_after (env_now ?E (co_ticks ?w)) (filter ?P (rc_taken c))"
    by (rule due_after_earlier) (simp add: clock_le [OF clock] stop)
  from release_one_of [OF h sep y cover due' clock, of ?D] obtain w' where
    w': "release_reservation ?D (rsv y) ?w = (Inr (), w')"
      "holding ?E w' (rc_levels c) (rc_others c) (filter (\<lambda>x. ?P x \<and> fst (snd x) \<noteq> fst (snd y)) (rc_taken c))
         (filter (\<lambda>x. ?P x \<and> fst (snd x) \<noteq> fst (snd y)) (rc_taken c))" "same_rest ?w w'" "co_ticks w' = Suc (co_ticks ?w)"
    by auto
  have all: "all_of sw_released (gs[i := ?g']) = all_of sw_released gs \<union> {fst (snd y)}"
    by (rule all_add [OF i]) simp
  have "race_ok c m (replica_put j s w') (gs[i := ?g'])"
  proof (rule race_step [OF J])
    have "pledged_now c (all_of sw_released (gs[i := ?g'])) = filter (\<lambda>x. ?P x \<and> fst (snd x) \<noteq> fst (snd y)) (rc_taken c)"
      unfolding all pledged_now_def by (rule filter_cong) auto
    with w'(2) show "stock_raced c w' (gs[i := ?g'])" unfolding stock_raced_def by simp
    have "all_of sw_touched (gs[i := ?g']) = all_of sw_touched gs" "all_of sw_owes (gs[i := ?g']) = all_of sw_owes gs"
      by (rule all_same [OF i], simp)+
    with all show "orders_raced c w' (gs[i := ?g'])"
      by (intro orders_raced_mono [OF od set]) (use w'(3,4) in \<open>auto simp: same_rest_def\<close>)
    show "ok (w_store w')" using J w'(3) by (simp add: race_ok_def same_rest_def)
    show "bus_ok (w_bus w')" using w'(3) bus j len by (simp add: same_rest_def)
  qed (simp add: w'(4))
  moreover have "at_replica j (release_reservation ?D (rsv y)) s = (Inr (), replica_put j s w')"
    by (simp add: at_replica_def w'(1))
  ultimately show ?thesis by blast
qed

text \<open>What a sweep is handed by the database: stuck orders of the start, and the others are finished.\<close>

lemma race_snapshot:
  assumes set: "race_setting c" and J: "race_ok c (Suc m) s gs" and i: "i < length gs" and j: "j < rc_count c"
    and n: "card (dom (rc_stuck c)) \<le> n" and fin: "finite (dom (rc_stuck c))"
  shows "\<exists>rs s'. at_replica j (on_store (os_nonTerminal S)) s = (Inr rs, s') \<and>
     race_ok c m s' (gs[i := (gs ! i)\<lparr>sw_touched := sw_touched (gs ! i) \<union> (dom (rc_stuck c) - or_id ` set rs)\<rparr>]) \<and>
     length rs \<le> n \<and> (\<forall>od \<in> set rs. \<not> isTerminalStatus (or_status od) \<and>
       (\<exists>tk. rc_stuck c (or_id od) = Some tk \<and> reservationsFromHistory od = map rsv tk))"
proof -
  let ?w = "replica_view j s"
  from J have st: "stock_raced c (fst s) gs" and od: "orders_raced c (fst s) gs" and okw: "ok (w_store (fst s))"
    and len: "length (snd s) = rc_count c" and bus: "\<forall>l \<in> set (snd s). bus_ok (w_bus l)"
    by (simp_all add: race_ok_def)
  from nonTerminal_law [OF okw] obtain rs where
    rs: "os_nonTerminal S (w_store (fst s)) = (Inr rs, w_store (fst s))" "distinct (map or_id rs)"
      "\<And>od. od \<in> set rs \<longleftrightarrow> orders_of (w_store (fst s)) (or_id od) = Some od \<and> \<not> isTerminalStatus (or_status od)" by blast
  have item: "\<exists>tk. rc_stuck c (or_id o1) = Some tk \<and> reservationsFromHistory o1 = map rsv tk" if "o1 \<in> set rs" for o1
  proof -
    have o1: "orders_of (w_store (fst s)) (or_id o1) = Some o1" "\<not> isTerminalStatus (or_status o1)" using rs(3) that by blast+
    have x: "case rc_stuck c (or_id o1) of None \<Rightarrow> orders_of (w_store (fst s)) (or_id o1) = rc_old c (or_id o1)
     | Some tk \<Rightarrow> raced (env_now (rc_env c) (co_ticks (fst s))) (or_id o1) tk (orders_of (w_store (fst s)) (or_id o1)) gs"
      using od unfolding orders_raced_def by blast
    show ?thesis
    proof (cases "rc_stuck c (or_id o1)")
      case None
      with x o1(1) have "rc_old c (or_id o1) = Some o1" by simp
      with None set o1(2) show ?thesis unfolding race_setting_def by blast
    next
      case (Some tk)
      with x o1(1) show ?thesis by (auto simp: raced_def)
    qed
  qed
  have "or_id ` set rs \<subseteq> dom (rc_stuck c)" using item by auto
  then have "card (set (map or_id rs)) \<le> card (dom (rc_stuck c))" using fin by (simp add: card_mono)
  then have "length rs \<le> n" using distinct_card [OF rs(2)] n by simp
  let ?T = "dom (rc_stuck c) - or_id ` set rs" and ?g' = "(gs ! i)\<lparr>sw_touched := sw_touched (gs ! i) \<union> (dom (rc_stuck c) - or_id ` set rs)\<rparr>"
  have "race_ok c m (replica_put j s ?w) (gs[i := ?g'])"
  proof (rule race_step [OF J])
    have rel: "all_of sw_released (gs[i := ?g']) = all_of sw_released gs" by (rule all_same [OF i]) simp
    have owes: "all_of sw_owes (gs[i := ?g']) = all_of sw_owes gs" by (rule all_same [OF i]) simp
    have touched: "all_of sw_touched (gs[i := ?g']) = all_of sw_touched gs \<union> ?T" by (rule all_add [OF i]) simp
    show "stock_raced c ?w (gs[i := ?g'])" by (rule stock_raced_tick [OF st set _ _ rel]) simp_all
    show "orders_raced c ?w (gs[i := ?g'])"
      unfolding orders_raced_def
    proof
      fix x
      have x: "case rc_stuck c x of None \<Rightarrow> orders_of (w_store (fst s)) x = rc_old c x
       | Some tk \<Rightarrow> raced (env_now (rc_env c) (co_ticks (fst s))) x tk (orders_of (w_store (fst s)) x) gs"
        using od unfolding orders_raced_def by blast
      show "case rc_stuck c x of None \<Rightarrow> orders_of (w_store ?w) x = rc_old c x
       | Some tk \<Rightarrow> raced (env_now (rc_env c) (co_ticks ?w)) x tk (orders_of (w_store ?w) x) (gs[i := ?g'])"
      proof (cases "rc_stuck c x")
        case (Some tk)
        with x obtain o1 where o1: "orders_of (w_store (fst s)) x = Some o1"
          "\<forall>h \<in> set (or_history o1). ev_at h \<le> env_now (rc_env c) (co_ticks (fst s))" "reservationsFromHistory o1 = map rsv tk"
          "isTerminalStatus (or_status o1) \<longrightarrow> or_status o1 = CANCELLED \<and> set (ids tk) \<subseteq> all_of sw_released gs"
          "x \<in> all_of sw_touched gs \<longrightarrow> or_status o1 = CANCELLED \<or> x \<in> all_of sw_owes gs" by (auto simp: raced_def)
        have "or_status o1 = CANCELLED" if "x \<in> ?T"
        proof (rule ccontr)
          assume "or_status o1 \<noteq> CANCELLED"
          then have "o1 \<in> set rs" using rs(3) [of o1] o1(1,4) id_law [OF okw o1(1)] by blast
          then show False using that id_law [OF okw o1(1)] by blast
        qed
        with o1 show ?thesis unfolding Some raced_def rel owes touched by auto
      qed (use x in simp)
    qed
  qed (use okw bus j len in simp_all)
  moreover have "at_replica j (on_store (os_nonTerminal S)) s = (Inr rs, replica_put j s ?w)"
    using rs(1) by (simp add: at_replica_def on_store_def zoom_apply)
  ultimately show ?thesis using item rs(3) \<open>length rs \<le> n\<close> by blast
qed

section \<open>A sweep among others\<close>

lemma safe_quiet:
  assumes set: "race_setting c" and j: "j < rc_count c"
    and a: "\<And>w. bus_ok (w_bus w) \<Longrightarrow> \<exists>x w'. a w = (Inr x, w') \<and> P x \<and> co_redis w' = co_redis w \<and> w_store w' = w_store w \<and>
      bus_ok (w_bus w') \<and> co_ticks w \<le> co_ticks w' \<and> co_ticks w' \<le> co_ticks w + 3"
  shows "safe (race_ok c) 1 (await (at_replica j a)) (\<lambda>r g'. \<exists>x. r = Inr x \<and> P x \<and> g' = g) g"
  unfolding One_nat_def
proof (rule safe_await)
  fix m s gs i
  assume g: "gs ! i = g" and J: "race_ok c (Suc m) s gs"
  have "bus_ok (w_bus (replica_view j s))" using J j by (simp add: race_ok_def)
  from a [OF this] obtain x w' where w': "a (replica_view j s) = (Inr x, w')" "P x" "co_redis w' = co_redis (fst s)"
    "w_store w' = w_store (fst s)" "bus_ok (w_bus w')" "co_ticks (fst s) \<le> co_ticks w'" "co_ticks w' \<le> co_ticks (fst s) + 3"
    by auto
  have "race_ok c m (replica_put j s w') (gs[i := g])"
    using race_quiet [OF set J w'(3-7)] unfolding g [symmetric] list_update_id .
  then show "\<exists>r s' g'. at_replica j a s = (r, s') \<and> race_ok c m s' (gs[i := g']) \<and> (\<exists>x. r = Inr x \<and> P x \<and> g' = g)"
    using w'(1,2) by (intro exI [of _ "Inr x"] exI [of _ "replica_put j s w'"] exI [of _ g]) (simp add: at_replica_def)
qed

lemma safe_mark:
  assumes set: "race_setting c" and j: "j < rc_count c" and x: "rc_stuck c x = Some tk" and may: "may_mark st tk g"
    and ty: "ty \<noteq> ''order.inventory_reserved''"
  shows "safe (race_ok c) 3 (replica_thread j (transition_thread (SagaOrchestrator R S B (rc_env c)) x st ty det))
     (\<lambda>r g'. \<exists>y. r = Inr y \<and> g' = marked st x g) g"
proof -
  let ?D = "SagaOrchestrator R S B (rc_env c)" and ?Q = "\<lambda>r g'. \<exists>y::unit. r = Inr y \<and> g' = marked st x g"
  have publish: "safe (race_ok c) 1 (await (at_replica j (publish_saga ?D x ty det))) (\<lambda>r g'. \<exists>y. r = Inr y \<and> True \<and> g' = g1) g1" for g1
  proof (rule safe_quiet [OF set j])
    fix w :: "('r, 'st, 'b) world" assume "bus_ok (w_bus w)"
    from publish_saga_run [OF this, of "rc_env c" x ty det st] show "\<exists>y w'. publish_saga ?D x ty det w = (Inr y, w') \<and> True \<and>
        co_redis w' = co_redis w \<and> w_store w' = w_store w \<and> bus_ok (w_bus w') \<and> co_ticks w \<le> co_ticks w' \<and> co_ticks w' \<le> co_ticks w + 3"
      by (auto simp: keeps_def)
  qed
  have count: "safe (race_ok c) 1 (await (at_replica j (count_outcome st))) (\<lambda>r g'. \<exists>y. r = Inr y \<and> True \<and> g' = g1) g1" for g1
    by (rule safe_quiet [OF set j]) (simp add: count_outcome_def on_metrics_def)
  have "safe (race_ok c) (Suc (1 + 1)) (replica_thread j (transition_thread ?D x st ty det)) ?Q g"
    unfolding transition_thread_def replica_simps
  proof (rule safe_step [where P = "\<lambda>_ g'. g' = marked st x g"])
    fix m s gs i
    assume i: "i < length gs" and g: "gs ! i = g" and J: "race_ok c (Suc m) s gs"
    from race_record [OF set J i j x may [folded g] ty] show "\<exists>y s' g'. at_replica j (record_step ?D x st ty det) s = (Inr y, s') \<and>
        race_ok c m s' (gs[i := g']) \<and> g' = marked st x g" unfolding g by blast
  next
    fix g1 assume g1: "g1 = marked st x g"
    show "safe (race_ok c) (1 + 1) (tbind (await (at_replica j (publish_saga ?D x ty det)))
        (\<lambda>_. if st = CONFIRMED \<or> st = CANCELLED then await (at_replica j (count_outcome st)) else tret ())) ?Q g1"
    proof (rule safe_then [OF publish])
      fix y g2 assume "True \<and> g2 = g1"
      then show "safe (race_ok c) 1 (if st = CONFIRMED \<or> st = CANCELLED then await (at_replica j (count_outcome st)) else tret ()) ?Q g2"
        using safe_mono [OF count [of g1], of 1 ?Q] g1 by auto
    qed
  qed
  then show ?thesis by (simp add: numeral_3_eq_3)
qed

lemma safe_releases:
  assumes set: "race_setting c" and j: "j < rc_count c" and tk: "set tk \<subseteq> set (rc_taken c)"
  shows "safe (race_ok c) (length tk)
     (for_each_thread (\<lambda>r. await (at_replica j (release_reservation (SagaOrchestrator R S B (rc_env c)) r))) (map rsv tk))
     (\<lambda>r g'. \<exists>y. r = Inr y \<and> g' = g\<lparr>sw_released := sw_released g \<union> set (ids tk)\<rparr>) g"
proof -
  let ?D = "SagaOrchestrator R S B (rc_env c)"
  let ?I = "\<lambda>xs g'. \<exists>tk1 tk2. tk = tk1 @ tk2 \<and> xs = map rsv tk2 \<and> g' = g\<lparr>sw_released := sw_released g \<union> set (ids tk1)\<rparr>"
  have "safe (race_ok c) (Suc 0 * length (map rsv tk)) (for_each_thread (\<lambda>r. await (at_replica j (release_reservation ?D r))) (map rsv tk))
      (\<lambda>r g'. r = Inr () \<and> ?I [] g') g"
  proof (rule safe_for_each)
    fix x xs g1 assume "?I (x # xs) g1"
    then obtain tk1 y tk2 where t: "tk = tk1 @ y # tk2" "x = rsv y" "xs = map rsv tk2"
      and g1: "g1 = g\<lparr>sw_released := sw_released g \<union> set (ids tk1)\<rparr>" by (auto simp: Cons_eq_map_conv)
    show "safe (race_ok c) (Suc 0) (await (at_replica j (release_reservation ?D x))) (\<lambda>r g'. r = Inr () \<and> ?I xs g') g1"
    proof (rule safe_await)
      fix m s gs i
      assume i: "i < length gs" and g: "gs ! i = g1" and J: "race_ok c (Suc m) s gs"
      have "y \<in> set (rc_taken c)" using tk t(1) by auto
      from race_release [OF set J i j this] obtain s' where s': "at_replica j (release_reservation ?D (rsv y)) s = (Inr (), s')"
        "race_ok c m s' (gs[i := g1\<lparr>sw_released := insert (fst (snd y)) (sw_released g1)\<rparr>])" unfolding g by blast
      have "?I xs (g1\<lparr>sw_released := insert (fst (snd y)) (sw_released g1)\<rparr>)"
        using t g1 by (intro exI [of _ "tk1 @ [y]"] exI [of _ tk2]) simp
      then show "\<exists>r s' g'. at_replica j (release_reservation ?D x) s = (r, s') \<and> race_ok c m s' (gs[i := g']) \<and> r = Inr () \<and> ?I xs g'"
        using s' unfolding t(2) by blast
    qed
  next
    show "?I (map rsv tk) g" by (intro exI [of _ "[]"] exI [of _ tk]) simp
  qed
  then show ?thesis by (auto elim: safe_mono)
qed

text \<open>On a store whose \<open>nonTerminal\<close> hands out copies, as Postgres does.\<close>

lemma safe_recover:
  assumes set: "race_setting c" and j: "j < rc_count c" and x: "rc_stuck c (or_id od) = Some tk"
    and rec: "reservationsFromHistory od = map rsv tk" and unfin: "\<not> isTerminalStatus (or_status od)"
    and copy: "\<And>od st. os_deref S od st = od"
  shows "safe (race_ok c) (11 + length tk) (replica_thread j (recover_thread (SagaOrchestrator R S B (rc_env c)) od))
     (\<lambda>r g'. \<exists>y. r = Inr y \<and> g' = recovered_by (or_id od) tk g) g"
proof -
  let ?D = "SagaOrchestrator R S B (rc_env c)" and ?x = "or_id od"
  have tk: "set tk \<subseteq> set (rc_taken c)" using set x unfolding race_setting_def by blast
  have read: "safe (race_ok c) 1 (await (at_replica j (read_state (\<lambda>w. os_deref S od (w_store w)))))
      (\<lambda>r g'. \<exists>y. r = Inr y \<and> y = od \<and> g' = g1) g1" for g1
    by (rule safe_quiet [OF set j]) (simp add: read_state_def copy)
  have ship: "safe (race_ok c) 1 (if b then tbind (await (at_replica j (on_shipping (cancel ?x)))) (\<lambda>_. tret ()) else tret ())
      (\<lambda>r g'. \<exists>y. r = Inr y \<and> g' = g1) g1" for b g1
  proof (cases b)
    case True
    have "safe (race_ok c) (1 + 0) (tbind (await (at_replica j (on_shipping (cancel ?x)))) (\<lambda>_. tret ())) (\<lambda>r g'. \<exists>y. r = Inr y \<and> g' = g1) g1"
      by (rule safe_then [OF safe_quiet [OF set j, where P = "\<lambda>_. True"]]) (simp_all add: on_shipping_def split_beta)
    with True show ?thesis by simp
  qed simp
  have pay: "safe (race_ok c) 1 (if b then tbind (await (at_replica j (on_payments (refund ?x)))) (\<lambda>_. tret ()) else tret ())
      (\<lambda>r g'. \<exists>y. r = Inr y \<and> g' = g1) g1" for b g1
  proof (cases b)
    case True
    have "safe (race_ok c) (1 + 0) (tbind (await (at_replica j (on_payments (refund ?x)))) (\<lambda>_. tret ())) (\<lambda>r g'. \<exists>y. r = Inr y \<and> g' = g1) g1"
      by (rule safe_then [OF safe_quiet [OF set j, where P = "\<lambda>_. True"]]) (simp_all add: on_payments_def split_beta)
    with True show ?thesis by simp
  qed simp
  let ?g1 = "marked COMPENSATING ?x g" and ?g2 = "(marked COMPENSATING ?x g)\<lparr>sw_released := sw_released g \<union> set (ids tk)\<rparr>"
  have comp: "safe (race_ok c) (3 + (1 + (1 + length tk))) (replica_thread j (compensate_thread ?D ?x (reservationsFromHistory od) b b'))
      (\<lambda>r g'. \<exists>y. r = Inr y \<and> g' = ?g2) g" for b b'
    unfolding compensate_thread_def replica_simps rec
  proof (rule safe_then [OF safe_mark [OF set j x]])
    fix g' assume g': "g' = ?g1"
    have rel: "safe (race_ok c) (length tk) (for_each_thread (\<lambda>r. await (at_replica j (release_reservation ?D r))) (map rsv tk))
        (\<lambda>r g'. \<exists>y. r = Inr y \<and> g' = ?g2) ?g1"
      using safe_releases [OF set j tk, of ?g1] by (simp add: marked_def)
    show "safe (race_ok c) (1 + (1 + length tk)) (tbind (if b' then tbind (await (at_replica j (on_shipping (cancel ?x)))) (\<lambda>_. tret ()) else tret ())
       (\<lambda>_. tbind (if b then tbind (await (at_replica j (on_payments (refund ?x)))) (\<lambda>_. tret ()) else tret ())
       (\<lambda>_. for_each_thread (\<lambda>r. await (at_replica j (release_reservation ?D r))) (map rsv tk))))
       (\<lambda>r g'. \<exists>y. r = Inr y \<and> g' = ?g2) g'"
      unfolding g' by (rule safe_then [OF ship], rule safe_then [OF pay], hypsubst, rule rel)
  qed (simp_all add: may_mark_def)
  have fail: "safe (race_ok c) 3 (replica_thread j (fail_thread ?D ?x reason det))
      (\<lambda>r g'. \<exists>y. r = Inr y \<and> g' = recovered_by ?x tk g) ?g2" for reason det
    unfolding fail_thread_def
    by (rule safe_mono [OF safe_mark [OF set j x]]) (auto simp: may_mark_def marked_def recovered_by_def)
  have get: "safe (race_ok c) 1 (await (at_replica j (mustGet ?D ?x))) (\<lambda>r g'. \<exists>y. r = Inr y \<and> g' = g1) g1" for g1
    unfolding One_nat_def
  proof (rule safe_await)
    fix m s gs i
    assume i: "i < length gs" and g: "gs ! i = g1" and J: "race_ok c (Suc m) s gs"
    have "raced (env_now (rc_env c) (co_ticks (fst s))) ?x tk (orders_of (w_store (fst s)) ?x) gs"
      using J x unfolding race_ok_def orders_raced_def by (metis option.simps(5))
    then obtain o1 where o1: "orders_of (w_store (fst s)) ?x = Some o1"
      "\<forall>h \<in> set (or_history o1). ev_at h \<le> env_now (rc_env c) (co_ticks (fst s))" unfolding raced_def by blast
    then have "tracks (rc_env c) (replica_view j s) ?x o1" using J j by (simp add: tracks_def race_ok_def)
    then have "at_replica j (mustGet ?D ?x) s = (Inr o1, replica_put j s (replica_view j s))"
      by (simp add: at_replica_def mustGet_run)
    moreover have "race_ok c m (replica_put j s (replica_view j s)) (gs[i := g1])"
      unfolding g [symmetric] list_update_id by (rule race_quiet [OF set J]) (use J j in \<open>simp_all add: race_ok_def\<close>)
    ultimately show "\<exists>r s' g'. at_replica j (mustGet ?D ?x) s = (r, s') \<and> race_ok c m s' (gs[i := g']) \<and> (\<exists>y. r = Inr y \<and> g' = g1)"
      by blast
  qed
  have "safe (race_ok c) (1 + (3 + (1 + (1 + length tk)) + (1 + (3 + 1)))) (replica_thread j (recover_thread ?D od))
      (\<lambda>r g'. \<exists>y. r = Inr y \<and> g' = recovered_by ?x tk g) g"
    unfolding recover_thread_def replica_simps SagaOrchestrator_fields
  proof (rule safe_then [OF read])
    fix cur g1 assume cur: "cur = od \<and> g1 = g"
    show "safe (race_ok c) (3 + (1 + (1 + length tk)) + (1 + (3 + 1)))
      (if isTerminalStatus (or_status cur) then tret cur
       else tbind (replica_thread j (compensate_thread ?D (or_id cur) (reservationsFromHistory cur)
           (has_event ''order.payment_charged'' cur) (has_event ''order.shipping_scheduled'' cur)))
         (\<lambda>_. tbind (await (at_replica j (read_state (\<lambda>w. os_deref S od (w_store w)))))
         (\<lambda>later. tbind (replica_thread j (fail_thread ?D (or_id cur) ''RECOVERED_AFTER_RESTART''
           [(''previousStatus'', JStr (status_text (or_status later)))]))
         (\<lambda>_. await (at_replica j (mustGet ?D (or_id cur)))))))
      (\<lambda>r g'. \<exists>y. r = Inr y \<and> g' = recovered_by ?x tk g) g1"
      unfolding cur [THEN conjunct1] cur [THEN conjunct2] if_not_P [OF unfin]
      by (rule safe_then [OF comp], hypsubst, rule safe_then [OF read], elim conjE, hypsubst,
          rule safe_then [OF fail], hypsubst, rule get)
  qed
  then show ?thesis by (rule safe_mono) simp_all
qed

lemma safe_sweep:
  assumes set: "race_setting c" and j: "j < rc_count c" and copy: "\<And>od st. os_deref S od st = od"
    and n: "card (dom (rc_stuck c)) \<le> n" and fin: "finite (dom (rc_stuck c))"
    and K: "\<And>x tk. rc_stuck c x = Some tk \<Longrightarrow> length tk \<le> K" and owes: "sw_owes g = {}"
  shows "safe (race_ok c) (1 + n * (11 + K)) (replica_thread j (sweep_thread (SagaOrchestrator R S B (rc_env c))))
     (\<lambda>r g'. (\<exists>k. r = Inr k) \<and> dom (rc_stuck c) \<subseteq> sw_touched g' \<and> sw_owes g' = {}) g"
proof -
  let ?D = "SagaOrchestrator R S B (rc_env c)" and ?dom = "dom (rc_stuck c)"
  let ?item = "\<lambda>od. \<not> isTerminalStatus (or_status od) \<and> (\<exists>tk. rc_stuck c (or_id od) = Some tk \<and> reservationsFromHistory od = map rsv tk)"
  let ?I = "\<lambda>rs (g :: sweeper). (\<forall>od \<in> set rs. ?item od) \<and> ?dom \<subseteq> sw_touched g \<union> or_id ` set rs \<and> sw_owes g = {}"
  let ?one = "\<lambda>od. tbind (replica_thread j (recover_thread ?D od)) (\<lambda>_. tret ())"
  have one: "safe (race_ok c) (11 + K) (?one od) (\<lambda>r g'. r = Inr () \<and> ?I rs g') g1" if I: "?I (od # rs) g1" for od rs g1
  proof -
    from I obtain tk where tk: "rc_stuck c (or_id od) = Some tk" "reservationsFromHistory od = map rsv tk"
      and unfin: "\<not> isTerminalStatus (or_status od)" by auto
    have "?I rs (recovered_by (or_id od) tk g1)" using I by (auto simp: recovered_by_def)
    then have "safe (race_ok c) (11 + length tk + 0) (?one od) (\<lambda>r g'. r = Inr () \<and> ?I rs g') g1"
      by (intro safe_then [OF safe_recover [OF set j tk unfin copy]]) simp
    then show ?thesis by (rule safe_mono) (use K [OF tk(1)] in simp_all)
  qed
  have loop: "safe (race_ok c) ((11 + K) * length rs) (for_each_thread ?one rs) (\<lambda>r g'. \<exists>x. r = Inr x \<and> ?I [] g') g1"
    if I: "?I rs g1" for rs g1
  proof -
    have "safe (race_ok c) ((11 + K) * length rs) (for_each_thread ?one rs) (\<lambda>r g'. r = Inr () \<and> ?I [] g') g1"
    proof (rule safe_for_each [where I = ?I])
      fix x xs and g2 :: sweeper assume "?I (x # xs) g2"
      then show "safe (race_ok c) (11 + K) (?one x) (\<lambda>r g'. r = Inr () \<and> ?I xs g') g2" by (rule one)
    qed (rule I)
    then show ?thesis by (rule safe_mono) auto
  qed
  have "safe (race_ok c) (Suc (n * (11 + K))) (replica_thread j (sweep_thread ?D))
     (\<lambda>r g'. (\<exists>k. r = Inr k) \<and> ?dom \<subseteq> sw_touched g' \<and> sw_owes g' = {}) g"
    unfolding sweep_thread_def replica_simps SagaOrchestrator_fields
  proof (rule safe_step [where P = "\<lambda>rs g'. length rs \<le> n \<and> ?I rs g'"])
    fix m s gs i
    assume i: "i < length gs" and g: "gs ! i = g" and J: "race_ok c (Suc m) s gs"
    from race_snapshot [OF set J i j n fin] obtain rs s' where s': "at_replica j (on_store (os_nonTerminal S)) s = (Inr rs, s')"
      "race_ok c m s' (gs[i := g\<lparr>sw_touched := sw_touched g \<union> (?dom - or_id ` set rs)\<rparr>])" "length rs \<le> n" "\<forall>od \<in> set rs. ?item od"
      unfolding g by blast
    moreover have "?I rs (g\<lparr>sw_touched := sw_touched g \<union> (?dom - or_id ` set rs)\<rparr>)" using s'(4) owes by auto
    ultimately show "\<exists>rs s' g'. at_replica j (on_store (os_nonTerminal S)) s = (Inr rs, s') \<and> race_ok c m s' (gs[i := g']) \<and>
        length rs \<le> n \<and> ?I rs g'" by blast
  next
    fix rs g1 assume I: "length rs \<le> n \<and> ?I rs g1"
    then have "(11 + K) * length rs + 0 \<le> n * (11 + K)" by (simp add: mult.commute mult_le_mono)
    then show "safe (race_ok c) (n * (11 + K)) (tbind (for_each_thread ?one rs) (\<lambda>_. tret (length rs)))
        (\<lambda>r g'. (\<exists>k. r = Inr k) \<and> ?dom \<subseteq> sw_touched g' \<and> sw_owes g' = {}) g1"
      by (rule safe_then_le [OF loop, where m = 0, rotated 2]) (use I in auto)
  qed
  then show ?thesis by simp
qed

section \<open>All sweeps\<close>

lemma races_end:
  assumes set: "race_setting c" and copy: "\<And>od st. os_deref S od st = od" and some: "0 < rc_count c"
    and n: "card (dom (rc_stuck c)) \<le> n" and fin: "finite (dom (rc_stuck c))"
    and K: "\<And>x tk. rc_stuck c x = Some tk \<Longrightarrow> length tk \<le> K"
    and J: "race_ok c (rc_count c * (1 + n * (11 + K))) s (replicate (rc_count c) new_sweeper)"
    and run: "interleave is (map (\<lambda>j. replica_thread j (sweep_thread (SagaOrchestrator R S B (rc_env c)))) [0..<rc_count c], s) = (ps, s')"
    and often: "\<forall>j < rc_count c. 1 + n * (11 + K) \<le> count_list is j"
  shows "length ps = rc_count c \<and> (\<forall>p \<in> set ps. \<exists>k. p = Finished (Inr k)) \<and>
     (\<forall>x. case rc_stuck c x of
        None \<Rightarrow> orders_of (w_store (fst s')) x = rc_old c x
      | Some tk \<Rightarrow> \<exists>od. orders_of (w_store (fst s')) x = Some od \<and> or_status od = CANCELLED) \<and>
     (\<exists>R. (\<forall>x tk. rc_stuck c x = Some tk \<longrightarrow> set (ids tk) \<subseteq> R) \<and>
        holding (rc_env c) (fst s') (rc_levels c) (rc_others c) (pledged_now c R) (pledged_now c R))"
proof -
  let ?N = "1 + n * (11 + K)" and ?k = "rc_count c"
  let ?Q = "\<lambda>r g. (\<exists>k :: nat. r = Inr k) \<and> dom (rc_stuck c) \<subseteq> sw_touched g \<and> sw_owes g = {}"
  let ?c = "(map (\<lambda>j. replica_thread j (sweep_thread (SagaOrchestrator R S B (rc_env c)))) [0..<?k], s)"
  have "pool_safe (race_ok c) (\<lambda>_. ?Q) (replicate ?k ?N) ?c (replicate ?k new_sweeper)"
    unfolding pool_safe_def
  proof (intro conjI allI impI)
    fix i assume "i < length (fst ?c)"
    then have i: "i < ?k" by simp
    have "safe (race_ok c) ?N (replica_thread i (sweep_thread (SagaOrchestrator R S B (rc_env c)))) ?Q new_sweeper"
      by (rule safe_sweep [OF set i copy n fin K]) (simp_all add: new_sweeper_def)
    then show "safe (race_ok c) (replicate ?k ?N ! i) (fst ?c ! i) ?Q (replicate ?k new_sweeper ! i)" using i by simp
  qed (use J in \<open>simp_all add: sum_list_replicate\<close>)
  from interleave_safe [OF this race_ok_weaken, of "is"] obtain gs ns where
    safe: "pool_safe (race_ok c) (\<lambda>_. ?Q) ns (interleave is ?c) gs"
    and le: "\<forall>i < length (fst ?c). ns ! i \<le> replicate ?k ?N ! i - count_list is i" by blast
  have len: "length ps = ?k" using interleave_length [of "is" ?c] unfolding run by simp
  have lg: "length gs = ?k" and J': "race_ok c (sum_list ns) s' gs" using safe len run by (simp_all add: pool_safe_def)
  have fin: "\<exists>r. ps ! i = Finished r \<and> ?Q r (gs ! i)" if i: "i < ?k" for i
  proof -
    have "ns ! i = 0" using le i often by (auto dest: spec [of _ i])
    with pool_safe_finished [OF safe, of i] i len run show ?thesis by simp
  qed
  have ended: "\<forall>p \<in> set ps. \<exists>k. p = Finished (Inr k)" using fin len by (metis in_set_conv_nth)
  have "sw_owes g = {}" if "g \<in> set gs" for g using that fin lg by (metis in_set_conv_nth)
  then have owes: "all_of sw_owes gs = {}" by simp
  have touched: "dom (rc_stuck c) \<subseteq> all_of sw_touched gs"
  proof -
    have "gs ! 0 \<in> set gs" using some lg by simp
    moreover have "dom (rc_stuck c) \<subseteq> sw_touched (gs ! 0)" using fin [OF some] by blast
    ultimately show ?thesis by blast
  qed
  have each: "\<exists>od. orders_of (w_store (fst s')) x = Some od \<and> or_status od = CANCELLED \<and> set (ids tk) \<subseteq> all_of sw_released gs"
    if "rc_stuck c x = Some tk" for x tk
  proof -
    have "raced (env_now (rc_env c) (co_ticks (fst s'))) x tk (orders_of (w_store (fst s')) x) gs"
      using J' that unfolding race_ok_def orders_raced_def by (metis option.simps(5))
    moreover have "x \<in> all_of sw_touched gs" using that touched by blast
    moreover have "isTerminalStatus CANCELLED" by (simp add: isTerminalStatus_def TERMINAL_ORDER_STATUSES_def)
    ultimately show ?thesis unfolding raced_def owes by auto
  qed
  have "case rc_stuck c x of
        None \<Rightarrow> orders_of (w_store (fst s')) x = rc_old c x
      | Some tk \<Rightarrow> \<exists>od. orders_of (w_store (fst s')) x = Some od \<and> or_status od = CANCELLED" for x
  proof (cases "rc_stuck c x")
    case None
    have "orders_raced c (fst s') gs" using J' by (simp add: race_ok_def)
    with None show ?thesis unfolding orders_raced_def by (auto dest: spec [of _ x])
  next
    case (Some tk)
    with each [OF Some] show ?thesis by auto
  qed
  moreover have "holding (rc_env c) (fst s') (rc_levels c) (rc_others c) (pledged_now c (all_of sw_released gs))
      (pledged_now c (all_of sw_released gs))" using J' by (simp add: race_ok_def stock_raced_def)
  ultimately show ?thesis using len ended each by blast
qed

end

section \<open>Replicas that boot together\<close>

text \<open>How many steps of its own a sweep takes at most.\<close>

definition sweep_steps :: "order list \<Rightarrow> nat" where
  "sweep_steps ods = 1 + length ods * (11 + sum_list (map (\<lambda>od. length (reservationsFromHistory od)) ods))"

text \<open>
  The orders \<open>ods\<close> are those that crashed processes have left unfinished, with the reservations \<open>tk\<close> in
  their histories, of which those that satisfy \<open>P\<close> are still pledged.
\<close>

definition sweeps_started ::
  "('d \<Rightarrow> kv) \<Rightarrow> ('d \<Rightarrow> bool) \<Rightarrow> ('b \<Rightarrow> bool) \<Rightarrow> (string \<Rightarrow> string option) \<Rightarrow> env \<Rightarrow>
     (string \<Rightarrow> int option) \<Rightarrow> kv \<Rightarrow> order list \<Rightarrow> (order \<Rightarrow> taken list) \<Rightarrow> (taken \<Rightarrow> bool) \<Rightarrow> ('d, pg_db, 'b) cluster \<Rightarrow> bool" where
  "sweeps_started kv_of invar bus_ok uuid_in E L \<rho> ods tk P s \<longleftrightarrow>
     (let w = fst s; all = concat (map tk ods); held = filter P all in
     invar (co_redis w) \<and> repr (env_now E (co_ticks w)) (debit L (lines_of held)) (pledge \<rho> held) (kv_of (co_redis w)) \<and>
     pg_ok uuid_in (w_store w) \<and> (\<forall>l \<in> set (snd s). bus_ok (w_bus l)) \<and> distinct (map or_id ods) \<and>
     (\<forall>od. od \<in> set ods \<longleftrightarrow> pg_orders (w_store w) (or_id od) = Some od \<and> \<not> isTerminalStatus (or_status od)) \<and>
     (\<forall>od \<in> set ods. reservationsFromHistory od = map rsv (tk od) \<and>
        (\<forall>h \<in> set (or_history od). ev_at h \<le> env_now E (co_ticks w))) \<and>
     separate \<rho> all \<and> (\<forall>x \<in> set held. L (line_key (fst x)) \<noteq> None) \<and> clock_ok E \<and>
     due_after (env_now E (co_ticks w + 3 * (length (snd s) * sweep_steps ods))) held)"

text \<open>C25: The race that the comment on \<open>recoverStuckOrders\<close> calls harmless is harmless to the stock and to the
  orders. Any number of replicas sweep the same Postgres and Redis at the same time; however their
  steps are interleaved, once each has taken its steps all sweeps have succeeded, every order that was
  unfinished is cancelled, no other order has changed, and the stock and the reservations are what
  they were before these orders: no unit has been given back twice.\<close>

theorem racing_sweeps_are_harmless:
  fixes C :: "'d redis_commands" and s s' :: "('d, pg_db, 'b) cluster"
  assumes "redis_server C kv_of invar" and "event_bus_laws B bus_ok"
    and started: "sweeps_started kv_of invar bus_ok uuid_in E L \<rho> ods tk P s" and some: "snd s \<noteq> []"
    and run: "interleave is (map (\<lambda>j. replica_thread j (sweep_thread
       (SagaOrchestrator (server_client C) (PgOrderStore uuid_in jsonb) B E))) [0..<length (snd s)], s) = (ps, s')"
    and often: "\<forall>j < length (snd s). sweep_steps ods \<le> count_list is j"
  shows "length ps = length (snd s) \<and> (\<forall>p \<in> set ps. \<exists>n. p = Finished (Inr n)) \<and>
     (\<forall>od \<in> set ods. \<exists>od'. pg_orders (w_store (fst s')) (or_id od) = Some od' \<and> or_status od' = CANCELLED) \<and>
     (\<forall>x. x \<notin> or_id ` set ods \<longrightarrow> pg_orders (w_store (fst s')) x = pg_orders (w_store (fst s)) x) \<and>
     repr (env_now E (co_ticks (fst s'))) L \<rho> (kv_of (co_redis (fst s')))"
proof -
  note sg = deployment_is_saga [OF assms(1,2), of uuid_in jsonb]
  note sr = redis_server.server_is_stock_redis [OF assms(1)]
  let ?w = "fst s" and ?all = "concat (map tk ods)" and ?k = "length (snd s)"
  let ?K = "sum_list (map (\<lambda>od. length (reservationsFromHistory od)) ods)" and ?n = "length ods"
  let ?stuck = "map_of (map (\<lambda>od. (or_id od, tk od)) ods)"
  define c where "c = \<lparr>rc_env = E, rc_levels = L, rc_others = \<rho>, rc_taken = ?all, rc_pledged = P, rc_stuck = ?stuck,
     rc_old = pg_orders (w_store ?w), rc_count = ?k, rc_stop = co_ticks ?w + 3 * (?k * sweep_steps ods)\<rparr>"
  have st: "invar (co_redis ?w)" "repr (env_now E (co_ticks ?w)) (debit L (lines_of (filter P ?all))) (pledge \<rho> (filter P ?all)) (kv_of (co_redis ?w))"
    "pg_ok uuid_in (w_store ?w)" "\<forall>l \<in> set (snd s). bus_ok (w_bus l)" "distinct (map or_id ods)"
    "\<forall>od. od \<in> set ods \<longleftrightarrow> pg_orders (w_store ?w) (or_id od) = Some od \<and> \<not> isTerminalStatus (or_status od)"
    "\<forall>od \<in> set ods. reservationsFromHistory od = map rsv (tk od) \<and> (\<forall>h \<in> set (or_history od). ev_at h \<le> env_now E (co_ticks ?w))"
    "separate \<rho> ?all" "\<forall>x \<in> set (filter P ?all). L (line_key (fst x)) \<noteq> None" "clock_ok E"
    "due_after (env_now E (co_ticks ?w + 3 * (?k * sweep_steps ods))) (filter P ?all)"
    using started unfolding sweeps_started_def Let_def by blast+
  have dom: "dom ?stuck = or_id ` set ods" by (force simp: dom_map_of_conv_image_fst)
  have stuckI: "?stuck (or_id od) = Some (tk od)" if "od \<in> set ods" for od
    using st(5) that by (intro map_of_is_SomeI) (auto simp: comp_def)
  have stuckD: "\<exists>od \<in> set ods. or_id od = x \<and> tk od = y" if "?stuck x = Some y" for x y
    using map_of_SomeD [OF that] by auto
  have setting: "race_setting c"
    unfolding race_setting_def c_def race.simps
  proof (intro conjI allI impI)
    fix x y assume "?stuck x = Some y"
    from stuckD [OF this] show "set y \<subseteq> set ?all" by auto
  next
    fix x od assume x: "?stuck x = None \<and> pg_orders (w_store ?w) x = Some od"
    then have "or_id od = x" using st(3) by (auto dest: pg.id_law)
    moreover have "od \<notin> set ods" using x stuckI calculation by auto
    ultimately show "isTerminalStatus (or_status od)" using st(6) x by blast
  next
    show "\<forall>x \<in> set ?all. P x \<longrightarrow> L (line_key (fst x)) \<noteq> None"
    proof (intro ballI impI)
      fix x assume "x \<in> set ?all" "P x"
      then have "x \<in> set (filter P ?all)" by simp
      with st(9) show "L (line_key (fst x)) \<noteq> None" by blast
    qed
  qed (fact st)+
  have zero: "all_of sw_released (replicate ?k new_sweeper) = {}" "all_of sw_touched (replicate ?k new_sweeper) = {}"
    by (auto simp: new_sweeper_def)
  have all: "pledged_now c {} = filter P ?all" by (simp add: pledged_now_def c_def)
  have count: "rc_count c = ?k" "rc_stop c = co_ticks ?w + 3 * (?k * sweep_steps ods)" by (simp_all add: c_def)
  have hold: "stock_redis.holding kv_of invar (rc_env c) ?w (rc_levels c) (rc_others c)
      (pledged_now c (all_of sw_released (replicate (rc_count c) new_sweeper)))
      (pledged_now c (all_of sw_released (replicate (rc_count c) new_sweeper)))"
    unfolding count(1) zero(1) all stock_redis.holding_def [OF sr] using st(1,2,9) by (simp add: c_def)
  have J: "saga.race_ok kv_of invar pg_orders (pg_ok uuid_in) bus_ok c (rc_count c * (1 + ?n * (11 + ?K))) s
      (replicate (rc_count c) new_sweeper)"
    unfolding saga.race_ok_def [OF sg] saga.stock_raced_def [OF sg] saga.orders_raced_def [OF sg]
  proof (intro conjI allI)
    fix x
    show "case rc_stuck c x of None \<Rightarrow> pg_orders (w_store ?w) x = rc_old c x
      | Some tk \<Rightarrow> raced (env_now (rc_env c) (co_ticks ?w)) x tk (pg_orders (w_store ?w) x) (replicate (rc_count c) new_sweeper)"
    proof (cases "rc_stuck c x")
      case None
      then show ?thesis by (simp add: c_def)
    next
      case (Some y)
      then obtain od where od: "od \<in> set ods" "or_id od = x" "tk od = y" using stuckD by (auto simp: c_def)
      have "pg_orders (w_store ?w) x = Some od" "\<not> isTerminalStatus (or_status od)" using st(6) od(1,2) by blast+
      moreover have "reservationsFromHistory od = map rsv y" "\<forall>h \<in> set (or_history od). ev_at h \<le> env_now E (co_ticks ?w)"
        using st(7) od(1,3) by auto
      ultimately show ?thesis using Some zero some by (simp add: raced_def c_def new_sweeper_def)
    qed
  qed (use hold st(3,4) in \<open>simp_all add: count sweep_steps_def\<close>)
  have fin: "finite (dom (rc_stuck c))" and card: "card (dom (rc_stuck c)) \<le> ?n"
    using dom card_image_le [of "set ods" or_id] card_length [of ods] by (simp_all add: c_def)
  have K: "length y \<le> ?K" if y: "rc_stuck c x = Some y" for x y
  proof -
    obtain od where od: "od \<in> set ods" "tk od = y" using stuckD y by (auto simp: c_def)
    then have "length (reservationsFromHistory od) = length y" using st(7) by simp
    moreover have "length (reservationsFromHistory od) \<le> ?K" using od(1) by (intro member_le_sum_list) auto
    ultimately show ?thesis by simp
  qed
  have copy: "os_deref (PgOrderStore uuid_in jsonb) od st = od" for od st by (simp add: PgOrderStore_def)
  have run': "interleave is (map (\<lambda>j. replica_thread j (sweep_thread (SagaOrchestrator (server_client C) (PgOrderStore uuid_in jsonb) B (rc_env c))))
      [0..<rc_count c], s) = (ps, s')" using run by (simp add: c_def)
  have "\<forall>j < rc_count c. 1 + ?n * (11 + ?K) \<le> count_list is j" "0 < rc_count c"
    using often some by (simp_all add: c_def sweep_steps_def)
  then have ends: "length ps = rc_count c \<and> (\<forall>p \<in> set ps. \<exists>k. p = Finished (Inr k)) \<and>
      (\<forall>x. case rc_stuck c x of
        None \<Rightarrow> pg_orders (w_store (fst s')) x = rc_old c x
      | Some tk \<Rightarrow> \<exists>od. pg_orders (w_store (fst s')) x = Some od \<and> or_status od = CANCELLED) \<and>
      (\<exists>R. (\<forall>x y. rc_stuck c x = Some y \<longrightarrow> set (ids y) \<subseteq> R) \<and>
         stock_redis.holding kv_of invar (rc_env c) (fst s') (rc_levels c) (rc_others c) (pledged_now c R) (pledged_now c R))"
    using K by (intro saga.races_end [OF sg setting copy _ card fin _ J run']) blast+
  have c: "rc_count c = ?k" "rc_stuck c = ?stuck" "rc_old c = pg_orders (w_store ?w)" "rc_env c = E" "rc_levels c = L" "rc_others c = \<rho>"
    by (simp_all add: c_def)
  from ends [unfolded c] obtain R where
    e: "length ps = ?k" "\<forall>p \<in> set ps. \<exists>k. p = Finished (Inr k)"
      "\<forall>x. case ?stuck x of
        None \<Rightarrow> pg_orders (w_store (fst s')) x = pg_orders (w_store ?w) x
      | Some tk \<Rightarrow> \<exists>od. pg_orders (w_store (fst s')) x = Some od \<and> or_status od = CANCELLED"
      "\<forall>x y. ?stuck x = Some y \<longrightarrow> set (ids y) \<subseteq> R"
      "stock_redis.holding kv_of invar E (fst s') L \<rho> (pledged_now c R) (pledged_now c R)"
    by blast
  have "fst (snd y) \<in> R" if y: "y \<in> set ?all" for y
  proof -
    obtain od where "od \<in> set ods" "y \<in> set (tk od)" using y by auto
    with e(4) stuckI show ?thesis by fastforce
  qed
  then have "pledged_now c R = []" unfolding pledged_now_def c_def race.simps by (auto simp: filter_empty_conv)
  then have "repr (env_now E (co_ticks (fst s'))) L \<rho> (kv_of (co_redis (fst s')))"
    using e(5) unfolding stock_redis.holding_def [OF sr] by simp
  moreover have "\<exists>od'. pg_orders (w_store (fst s')) (or_id od) = Some od' \<and> or_status od' = CANCELLED" if "od \<in> set ods" for od
    using e(3) [THEN spec, of "or_id od"] stuckI [OF that] by simp
  moreover have "pg_orders (w_store (fst s')) x = pg_orders (w_store ?w) x" if "x \<notin> or_id ` set ods" for x
  proof -
    have "?stuck x = None" using that dom by blast
    with e(3) [THEN spec, of x] show ?thesis by simp
  qed
  ultimately show ?thesis using e(1,2) by blast
qed

text \<open>Two replicas that find the order of the demonstration, charged and with two units reserved.\<close>

definition demo_cluster :: "(redis_mem, pg_db, app_bus) cluster" where
  "demo_cluster = (demo_replica, [demo_replica, demo_replica])"

definition demo_sweeps :: "((redis_mem, pg_db, app_bus) cluster, nat) thread list" where
  "demo_sweeps = map (\<lambda>j. replica_thread j (sweep_thread (SagaOrchestrator (server_client mem_commands)
     (PgOrderStore Some (\<lambda>j. j)) (InMemoryEventBus app_handler) demo_env))) [0..<2]"

lemma demo_crashed_reservations: "reservationsFromHistory demo_crashed = map rsv demo_taken"
  by (simp add: reservationsFromHistory_def demo_crashed_def json_field.simps del: list.map)

lemma demo_cluster_started:
  "sweeps_started mem_kv mem_ok bus_ready Some demo_env demo_levels Map.empty [demo_crashed] (\<lambda>_. demo_taken) (\<lambda>_. True) demo_cluster"
proof -
  have r: "mem_ok (co_redis demo_replica)"
    "repr (env_now demo_env (co_ticks demo_replica)) (debit demo_levels (lines_of demo_taken)) (pledge Map.empty demo_taken)
       (mem_kv (co_redis demo_replica))"
    using demo_crashed_stock
    by (simp_all add: shows_stock_def demo_replica_def demo_production_def)
       (simp add: demo_crashed_world_def demo_world_with_def)
  have b: "bus_ready (w_bus demo_replica)" "w_store demo_replica = demo_charged_pg" "co_ticks demo_replica = 0"
    using wired_ready [OF wired_server_bus] by (simp_all add: demo_replica_def demo_production_def)
  have id: "or_id demo_crashed = ''o1''" "\<not> isTerminalStatus (or_status demo_crashed)"
    by (simp_all add: demo_crashed_def demo_order_def isTerminalStatus_def TERMINAL_ORDER_STATUSES_def)
  have only: "x = ''o1''" if "pg_orders demo_charged_pg x = Some od" for x od
    using that by (auto simp: pg_orders_def demo_charged_pg_def demo_pg_def split: if_splits)
  have stuck: "od \<in> set [demo_crashed] \<longleftrightarrow> pg_orders demo_charged_pg (or_id od) = Some od \<and> \<not> isTerminalStatus (or_status od)" for od
    using only [of "or_id od" od] demo_charged_pg_order id by auto
  have past: "\<forall>h \<in> set (or_history demo_crashed). ev_at h \<le> env_now demo_env (co_ticks demo_replica)"
    by (simp add: demo_crashed_def demo_env_def)
  have rest: "separate Map.empty demo_taken" "\<forall>x \<in> set demo_taken. demo_levels (line_key (fst x)) \<noteq> None"
    by (simp_all add: separate_def demo_taken_def demo_levels_def demo_line_def line_key_def)
  have due: "due_after (env_now demo_env (co_ticks demo_replica + 3 * (length [demo_replica, demo_replica] * sweep_steps [demo_crashed]))) demo_taken"
    by (simp add: sweep_steps_def demo_crashed_reservations b(3)) (simp add: due_after_def demo_taken_def demo_env_def)
  show ?thesis
    unfolding sweeps_started_def Let_def demo_cluster_def fst_conv snd_conv b(2)
    using r b(1) demo_charged_pg_ok stuck past rest due demo_crashed_reservations demo_env_ok(1) by simp
qed

theorem racing_sweeps_are_harmless_witness:
  "\<exists>od'. pg_orders (w_store (fst (snd (interleave (concat (replicate 13 [0, 1])) (demo_sweeps, demo_cluster))))) ''o1'' = Some od' \<and>
     or_status od' = CANCELLED \<and>
     repr (env_now demo_env (co_ticks (fst (snd (interleave (concat (replicate 13 [0, 1])) (demo_sweeps, demo_cluster)))))) demo_levels
       Map.empty (mem_kv (co_redis (fst (snd (interleave (concat (replicate 13 [0, 1])) (demo_sweeps, demo_cluster))))))"
proof -
  let ?c = "interleave (concat (replicate 13 [0, 1])) (demo_sweeps, demo_cluster)"
  have two: "snd demo_cluster \<noteq> []" "length (snd demo_cluster) = 2" by (simp_all add: demo_cluster_def)
  have often: "\<forall>j < length (snd demo_cluster). sweep_steps [demo_crashed] \<le> count_list (concat (replicate 13 [0, 1])) j"
  proof (intro allI impI)
    fix j assume "j < length (snd demo_cluster)"
    then have j: "j = 0 \<or> j = 1" unfolding two(2) by auto
    have "count_list (concat (replicate n [0, 1])) j = n" for n using j by (induction n) auto
    then show "sweep_steps [demo_crashed] \<le> count_list (concat (replicate 13 [0, 1])) j"
      by (simp add: sweep_steps_def demo_crashed_reservations demo_taken_def)
  qed
  have run: "interleave (concat (replicate 13 [0, 1])) (map (\<lambda>j. replica_thread j (sweep_thread
       (SagaOrchestrator (server_client mem_commands) (PgOrderStore Some (\<lambda>j. j)) (InMemoryEventBus app_handler) demo_env)))
       [0..<length (snd demo_cluster)], demo_cluster) = (fst ?c, snd ?c)"
    unfolding two(2) demo_sweeps_def by simp
  have "or_id demo_crashed = ''o1''" by (simp add: demo_crashed_def demo_order_def)
  with racing_sweeps_are_harmless [OF memsrv.redis_server_axioms app.inmem.event_bus_laws_axioms demo_cluster_started two(1) run often]
  show ?thesis by auto
qed

end
