(* ===== verification/Raw_Client.thy ===== *)
theory Raw_Client
  imports Resp_Client Lua_Scripts
begin

text \<open>
  \<open>RawRespClient\<close> of \<open>src/lib/redisClient.ts\<close> as a whole: its connection, from \<open>connect\<close> to
  \<open>close\<close>, and its five methods as an implementation of \<open>RedisLike\<close>. Over any server that speaks RESP2
  the client answers as the server itself does, so everything proved of a stock store holds of the
  driver the server uses by default. The adapter for \<open>ioredis\<close> is at the end.
\<close>

section \<open>The connection\<close>

text \<open>
  \<open>ready\<close> is a promise: pending until the socket connects or fails, and settled for ever after. The
  calls of \<open>send\<close> that await it are resumed in their order.
\<close>

datatype ready_promise = Connecting | Connected | Refused js_error

record 'p raw_conn =
  rw_ready :: ready_promise
  rw_waiting :: "('p \<times> string list) list"
  rw_client :: "'p resp_client"

definition new_RawRespClient :: "'p raw_conn" where
  "new_RawRespClient = \<lparr>rw_ready = Connecting, rw_waiting = [], rw_client = new_resp_client\<rparr>"

datatype 'p conn_event =
    Send 'p "string list"
  | On_connect
  | On_data string
  | On_error js_error
  | On_close

definition rejected :: "js_error \<Rightarrow> ('p \<times> string list) list \<Rightarrow> ('p \<times> (js_error + resp_value)) list" where
  "rejected err ws = map (\<lambda>w. (fst w, Inl err)) ws"

definition conn_step :: "nat \<Rightarrow> 'p conn_event \<Rightarrow> 'p raw_conn \<Rightarrow> 'p raw_conn option" where
  "conn_step N e c =
     (case e of
        Send p args \<Rightarrow>
          (case rw_ready c of
             Connecting \<Rightarrow> Some (c\<lparr>rw_waiting := rw_waiting c @ [(p, args)]\<rparr>)
           | Connected \<Rightarrow> Some (c\<lparr>rw_client := send_command p args (rw_client c)\<rparr>)
           | Refused err \<Rightarrow>
               Some (c\<lparr>rw_client := (rw_client c)\<lparr>rs_settled := rs_settled (rw_client c) @ [(p, Inl err)]\<rparr>\<rparr>))
      | On_connect \<Rightarrow>
          (case rw_ready c of
             Connecting \<Rightarrow> Some \<lparr>rw_ready = Connected, rw_waiting = [],
                rw_client = fold (\<lambda>(p, args). send_command p args) (rw_waiting c) (rw_client c)\<rparr>
           | _ \<Rightarrow> Some c)
      | On_data chunk \<Rightarrow> map_option (\<lambda>s. c\<lparr>rw_client := s\<rparr>) (onData N chunk (rw_client c))
      | On_error err \<Rightarrow>
          (let s = failAllPending err (rw_client c) in
           case rw_ready c of
             Connecting \<Rightarrow> Some \<lparr>rw_ready = Refused err, rw_waiting = [],
                rw_client = s\<lparr>rs_settled := rs_settled s @ rejected err (rw_waiting c)\<rparr>\<rparr>
           | _ \<Rightarrow> Some (c\<lparr>rw_client := s\<rparr>))
      | On_close \<Rightarrow> Some (c\<lparr>rw_client := failAllPending (DriverError ''Redis connection closed'') (rw_client c)\<rparr>))"

fun conn_run :: "nat \<Rightarrow> 'p conn_event list \<Rightarrow> 'p raw_conn \<Rightarrow> 'p raw_conn option" where
  "conn_run N [] c = Some c"
| "conn_run N (e # es) c = (case conn_step N e c of None \<Rightarrow> None | Some c' \<Rightarrow> conn_run N es c')"

text \<open>Once it is connected, the client is the one of the theory Resp_Client.\<close>

definition as_conn_event :: "'p socket_event \<Rightarrow> 'p conn_event" where
  "as_conn_event x = (case x of Call p args \<Rightarrow> Send p args | Chunk b \<Rightarrow> On_data b | Broken err \<Rightarrow> On_error err)"

lemma socket_step:
  "rw_ready c = Connected \<Longrightarrow>
     conn_step N (as_conn_event x) c = map_option (\<lambda>s. c\<lparr>rw_client := s\<rparr>) (resp_step N x (rw_client c))"
  by (cases x) (simp_all add: conn_step_def as_conn_event_def Let_def)

lemma socket_run:
  "rw_ready c = Connected \<Longrightarrow>
     conn_run N (map as_conn_event xs) c = map_option (\<lambda>s. c\<lparr>rw_client := s\<rparr>) (resp_run N xs (rw_client c))"
proof (induction xs arbitrary: c)
  case Nil
  then show ?case by simp
next
  case (Cons x xs)
  show ?case
  proof (cases "resp_step N x (rw_client c)")
    case None
    then show ?thesis by (simp add: socket_step [OF Cons.prems])
  next
    case (Some s)
    have "conn_run N (map as_conn_event xs) (c\<lparr>rw_client := s\<rparr>) =
        map_option (\<lambda>s'. c\<lparr>rw_client := s'\<rparr>) (resp_run N xs s)"
      using Cons.IH [of "c\<lparr>rw_client := s\<rparr>"] Cons.prems by simp
    then show ?thesis using Some by (simp add: socket_step [OF Cons.prems])
  qed
qed

text \<open>Calls made before the socket has connected are written, in their order, when it connects.\<close>

lemma waiting_run:
  "rw_ready c = Connecting \<Longrightarrow>
     conn_run N (map (\<lambda>(p, args). Send p args) cs) c = Some (c\<lparr>rw_waiting := rw_waiting c @ cs\<rparr>)"
proof (induction cs arbitrary: c)
  case (Cons x cs)
  obtain p args where x: "x = (p, args)" by (cases x)
  have "conn_run N (map (\<lambda>(p, args). Send p args) cs) (c\<lparr>rw_waiting := rw_waiting c @ [x]\<rparr>) =
      Some (c\<lparr>rw_waiting := rw_waiting c @ x # cs\<rparr>)"
    using Cons.IH [of "c\<lparr>rw_waiting := rw_waiting c @ [x]\<rparr>"] Cons.prems by simp
  then show ?case using Cons.prems by (simp add: x conn_step_def)
qed simp

lemma conn_run_append:
  "conn_run N (es @ fs) c = (case conn_run N es c of None \<Rightarrow> None | Some c' \<Rightarrow> conn_run N fs c')"
  by (induction es arbitrary: c) (simp_all split: option.splits)

lemma fold_send:
  "resp_run N (map (\<lambda>(p, args). Call p args) cs) s = Some (fold (\<lambda>(p, args). send_command p args) cs s)"
  by (induction cs arbitrary: s) (simp_all split: prod.splits)

lemma resp_run_append:
  "resp_run N (es @ fs) s = (case resp_run N es s of None \<Rightarrow> None | Some s' \<Rightarrow> resp_run N fs s')"
  by (induction es arbitrary: s) (simp_all split: option.splits)

lemma early_calls:
  "conn_run N (map (\<lambda>(p, args). Send p args) cs @ On_connect # map as_conn_event xs) new_RawRespClient =
     map_option (\<lambda>s. \<lparr>rw_ready = Connected, rw_waiting = [], rw_client = s\<rparr>)
       (resp_run N (map (\<lambda>(p, args). Call p args) cs @ xs) new_resp_client)"
proof -
  let ?c = "\<lparr>rw_ready = Connected, rw_waiting = [],
      rw_client = fold (\<lambda>(p, args). send_command p args) cs new_resp_client\<rparr>"
  have "conn_run N (map (\<lambda>(p, args). Send p args) cs @ On_connect # map as_conn_event xs) new_RawRespClient =
      conn_run N (map as_conn_event xs) ?c"
    by (simp add: conn_run_append waiting_run new_RawRespClient_def) (simp add: conn_step_def)
  also have "\<dots> = map_option (\<lambda>s. \<lparr>rw_ready = Connected, rw_waiting = [], rw_client = s\<rparr>)
      (resp_run N xs (rw_client ?c))"
    by (subst socket_run) simp_all
  finally show ?thesis by (simp add: resp_run_append fold_send)
qed

text \<open>A connection that cannot be made rejects every call, those made before and those made after.\<close>

lemma refused_calls:
  "conn_run N (map (\<lambda>(p, args). Send p args) cs @ On_error err # On_close # map (\<lambda>(p, args). Send p args) ds)
     new_RawRespClient =
   Some \<lparr>rw_ready = Refused err, rw_waiting = [],
     rw_client = new_resp_client\<lparr>rs_settled := rejected err (cs @ ds)\<rparr>\<rparr>"
proof -
  have late: "conn_run N (map (\<lambda>(p, args). Send p args) ds)
      \<lparr>rw_ready = Refused err, rw_waiting = [], rw_client = new_resp_client\<lparr>rs_settled := xs\<rparr>\<rparr> =
      Some \<lparr>rw_ready = Refused err, rw_waiting = [], rw_client = new_resp_client\<lparr>rs_settled := xs @ rejected err ds\<rparr>\<rparr>" for xs
    by (induction ds arbitrary: xs)
       (simp_all add: conn_step_def rejected_def split: prod.splits)
  show ?thesis
    using late [of "rejected err cs"]
    by (simp add: conn_run_append waiting_run new_RawRespClient_def)
       (simp add: conn_step_def failAllPending_def new_resp_client_def rejected_def Let_def)
qed

text \<open>C35: A call made after the connection has closed is never answered. The close rejects the calls
  that wait, but \<open>ready\<close> stays resolved: a later call is queued and written to the closed socket, which
  has no more events, so it is neither resolved nor rejected, and everything that awaits it waits for
  ever.\<close>

theorem calls_after_close_never_settle:
  assumes "rw_ready c = Connected"
  shows "\<exists>c'. conn_run N (On_close # map (\<lambda>(p, args). Send p args) cs) c = Some c' \<and>
     rs_pending (rw_client c') = map fst cs \<and>
     rs_settled (rw_client c') = rs_settled (rw_client c) @
       map (\<lambda>p. (p, Inl (DriverError ''Redis connection closed''))) (rs_pending (rw_client c))"
proof -
  have "conn_run N (map (\<lambda>(p, args). Send p args) cs) c1 =
      Some (c1\<lparr>rw_client := fold (\<lambda>(p, args). send_command p args) cs (rw_client c1)\<rparr>)"
    if "rw_ready c1 = Connected" for c1 :: "'a raw_conn"
    using that by (induction cs arbitrary: c1) (simp_all add: conn_step_def split: prod.splits)
  moreover have "rs_pending (fold (\<lambda>(p, args). send_command p args) cs s) = rs_pending s @ map fst cs \<and>
      rs_settled (fold (\<lambda>(p, args). send_command p args) cs s) = rs_settled s" for s :: "'a resp_client"
    by (induction cs arbitrary: s) (simp_all add: send_command_def split: prod.splits)
  ultimately show ?thesis
    using assms by (simp add: conn_step_def failAllPending_def)
qed

theorem calls_after_close_never_settle_witness:
  "\<exists>c. conn_run 5 [Send (1::nat) [''GET'', ''a''], On_connect, On_close, Send 2 [''GET'', ''b'']] new_RawRespClient = Some c \<and>
     rs_pending (rw_client c) = [2] \<and> map fst (rs_settled (rw_client c)) = [1]"
proof -
  let ?c = "\<lparr>rw_ready = Connected, rw_waiting = [], rw_client = send_command (1::nat) [''GET'', ''a''] new_resp_client\<rparr>"
  have "conn_run 5 [Send (1::nat) [''GET'', ''a''], On_connect, On_close, Send 2 [''GET'', ''b'']] new_RawRespClient =
      conn_run 5 (On_close # map (\<lambda>(p, args). Send p args) [(2, [''GET'', ''b''])]) ?c"
    by (simp add: conn_step_def new_RawRespClient_def)
  then show ?thesis
    using calls_after_close_never_settle [of ?c 5 "[(2, [''GET'', ''b''])]"]
    by (auto simp: send_command_def new_resp_client_def)
qed

section \<open>One call\<close>

text \<open>
  A call writes its command; the server reads it and answers with some bytes, which arrive in pieces;
  the promise of the call is settled with what \<open>onData\<close> makes of them. \<open>serve\<close> is the server, \<open>pieces\<close>
  how the network cuts the bytes. A result of \<open>None\<close> is a call that is not settled.
\<close>

type_synonym 'd server = "int \<Rightarrow> string \<Rightarrow> 'd \<Rightarrow> string \<times> 'd"
type_synonym 'd raw_state = "'d \<times> nat resp_client"

definition raw_call ::
  "'d server \<Rightarrow> (string \<Rightarrow> string list) \<Rightarrow> (nat \<Rightarrow> nat resp_client \<Rightarrow> nat resp_client) \<Rightarrow> int \<Rightarrow>
     ('d raw_state, resp_value) act" where
  "raw_call serve pieces method now st =
     (case st of (d, s) \<Rightarrow>
        let p = length (rs_settled s) + length (rs_pending s); s1 = method p s in
        case serve now (drop (length (rs_written s)) (rs_written s1)) d of (bytes, d') \<Rightarrow>
          case resp_run (Suc (length bytes)) (map Chunk (pieces bytes)) s1 of
            None \<Rightarrow> (Inl NeverSettles, (d', s1))
          | Some s2 \<Rightarrow>
              (case map_of (drop (length (rs_settled s)) (rs_settled s2)) p of
                 None \<Rightarrow> (Inl NeverSettles, (d', s2))
               | Some outcome \<Rightarrow> (outcome, (d', s2))))"

text \<open>The casts of the methods. A value of another shape than the one cast to is out of the model.\<close>

definition as_string_or_null :: "resp_value \<Rightarrow> (js_error + string option)" where
  "as_string_or_null v = (case v of RNull \<Rightarrow> Inr None | RStr s \<Rightarrow> Inr (Some s) | _ \<Rightarrow> Inl (DriverError ''cast''))"

definition as_number :: "resp_value \<Rightarrow> (js_error + int)" where
  "as_number v = (case v of RNum (Num n) \<Rightarrow> Inr n | _ \<Rightarrow> Inl (DriverError ''cast''))"

definition as_reply :: "resp_value \<Rightarrow> (js_error + reply)" where
  "as_reply v = (case v of RArr [RStr status, RNum n] \<Rightarrow> Inr (status, n) | _ \<Rightarrow> Inl (DriverError ''cast''))"

definition casting :: "(resp_value \<Rightarrow> js_error + 'a) \<Rightarrow> ('s, resp_value) act \<Rightarrow> ('s, 'a) act" where
  "casting f m = bind m (\<lambda>v s. (f v, s))"

definition raw_client ::
  "'d server \<Rightarrow> script_texts \<Rightarrow> (string \<Rightarrow> string list) \<Rightarrow> 'd raw_state redis_like" where
  "raw_client serve T pieces =
     \<lparr>rl_eval = (\<lambda>scr numKeys args now. casting as_reply (raw_call serve pieces (\<lambda>p. resp_eval T p scr numKeys args) now)),
      rl_get = (\<lambda>key now. casting as_string_or_null (raw_call serve pieces (\<lambda>p. resp_get p key) now)),
      rl_set = (\<lambda>key v. bind (raw_call serve pieces (\<lambda>p. resp_set p key v) 0) (\<lambda>_. ret ())),
      rl_del = (\<lambda>keys now. casting as_number (raw_call serve pieces (\<lambda>p. resp_del p keys) now)),
      rl_quit = bind (raw_call serve pieces resp_quit 0) (\<lambda>_. ret ())\<rparr>"

definition idle :: "'p resp_client \<Rightarrow> bool" where
  "idle s \<longleftrightarrow> rs_buffer s = [] \<and> rs_pending s = []"

lemma chunks [simp]:
  "calls_of (map Chunk cs) = []" "bytes_of (map Chunk cs) = concat cs" "x \<in> set (map Chunk cs) \<Longrightarrow> \<not> broken x"
  by (induction cs) auto

text \<open>The answer to the only call that waits, in any pieces.\<close>

lemma one_reply:
  assumes "wire_ok r" and "rs_buffer s = []" and "rs_pending s = [p]" and "concat cs = encode_reply r"
  shows "resp_run (Suc (length (encode_reply r))) (map Chunk cs) s =
     Some (s\<lparr>rs_pending := [], rs_settled := rs_settled s @ [(p, wire_outcome r)]\<rparr>)"
proof -
  have "causal_from s [r] (map Chunk cs)" using assms(3) by (simp add: causal_from_def)
  moreover have "waiting [r] s" using assms(2) by (simp add: waiting_def)
  ultimately have "resp_run (Suc (length (encode_reply r))) (map Chunk cs) s = Some (after_stream (map Chunk cs) [r] s)"
    using assms by (intro run_stream) auto
  then show ?thesis using assms by (simp add: after_stream_def)
qed

lemma raw_call_run:
  assumes serve: "serve now (encodeCommand args) d = (encode_reply r, d')" and ok: "wire_ok r" and idle: "idle s"
    and pieces: "\<And>b. concat (pieces b) = b"
  shows "\<exists>s'. raw_call serve pieces (\<lambda>p. send_command p args) now (d, s) = (wire_outcome r, (d', s')) \<and> idle s'"
proof -
  let ?p = "length (rs_settled s) + length (rs_pending s)"
  let ?s1 = "send_command ?p args s"
  let ?s2 = "?s1\<lparr>rs_pending := [], rs_settled := rs_settled ?s1 @ [(?p, wire_outcome r)]\<rparr>"
  have "resp_run (Suc (length (encode_reply r))) (map Chunk (pieces (encode_reply r))) ?s1 = Some ?s2"
    using idle by (intro one_reply [OF ok]) (simp_all add: send_command_def idle_def pieces)
  moreover have "serve now (drop (length (rs_written s)) (rs_written ?s1)) d = (encode_reply r, d')"
    using serve by (simp add: send_command_def)
  ultimately have "raw_call serve pieces (\<lambda>p. send_command p args) now (d, s) = (wire_outcome r, (d', ?s2))"
    unfolding raw_call_def Let_def by (simp add: send_command_def)
  moreover have "idle ?s2" using idle by (simp add: idle_def send_command_def)
  ultimately show ?thesis by blast
qed

section \<open>A server that speaks RESP2\<close>

text \<open>How the results of the commands are sent: the documented forms of RESP2 replies.\<close>

fun error_text :: "js_error \<Rightarrow> string" where
  "error_text (RedisReplyError m) = m"
| "error_text _ = ''ERR''"

definition get_reply :: "js_error + string option \<Rightarrow> wire" where
  "get_reply r = (case r of Inl e \<Rightarrow> ErrorReply (error_text e) | Inr None \<Rightarrow> NullBulk | Inr (Some s) \<Rightarrow> Bulk s)"

definition ok_reply :: "js_error + unit \<Rightarrow> wire" where
  "ok_reply r = (case r of Inl e \<Rightarrow> ErrorReply (error_text e) | Inr _ \<Rightarrow> Simple ''OK'')"

definition int_reply :: "js_error + int \<Rightarrow> wire" where
  "int_reply r = (case r of Inl e \<Rightarrow> ErrorReply (error_text e) | Inr n \<Rightarrow> Integer n)"

text \<open>A Lua table of a string and a number becomes an array of a bulk string and an integer.\<close>

definition table_reply :: "js_error + reply \<Rightarrow> wire" where
  "table_reply r = (case r of
     Inl e \<Rightarrow> ErrorReply (error_text e)
   | Inr (status, n) \<Rightarrow> Array [Bulk status, Integer (case n of Num i \<Rightarrow> i | _ \<Rightarrow> 0)])"

text \<open>What the client relies on: the server answers a command with the reply to what it does, its
  errors are one line, and a script replies with an integer.\<close>

definition one_line_error :: "js_error + 'a \<Rightarrow> bool" where
  "one_line_error r \<longleftrightarrow> (\<forall>e. r = Inl e \<longrightarrow> (\<exists>m. e = RedisReplyError m \<and> CR \<notin> set m))"

locale resp_server =
  fixes C :: "'d redis_commands" and serve :: "'d server" and T :: script_texts
  assumes serve_GET: "\<And>now k d. serve now (encodeCommand [''GET'', k]) d =
      (encode_reply (get_reply (fst (rc_GET C k now d))), snd (rc_GET C k now d))"
    and serve_SET: "\<And>now k v d. serve now (encodeCommand [''SET'', k, v]) d =
      (encode_reply (ok_reply (fst (rc_SET C k v d))), snd (rc_SET C k v d))"
    and serve_DEL: "\<And>now ks d. serve now (encodeCommand (''DEL'' # ks)) d =
      (encode_reply (int_reply (fst (rc_DEL C ks now d))), snd (rc_DEL C ks now d))"
    and serve_QUIT: "\<And>now d. serve now (encodeCommand [''QUIT'']) d =
      (encode_reply (ok_reply (fst (rc_QUIT C d))), snd (rc_QUIT C d))"
    and serve_EVAL: "\<And>now scr n args d. scr \<in> {RESERVE_SCRIPT, RELEASE_SCRIPT} \<Longrightarrow>
      serve now (encodeCommand ([''EVAL'', T scr, nat_string n] @ map arg_String args)) d =
        (encode_reply (table_reply (fst (server_eval C scr n args now d))), snd (server_eval C scr n args now d))"
    and errors_GET: "\<And>now k d. one_line_error (fst (rc_GET C k now d))"
    and errors_SET: "\<And>k v d. one_line_error (fst (rc_SET C k v d))"
    and errors_DEL: "\<And>now ks d. one_line_error (fst (rc_DEL C ks now d))"
    and errors_QUIT: "\<And>d. one_line_error (fst (rc_QUIT C d))"
    and errors_EVAL: "\<And>now scr n args d. scr \<in> {RESERVE_SCRIPT, RELEASE_SCRIPT} \<Longrightarrow>
      one_line_error (fst (server_eval C scr n args now d))"

text \<open>The scripts reply with integers.\<close>

lemma script_numbers:
  "scr \<in> {RESERVE_SCRIPT, RELEASE_SCRIPT} \<Longrightarrow> fst (server_eval C scr n args now d) = Inr (status, v) \<Longrightarrow> \<exists>i. v = Num i"
  by (auto simp: server_eval_def reserve_lua_def release_lua_def bind_apply Let_def
      split: if_splits option.splits prod.splits sum.splits)

lemma outcomes:
  "one_line_error r \<Longrightarrow> wire_ok (get_reply r) \<and>
     bind (\<lambda>s. (wire_outcome (get_reply r), s)) (\<lambda>v s. (as_string_or_null v, s)) s = (r, s)"
  "one_line_error u \<Longrightarrow> wire_ok (ok_reply u) \<and>
     bind (\<lambda>s. (wire_outcome (ok_reply u), s)) (\<lambda>_. ret ()) s = (u, s)"
  "one_line_error i \<Longrightarrow> wire_ok (int_reply i) \<and>
     bind (\<lambda>s. (wire_outcome (int_reply i), s)) (\<lambda>v s. (as_number v, s)) s = (i, s)"
  by (auto simp: one_line_error_def get_reply_def ok_reply_def int_reply_def wire_outcome_def reply_outcome_def
      bind_def as_string_or_null_def as_number_def CR_def split: sum.splits option.splits)

lemma table_outcome:
  "one_line_error r \<Longrightarrow> (\<And>status v. r = Inr (status, v) \<Longrightarrow> \<exists>i. v = Num i) \<Longrightarrow> wire_ok (table_reply r) \<and>
     bind (\<lambda>s. (wire_outcome (table_reply r), s)) (\<lambda>v s. (as_reply v, s)) s = (r, s)"
  by (cases r) (fastforce simp: one_line_error_def table_reply_def wire_outcome_def reply_outcome_def bind_def as_reply_def)+

section \<open>The client answers as the server does\<close>

locale raw_server = redis_server C kv_of invar + resp_server C serve T
  for C :: "'d redis_commands" and kv_of invar and serve T +
  fixes pieces :: "string \<Rightarrow> string list"
  assumes pieces_law: "concat (pieces b) = b"
begin

abbreviation R :: "'d raw_state redis_like" where
  "R \<equiv> raw_client serve T pieces"

lemma answered:
  assumes serve: "serve now (encodeCommand args) d = (encode_reply w, d')" and idle: "idle s"
    and decode: "\<And>u. wire_ok w \<and> bind (\<lambda>s. (wire_outcome w, s)) k u = (r, u)"
  shows "\<exists>s'. bind (raw_call serve pieces (\<lambda>p. send_command p args) now) k (d, s) = (r, (d', s')) \<and> idle s'"
proof -
  have "wire_ok w" using decode by blast
  from raw_call_run [where serve = serve and pieces = pieces, OF serve this idle] pieces_law obtain s1 where
    s1: "raw_call serve pieces (\<lambda>p. send_command p args) now (d, s) = (wire_outcome w, (d', s1))" "idle s1" by blast
  have "bind (raw_call serve pieces (\<lambda>p. send_command p args) now) k (d, s) = bind (\<lambda>s. (wire_outcome w, s)) k (d', s1)"
    using s1(1) by (simp add: bind_def)
  then show ?thesis using decode s1(2) by metis
qed

lemmas as_methods = raw_client_def server_client_def casting_def resp_get_def resp_set_def resp_del_def resp_quit_def
  resp_eval_def redis_like.simps

lemma raw_get:
  "idle s \<Longrightarrow> \<exists>s'. rl_get R k now (d, s) =
     (fst (rl_get (server_client C) k now d), (snd (rl_get (server_client C) k now d), s')) \<and> idle s'"
  unfolding as_methods by (rule answered [OF serve_GET _ outcomes(1) [OF errors_GET]])

lemma raw_set:
  "idle s \<Longrightarrow> \<exists>s'. rl_set R k v (d, s) =
     (fst (rl_set (server_client C) k v d), (snd (rl_set (server_client C) k v d), s')) \<and> idle s'"
  unfolding as_methods by (rule answered [OF serve_SET _ outcomes(2) [OF errors_SET]])

lemma raw_del:
  "idle s \<Longrightarrow> \<exists>s'. rl_del R ks now (d, s) =
     (fst (rl_del (server_client C) ks now d), (snd (rl_del (server_client C) ks now d), s')) \<and> idle s'"
  unfolding as_methods by (rule answered [OF serve_DEL _ outcomes(3) [OF errors_DEL]])

lemma raw_quit:
  "idle s \<Longrightarrow> \<exists>s'. rl_quit R (d, s) =
     (fst (rl_quit (server_client C) d), (snd (rl_quit (server_client C) d), s')) \<and> idle s'"
  unfolding as_methods by (rule answered [OF serve_QUIT _ outcomes(2) [OF errors_QUIT]])

lemma raw_eval:
  assumes "idle s" and scr: "scr \<in> {RESERVE_SCRIPT, RELEASE_SCRIPT}"
  shows "\<exists>s'. rl_eval R scr n args now (d, s) =
     (fst (rl_eval (server_client C) scr n args now d), (snd (rl_eval (server_client C) scr n args now d), s')) \<and> idle s'"
  using assms(1) unfolding as_methods
  by (rule answered [OF serve_EVAL [OF scr] _ table_outcome [OF errors_EVAL [OF scr] script_numbers [OF scr]]])

text \<open>A call that the server answers as the contract says, the client answers so too.\<close>

lemma through_wire:
  assumes "\<exists>s'. f (d, s) = (fst (g d), (snd (g d), s')) \<and> idle s'" and "f (d, s) = (res, st)"
  obtains d' where "g d = (res, d')" "fst st = d'" "idle (snd st)"
  using assms by (cases "g d") auto

end

sublocale raw_server \<subseteq> raw: stock_redis "raw_client serve T pieces" "\<lambda>st. kv_of (fst st)"
  "\<lambda>st. invar (fst st) \<and> idle (snd st)"
proof (unfold_locales, goal_cases)
  case (1 st k now res st')
  obtain d s where st: "st = (d, s)" by (cases st)
  obtain d' where "rl_get (server_client C) k now d = (res, d')" "fst st' = d'" "idle (snd st')"
    by (rule through_wire [where f = "rl_get R k now" and g = "rl_get (server_client C) k now", OF raw_get]) (use 1 st in auto)
  with 1 srv.get_law [of d k now res d'] show ?case by (simp add: st)
next
  case (2 st k n res st')
  obtain d s where st: "st = (d, s)" by (cases st)
  obtain d' where "rl_set (server_client C) k (int_string n) d = (res, d')" "fst st' = d'" "idle (snd st')"
    by (rule through_wire [where f = "rl_set R k (int_string n)" and g = "rl_set (server_client C) k (int_string n)", OF raw_set]) (use 2 st in auto)
  with 2 srv.set_law [of d k n res d'] show ?case by (simp add: st)
next
  case (3 st sk rk q rid ttl now res st')
  let ?args = "[AStr sk, AStr rk, ANum (Num q), AStr rid, ANum (Num ttl)]"
  obtain d s where st: "st = (d, s)" by (cases st)
  obtain d' where "rl_eval (server_client C) RESERVE_SCRIPT 2 ?args now d = (res, d')" "fst st' = d'" "idle (snd st')"
    by (rule through_wire [where f = "rl_eval R RESERVE_SCRIPT 2 ?args now"
      and g = "rl_eval (server_client C) RESERVE_SCRIPT 2 ?args now", OF raw_eval]) (use 3 st in auto)
  with 3 srv.reserve_law [of d q ttl sk rk rid now res d'] show ?case by (simp add: st)
next
  case (4 st sk rk mode now res st')
  obtain d s where st: "st = (d, s)" by (cases st)
  obtain d' where "rl_eval (server_client C) RELEASE_SCRIPT 2 [AStr sk, AStr rk, AStr mode] now d = (res, d')"
    "fst st' = d'" "idle (snd st')"
    by (rule through_wire [where f = "rl_eval R RELEASE_SCRIPT 2 [AStr sk, AStr rk, AStr mode] now"
      and g = "rl_eval (server_client C) RELEASE_SCRIPT 2 [AStr sk, AStr rk, AStr mode] now", OF raw_eval]) (use 4 st in auto)
  with 4 srv.resolve_law [of d sk rk mode now res d'] show ?case by (simp add: st)
qed

text \<open>The same as a fact about any such server, without the locale around it.\<close>

context raw_server
begin

lemma raw_is_stock_redis:
  "stock_redis (raw_client serve T pieces) (\<lambda>st. kv_of (fst st)) (\<lambda>st. invar (fst st) \<and> idle (snd st))"
  by (rule raw.stock_redis_axioms)

end

section \<open>A concrete server\<close>

text \<open>A server that reads a command with the parser of the client and does it on a store.\<close>

definition serve_command :: "'d redis_commands \<Rightarrow> script_texts \<Rightarrow> int \<Rightarrow> string list \<Rightarrow> 'd \<Rightarrow> string \<times> 'd" where
  "serve_command C T now args d =
     (case args of
        [] \<Rightarrow> ([], d)
      | cmd # xs \<Rightarrow>
          if cmd = ''GET'' then map_prod (encode_reply \<circ> get_reply) id (rc_GET C (key_at xs 0) now d)
          else if cmd = ''SET'' then map_prod (encode_reply \<circ> ok_reply) id (rc_SET C (key_at xs 0) (key_at xs 1) d)
          else if cmd = ''DEL'' then map_prod (encode_reply \<circ> int_reply) id (rc_DEL C xs now d)
          else if cmd = ''QUIT'' then map_prod (encode_reply \<circ> ok_reply) id (rc_QUIT C d)
          else
            (let scr = (if key_at xs 0 = T RESERVE_SCRIPT then RESERVE_SCRIPT
                        else if key_at xs 0 = T RELEASE_SCRIPT then RELEASE_SCRIPT else OtherScript (key_at xs 0));
                 n = (case js_Number (key_at xs 1) of Num i \<Rightarrow> nat i | _ \<Rightarrow> 0) in
             map_prod (encode_reply \<circ> table_reply) id (server_eval C scr n (map AStr (drop 2 xs)) now d)))"

definition resp_serve :: "'d redis_commands \<Rightarrow> script_texts \<Rightarrow> 'd server" where
  "resp_serve C T now bytes d =
     (case tryParseReply (Suc (length bytes)) bytes (Num 0) of
        Some (Inr (Some (RArr vs, _))) \<Rightarrow>
          serve_command C T now (map (\<lambda>v. case v of RStr s \<Rightarrow> s | _ \<Rightarrow> []) vs) d
      | _ \<Rightarrow> ([], d))"

fun demo_texts :: script_texts where
  "demo_texts RESERVE_SCRIPT = ''reserve''"
| "demo_texts RELEASE_SCRIPT = ''release''"
| "demo_texts (OtherScript s) = s"

lemma resp_serve_command: "resp_serve C T now (encodeCommand args) d = serve_command C T now args d"
proof -
  have "need (Array (map Bulk args)) \<le> Suc (length (encodeCommand args))"
    using need_bound(1) [of "Array (map Bulk args)"] by (simp only: encodeCommand_wire)
  from parse_complete(1) [OF _ this, of "encodeCommand args" "[]" "[]"]
  have "tryParseReply (Suc (length (encodeCommand args))) (encodeCommand args) (Num 0) =
      Some (Inr (Some (RArr (map RStr args), Num (int (length (encodeCommand args))))))"
    unfolding encodeCommand_wire by (simp add: comp_def del: encode_reply.simps)
  then show ?thesis by (simp add: resp_serve_def comp_def)
qed

lemma server_eval_strings: "server_eval C scr n (map AStr (map arg_String args)) = server_eval C scr n args"
  by (simp add: server_eval_def comp_def fun_eq_iff)

lemma mem_no_errors:
  "\<exists>v r'. mem_get k now r = (Inr v, r')" "\<exists>r'. mem_set k v r = (Inr (), r')" "\<exists>n r'. mem_del ks now r = (Inr n, r')"
  "\<exists>r'. mem_quit r = (Inr (), r')" "\<exists>n r'. mem_incrby k i now r = (Inr n, r')" "\<exists>r'. mem_set_ex k i t now r = (Inr (), r')"
  by (auto simp: mem_get_def mem_set_def mem_del_def mem_quit_def mem_incrby_def mem_set_ex_def Let_def
      split: prod.splits if_splits)

lemma one_line_Inr: "\<exists>v r'. m r = (Inr v, r') \<Longrightarrow> one_line_error (fst (m r))"
  by (auto simp: one_line_error_def)

lemma one_line_bind:
  "one_line_error (fst (m r)) \<Longrightarrow> (\<And>a r'. one_line_error (fst (f a r'))) \<Longrightarrow> one_line_error (fst (bind m f r))"
  by (auto simp: bind_apply one_line_error_def split: prod.splits sum.splits)

lemma one_line_values [simp]:
  "one_line_error (Inr v)" "one_line_error (Inl (RedisReplyError m)) \<longleftrightarrow> CR \<notin> set m"
  by (auto simp: one_line_error_def)

lemma mem_one_line:
  "one_line_error (fst (rc_GET mem_commands k now r))" "one_line_error (fst (rc_SET mem_commands k v r))"
  "one_line_error (fst (rc_DEL mem_commands ks now r))" "one_line_error (fst (rc_QUIT mem_commands r))"
  "one_line_error (fst (rc_INCRBY mem_commands k i now r))" "one_line_error (fst (rc_DECRBY mem_commands k i now r))"
  "one_line_error (fst (rc_SET_EX mem_commands k i t now r))"
  by (simp_all add: mem_commands_def one_line_Inr mem_no_errors)

lemma mem_script_errors:
  "one_line_error (fst (reserve_lua mem_commands keys args now r))"
  "one_line_error (fst (release_lua mem_commands keys args now r))"
  unfolding reserve_lua_def release_lua_def Let_def
  by (auto simp: CR_def split: option.splits intro!: one_line_bind mem_one_line)

interpretation memraw: raw_server mem_commands mem_kv mem_ok "resp_serve mem_commands demo_texts" demo_texts "map (\<lambda>c. [c])"
proof (unfold_locales, unfold resp_serve_command, goal_cases)
  case (5 now scr n args d)
  note n = js_Number_nat_string
  show ?case
    using 5 server_eval_strings [of mem_commands scr n args]
    by (auto simp: serve_command_def key_at_def n map_prod_def split_beta Let_def)
next
  case (10 now scr n args d)
  then show ?case
    using mem_script_errors by (auto simp: server_eval_def Let_def)
qed (auto simp: serve_command_def key_at_def map_prod_def split_beta mem_one_line)

section \<open>The default driver implements RedisLike\<close>

text \<open>A method of the client answers as the server does and leaves the connection idle.\<close>

definition answers_as :: "('d raw_state, 'a) act \<Rightarrow> ('d, 'a) act \<Rightarrow> bool" where
  "answers_as f g \<longleftrightarrow> (\<forall>d s. idle s \<longrightarrow> (\<exists>s'. f (d, s) = (fst (g d), (snd (g d), s')) \<and> idle s'))"

text \<open>C15: RawRespClient is RedisLike over a Redis server. Whatever the keys, values and arguments are and
  however the network cuts the replies, get, set, del, quit and the two scripts give what the commands and
  scripts on the server give - value, null, error - with the same effect on it, and the connection is idle
  again. All that is proved of the service, the saga and the recovery over the scripts therefore holds
  over this client (lemma raw_is_stock_redis).\<close>

theorem raw_client_answers_as_server:
  assumes "raw_server C kv_of invar serve T pieces"
  shows "answers_as (rl_get (raw_client serve T pieces) key now) (rc_GET C key now) \<and>
     answers_as (rl_set (raw_client serve T pieces) key v) (rc_SET C key v) \<and>
     answers_as (rl_del (raw_client serve T pieces) keys now) (rc_DEL C keys now) \<and>
     answers_as (rl_quit (raw_client serve T pieces)) (rc_QUIT C) \<and>
     answers_as (rl_eval (raw_client serve T pieces) RESERVE_SCRIPT n args now)
       (reserve_lua C (take n (map arg_String args)) (drop n (map arg_String args)) now) \<and>
     answers_as (rl_eval (raw_client serve T pieces) RELEASE_SCRIPT n args now)
       (release_lua C (take n (map arg_String args)) (drop n (map arg_String args)) now)"
proof -
  have eval: "rl_eval (server_client C) RESERVE_SCRIPT n args now =
      reserve_lua C (take n (map arg_String args)) (drop n (map arg_String args)) now"
    "rl_eval (server_client C) RELEASE_SCRIPT n args now =
      release_lua C (take n (map arg_String args)) (drop n (map arg_String args)) now"
    by (simp_all add: server_client_def server_eval_def Let_def)
  have rest: "rl_get (server_client C) = rc_GET C" "rl_set (server_client C) = rc_SET C"
    "rl_del (server_client C) = rc_DEL C" "rl_quit (server_client C) = rc_QUIT C"
    by (simp_all add: server_client_def)
  show ?thesis
    unfolding answers_as_def eval [symmetric] rest [symmetric]
    by (intro conjI allI impI raw_server.raw_get [OF assms] raw_server.raw_set [OF assms]
        raw_server.raw_del [OF assms] raw_server.raw_quit [OF assms] raw_server.raw_eval [OF assms]) simp_all
qed

theorem raw_client_answers_as_server_witness:
  "answers_as (rl_get (raw_client (resp_serve mem_commands demo_texts) demo_texts (map (\<lambda>c. [c]))) ''stock:w:s'' 0)
     (mem_get ''stock:w:s'' 0)"
  using raw_client_answers_as_server [OF memraw.raw_server_axioms, of "''stock:w:s''" 0]
  by (simp add: mem_commands_def)

section \<open>The adapter for ioredis\<close>

text \<open>\<open>ioredis\<close> is not part of the repository: its client is a parameter, whose \<open>set\<close> resolves to some
  text. The adapter passes every call on.\<close>

record 'r io_redis =
  io_eval :: "script \<Rightarrow> nat \<Rightarrow> redis_arg list \<Rightarrow> int \<Rightarrow> ('r, reply) act"
  io_get :: "string \<Rightarrow> int \<Rightarrow> ('r, string option) act"
  io_set :: "string \<Rightarrow> string \<Rightarrow> ('r, string) act"
  io_del :: "string list \<Rightarrow> int \<Rightarrow> ('r, int) act"
  io_quit :: "('r, string) act"

definition createIoRedisClient :: "'r io_redis \<Rightarrow> 'r redis_like" where
  "createIoRedisClient client =
     \<lparr>rl_eval = io_eval client, rl_get = io_get client,
      rl_set = (\<lambda>key v. bind (io_set client key v) (\<lambda>_. ret ())),
      rl_del = io_del client, rl_quit = bind (io_quit client) (\<lambda>_. ret ())\<rparr>"

lemma adapter_of_server:
  assumes "io_eval client = server_eval C" "io_get client = rc_GET C" "io_del client = rc_DEL C"
    and "\<And>k v. io_set client k v = bind (rc_SET C k v) (\<lambda>_. ret ''OK'')"
    and "io_quit client = bind (rc_QUIT C) (\<lambda>_. ret ''OK'')"
  shows "createIoRedisClient client = server_client C"
proof -
  have unit: "bind (bind m (\<lambda>_. ret ''OK'')) (\<lambda>_. ret ()) = m" for m :: "('a, unit) act"
    by (simp add: bind_def fun_eq_iff split: prod.splits sum.splits)
  show ?thesis
    unfolding createIoRedisClient_def server_client_def assms unit ..
qed

end
