(* ===== verification/Kafka_Runner.thy ===== *)
theory Kafka_Runner
  imports Kafka_Bus Production_Saga
begin

text \<open>
  The saga runner and the events hub over Kafka: which runs a process starts, whatever kafkajs answers and
  delivers, and what happens when it delivers a message again. Kafka delivers at least once: a
  consumer that has not committed its offset when its group is rebalanced, or when its process ends, is
  given the same messages again.
\<close>

section \<open>The process\<close>

definition kafka_app :: "subscriber \<Rightarrow> domain_event \<Rightarrow> ((subscriber, 'k, app_side) kafka_state, unit) act" where
  "kafka_app h ev = update_state (\<lambda>(b, a). (b, app_effect h ev a))"

text \<open>What \<open>main\<close> subscribes, over \<open>createKafkaEventBus\<close>.\<close>

definition kafka_server :: "'k \<Rightarrow> (subscriber, 'k, app_side) kafka_state" where
  "kafka_server k =
     (kafka_subscribe ORDERS_TOPIC SSE_GROUP SseBroadcast
        (kafka_subscribe ORDERS_TOPIC CONSUMER_GROUP SagaRunner
          \<lparr>kf_cluster = k, kf_consumers = [], kf_localHistory = [], kf_crashed = False\<rparr>),
      \<lparr>as_started = [], as_clients = []\<rparr>)"

text \<open>A publication of this process, an answer of the driver to a consumer that starts, the delivery of the
  n-th message of its topic to a consumer.\<close>

datatype kafka_step = Publication string domain_event | Answer nat "js_error option" | Delivery nat nat

definition delivery ::
  "('k \<Rightarrow> string \<Rightarrow> kafka_message list) \<Rightarrow> nat \<Rightarrow> nat \<Rightarrow> ((subscriber, 'k, app_side) kafka_state, unit) act" where
  "delivery msgs i n s =
     (let topic_msgs = msgs (kf_cluster (fst s)) (kc_topic (kf_consumers (fst s) ! i)) in
      if i < length (kf_consumers (fst s)) \<and> n < length topic_msgs
      then consume kafka_app i (Some (km_value (topic_msgs ! n))) s
      else (Inr (), s))"

fun kafka_run ::
  "'k kafka_driver \<Rightarrow> ('k \<Rightarrow> string \<Rightarrow> kafka_message list) \<Rightarrow> kafka_step list \<Rightarrow>
     (subscriber, 'k, app_side) kafka_state \<Rightarrow> (subscriber, 'k, app_side) kafka_state" where
  "kafka_run K msgs [] s = s"
| "kafka_run K msgs (Publication topic ev # xs) s = kafka_run K msgs xs (snd (eb_publish (KafkaEventBus K) topic ev s))"
| "kafka_run K msgs (Answer i err # xs) s = kafka_run K msgs xs (consumer_answer i err (fst s), snd s)"
| "kafka_run K msgs (Delivery i n # xs) s = kafka_run K msgs xs (snd (delivery msgs i n s))"

text \<open>What the steps publish on the topic of the orders, and whether all of it can be read back.\<close>

fun published :: "kafka_step list \<Rightarrow> domain_event list" where
  "published [] = []"
| "published (Publication topic ev # xs) = (if topic = ORDERS_TOPIC then ev # published xs else published xs)"
| "published (_ # xs) = published xs"

section \<open>Which runs are started\<close>

lemma map_update_same: "f x = f (xs ! i) \<Longrightarrow> map f (xs[i := x]) = map f xs"
  by (metis list_update_beyond list_update_id map_update not_le_imp_less nth_map)

context kafka_cluster
begin

definition runner_ok :: "domain_event list \<Rightarrow> (subscriber, 'k, app_side) kafka_state \<Rightarrow> bool" where
  "runner_ok evs s \<longleftrightarrow> alive (kf_cluster (fst s)) \<and> (\<forall>ev \<in> set evs. json_plain (de_payload ev)) \<and>
     msgs (kf_cluster (fst s)) ORDERS_TOPIC = map (message_of ORDERS_TOPIC) evs \<and>
     map kc_topic (kf_consumers (fst s)) = [ORDERS_TOPIC, ORDERS_TOPIC] \<and>
     map kc_handler (kf_consumers (fst s)) = [SagaRunner, SseBroadcast] \<and>
     (\<exists>ns. as_started (snd s) = concat (map (\<lambda>n. runs_for (evs ! n)) ns) \<and> (\<forall>n \<in> set ns. n < length evs))"

lemma runner_ok_server:
  "alive k \<Longrightarrow> msgs k ORDERS_TOPIC = map (message_of ORDERS_TOPIC) evs \<Longrightarrow> \<forall>ev \<in> set evs. json_plain (de_payload ev) \<Longrightarrow>
     runner_ok evs (kafka_server k)"
  by (auto simp: runner_ok_def kafka_server_def kafka_subscribe_def intro!: exI [of _ "[]"])

lemma runner_ok_more:
  assumes "as_started a = concat (map (\<lambda>n. runs_for (evs ! n)) ns)" and "\<forall>n \<in> set ns. n < length evs"
  shows "as_started a = concat (map (\<lambda>n. runs_for ((evs @ [ev]) ! n)) ns)"
proof -
  have "map (\<lambda>n. runs_for ((evs @ [ev]) ! n)) ns = map (\<lambda>n. runs_for (evs ! n)) ns"
    using assms(2) by (auto simp: nth_append)
  then show ?thesis by (simp only: assms(1))
qed

lemma runner_ok_publish:
  assumes "runner_ok evs s" and "topic = ORDERS_TOPIC \<Longrightarrow> json_plain (de_payload ev)"
  shows "runner_ok (if topic = ORDERS_TOPIC then evs @ [ev] else evs) (snd (eb_publish (KafkaEventBus K) topic ev s))"
proof -
  obtain b a where s: "s = (b, a)" by (cases s)
  have "alive (kf_cluster b)" using assms(1) by (simp add: runner_ok_def s)
  from kafka_publish_sent [OF this, of topic ev] obtain k' where
    k': "kafka_publish K topic ev b =
        (Inr (), b\<lparr>kf_localHistory := jset topic (kafka_history topic b @ [ev]) (kf_localHistory b), kf_cluster := k'\<rparr>)"
      "alive k'" "\<forall>t. msgs k' t = (if t = topic then msgs (kf_cluster b) t @ [message_of topic ev] else msgs (kf_cluster b) t)"
    by blast
  have "snd (eb_publish (KafkaEventBus K) topic ev s) =
      (b\<lparr>kf_localHistory := jset topic (kafka_history topic b @ [ev]) (kf_localHistory b), kf_cluster := k'\<rparr>, a)"
    using k'(1) by (simp add: KafkaEventBus_def on_bus_of_def zoom_apply s)
  note after = this
  obtain ns where ns: "as_started a = concat (map (\<lambda>n. runs_for (evs ! n)) ns)" "\<forall>n \<in> set ns. n < length evs"
    using assms(1) by (auto simp: runner_ok_def s)
  show ?thesis
  proof (cases "topic = ORDERS_TOPIC")
    case True
    have "\<exists>ns. as_started a = concat (map (\<lambda>n. runs_for ((evs @ [ev]) ! n)) ns) \<and> (\<forall>n \<in> set ns. n < length (evs @ [ev]))"
      using runner_ok_more [OF ns, of ev] ns(2) by (intro exI [of _ ns]) auto
    with True assms k'(2,3) show ?thesis unfolding after by (simp add: runner_ok_def s)
  next
    case False
    have "\<exists>ns. as_started a = concat (map (\<lambda>n. runs_for (evs ! n)) ns) \<and> (\<forall>n \<in> set ns. n < length evs)"
      using ns by blast
    with False assms(1) k'(2,3) show ?thesis unfolding after by (simp add: runner_ok_def s)
  qed
qed

lemma runner_ok_answer: "runner_ok evs s \<Longrightarrow> runner_ok evs (consumer_answer i err (fst s), snd s)"
  unfolding runner_ok_def consumer_answer_def
  by (simp split: option.splits add: map_update_same)

text \<open>The effect of a delivery.\<close>

lemma delivery_run:
  assumes "runner_ok evs s"
  shows "snd (delivery msgs i n s) =
    (if i < 2 \<and> n < length evs \<and> kc_stage (kf_consumers (fst s) ! i) \<in> {Joining_group, Running_consumer} \<and> \<not> kf_crashed (fst s)
     then (fst s, app_effect ([SagaRunner, SseBroadcast] ! i) (evs ! n) (snd s)) else s)"
proof -
  have c: "length (kf_consumers (fst s)) = 2"
    using assms by (auto simp: runner_ok_def dest: arg_cong [where f = length])
  have t: "kc_topic (kf_consumers (fst s) ! i) = ORDERS_TOPIC" "kc_handler (kf_consumers (fst s) ! i) = [SagaRunner, SseBroadcast] ! i"
    if "i < 2"
    using assms that c nth_map [of i "kf_consumers (fst s)" kc_topic] nth_map [of i "kf_consumers (fst s)" kc_handler]
    by (auto simp: runner_ok_def less_2_cases_iff)
  have "eachMessage kafka_app h (Some (km_value (map (message_of ORDERS_TOPIC) evs ! n))) s =
      (Inr (), (fst s, app_effect h (evs ! n) (snd s)))" if "n < length evs" for h
  proof -
    have "json_plain (de_payload (evs ! n))" using assms that by (simp add: runner_ok_def)
    then show ?thesis using that by (simp add: eachMessage_published kafka_app_def split_beta)
  qed
  then show ?thesis using assms c t by (auto simp: delivery_def consume_def runner_ok_def Let_def)
qed

lemma runner_ok_delivery:
  assumes "runner_ok evs s"
  shows "runner_ok evs (snd (delivery msgs i n s))"
proof -
  obtain ns where ns: "as_started (snd s) = concat (map (\<lambda>n. runs_for (evs ! n)) ns)" "\<forall>n \<in> set ns. n < length evs"
    using assms by (auto simp: runner_ok_def)
  have "\<exists>ns. as_started (start_run (evs ! n) (snd s)) = concat (map (\<lambda>n. runs_for (evs ! n)) ns) \<and> (\<forall>n \<in> set ns. n < length evs)"
    if "n < length evs"
    using ns that by (intro exI [of _ "ns @ [n]"]) (simp add: start_run_def)
  moreover have "as_started (broadcast (evs ! n) (snd s)) = as_started (snd s)" by (simp add: broadcast_def)
  ultimately show ?thesis
    using assms unfolding delivery_run [OF assms]
    by (cases "i = 0"; cases "i = 1") (simp_all add: runner_ok_def less_2_cases_iff)
qed

lemma runner_ok_run:
  "runner_ok evs s \<Longrightarrow> \<forall>ev \<in> set (published xs). json_plain (de_payload ev) \<Longrightarrow>
     runner_ok (evs @ published xs) (kafka_run K msgs xs s)"
proof (induction xs arbitrary: evs s)
  case Nil
  then show ?case by simp
next
  case (Cons x xs)
  show ?case
  proof (cases x)
    case (Publication topic ev)
    have "runner_ok (if topic = ORDERS_TOPIC then evs @ [ev] else evs) (snd (eb_publish (KafkaEventBus K) topic ev s))"
      by (rule runner_ok_publish [OF Cons.prems(1)]) (use Cons.prems(2) Publication in simp)
    from Cons.IH [OF this] Cons.prems(2) show ?thesis by (cases "topic = ORDERS_TOPIC") (simp_all add: Publication)
  next
    case (Answer i err)
    with Cons.IH [OF runner_ok_answer [OF Cons.prems(1)]] Cons.prems(2) show ?thesis by simp
  next
    case (Delivery i n)
    with Cons.IH [OF runner_ok_delivery [OF Cons.prems(1)]] Cons.prems(2) show ?thesis by simp
  qed
qed

end


definition created_event :: "string \<Rightarrow> domain_event" where
  "created_event oid = \<lparr>de_type = ''order.created'', de_payload = JObj [(''orderId'', JStr oid)], de_at = 0, de_key = Some oid\<rparr>"


section \<open>A message that is delivered again\<close>

text \<open>C31: A finished order is executed again when its message is delivered again. The runner starts \<open>run\<close> for
  every \<open>order.created\<close> it is given, and \<open>run\<close> does not look at the status: an order that was cancelled -
  by a shortage, a declined payment, or the startup sweep that came before the delivery - is
  charged, shipped and confirmed, and an order that was confirmed takes its units from the stock a
  second time.\<close>

theorem redelivered_order_is_executed_again:
  fixes C :: "'d redis_commands" and w :: "('d, pg_db, (subscriber, 'k, app_side) kafka_state) world"
  assumes "redis_server C kv_of invar" and "kafka_cluster K alive msgs" and "invar (co_redis w)"
    and "repr (env_now E (co_ticks w)) L \<rho> (kv_of (co_redis w))" and "pg_ok uuid_in (w_store w)"
    and "alive (kf_cluster (fst (w_bus w)))" and "pg_orders (w_store w) oid = Some od"
    and "\<forall>h \<in> set (or_history od). ev_at h \<le> env_now E (co_ticks w)"
    and "clock_ok E" and "fresh_ids E (co_uuids w) (dom \<rho>)"
    and "env_now E (co_ticks w + 4 * length (or_lines od) + 9) < env_now E (co_ticks w) + 900000"
    and "isTerminalStatus (or_status od)" and "fulfillable L (or_lines od)"
    and "\<not> injected (failPaymentForOrderIds (pg_failures (w_payments w))) oid"
    and "\<not> injected (failShippingForOrderIds (sp_failures (w_shipping w))) oid"
    and "kf_consumers (fst (w_bus w)) = c # cs" and "kc_handler c = SagaRunner" and "kc_stage c = Running_consumer"
    and "\<not> kf_crashed (fst (w_bus w))" and "runs_for ev = [oid]" and "json_plain (de_payload ev)"
  shows "\<exists>b w' od'. consume kafka_app 0 (Some (km_value (message_of ORDERS_TOPIC ev))) (w_bus w) = (Inr (), b) \<and>
     as_started (snd b) = as_started (snd (w_bus w)) @ [oid] \<and>
     run (SagaOrchestrator (server_client C) (PgOrderStore uuid_in jsonb) (KafkaEventBus K) E) oid (w\<lparr>w_bus := b\<rparr>) = (Inr od', w') \<and>
     or_status od' = CONFIRMED \<and> pg_orders (w_store w') = (pg_orders (w_store w))(oid \<mapsto> od') \<and>
     map ev_type (or_history od') = map ev_type (or_history od) @
       [''order.inventory_reserved'', ''order.payment_charged'', ''order.shipping_scheduled'', ''order.confirmed''] \<and>
     repr (env_now E (co_ticks w')) (debit L (or_lines od)) \<rho> (kv_of (co_redis w')) \<and>
     charges (w_payments w') = (charges (w_payments w))(oid \<mapsto> payment_ticket oid) \<and>
     shipments (w_shipping w') = (shipments (w_shipping w))(oid \<mapsto> shipment_ticket oid)"
proof -
  note laws = kafka_cluster.kafka_keeps_bus_laws [OF assms(2)]
  note sg = deployment_is_saga [OF assms(1) laws, of uuid_in jsonb]
  note sr = redis_server.server_is_stock_redis [OF assms(1)]
  let ?b = "(fst (w_bus w), start_run ev (snd (w_bus w)))"
  let ?w = "w\<lparr>w_bus := ?b\<rparr>"
  have taken: "consume kafka_app 0 (Some (km_value (message_of ORDERS_TOPIC ev))) (w_bus w) = (Inr (), ?b)"
    using assms(16-19) by (simp add: consume_def eachMessage_published [OF assms(21)] kafka_app_def split_beta)
  have t: "saga.tracks pg_orders (pg_ok uuid_in) (\<lambda>s. alive (kf_cluster (fst s))) E ?w oid od"
    unfolding saga.tracks_def [OF sg] using assms(5-8) by simp
  have h: "stock_redis.holding kv_of invar E ?w L \<rho> [] []"
    unfolding stock_redis.holding_def [OF sr] using assms(3,4) by simp
  have id: "or_id od = oid" using pg.id_law [OF assms(5,7)] by simp
  from saga.run_outcome [OF sg t h _ assms(9)] assms(10,11) obtain w' od' v rs where
    r: "run (SagaOrchestrator (server_client C) (PgOrderStore uuid_in jsonb) (KafkaEventBus K) E) oid ?w = (Inr od', w')"
      "verdict_ok L od (w_payments ?w) (w_shipping ?w) v"
      "saga.went pg_orders (pg_ok uuid_in) jsonb (KafkaEventBus K) (\<lambda>s. alive (kf_cluster (fst s))) E oid
         (verdict_steps oid rs v) ?w od w' od'"
      "stock_redis.holding kv_of invar E w' (if v = Done then debit L (or_lines od) else L) \<rho> [] []"
      "charges (w_payments w') = charges_after oid v (charges (w_payments ?w))"
      "shipments (w_shipping w') = shipments_after oid v (shipments (w_shipping ?w))"
    by auto
  have v: "v = Done" using r(2) assms(13-15) id by (cases v) (simp_all add: verdict_ok_def Let_def)
  have u: "untimed od' = fold (apply_step jsonb) (verdict_steps oid rs Done) (untimed od)"
    "pg_orders (w_store w') = (pg_orders (w_store w))(oid \<mapsto> od')"
    using r(3) v unfolding saga.went_def [OF sg] by simp_all
  have "or_status od' = CONFIRMED" using arg_cong [OF u(1), of or_status] by (simp add: confirmed_step_def)
  moreover have "map ev_type (or_history od') = map ev_type (or_history od) @
      [''order.inventory_reserved'', ''order.payment_charged'', ''order.shipping_scheduled'', ''order.confirmed'']"
    using arg_cong [OF u(1), of "\<lambda>x. map ev_type (or_history x)"]
    by (simp add: step_types untimed_types reserved_step_def charged_step_def scheduled_step_def confirmed_step_def
        del: fold.simps)
  ultimately show ?thesis
    using taken r(1,4-6) u(2) v assms(20) unfolding stock_redis.holding_def [OF sr]
    by (intro exI [of _ ?b] exI [of _ w'] exI [of _ od']) (simp add: charges_after_def shipments_after_def start_run_def fun_upd_def)
qed

text \<open>The order of the demonstration, cancelled by a sweep, and its message still on the topic.\<close>

definition demo_swept_pg :: pg_db where
  "demo_swept_pg = demo_pg\<lparr>db_orders := map (\<lambda>r. r\<lparr>ow_status := CANCELLED\<rparr>) (db_orders demo_pg)\<rparr>"

definition demo_kafka :: "(subscriber, kafka_message list, app_side) kafka_state" where
  "demo_kafka =
     (\<lparr>kf_cluster = [message_of ORDERS_TOPIC (created_event ''o1'')],
       kf_consumers = [\<lparr>kc_topic = ORDERS_TOPIC, kc_groupId = CONSUMER_GROUP, kc_handler = SagaRunner, kc_stage = Running_consumer\<rparr>],
       kf_localHistory = [], kf_crashed = False\<rparr>, \<lparr>as_started = [], as_clients = []\<rparr>)"

definition demo_kafka_world :: "(redis_mem, pg_db, (subscriber, kafka_message list, app_side) kafka_state) world" where
  "demo_kafka_world =
     \<lparr>co_redis = co_redis demo_world, co_known = [], co_metrics = init_metrics, co_ticks = 0, co_uuids = 0,
      w_payments = new_payment_gateway no_failures, w_shipping = new_shipping_provider no_failures,
      w_bus = demo_kafka, w_store = demo_swept_pg\<rparr>"

lemma demo_swept: "pg_ok Some demo_swept_pg" "pg_orders demo_swept_pg ''o1'' = Some (demo_order\<lparr>or_status := CANCELLED\<rparr>)"
  by (simp_all add: pg_ok_def demo_swept_pg_def demo_pg_def canonical_def pg_orders_def order_of_row_def toOrder_def
      pg_lines_def pg_events_def line_of_row_def demo_order_def)

theorem redelivered_order_is_executed_again_witness:
  "\<exists>b w' od'. consume kafka_app 0 (Some (km_value (message_of ORDERS_TOPIC (created_event ''o1'')))) demo_kafka = (Inr (), b) \<and>
     as_started (snd b) = [''o1''] \<and>
     run (SagaOrchestrator (server_client mem_commands) (PgOrderStore Some (\<lambda>j. j)) (KafkaEventBus list_cluster) demo_env) ''o1''
       (demo_kafka_world\<lparr>w_bus := b\<rparr>) = (Inr od', w') \<and> or_status od' = CONFIRMED"
proof -
  let ?w = demo_kafka_world and ?od = "demo_order\<lparr>or_status := CANCELLED\<rparr>"
  have "mem_ok (co_redis ?w)" "repr (env_now demo_env (co_ticks ?w)) demo_levels Map.empty (mem_kv (co_redis ?w))"
    using demo_shows_stock [of demo_order]
    by (simp_all add: shows_stock_def demo_kafka_world_def) (simp add: demo_world_with_def)
  note stock = this
  have parts: "w_store ?w = demo_swept_pg" "w_bus ?w = demo_kafka" "co_ticks ?w = 0" "co_uuids ?w = 0"
    "w_payments ?w = new_payment_gateway no_failures" "w_shipping ?w = new_shipping_provider no_failures"
    by (simp_all add: demo_kafka_world_def)
  have window: "env_now demo_env (co_ticks ?w + 4 * length (or_lines ?od) + 9) < env_now demo_env (co_ticks ?w) + 900000"
    by (simp add: demo_env_def parts demo_order_def)
  have full: "fulfillable demo_levels (or_lines ?od)"
    by (auto simp: fulfillable_iff demo_levels_def demo_order_def line_key_def demand_def)
  have injects: "\<not> injected (failPaymentForOrderIds (pg_failures (w_payments ?w))) ''o1''"
    "\<not> injected (failShippingForOrderIds (sp_failures (w_shipping ?w))) ''o1''"
    by (simp_all add: parts new_payment_gateway_def new_shipping_provider_def injected_def no_failures_def)
  have runs: "runs_for (created_event ''o1'') = [''o1'']" "json_plain (de_payload (created_event ''o1''))"
    by (simp_all add: runs_for_def created_event_def json_str_def jmap_ok_def)
  have done_: "\<forall>h \<in> set (or_history ?od). ev_at h \<le> env_now demo_env (co_ticks ?w)" "isTerminalStatus (or_status ?od)"
    by (simp_all add: demo_order_def isTerminalStatus_def TERMINAL_ORDER_STATUSES_def)
  have "\<exists>c. kf_consumers (fst (w_bus ?w)) = c # [] \<and> kc_handler c = SagaRunner \<and> kc_stage c = Running_consumer"
    "\<not> kf_crashed (fst (w_bus ?w))" by (simp_all add: parts demo_kafka_def)
  then obtain c where c: "kf_consumers (fst (w_bus ?w)) = c # []" "kc_handler c = SagaRunner" "kc_stage c = Running_consumer"
    "\<not> kf_crashed (fst (w_bus ?w))" by blast
  have store: "pg_ok Some (w_store ?w)" "pg_orders (w_store ?w) ''o1'' = Some ?od" unfolding parts by (rule demo_swept)+
  have ids: "fresh_ids demo_env (co_uuids ?w) (dom Map.empty)" using demo_env_ok(2) by simp
  from redelivered_order_is_executed_again [OF memsrv.redis_server_axioms listed.kafka_cluster_axioms stock store(1) TrueI store(2)
      done_(1) demo_env_ok(1) ids window done_(2) full injects c runs, of "\<lambda>j. j"]
  obtain b w' od' where "consume kafka_app 0 (Some (km_value (message_of ORDERS_TOPIC (created_event ''o1'')))) (w_bus ?w) = (Inr (), b)"
    "as_started (snd b) = as_started (snd (w_bus ?w)) @ [''o1'']"
    "run (SagaOrchestrator (server_client mem_commands) (PgOrderStore Some (\<lambda>j. j)) (KafkaEventBus list_cluster) demo_env) ''o1''
       (?w\<lparr>w_bus := b\<rparr>) = (Inr od', w')" "or_status od' = CONFIRMED" by blast
  then show ?thesis unfolding parts by (auto simp: demo_kafka_def)
qed

end
